(* ===== verification/Enclave_Prelude.thy ===== *)
theory Enclave_Prelude
  imports Main "HOL-Library.Word"
begin

text \<open>
  Shared vocabulary of the development: the machine integers of the Rust sources as words, the
  byte-order conversions of the standard library (\<open>to_le_bytes\<close>, \<open>from_le_bytes\<close>,
  \<open>to_be_bytes\<close>, \<open>from_be_bytes\<close>), checked and saturating arithmetic, fallible array
  conversion, and the generic lemmas on lists and words the components use.
  Two collections of rewrite rules are kept here: \<open>codec_simps\<close> (byte-order round trips and
  lengths of encodings) and \<open>slice_simps\<close> (taking encodings apart).
\<close>

named_theorems codec_simps
named_theorems slice_simps

unbundle bit_operations_syntax

type_synonym byte = "8 word"
type_synonym bytes = "byte list"
type_synonym u8 = "8 word"
type_synonym u16 = "16 word"
type_synonym u32 = "32 word"
type_synonym u64 = "64 word"

section \<open>Byte order\<close>

fun le_bytes :: "nat \<Rightarrow> nat \<Rightarrow> bytes" where
  "le_bytes 0 x = []"
| "le_bytes (Suc n) x = word_of_nat x # le_bytes n (x div 256)"

fun le_val :: "bytes \<Rightarrow> nat" where
  "le_val [] = 0"
| "le_val (b # bs) = unat b + 256 * le_val bs"

definition to_le_bytes :: "'a::len word \<Rightarrow> bytes" where
  "to_le_bytes w = le_bytes (LENGTH('a) div 8) (unat w)"

definition from_le_bytes :: "bytes \<Rightarrow> 'a::len word" where
  "from_le_bytes bs = word_of_nat (le_val bs)"

definition to_be_bytes :: "'a::len word \<Rightarrow> bytes" where
  "to_be_bytes w = rev (to_le_bytes w)"

definition from_be_bytes :: "bytes \<Rightarrow> 'a::len word" where
  "from_be_bytes bs = from_le_bytes (rev bs)"

text \<open>\<open><[u8; N]>::try_from(slice)\<close>: the conversion succeeds only on the exact length.\<close>

definition array_of :: "nat \<Rightarrow> 'a list \<Rightarrow> 'a list option" where
  "array_of n xs = (if length xs = n then Some xs else None)"

text \<open>\<open>checked_add\<close> of a machine word; \<open>None\<close> on overflow.\<close>

definition checked_add :: "'a::len word \<Rightarrow> 'a word \<Rightarrow> 'a word option" where
  "checked_add a b = (if unat a + unat b < 2 ^ LENGTH('a) then Some (a + b) else None)"

definition saturating_sub :: "'a::len word \<Rightarrow> 'a word \<Rightarrow> 'a word" where
  "saturating_sub a b = (if a < b then 0 else a - b)"

text \<open>\<open>is_power_of_two\<close>: the population count is one.\<close>

definition is_power_of_two :: "u64 \<Rightarrow> bool" where
  "is_power_of_two c \<longleftrightarrow> list_ex (\<lambda>k. c = push_bit k 1) [0..<64]"

text \<open>
  \<open>core::str::from_utf8\<close> accepts exactly the well-formed byte sequences of Unicode table 3-7; a
  \<open>&str\<close> is a byte list for which it holds.
\<close>

definition utf8_cont :: "byte \<Rightarrow> bool" where
  "utf8_cont b \<longleftrightarrow> 0x80 \<le> b \<and> b \<le> 0xBF"

fun utf8_valid :: "bytes \<Rightarrow> bool" where
  "utf8_valid [] \<longleftrightarrow> True"
| "utf8_valid (a # r) \<longleftrightarrow>
     (if a < 0x80 then utf8_valid r
      else if 0xC2 \<le> a \<and> a \<le> 0xDF then
        (case r of b # r' \<Rightarrow> utf8_cont b \<and> utf8_valid r' | _ \<Rightarrow> False)
      else if 0xE0 \<le> a \<and> a \<le> 0xEF then
        (case r of b # c # r' \<Rightarrow>
            (if a = 0xE0 then 0xA0 \<le> b \<and> b \<le> 0xBF
             else if a = 0xED then 0x80 \<le> b \<and> b \<le> 0x9F else utf8_cont b)
            \<and> utf8_cont c \<and> utf8_valid r'
         | _ \<Rightarrow> False)
      else if 0xF0 \<le> a \<and> a \<le> 0xF4 then
        (case r of b # c # d # r' \<Rightarrow>
            (if a = 0xF0 then 0x90 \<le> b \<and> b \<le> 0xBF
             else if a = 0xF4 then 0x80 \<le> b \<and> b \<le> 0x8F else utf8_cont b)
            \<and> utf8_cont c \<and> utf8_cont d \<and> utf8_valid r'
         | _ \<Rightarrow> False)
      else False)"

definition from_utf8 :: "bytes \<Rightarrow> bytes option" where
  "from_utf8 bs = (if utf8_valid bs then Some bs else None)"

text \<open>A source string literal as its bytes.\<close>

definition str_bytes :: "string \<Rightarrow> bytes" where
  "str_bytes s = map (\<lambda>c. of_char c) s"

section \<open>Lemmas on byte order\<close>

lemma length_le_bytes [simp, codec_simps]: "length (le_bytes n x) = n"
  by (induction n x rule: le_bytes.induct) simp_all

lemma unat_byte_of_nat: "unat (word_of_nat x :: byte) = x mod 256"
  by (simp add: unat_of_nat)

lemma unat_byte_less: "unat (b :: byte) < 256"
  using unsigned_less [of b] by simp

lemma le_val_le_bytes: "le_val (le_bytes n x) = x mod 256 ^ n"
proof (induction n x rule: le_bytes.induct)
  case (1 x)
  then show ?case by simp
next
  case (2 n x)
  then show ?case
    by (simp add: unat_byte_of_nat mod_mult2_eq)
qed

lemma le_val_less: "le_val bs < 256 ^ length bs"
proof (induction bs)
  case Nil
  then show ?case by simp
next
  case (Cons b bs)
  have "unat b < 256"
    by (rule unat_byte_less)
  moreover have "le_val bs + 1 \<le> 256 ^ length bs"
    using Cons.IH by simp
  then have "256 * (le_val bs + 1) \<le> 256 * 256 ^ length bs"
    by (rule mult_le_mono2)
  ultimately show ?case by simp
qed

lemma le_bytes_le_val: "length bs = n \<Longrightarrow> le_bytes n (le_val bs) = bs"
proof (induction bs arbitrary: n)
  case Nil
  then show ?case by simp
next
  case (Cons b bs)
  then obtain m where n: "n = Suc m" and m: "length bs = m"
    by auto
  have b: "unat b < 256"
    by (rule unat_byte_less)
  have "(unat b + 256 * le_val bs) div 256 = le_val bs"
    using b by simp
  moreover have "word_of_nat (unat b + 256 * le_val bs) = b"
    using b by (simp add: word_unat_eq_iff unat_byte_of_nat del: of_nat_add of_nat_mult)
  ultimately show ?case
    using Cons.IH [OF m] n by simp
qed

lemma length_to_le_bytes [simp, codec_simps]:
  "length (to_le_bytes (w :: 'a::len word)) = LENGTH('a) div 8"
  by (simp add: to_le_bytes_def)

lemma length_to_be_bytes [simp, codec_simps]:
  "length (to_be_bytes (w :: 'a::len word)) = LENGTH('a) div 8"
  by (simp add: to_be_bytes_def)

lemma from_to_le_bytes_dvd:
  assumes "8 dvd LENGTH('a::len)"
  shows "from_le_bytes (to_le_bytes (w :: 'a word)) = w"
proof -
  have "(256::nat) ^ (LENGTH('a) div 8) = (2 ^ 8) ^ (LENGTH('a) div 8)"
    by simp
  also have "\<dots> = 2 ^ LENGTH('a)"
    using assms by (metis dvd_mult_div_cancel power_mult)
  finally show ?thesis
    by (simp add: from_le_bytes_def to_le_bytes_def le_val_le_bytes)
qed

lemma from_to_le_bytes [simp, codec_simps]:
  "from_le_bytes (to_le_bytes (a :: u16)) = a"
  "from_le_bytes (to_le_bytes (b :: u32)) = b"
  "from_le_bytes (to_le_bytes (c :: u64)) = c"
  by (simp_all add: from_to_le_bytes_dvd)

lemma from_to_be_bytes [simp, codec_simps]:
  "from_be_bytes (to_be_bytes (b :: u32)) = b"
  "from_be_bytes (to_be_bytes (c :: u64)) = c"
  by (simp_all add: from_be_bytes_def to_be_bytes_def)

lemma to_from_le_bytes_dvd:
  assumes "8 * length bs = LENGTH('a::len)"
  shows "to_le_bytes (from_le_bytes bs :: 'a word) = bs"
proof -
  have "(256::nat) ^ length bs = (2 ^ 8) ^ length bs"
    by simp
  also have "\<dots> = 2 ^ (8 * length bs)"
    by (simp only: power_mult)
  finally have "(256::nat) ^ length bs = 2 ^ LENGTH('a)"
    using assms by simp
  then have "le_val bs mod 2 ^ LENGTH('a) = le_val bs"
    using le_val_less [of bs] by simp
  moreover have "LENGTH('a) div 8 = length bs"
    using assms by simp
  ultimately show ?thesis
    by (simp add: to_le_bytes_def from_le_bytes_def unat_of_nat le_bytes_le_val)
qed

lemma to_from_le_bytes [slice_simps]:
  "length bs = 2 \<Longrightarrow> to_le_bytes (from_le_bytes bs :: u16) = bs"
  "length bs = 4 \<Longrightarrow> to_le_bytes (from_le_bytes bs :: u32) = bs"
  "length bs = 8 \<Longrightarrow> to_le_bytes (from_le_bytes bs :: u64) = bs"
  by (rule to_from_le_bytes_dvd, simp)+

lemma to_from_be_bytes [slice_simps]:
  "length bs = 8 \<Longrightarrow> to_be_bytes (from_be_bytes bs :: u64) = bs"
  by (simp add: to_be_bytes_def from_be_bytes_def to_from_le_bytes)

lemma to_le_bytes_inject [simp]:
  "to_le_bytes (a :: u32) = to_le_bytes b \<longleftrightarrow> a = b"
  "to_le_bytes (c :: u64) = to_le_bytes d \<longleftrightarrow> c = d"
  by (metis from_to_le_bytes(2)) (metis from_to_le_bytes(3))

lemma to_be_bytes_inject [simp]: "to_be_bytes (c :: u64) = to_be_bytes d \<longleftrightarrow> c = d"
  by (metis from_to_be_bytes(2))

lemma from_le_bytes_unat4: "length bs = 4 \<Longrightarrow> unat (from_le_bytes bs :: u32) = le_val bs"
  using le_val_less [of bs] by (simp add: from_le_bytes_def unat_of_nat)

section \<open>Arithmetic on words\<close>

lemma checked_add_Some:
  "checked_add a b = Some c \<longleftrightarrow> unat a + unat b < 2 ^ LENGTH('a::len) \<and> c = a + (b :: 'a word)"
  by (auto simp: checked_add_def)

lemma unat_add_small:
  "unat a + unat b < 2 ^ LENGTH('a::len) \<Longrightarrow> unat (a + b :: 'a word) = unat a + unat b"
  by (simp add: unat_word_ariths)

lemma unat_sub_le: "b \<le> a \<Longrightarrow> unat (a - b :: 'a::len word) = unat a - unat b"
  by (simp add: unat_sub)

lemma unat_two_power: "k < LENGTH('a::len) \<Longrightarrow> unat (2 ^ k :: 'a word) = 2 ^ k"
proof -
  assume "k < LENGTH('a)"
  then have "(2::nat) ^ k < 2 ^ LENGTH('a)"
    by simp
  then have "unat (word_of_nat (2 ^ k) :: 'a word) = 2 ^ k"
    by (simp only: unat_of_nat mod_less)
  then show ?thesis by simp
qed

lemma is_power_of_two_unat: "is_power_of_two c \<longleftrightarrow> (\<exists>k < 64. unat c = 2 ^ k)"
proof -
  have "c = push_bit k 1 \<longleftrightarrow> unat c = 2 ^ k" if "k < 64" for k
  proof -
    have "unat (push_bit k 1 :: u64) = 2 ^ k"
      using that by (simp add: push_bit_eq_mult unat_two_power)
    then show ?thesis by (simp add: word_unat_eq_iff)
  qed
  then show ?thesis
    by (auto simp: is_power_of_two_def list_ex_iff Bex_def)
qed

lemma power_of_two_dvd:
  assumes "is_power_of_two c"
  shows "unat c dvd 2 ^ LENGTH(64)"
proof -
  obtain k where "k < 64" and "unat c = 2 ^ k"
    using assms by (auto simp: is_power_of_two_unat)
  moreover from \<open>k < 64\<close> have "(2::nat) ^ k dvd 2 ^ LENGTH(64)"
    by (intro le_imp_power_dvd) simp
  ultimately show ?thesis by (simp only:)
qed

text \<open>\<open>pos & (capacity - 1)\<close> is the remainder when the capacity is a power of two.\<close>

lemma mask_power_of_two:
  assumes "is_power_of_two c"
  shows "unat (pos AND (c - 1)) = unat pos mod unat c"
proof -
  obtain k where k: "k < 64" and c: "unat c = 2 ^ k"
    using assms by (auto simp: is_power_of_two_unat)
  have "c = 2 ^ k"
    using k c by (simp add: word_unat_eq_iff unat_two_power)
  then have "c - 1 = mask k"
    by (simp add: mask_eq_decr_exp)
  then have "pos AND (c - 1) = take_bit k pos"
    by (simp add: take_bit_eq_mask)
  then show ?thesis
    using c k by (simp add: take_bit_eq_mod unat_mod_distrib unat_two_power)
qed

lemma unat_add_mod:
  assumes "c dvd 2 ^ LENGTH('a::len)"
  shows "unat (a + word_of_nat n :: 'a word) mod c = (unat a + n) mod c"
proof -
  have "unat (a + word_of_nat n :: 'a word) = (unat a + n) mod 2 ^ LENGTH('a)"
    by (simp add: unat_word_ariths unat_of_nat mod_add_right_eq)
  then show ?thesis
    using assms by (simp add: mod_mod_cancel)
qed

section \<open>The interface of a strict wire format\<close>

text \<open>
  A strict format: every admissible value survives a round trip, and the decoder accepts nothing
  but the encodings of admissible values. Each codec of the development is an instance.
\<close>

locale strict_codec =
  fixes enc :: "'a \<Rightarrow> bytes" and dec :: "bytes \<Rightarrow> 'a option" and ok :: "'a \<Rightarrow> bool"
  assumes dec_enc: "ok x \<Longrightarrow> dec (enc x) = Some x"
    and enc_dec: "dec bs = Some x \<Longrightarrow> ok x \<and> enc x = bs"
begin

lemma dec_iff: "dec bs = Some x \<longleftrightarrow> ok x \<and> bs = enc x"
  using dec_enc enc_dec by blast

lemma enc_inject: "ok x \<Longrightarrow> ok y \<Longrightarrow> enc x = enc y \<longleftrightarrow> x = y"
  by (metis dec_enc option.inject)

lemma dec_unique: "dec bs = Some x \<Longrightarrow> dec bs' = Some x \<Longrightarrow> bs = bs'"
  using enc_dec by blast

end

end
