(* ===== verification/Spsc_Queue.thy ===== *)
theory Spsc_Queue
  imports Enclave_Prelude
begin

text \<open>
  The single-producer single-consumer ring buffer of \<open>common/src/queue.rs\<close>. The shared memory
  is one record: the two positions and the capacity word of the header, the ring bytes and the
  address of the first ring byte. Both endpoints hold a trusted snapshot of the capacity, which
  every operation takes as an argument, as the code takes it from \<open>self\<close>. Positions are 64-bit
  words and wrap around. The addresses of the caller's buffers are arguments too, because the
  copy routines choose their path by alignment.
\<close>

section \<open>Constants and geometry\<close>

definition MSG_HEADER_SIZE :: nat where "MSG_HEADER_SIZE = 4"

definition DEFAULT_QUEUE_CAPACITY :: u64 where "DEFAULT_QUEUE_CAPACITY = 2 * 1024 * 1024"

definition MIN_SHARED_QUEUE_CAPACITY :: u64 where "MIN_SHARED_QUEUE_CAPACITY = 4096"

definition MAX_SHARED_QUEUE_CAPACITY :: u64 where "MAX_SHARED_QUEUE_CAPACITY = 16 * 1024 * 1024"

definition MAX_RING_FRAME_BYTES :: u64 where "MAX_RING_FRAME_BYTES = 4 * 1024 * 1024"

definition shared_queue_capacity_valid :: "u64 \<Rightarrow> bool" where
  "shared_queue_capacity_valid capacity \<longleftrightarrow>
     is_power_of_two capacity
     \<and> MIN_SHARED_QUEUE_CAPACITY \<le> capacity
     \<and> capacity \<le> MAX_SHARED_QUEUE_CAPACITY"

definition max_message_bytes :: "u64 \<Rightarrow> nat" where
  "max_message_bytes capacity =
     (let frame = (if capacity < MAX_RING_FRAME_BYTES then capacity else MAX_RING_FRAME_BYTES)
      in unat (saturating_sub frame (word_of_nat MSG_HEADER_SIZE)))"

section \<open>Shared memory\<close>

record spsc_queue_header =
  hd_pos :: u64
  tl_pos :: u64
  hdr_capacity :: u64

record ring = spsc_queue_header +
  ring_buf :: bytes
  buf_addr :: nat

text \<open>\<open>SpscQueueHeader::new\<close> asserts its capacity; \<open>None\<close> is the failed assertion.\<close>

definition header_new :: "u64 \<Rightarrow> spsc_queue_header option" where
  "header_new capacity =
     (if \<not> is_power_of_two capacity then None
      else if \<not> MIN_SHARED_QUEUE_CAPACITY \<le> capacity then None
      else if \<not> shared_queue_capacity_valid capacity then None
      else Some \<lparr>hd_pos = 0, tl_pos = 0, hdr_capacity = capacity\<rparr>)"

definition header_mask :: "'a spsc_queue_header_scheme \<Rightarrow> u64 \<Rightarrow> nat" where
  "header_mask h pos = unat (pos AND (hdr_capacity h - 1))"

definition available_read :: "'a spsc_queue_header_scheme \<Rightarrow> u64" where
  "available_read h = hd_pos h - tl_pos h"

definition available_write :: "'a spsc_queue_header_scheme \<Rightarrow> u64" where
  "available_write h = hdr_capacity h - (hd_pos h - tl_pos h)"

definition from_raw_with_capacity :: "u64 \<Rightarrow> u64 option" where
  "from_raw_with_capacity capacity =
     (if shared_queue_capacity_valid capacity then Some capacity else None)"

definition from_raw :: "'a spsc_queue_header_scheme \<Rightarrow> u64 option" where
  "from_raw h = from_raw_with_capacity (hdr_capacity h)"

section \<open>Copies between trusted and shared memory\<close>

text \<open>
  A raw copy overwrites a segment in place. A copy that ran past the end of the ring would make
  the list longer, so a lemma that the length is kept is a statement of memory safety.
\<close>

definition mem_write :: "bytes \<Rightarrow> nat \<Rightarrow> bytes \<Rightarrow> bytes" where
  "mem_write mem start data = take start mem @ data @ drop (start + length data) mem"

definition mem_read :: "bytes \<Rightarrow> nat \<Rightarrow> nat \<Rightarrow> bytes" where
  "mem_read mem start n = take n (drop start mem)"

definition misaligned :: "nat \<Rightarrow> nat \<Rightarrow> bool" where
  "misaligned a b \<longleftrightarrow> (a XOR b) AND 7 \<noteq> 0"

definition COPY_CHUNK :: nat where "COPY_CHUNK = 4096"

text \<open>The staging buffer keeps the alignment of the shared side; its index is the chunk number.\<close>

function staged_to_shared :: "nat \<Rightarrow> nat \<Rightarrow> bytes \<Rightarrow> bytes \<Rightarrow> nat \<Rightarrow> bytes \<Rightarrow> bytes" where
  "staged_to_shared prefix index staging data start mem =
     (if data = [] then mem
      else
        let chunk = take COPY_CHUNK data;
            staging' = mem_write staging prefix chunk;
            source = mem_read staging' prefix (length chunk);
            mem' = mem_write mem (start + index * COPY_CHUNK) source
        in staged_to_shared prefix (Suc index) staging' (drop COPY_CHUNK data) start mem')"
  by pat_completeness auto
termination
  by (relation "measure (\<lambda>(_, _, _, data, _, _). length data)") (auto simp: COPY_CHUNK_def)

definition copy_to_shared :: "nat \<Rightarrow> nat \<Rightarrow> bytes \<Rightarrow> nat \<Rightarrow> bytes \<Rightarrow> bytes" where
  "copy_to_shared data_addr dst_addr data start mem =
     (if 64 \<le> length data \<and> misaligned data_addr dst_addr
      then staged_to_shared (dst_addr AND 7) 0 (replicate (COPY_CHUNK + 8) 0) data start mem
      else mem_write mem start data)"

function staged_from_shared :: "nat \<Rightarrow> nat \<Rightarrow> bytes \<Rightarrow> bytes \<Rightarrow> nat \<Rightarrow> nat \<Rightarrow> bytes" where
  "staged_from_shared prefix index staging mem start n =
     (if n = 0 then []
      else
        let len = min COPY_CHUNK n;
            staging' = mem_write staging prefix (mem_read mem (start + index * COPY_CHUNK) len)
        in mem_read staging' prefix len
           @ staged_from_shared prefix (Suc index) staging' mem start (n - len))"
  by pat_completeness auto
termination
  by (relation "measure (\<lambda>(_, _, _, _, _, n). n)") (auto simp: COPY_CHUNK_def)

definition copy_from_shared :: "nat \<Rightarrow> nat \<Rightarrow> bytes \<Rightarrow> nat \<Rightarrow> nat \<Rightarrow> bytes" where
  "copy_from_shared src_addr out_addr mem start n =
     (if 64 \<le> n \<and> misaligned src_addr out_addr
      then staged_from_shared (src_addr AND 7) 0 (replicate (COPY_CHUNK + 8) 0) mem start n
      else mem_read mem start n)"

section \<open>Producer\<close>

datatype send_refused = SendRefused

definition diagnostic_positions :: "ring \<Rightarrow> u64 \<times> u64" where
  "diagnostic_positions q = (hd_pos q, tl_pos q)"

definition message_len_valid :: "u64 \<Rightarrow> nat \<Rightarrow> bool" where
  "message_len_valid capacity n \<longleftrightarrow> n \<le> max_message_bytes capacity"

definition write_bytes :: "u64 \<Rightarrow> nat \<Rightarrow> u64 \<Rightarrow> bytes \<Rightarrow> ring \<Rightarrow> ring" where
  "write_bytes capacity data_addr offset data q =
     (let cap = unat capacity;
          start = unat (offset AND (capacity - 1));
          first = min (length data) (cap - start);
          b1 = copy_to_shared data_addr (buf_addr q + start) (take first data) start (ring_buf q);
          b2 = (if first < length data
                then copy_to_shared (data_addr + first) (buf_addr q) (drop first data) 0 b1
                else b1)
      in q\<lparr>ring_buf := b2\<rparr>)"

definition try_send :: "u64 \<Rightarrow> nat \<Rightarrow> nat \<Rightarrow> bytes \<Rightarrow> ring \<Rightarrow> (send_refused + unit) \<times> ring" where
  "try_send capacity len_addr msg_addr msg q =
     (if \<not> message_len_valid capacity (length msg) then (Inl SendRefused, q)
      else
        let total = word_of_nat MSG_HEADER_SIZE + word_of_nat (length msg);
            h = hd_pos q;
            t = tl_pos q;
            used = h - t
        in if capacity < used then (Inl SendRefused, q)
           else if capacity - used < total then (Inl SendRefused, q)
           else
             let len_bytes = to_le_bytes (word_of_nat (length msg) :: u32);
                 q1 = write_bytes capacity len_addr h len_bytes q;
                 q2 = write_bytes capacity msg_addr (h + word_of_nat MSG_HEADER_SIZE) msg q1
             in (Inr (), q2\<lparr>hd_pos := h + total\<rparr>))"

text \<open>
  \<open>send_bounded\<close> spins. \<open>env i\<close> is what the other side does to the shared memory between the
  attempts \<open>i\<close> and \<open>i + 1\<close>; \<open>None\<close> means the fuel ran out before the loop returned.
\<close>

fun send_loop ::
  "nat \<Rightarrow> (nat \<Rightarrow> ring \<Rightarrow> ring) \<Rightarrow> nat \<Rightarrow> u64 \<Rightarrow> nat \<Rightarrow> nat \<Rightarrow> bytes \<Rightarrow> ring
     \<Rightarrow> ((send_refused + unit) \<times> ring) option" where
  "send_loop 0 env i capacity la ma msg q = None"
| "send_loop (Suc fuel) env i capacity la ma msg q =
     (case try_send capacity la ma msg q of
        (Inr _, q') \<Rightarrow> Some (Inr (), q')
      | (Inl _, q') \<Rightarrow> send_loop fuel env (Suc i) capacity la ma msg (env i q'))"

definition send_bounded ::
  "nat \<Rightarrow> (nat \<Rightarrow> ring \<Rightarrow> ring) \<Rightarrow> u64 \<Rightarrow> nat \<Rightarrow> nat \<Rightarrow> bytes \<Rightarrow> ring
     \<Rightarrow> ((send_refused + unit) \<times> ring) option" where
  "send_bounded fuel env capacity la ma msg q =
     (if \<not> message_len_valid capacity (length msg) then Some (Inl SendRefused, q)
      else send_loop fuel env 0 capacity la ma msg q)"

section \<open>Consumer\<close>

datatype 'e receive_owner_error = Owner 'e | TooShort

definition read_bytes :: "u64 \<Rightarrow> nat \<Rightarrow> u64 \<Rightarrow> nat \<Rightarrow> ring \<Rightarrow> bytes" where
  "read_bytes capacity out_addr offset n q =
     (let cap = unat capacity;
          start = unat (offset AND (capacity - 1));
          stop = start + n
      in if stop \<le> cap
         then copy_from_shared (buf_addr q + start) out_addr (ring_buf q) start n
         else let first_chunk = cap - start
              in copy_from_shared (buf_addr q + start) out_addr (ring_buf q) start first_chunk
                 @ copy_from_shared (buf_addr q) (out_addr + first_chunk) (ring_buf q) 0
                     (n - first_chunk))"

definition readable_frame :: "u64 \<Rightarrow> nat \<Rightarrow> ring \<Rightarrow> (u64 \<times> nat) option \<times> ring" where
  "readable_frame capacity len_addr q =
     (let h = hd_pos q;
          t = tl_pos q;
          avail = h - t
      in if capacity < avail then (None, q)
         else if avail < word_of_nat MSG_HEADER_SIZE then (None, q)
         else
           let msg_len = ucast (from_le_bytes (read_bytes capacity len_addr t MSG_HEADER_SIZE q) :: u32)
                 :: u64
           in if word_of_nat (max_message_bytes capacity) < msg_len
              then (None, q\<lparr>tl_pos := t + word_of_nat MSG_HEADER_SIZE\<rparr>)
              else
                let total = word_of_nat MSG_HEADER_SIZE + msg_len
                in if capacity < total \<or> avail < total then (None, q)
                   else (Some (t, unat msg_len), q))"

definition consume_frame :: "u64 \<Rightarrow> nat \<Rightarrow> ring \<Rightarrow> ring" where
  "consume_frame t n q = q\<lparr>tl_pos := t + word_of_nat MSG_HEADER_SIZE + word_of_nat n\<rparr>"

definition try_recv :: "u64 \<Rightarrow> nat \<Rightarrow> nat \<Rightarrow> ring \<Rightarrow> bytes option \<times> ring" where
  "try_recv capacity len_addr out_addr q =
     (case readable_frame capacity len_addr q of
        (None, q') \<Rightarrow> (None, q')
      | (Some (t, n), q') \<Rightarrow>
          (Some (read_bytes capacity out_addr (t + word_of_nat MSG_HEADER_SIZE) n q'),
           consume_frame t n q'))"

text \<open>The caller's buffer is returned with its first bytes replaced by the payload.\<close>

definition try_recv_into ::
  "u64 \<Rightarrow> nat \<Rightarrow> nat \<Rightarrow> bytes \<Rightarrow> ring \<Rightarrow> (nat + nat option) \<times> bytes \<times> ring" where
  "try_recv_into capacity len_addr out_addr output q =
     (case readable_frame capacity len_addr q of
        (None, q') \<Rightarrow> (Inr None, output, q')
      | (Some (t, n), q') \<Rightarrow>
          if length output < n then (Inl n, output, q')
          else (Inr (Some n),
                mem_write output 0
                  (read_bytes capacity out_addr (t + word_of_nat MSG_HEADER_SIZE) n q'),
                consume_frame t n q'))"

text \<open>
  \<open>owner\<close> decides, from the length and the copied prefix, on the buffer that takes the frame. Its
  \<open>Inr None\<close> discards the frame and its \<open>Inl\<close> refuses it; the frame is consumed in every case.
\<close>

definition try_recv_with ::
  "nat \<Rightarrow> u64 \<Rightarrow> nat \<Rightarrow> nat \<Rightarrow> nat \<Rightarrow> (nat \<Rightarrow> bytes \<Rightarrow> 'e + bytes option) \<Rightarrow> ring
     \<Rightarrow> ('e receive_owner_error + bytes option) \<times> ring" where
  "try_recv_with PREFIX capacity len_addr prefix_addr out_addr owner q =
     (case readable_frame capacity len_addr q of
        (None, q') \<Rightarrow> (Inr None, q')
      | (Some (t, n), q') \<Rightarrow>
          let payload = t + word_of_nat MSG_HEADER_SIZE;
              copied = min n PREFIX;
              prefix = read_bytes capacity prefix_addr payload copied q';
              result =
                (case owner n prefix of
                   Inl e \<Rightarrow> Inl (Owner e)
                 | Inr None \<Rightarrow> Inr None
                 | Inr (Some buffer) \<Rightarrow>
                     if length buffer < n then Inl TooShort
                     else Inr (Some (mem_write buffer 0
                                 (read_bytes capacity out_addr payload n q'))))
          in (result, consume_frame t n q'))"

fun recv_loop ::
  "nat \<Rightarrow> (nat \<Rightarrow> ring \<Rightarrow> ring) \<Rightarrow> nat \<Rightarrow> u64 \<Rightarrow> nat \<Rightarrow> nat \<Rightarrow> ring \<Rightarrow> (bytes \<times> ring) option" where
  "recv_loop 0 env i capacity la oa q = None"
| "recv_loop (Suc fuel) env i capacity la oa q =
     (case try_recv capacity la oa q of
        (Some msg, q') \<Rightarrow> Some (msg, q')
      | (None, q') \<Rightarrow> recv_loop fuel env (Suc i) capacity la oa (env i q'))"

definition recv ::
  "nat \<Rightarrow> (nat \<Rightarrow> ring \<Rightarrow> ring) \<Rightarrow> u64 \<Rightarrow> nat \<Rightarrow> nat \<Rightarrow> ring \<Rightarrow> (bytes \<times> ring) option" where
  "recv fuel env capacity la oa q = recv_loop fuel env 0 capacity la oa q"

definition queue_is_empty :: "ring \<Rightarrow> bool" where
  "queue_is_empty q \<longleftrightarrow> hd_pos q - tl_pos q < word_of_nat MSG_HEADER_SIZE"

record shared_channel_ptrs =
  enc_to_host :: ring
  host_to_enc :: ring
  chan_capacity :: u64

section \<open>Copies\<close>


lemma length_mem_write [simp]:
  "start + length data \<le> length mem \<Longrightarrow> length (mem_write mem start data) = length mem"
  by (simp add: mem_write_def)

lemma length_mem_read [simp]:
  "start + n \<le> length mem \<Longrightarrow> length (mem_read mem start n) = n"
  by (simp add: mem_read_def)

lemma mem_read_write:
  "start + length data \<le> length mem \<Longrightarrow>
     mem_read (mem_write mem start data) start (length data) = data"
  by (simp add: mem_read_def mem_write_def)

lemma mem_write_append:
  "start + length a + length b \<le> length mem \<Longrightarrow>
     mem_write (mem_write mem start a) (start + length a) b = mem_write mem start (a @ b)"
  by (simp add: mem_write_def ac_simps)

lemma mem_read_append:
  "mem_read mem start m @ mem_read mem (start + m) n = mem_read mem start (m + n)"
  by (simp add: mem_read_def take_add ac_simps)

lemma mem_write_Nil [simp]: "mem_write mem start [] = mem"
  by (simp add: mem_write_def)

declare staged_to_shared.simps [simp del] staged_from_shared.simps [simp del]

lemma staged_to_shared_eq:
  assumes "prefix < 8" and "length staging = COPY_CHUNK + 8"
    and "start + index * COPY_CHUNK + length data \<le> length mem"
  shows "staged_to_shared prefix index staging data start mem =
           mem_write mem (start + index * COPY_CHUNK) data"
  using assms
proof (induction prefix index staging data start mem rule: staged_to_shared.induct)
  case (1 prefix index staging data start mem)
  show ?case
  proof (cases "data = []")
    case True
    then show ?thesis by (simp add: staged_to_shared.simps)
  next
    case False
    define chunk where "chunk = take COPY_CHUNK data"
    have fits: "prefix + length chunk \<le> length staging"
      using 1(2,3) by (simp add: chunk_def)
    have src: "mem_read (mem_write staging prefix chunk) prefix (length chunk) = chunk"
      using fits by (rule mem_read_write)
    let ?mem = "mem_write mem (start + index * COPY_CHUNK) chunk"
    have bound: "start + index * COPY_CHUNK + length chunk \<le> length mem"
      using 1(4) by (simp add: chunk_def)
    have rest: "start + Suc index * COPY_CHUNK + length (drop COPY_CHUNK data) \<le> length ?mem
        \<or> drop COPY_CHUNK data = []"
      using 1(4) bound by auto
    have "staged_to_shared prefix index staging data start mem =
        staged_to_shared prefix (Suc index) (mem_write staging prefix chunk)
          (drop COPY_CHUNK data) start ?mem"
      using False src by (subst staged_to_shared.simps) (simp add: Let_def chunk_def)
    also have "\<dots> = mem_write ?mem (start + Suc index * COPY_CHUNK) (drop COPY_CHUNK data)"
    proof (cases "drop COPY_CHUNK data = []")
      case True
      then show ?thesis by (simp add: staged_to_shared.simps)
    next
      case dne: False
      have "staged_to_shared prefix (Suc index) (mem_write staging prefix chunk)
          (drop COPY_CHUNK data) start ?mem =
          mem_write ?mem (start + Suc index * COPY_CHUNK) (drop COPY_CHUNK data)"
        by (rule 1(1) [OF False refl refl refl, folded chunk_def, unfolded src])
          (use 1 fits rest dne in auto)
      then show ?thesis .
    qed
    also have "\<dots> = mem_write mem (start + index * COPY_CHUNK) data"
    proof (cases "length data \<le> COPY_CHUNK")
      case True
      then show ?thesis by (simp add: chunk_def)
    next
      case False
      then have "length chunk = COPY_CHUNK" by (simp add: chunk_def)
      moreover have "start + index * COPY_CHUNK + length chunk + length (drop COPY_CHUNK data) \<le> length mem"
        using 1(4) False by (simp add: chunk_def)
      ultimately show ?thesis
        using mem_write_append [of "start + index * COPY_CHUNK" chunk "drop COPY_CHUNK data" mem]
        by (simp add: chunk_def ac_simps)
    qed
    finally show ?thesis .
  qed
qed

lemma staged_from_shared_eq:
  assumes "prefix < 8" and "length staging = COPY_CHUNK + 8"
    and "start + index * COPY_CHUNK + n \<le> length mem"
  shows "staged_from_shared prefix index staging mem start n =
           mem_read mem (start + index * COPY_CHUNK) n"
  using assms
proof (induction prefix index staging mem start n rule: staged_from_shared.induct)
  case (1 prefix index staging mem start n)
  show ?case
  proof (cases "n = 0")
    case True
    then show ?thesis by (simp add: staged_from_shared.simps mem_read_def)
  next
    case False
    define len where "len = min COPY_CHUNK n"
    define chunk where "chunk = mem_read mem (start + index * COPY_CHUNK) len"
    have len_chunk: "length chunk = len"
      using 1(4) by (simp add: chunk_def len_def)
    have fits: "prefix + length chunk \<le> length staging"
      using 1(2,3) len_chunk by (simp add: len_def)
    have src: "mem_read (mem_write staging prefix chunk) prefix len = chunk"
      using mem_read_write [OF fits] len_chunk by simp
    have "staged_from_shared prefix index staging mem start n =
        chunk @ staged_from_shared prefix (Suc index) (mem_write staging prefix chunk) mem start (n - len)"
      using False src by (subst staged_from_shared.simps) (simp add: Let_def chunk_def len_def)
    also have "staged_from_shared prefix (Suc index) (mem_write staging prefix chunk) mem start (n - len)
        = mem_read mem (start + index * COPY_CHUNK + len) (n - len)"
    proof (cases "n \<le> COPY_CHUNK")
      case True
      then show ?thesis by (simp add: len_def staged_from_shared.simps mem_read_def)
    next
      case big: False
      then have "len = COPY_CHUNK" by (simp add: len_def)
      then show ?thesis
        using 1(1) [OF False refl refl, folded len_def chunk_def] 1(2-4) fits big
        by (simp add: chunk_def ac_simps)
    qed
    also have "chunk @ mem_read mem (start + index * COPY_CHUNK + len) (n - len) =
        mem_read mem (start + index * COPY_CHUNK) n"
      by (simp add: chunk_def mem_read_append) (simp add: len_def)
    finally show ?thesis .
  qed
qed

lemma and7_less: "(a::nat) AND 7 < 8"
proof -
  have "a AND 7 = a mod 8"
    using take_bit_eq_mask [of 3 a] by (simp add: take_bit_eq_mod mask_eq_exp_minus_1)
  then show ?thesis by simp
qed

lemma copy_to_shared_eq [simp]:
  "start + length data \<le> length mem \<Longrightarrow>
     copy_to_shared data_addr dst_addr data start mem = mem_write mem start data"
  by (simp add: copy_to_shared_def staged_to_shared_eq and7_less)

lemma copy_from_shared_eq [simp]:
  "start + n \<le> length mem \<Longrightarrow>
     copy_from_shared src_addr out_addr mem start n = mem_read mem start n"
  by (simp add: copy_from_shared_def staged_from_shared_eq and7_less)


section \<open>The ring as a rotated list\<close>

lemma valid_capacity_bounds:
  assumes "shared_queue_capacity_valid c"
  shows "4096 \<le> unat c" and "unat c \<le> 16777216"
  using assms
  by (simp_all add: shared_queue_capacity_valid_def MIN_SHARED_QUEUE_CAPACITY_def
      MAX_SHARED_QUEUE_CAPACITY_def word_le_nat_alt)

lemma max_message_bytes_bounds:
  assumes "shared_queue_capacity_valid c"
  shows "max_message_bytes c + 4 \<le> unat c" and "max_message_bytes c < 4194304"
proof -
  note b = valid_capacity_bounds [OF assms]
  have w: "unat (4 * 1024 * 1024 :: u64) = 4194304" by simp
  show "max_message_bytes c + 4 \<le> unat c" and "max_message_bytes c < 4194304"
    using b
    by (auto simp: max_message_bytes_def Let_def saturating_sub_def MAX_RING_FRAME_BYTES_def
        MSG_HEADER_SIZE_def word_less_nat_alt unat_sub_if')
qed

definition ring_wf :: "u64 \<Rightarrow> ring \<Rightarrow> bool" where
  "ring_wf capacity q \<longleftrightarrow>
     shared_queue_capacity_valid capacity \<and> length (ring_buf q) = unat capacity"

text \<open>The whole ring read from a position on, and the readable part of it.\<close>

definition ring_from :: "u64 \<Rightarrow> ring \<Rightarrow> bytes" where
  "ring_from pos q = rotate (unat pos) (ring_buf q)"

lemma length_ring_from [simp]: "length (ring_from pos q) = length (ring_buf q)"
  by (simp add: ring_from_def)

lemma mask_less:
  assumes "ring_wf c q"
  shows "unat (pos AND (c - 1)) < unat c" and "unat (pos AND (c - 1)) = unat pos mod unat c"
proof -
  have "is_power_of_two c"
    using assms by (simp add: ring_wf_def shared_queue_capacity_valid_def)
  then show eq: "unat (pos AND (c - 1)) = unat pos mod unat c"
    by (rule mask_power_of_two)
  show "unat (pos AND (c - 1)) < unat c"
    using assms valid_capacity_bounds [of c] by (simp add: eq ring_wf_def)
qed

lemma ring_from_add:
  assumes wf: "ring_wf c q"
  shows "ring_from (pos + word_of_nat n) q = rotate n (ring_from pos q)"
proof -
  have "unat c dvd 2 ^ LENGTH(64)"
    using wf by (intro power_of_two_dvd) (simp add: ring_wf_def shared_queue_capacity_valid_def)
  then have "unat (pos + word_of_nat n) mod unat c = (unat pos + n) mod unat c"
    by (rule unat_add_mod)
  then show ?thesis
    using wf unfolding ring_from_def ring_wf_def rotate_rotate
    by (metis rotate_conv_mod add.commute)
qed

lemma ring_buf_write_bytes:
  assumes wf: "ring_wf c q" and len: "length data \<le> unat c"
  shows "rotate (unat pos) (ring_buf (write_bytes c a pos data q)) =
           data @ drop (length data) (rotate (unat pos) (ring_buf q))"
    and "length (ring_buf (write_bytes c a pos data q)) = unat c"
proof -
  define s where "s = unat (pos AND (c - 1))"
  note m = mask_less [OF wf, of pos, folded s_def]
  have lb: "length (ring_buf q) = unat c" using wf by (simp add: ring_wf_def)
  have rot: "rotate (unat pos) xs = drop s xs @ take s xs" if "length xs = unat c" for xs :: bytes
    using that m(2) by (simp add: rotate_drop_take)
  have buf: "ring_buf (write_bytes c a pos data q) =
      (if length data \<le> unat c - s then mem_write (ring_buf q) s data
       else mem_write (mem_write (ring_buf q) s (take (unat c - s) data)) 0 (drop (unat c - s) data))"
    using m(1) len lb by (auto simp: write_bytes_def Let_def s_def [symmetric] min_def)
  show l: "length (ring_buf (write_bytes c a pos data q)) = unat c"
    unfolding buf using m(1) len lb by auto
  show "rotate (unat pos) (ring_buf (write_bytes c a pos data q)) =
           data @ drop (length data) (rotate (unat pos) (ring_buf q))"
    unfolding rot [OF l] rot [OF lb] unfolding buf
    using m(1) len lb by (auto simp: mem_write_def min_def add.commute)
qed

lemma ring_from_write:
  assumes wf: "ring_wf c q" and k: "k + length data \<le> unat c"
  shows "ring_from pos (write_bytes c a (pos + word_of_nat k) data q) =
           take k (ring_from pos q) @ data @ drop (k + length data) (ring_from pos q)"
    and "ring_wf c (write_bytes c a (pos + word_of_nat k) data q)"
proof -
  let ?q = "write_bytes c a (pos + word_of_nat k) data q"
  have len: "length data \<le> unat c" using k by simp
  show wf': "ring_wf c ?q"
    using wf ring_buf_write_bytes(2) [OF wf len] by (simp add: ring_wf_def)
  have lb: "length (ring_buf q) = unat c" and lb': "length (ring_buf ?q) = unat c"
    using wf wf' by (simp_all add: ring_wf_def)
  have "rotate k (ring_from pos ?q) = data @ drop (length data) (rotate k (ring_from pos q))"
    using ring_buf_write_bytes(1) [OF wf len, of "pos + word_of_nat k" a]
    by (simp add: ring_from_def [symmetric] ring_from_add [OF wf] ring_from_add [OF wf'])
  moreover have "rotate k xs = drop k xs @ take k xs" if "length xs = unat c" for xs :: bytes
    using that k by (cases "k = unat c") (simp_all add: rotate_drop_take)
  ultimately have "drop k (ring_from pos ?q) @ take k (ring_from pos ?q) =
      data @ drop (k + length data) (ring_from pos q) @ take k (ring_from pos q)"
    using k lb lb' by (simp add: ac_simps)
  then have "drop k (ring_from pos ?q) = data @ drop (k + length data) (ring_from pos q)"
    and "take k (ring_from pos ?q) = take k (ring_from pos q)"
    using k lb lb' by (simp_all add: append_eq_append_conv flip: append_assoc)
  then show "ring_from pos ?q =
      take k (ring_from pos q) @ data @ drop (k + length data) (ring_from pos q)"
    by (metis append_take_drop_id)
qed

lemma read_bytes_ring_from:
  assumes wf: "ring_wf c q" and k: "k + n \<le> unat c"
  shows "read_bytes c a (pos + word_of_nat k) n q = take n (drop k (ring_from pos q))"
proof -
  define p where "p = pos + word_of_nat k"
  define s where "s = unat (p AND (c - 1))"
  note m = mask_less [OF wf, of p, folded s_def]
  have lb: "length (ring_buf q) = unat c" using wf by (simp add: ring_wf_def)
  have "read_bytes c a p n q = take n (drop s (ring_buf q) @ take s (ring_buf q))"
    using m(1) k lb
    by (auto simp: read_bytes_def Let_def s_def [symmetric] mem_read_def min_def)
  also have "drop s (ring_buf q) @ take s (ring_buf q) = ring_from p q"
    using m(2) lb by (simp add: ring_from_def rotate_drop_take)
  also have "\<dots> = rotate k (ring_from pos q)"
    using ring_from_add [OF wf] by (simp add: p_def)
  also have "take n \<dots> = take n (drop k (ring_from pos q))"
    using k lb by (cases "k = unat c") (simp_all add: rotate_drop_take)
  finally show ?thesis by (simp add: p_def)
qed


section \<open>Refinement of a bounded list queue\<close>

definition frame :: "bytes \<Rightarrow> bytes" where
  "frame msg = to_le_bytes (word_of_nat (length msg) :: u32) @ msg"

definition used_bytes :: "ring \<Rightarrow> nat" where
  "used_bytes q = unat (hd_pos q - tl_pos q)"

text \<open>\<open>queue_rep c q msgs\<close>: the ring holds exactly the frames of \<open>msgs\<close>, oldest first.\<close>

definition queue_rep :: "u64 \<Rightarrow> ring \<Rightarrow> bytes list \<Rightarrow> bool" where
  "queue_rep capacity q msgs \<longleftrightarrow>
     ring_wf capacity q \<and> used_bytes q \<le> unat capacity
     \<and> take (used_bytes q) (ring_from (tl_pos q) q) = concat (map frame msgs)
     \<and> (\<forall>m \<in> set msgs. length m \<le> max_message_bytes capacity)"

lemma length_frame [simp]: "length (frame msg) = 4 + length msg"
  by (simp add: frame_def)

lemma queue_rep_length:
  "queue_rep c q msgs \<Longrightarrow> length (concat (map frame msgs)) = used_bytes q"
  by (metis queue_rep_def ring_wf_def length_ring_from length_take min.absorb2)

lemma hd_pos_used: "hd_pos q = tl_pos q + word_of_nat (used_bytes q)"
  by (simp add: used_bytes_def)

lemma write_bytes_pos [simp]:
  "hd_pos (write_bytes c a p d q) = hd_pos q" "tl_pos (write_bytes c a p d q) = tl_pos q"
  by (simp_all add: write_bytes_def Let_def)

definition write_frame :: "u64 \<Rightarrow> nat \<Rightarrow> nat \<Rightarrow> bytes \<Rightarrow> ring \<Rightarrow> ring" where
  "write_frame c la ma msg q =
     write_bytes c ma (hd_pos q + word_of_nat MSG_HEADER_SIZE) msg
       (write_bytes c la (hd_pos q) (to_le_bytes (word_of_nat (length msg) :: u32)) q)"

lemma write_frame_pos [simp]:
  "hd_pos (write_frame c la ma m q) = hd_pos q" "tl_pos (write_frame c la ma m q) = tl_pos q"
  by (simp_all add: write_frame_def)

lemma ring_pos_update [simp]:
  "ring_from p (q\<lparr>hd_pos := x\<rparr>) = ring_from p q" "ring_wf c (q\<lparr>hd_pos := x\<rparr>) = ring_wf c q"
  "ring_from p (q\<lparr>tl_pos := y\<rparr>) = ring_from p q" "ring_wf c (q\<lparr>tl_pos := y\<rparr>) = ring_wf c q"
  by (simp_all add: ring_from_def ring_wf_def)

lemma send_fits_unat:
  assumes valid: "shared_queue_capacity_valid c" and len: "length msg \<le> max_message_bytes c"
  shows "unat (word_of_nat MSG_HEADER_SIZE + word_of_nat (length msg) :: u64) = 4 + length msg"
proof -
  have "length msg < 4194304"
    using len max_message_bytes_bounds(2) [OF valid] by simp
  then show ?thesis
    by (simp add: MSG_HEADER_SIZE_def unat_word_ariths unat_of_nat)
qed

text \<open>The guard of \<open>try_send\<close> read as arithmetic on lengths.\<close>

definition send_fits :: "u64 \<Rightarrow> bytes \<Rightarrow> ring \<Rightarrow> bool" where
  "send_fits c msg q \<longleftrightarrow>
     length msg \<le> max_message_bytes c \<and> used_bytes q + 4 + length msg \<le> unat c"

lemma try_send_alt:
  assumes valid: "shared_queue_capacity_valid c"
  shows "try_send c la ma msg q =
    (if send_fits c msg q
     then (Inr (), (write_frame c la ma msg q)\<lparr>hd_pos := hd_pos q + word_of_nat (4 + length msg)\<rparr>)
     else (Inl SendRefused, q))"
proof (cases "length msg \<le> max_message_bytes c")
  case False
  then show ?thesis by (simp add: try_send_def message_len_valid_def send_fits_def)
next
  case len: True
  let ?total = "word_of_nat MSG_HEADER_SIZE + word_of_nat (length msg) :: u64"
  let ?used = "hd_pos q - tl_pos q"
  have "(c < ?used \<or> c - ?used < ?total) = (\<not> used_bytes q + 4 + length msg \<le> unat c)"
    using send_fits_unat [OF valid len]
    by (auto simp: used_bytes_def word_less_nat_alt unat_sub_if')
  then show ?thesis
    using len
    by (auto simp: try_send_def message_len_valid_def send_fits_def Let_def write_frame_def
        MSG_HEADER_SIZE_def split: if_splits)
qed

lemma ring_from_write_frame:
  assumes wf: "ring_wf c q" and fits: "used_bytes q + 4 + length msg \<le> unat c"
  shows "ring_from (tl_pos q) (write_frame c la ma msg q) =
           take (used_bytes q) (ring_from (tl_pos q) q) @ frame msg
           @ drop (used_bytes q + 4 + length msg) (ring_from (tl_pos q) q)"
    and "ring_wf c (write_frame c la ma msg q)"
proof -
  let ?l = "to_le_bytes (word_of_nat (length msg) :: u32)"
  let ?q1 = "write_bytes c la (tl_pos q + word_of_nat (used_bytes q)) ?l q"
  have k1: "used_bytes q + length ?l \<le> unat c" using fits by simp
  note w1 = ring_from_write [OF wf k1, where pos = "tl_pos q" and a = la]
  have k2: "(used_bytes q + 4) + length msg \<le> unat c" using fits by simp
  note w2 = ring_from_write [OF w1(2) k2, where pos = "tl_pos q" and a = ma]
  have eq: "write_frame c la ma msg q =
      write_bytes c ma (tl_pos q + word_of_nat (used_bytes q + 4)) msg ?q1"
    by (simp add: write_frame_def MSG_HEADER_SIZE_def hd_pos_used [of q] add.assoc)
  show "ring_wf c (write_frame c la ma msg q)"
    unfolding eq by (rule w2(2))
  have lb: "length (ring_buf q) = unat c" using wf by (simp add: ring_wf_def)
  show "ring_from (tl_pos q) (write_frame c la ma msg q) =
           take (used_bytes q) (ring_from (tl_pos q) q) @ frame msg
           @ drop (used_bytes q + 4 + length msg) (ring_from (tl_pos q) q)"
    unfolding eq w2(1) w1(1) using fits lb by (simp add: frame_def ac_simps)
qed

lemma try_send_rep:
  assumes rep: "queue_rep c q msgs" and fits: "send_fits c msg q"
  shows "queue_rep c (snd (try_send c la ma msg q)) (msgs @ [msg])"
proof -
  have wf: "ring_wf c q" and valid: "shared_queue_capacity_valid c"
    using rep by (auto simp: queue_rep_def ring_wf_def)
  let ?q = "(write_frame c la ma msg q)\<lparr>hd_pos := hd_pos q + word_of_nat (4 + length msg)\<rparr>"
  have f: "used_bytes q + 4 + length msg \<le> unat c" using fits by (simp add: send_fits_def)
  note w = ring_from_write_frame [OF wf f, of la ma]
  have tl: "tl_pos ?q = tl_pos q" by (simp add: write_frame_def)
  have "unat (word_of_nat (used_bytes q + (4 + length msg)) :: u64) = used_bytes q + 4 + length msg"
    using f valid_capacity_bounds(2) [OF valid] by (simp only: unat_of_nat) (simp add: mod_less)
  moreover have "hd_pos ?q - tl_pos ?q = word_of_nat (used_bytes q + (4 + length msg))"
    by (simp add: tl hd_pos_used [of q])
  ultimately have used: "used_bytes ?q = used_bytes q + 4 + length msg"
    by (simp only: used_bytes_def [of ?q])
  have lb: "length (ring_buf q) = unat c" using wf by (simp add: ring_wf_def)
  have "queue_rep c ?q (msgs @ [msg])"
    unfolding queue_rep_def used tl using rep fits f w lb queue_rep_length [OF rep]
    by (simp add: queue_rep_def send_fits_def)
  then show ?thesis
    using fits by (simp only: try_send_alt [OF valid] if_True snd_conv)
qed


lemma length_read_bytes:
  "ring_wf c q \<Longrightarrow> n \<le> unat c \<Longrightarrow> length (read_bytes c a pos n q) = n"
  using read_bytes_ring_from [of c q 0 n a pos] by (simp add: ring_wf_def)

lemma unat_le_u32: "length bs = 4 \<Longrightarrow> unat (ucast (from_le_bytes bs :: u32) :: u64) = le_val bs"
  using from_le_bytes_unat4 [of bs] le_val_less [of bs] by (simp add: unsigned_ucast_eq take_bit_nat_eq_self)

lemma readable_frame_alt:
  assumes wf: "ring_wf c q"
  shows "readable_frame c la q =
    (if unat c < used_bytes q \<or> used_bytes q < 4 then (None, q)
     else let n = le_val (read_bytes c la (tl_pos q) 4 q)
          in if max_message_bytes c < n then (None, q\<lparr>tl_pos := tl_pos q + 4\<rparr>)
             else if used_bytes q < 4 + n then (None, q)
             else (Some (tl_pos q, n), q))"
proof -
  have valid: "shared_queue_capacity_valid c" using wf by (simp add: ring_wf_def)
  note cb = valid_capacity_bounds [OF valid] and mb = max_message_bytes_bounds [OF valid]
  let ?bs = "read_bytes c la (tl_pos q) 4 q"
  have "length ?bs = 4"
    using wf cb by (intro length_read_bytes) auto
  then have n: "unat (ucast (from_le_bytes ?bs :: u32) :: u64) = le_val ?bs"
    by (rule unat_le_u32)
  have mm: "unat (word_of_nat (max_message_bytes c) :: u64) = max_message_bytes c"
    using mb by (simp add: unat_of_nat)
  have sum: "unat (4 + ucast (from_le_bytes ?bs :: u32) :: u64) = 4 + le_val ?bs"
    if "le_val ?bs \<le> max_message_bytes c"
    using that mb n by (subst unat_add_small) auto
  show ?thesis
    using mm n sum
    by (auto simp: readable_frame_def MSG_HEADER_SIZE_def Let_def used_bytes_def word_less_nat_alt)
qed

lemma queue_rep_cons:
  assumes rep: "queue_rep c q (m # ms)"
  shows "4 + length m \<le> used_bytes q"
    and "length m \<le> max_message_bytes c"
    and "le_val (read_bytes c a (tl_pos q) 4 q) = length m"
    and "read_bytes c a (tl_pos q + 4) (length m) q = m"
proof -
  have wf: "ring_wf c q" and valid: "shared_queue_capacity_valid c"
    and used: "used_bytes q \<le> unat c"
    and cont: "take (used_bytes q) (ring_from (tl_pos q) q) = frame m @ concat (map frame ms)"
    using rep by (auto simp: queue_rep_def ring_wf_def)
  show le: "4 + length m \<le> used_bytes q"
    using queue_rep_length [OF rep] by simp
  show mm: "length m \<le> max_message_bytes c"
    using rep by (simp add: queue_rep_def)
  define R where "R = ring_from (tl_pos q) q"
  have eq: "take (4 + length m) R = frame m"
    using arg_cong [OF cont, of "take (4 + length m)"] le by (simp add: R_def)
  have "take 4 R = take 4 (frame m)"
    unfolding eq [symmetric] by simp
  then have h: "take 4 R = to_le_bytes (word_of_nat (length m) :: u32)"
    by (simp add: frame_def)
  have "take (length m) (drop 4 R) = drop 4 (frame m)"
    unfolding eq [symmetric] by (simp add: drop_take)
  then have b: "take (length m) (drop 4 R) = m"
    by (simp add: frame_def)
  have "length m < 2 ^ 32"
    using mm max_message_bytes_bounds(2) [OF valid] by simp
  then show "le_val (read_bytes c a (tl_pos q) 4 q) = length m"
    using read_bytes_ring_from [OF wf, of 0 4 a "tl_pos q"] le used h
    by (simp add: R_def [symmetric] to_le_bytes_def le_val_le_bytes unat_of_nat)
  show "read_bytes c a (tl_pos q + 4) (length m) q = m"
    using read_bytes_ring_from [OF wf, of 4 "length m" a "tl_pos q"] le used b
    by (simp add: R_def)
qed

lemma readable_frame_cons:
  "queue_rep c q (m # ms) \<Longrightarrow> readable_frame c la q = (Some (tl_pos q, length m), q)"
  using queue_rep_cons(1,2) [of c q m ms] queue_rep_cons(3) [of c q m ms la]
  by (subst readable_frame_alt) (auto simp: queue_rep_def Let_def)

lemma readable_frame_nil:
  assumes "queue_rep c q []"
  shows "readable_frame c la q = (None, q)"
proof -
  have "used_bytes q = 0" using queue_rep_length [OF assms] by simp
  then show ?thesis
    using assms by (subst readable_frame_alt) (auto simp: queue_rep_def)
qed

lemma consume_frame_rep:
  assumes rep: "queue_rep c q (m # ms)"
  shows "queue_rep c (consume_frame (tl_pos q) (length m) q) ms"
proof -
  have wf: "ring_wf c q" and lb: "length (ring_buf q) = unat c"
    and used: "used_bytes q \<le> unat c"
    and cont: "take (used_bytes q) (ring_from (tl_pos q) q) = frame m @ concat (map frame ms)"
    using rep by (auto simp: queue_rep_def ring_wf_def)
  note le = queue_rep_cons(1) [OF rep]
  let ?q = "consume_frame (tl_pos q) (length m) q"
  have tl: "tl_pos ?q = tl_pos q + word_of_nat (4 + length m)"
    by (simp add: consume_frame_def MSG_HEADER_SIZE_def add.assoc)
  have "hd_pos ?q - tl_pos ?q = word_of_nat (used_bytes q - (4 + length m))"
    using le by (simp add: tl consume_frame_def MSG_HEADER_SIZE_def hd_pos_used [of q] of_nat_diff)
  moreover have "used_bytes q < 2 ^ 64"
    using unsigned_less [of "hd_pos q - tl_pos q"] by (simp add: used_bytes_def)
  ultimately have u: "used_bytes ?q = used_bytes q - (4 + length m)"
    by (simp add: used_bytes_def [of ?q] unat_of_nat)
  have "ring_from (tl_pos ?q) ?q = rotate (4 + length m) (ring_from (tl_pos q) q)"
    unfolding tl using ring_from_add [OF wf, of "tl_pos q" "4 + length m"]
    by (simp add: consume_frame_def)
  then have "take (used_bytes ?q) (ring_from (tl_pos ?q) ?q) =
      drop (4 + length m) (take (used_bytes q) (ring_from (tl_pos q) q))"
    using le used lb u
    by (cases "4 + length m = unat c") (simp_all add: rotate_drop_take take_drop)
  also have "\<dots> = concat (map frame ms)"
    by (simp add: cont)
  finally show ?thesis
    using rep u used by (simp add: queue_rep_def consume_frame_def)
qed


lemma try_send_refused:
  "queue_rep c q msgs \<Longrightarrow> \<not> send_fits c msg q \<Longrightarrow> try_send c la ma msg q = (Inl SendRefused, q)"
  by (simp add: try_send_alt queue_rep_def ring_wf_def)

lemma try_send_accepted:
  "queue_rep c q msgs \<Longrightarrow> fst (try_send c la ma msg q) = Inr () \<longleftrightarrow> send_fits c msg q"
  by (simp add: try_send_alt queue_rep_def ring_wf_def)

lemma try_recv_queue:
  assumes rep: "queue_rep c q msgs"
  shows "(case msgs of
      [] \<Rightarrow> try_recv c la oa q = (None, q)
    | m # ms \<Rightarrow> fst (try_recv c la oa q) = Some m \<and> queue_rep c (snd (try_recv c la oa q)) ms)"
  using assms queue_rep_cons(4) [where a = oa and c = c and q = q]
  by (auto simp: try_recv_def readable_frame_nil readable_frame_cons consume_frame_rep
      MSG_HEADER_SIZE_def split: list.split)

section \<open>The queue interface\<close>

text \<open>
  What a client of the ring may rely on: a send is accepted by a rule on the queued messages alone
  and then appends, a refused send changes nothing, a receive takes the oldest message. Any run of
  operations then has the outcomes of the same run on a plain list.
\<close>

datatype 'm queue_op = Send 'm | Recv

datatype 'm queue_outcome = Sent bool | Got "'m option"

fun run_ops ::
  "('m \<Rightarrow> 'q \<Rightarrow> bool \<times> 'q) \<Rightarrow> ('q \<Rightarrow> 'm option \<times> 'q) \<Rightarrow> 'm queue_op list \<Rightarrow> 'q
     \<Rightarrow> 'm queue_outcome list \<times> 'q" where
  "run_ops sendf recvf [] q = ([], q)"
| "run_ops sendf recvf (Send m # ops) q =
     (let (ok, q') = sendf m q; (outs, q'') = run_ops sendf recvf ops q' in (Sent ok # outs, q''))"
| "run_ops sendf recvf (Recv # ops) q =
     (let (r, q') = recvf q; (outs, q'') = run_ops sendf recvf ops q' in (Got r # outs, q''))"

definition list_send :: "('m list \<Rightarrow> 'm \<Rightarrow> bool) \<Rightarrow> 'm \<Rightarrow> 'm list \<Rightarrow> bool \<times> 'm list" where
  "list_send accepts m ms = (accepts ms m, if accepts ms m then ms @ [m] else ms)"

definition list_recv :: "'m list \<Rightarrow> 'm option \<times> 'm list" where
  "list_recv ms = (case ms of [] \<Rightarrow> (None, []) | m # rest \<Rightarrow> (Some m, rest))"

locale bounded_fifo =
  fixes rep :: "'q \<Rightarrow> 'm list \<Rightarrow> bool"
    and send :: "'m \<Rightarrow> 'q \<Rightarrow> bool \<times> 'q"
    and receive :: "'q \<Rightarrow> 'm option \<times> 'q"
    and accepts :: "'m list \<Rightarrow> 'm \<Rightarrow> bool"
  assumes send_law: "rep q ms \<Longrightarrow> send m q = (ok, q') \<Longrightarrow>
        ok = accepts ms m \<and> rep q' (if ok then ms @ [m] else ms)"
    and receive_law: "rep q ms \<Longrightarrow> receive q = (r, q') \<Longrightarrow>
        r = fst (list_recv ms) \<and> rep q' (snd (list_recv ms))"
begin

lemma run_ops_refines:
  "rep q ms \<Longrightarrow>
     fst (run_ops send receive ops q) = fst (run_ops (list_send accepts) list_recv ops ms)
     \<and> rep (snd (run_ops send receive ops q)) (snd (run_ops (list_send accepts) list_recv ops ms))"
proof (induction ops arbitrary: q ms)
  case Nil
  then show ?case by simp
next
  case (Cons op ops)
  show ?case
  proof (cases op)
    case (Send m)
    obtain ok q' where s: "send m q = (ok, q')" by fastforce
    define ms' where "ms' = (if ok then ms @ [m] else ms)"
    have "rep q' ms'" and "list_send accepts m ms = (ok, ms')"
      using send_law [OF Cons.prems s] by (auto simp: list_send_def ms'_def)
    then show ?thesis
      using Send s Cons.IH [of q' ms'] by (auto simp: Let_def split: prod.splits)
  next
    case Recv
    obtain r q' where s: "receive q = (r, q')" by fastforce
    obtain x ms' where l: "list_recv ms = (x, ms')" by fastforce
    with s show ?thesis
      using Recv Cons.IH [of q' ms'] receive_law [OF Cons.prems s]
      by (auto simp: Let_def split: prod.splits)
  qed
qed

end

definition ring_accepts :: "u64 \<Rightarrow> bytes list \<Rightarrow> bytes \<Rightarrow> bool" where
  "ring_accepts c ms m \<longleftrightarrow>
     length m \<le> max_message_bytes c
     \<and> sum_list (map (\<lambda>x. 4 + length x) ms) + 4 + length m \<le> unat c"

definition ring_send :: "u64 \<Rightarrow> nat \<Rightarrow> nat \<Rightarrow> bytes \<Rightarrow> ring \<Rightarrow> bool \<times> ring" where
  "ring_send c la ma m q = (let (r, q') = try_send c la ma m q in (r = Inr (), q'))"

lemma length_concat_frames:
  "length (concat (map frame ms)) = sum_list (map (\<lambda>x. 4 + length x) ms)"
  by (induction ms) simp_all

lemma ring_accepts_iff: "queue_rep c q ms \<Longrightarrow> ring_accepts c ms m \<longleftrightarrow> send_fits c m q"
  using queue_rep_length [of c q ms]
  by (auto simp: ring_accepts_def send_fits_def length_concat_frames)

interpretation ring_queue: bounded_fifo "queue_rep c" "ring_send c la ma" "try_recv c la oa"
  "ring_accepts c" for c la ma oa
proof (unfold_locales, goal_cases)
  case (1 q ms m ok q')
  show ?case
    using 1 try_send_rep [OF 1(1), of m la ma] try_send_refused [OF 1(1), of m la ma]
      try_send_accepted [OF 1(1), of la ma m] ring_accepts_iff [OF 1(1), of m]
    by (cases "try_send c la ma m q") (auto simp: ring_send_def)
next
  case (2 q ms r q')
  then show ?case
    using try_recv_queue [OF 2(1), of la oa]
    by (cases "try_recv c la oa q") (auto simp: list_recv_def split: list.splits)
qed

definition fresh_ring :: "u64 \<Rightarrow> nat \<Rightarrow> ring" where
  "fresh_ring c a = \<lparr>hd_pos = 0, tl_pos = 0, hdr_capacity = c, ring_buf = replicate (unat c) 0, buf_addr = a\<rparr>"

lemma fresh_ring_rep: "shared_queue_capacity_valid c \<Longrightarrow> queue_rep c (fresh_ring c a) []"
  by (simp add: queue_rep_def fresh_ring_def ring_wf_def used_bytes_def)

text \<open>
  C2 (refinement). Every run of sends and receives on the ring, from any state that holds the frames
  of \<open>ms\<close>, has the same outcomes as the run on the plain list \<open>ms\<close>: sends are accepted exactly when
  the message is within \<open>max_message_bytes\<close> and the frames fit the capacity, receives return the
  messages in order, and the final ring holds the final list. This holds for all positions,
  including those at which the 64-bit counters and the ring wrap, and for all buffer addresses.
\<close>

theorem ring_refines_bounded_fifo:
  assumes "queue_rep c q ms"
  shows "fst (run_ops (ring_send c la ma) (try_recv c la oa) ops q)
           = fst (run_ops (list_send (ring_accepts c)) list_recv ops ms)
         \<and> queue_rep c (snd (run_ops (ring_send c la ma) (try_recv c la oa) ops q))
             (snd (run_ops (list_send (ring_accepts c)) list_recv ops ms))"
  using assms by (rule ring_queue.run_ops_refines)

theorem ring_refines_bounded_fifo_witness:
  "fst (run_ops (ring_send 4096 1 2) (try_recv 4096 1 3)
     [Send [7, 8], Send [9], Recv, Recv, Recv] (fresh_ring 4096 5))
   = [Sent True, Sent True, Got (Some [7, 8]), Got (Some [9]), Got None]"
proof -
  have v: "shared_queue_capacity_valid 4096" by code_simp
  have m: "max_message_bytes 4096 = 4092" by code_simp
  show ?thesis
    using ring_refines_bounded_fifo [OF fresh_ring_rep [OF v, of 5], of 1 2 3
        "[Send [7, 8], Send [9], Recv, Recv, Recv]"]
    by (simp add: list_send_def list_recv_def ring_accepts_def m)
qed

fun run_env :: "(nat \<Rightarrow> ring \<Rightarrow> ring) \<Rightarrow> nat \<Rightarrow> ring \<Rightarrow> nat \<Rightarrow> ring" where
  "run_env env i q 0 = q"
| "run_env env i q (Suc n) = run_env env (Suc i) (env i q) n"

lemma send_loop_returns:
  assumes valid: "shared_queue_capacity_valid c"
  shows "send_fits c msg (run_env env i q n) \<Longrightarrow> n < fuel \<Longrightarrow>
    \<exists>j\<le>n. send_loop fuel env i c la ma msg q = Some (try_send c la ma msg (run_env env i q j))
      \<and> fst (try_send c la ma msg (run_env env i q j)) = Inr ()"
proof (induction n arbitrary: i q fuel)
  case 0
  then show ?case
    by (cases fuel) (simp_all add: try_send_alt [OF valid])
next
  case (Suc n)
  obtain f where f: "fuel = Suc f" "n < f"
    using Suc.prems(2) by (cases fuel) auto
  show ?case
  proof (cases "send_fits c msg q")
    case True
    then show ?thesis
      using f by (intro exI [of _ 0]) (simp add: try_send_alt [OF valid])
  next
    case False
    then have "send_loop fuel env i c la ma msg q = send_loop f env (Suc i) c la ma msg (env i q)"
      by (simp add: f try_send_alt [OF valid])
    moreover obtain j where "j \<le> n"
      "send_loop f env (Suc i) c la ma msg (env i q)
         = Some (try_send c la ma msg (run_env env (Suc i) (env i q) j))
       \<and> fst (try_send c la ma msg (run_env env (Suc i) (env i q) j)) = Inr ()"
      using Suc.IH [of "Suc i" "env i q" f] Suc.prems(1) f by auto
    ultimately show ?thesis
      by (intro exI [of _ "Suc j"]) simp
  qed
qed





text \<open>
  The three receive operations read the same frame: \<open>try_recv_with\<close> with an owner
  that always supplies a buffer of the frame's length is \<open>try_recv\<close>, and \<open>try_recv_into\<close> stores that
  message at the front of the caller's buffer, or reports its length and consumes nothing when the
  buffer is too short.
\<close>

theorem recv_variants_agree:
  assumes "ring_wf c q"
  shows "try_recv_with P c la pa oa (\<lambda>n pre. Inr (Some (replicate n 0))) q =
           (Inr (fst (try_recv c la oa q)) :: 'e receive_owner_error + bytes option,
            snd (try_recv c la oa q))
         \<and> (case try_recv c la oa q of
              (None, q') \<Rightarrow> try_recv_into c la oa output q = (Inr None, output, q')
            | (Some msg, q') \<Rightarrow>
                if length output < length msg
                then try_recv_into c la oa output q = (Inl (length msg), output, q)
                else try_recv_into c la oa output q
                       = (Inr (Some (length msg)), msg @ drop (length msg) output, q'))"
proof -
  have valid: "shared_queue_capacity_valid c" using assms by (simp add: ring_wf_def)
  have len: "length (read_bytes c oa p n q) = n" if "n \<le> max_message_bytes c" for p n
    using that max_message_bytes_bounds(1) [OF valid] by (intro length_read_bytes [OF assms]) simp
  have "try_recv_with P c la pa oa (\<lambda>n pre. Inr (Some (replicate n 0))) q =
           (Inr (fst (try_recv c la oa q)) :: 'e receive_owner_error + bytes option,
            snd (try_recv c la oa q))"
    by (auto simp: try_recv_with_def try_recv_def readable_frame_alt [OF assms] Let_def len mem_write_def)
  then show ?thesis
    by (auto simp: try_recv_into_def try_recv_def readable_frame_alt [OF assms] Let_def len mem_write_def)
qed

theorem recv_variants_agree_witness:
  "fst (try_recv_into 4096 0 0 [1, 2, 3] (snd (try_send 4096 0 0 [7] (fresh_ring 4096 0))))
   = Inr (Some 1)"
proof -
  have v: "shared_queue_capacity_valid 4096" and m: "max_message_bytes 4096 = 4092"
    by code_simp+
  let ?q = "snd (try_send 4096 0 0 [7] (fresh_ring 4096 0))"
  have "send_fits 4096 [7] (fresh_ring 4096 0)"
    by (simp add: send_fits_def m used_bytes_def fresh_ring_def)
  then have rep: "queue_rep 4096 ?q [[7]]"
    using try_send_rep [OF fresh_ring_rep [OF v]] by simp
  then have "ring_wf 4096 ?q" by (simp add: queue_rep_def)
  then show ?thesis
    using recv_variants_agree [of 4096 ?q 0 0 0 0 "[1, 2, 3]"] try_recv_queue [OF rep, of 0 0]
    by (cases "try_recv 4096 0 0 ?q") auto
qed

text \<open>
  Bytes written at any offset are read back unchanged, all other ring bytes keep their
  value and no byte outside the ring is written, on the direct and on the staged copy path, with
  and without wrap-around.
\<close>

theorem ring_bytes_roundtrip:
  assumes wf: "ring_wf c q" and len: "length data \<le> unat c"
  shows "read_bytes c ra off (length data) (write_bytes c wa off data q) = data
         \<and> read_bytes c ra (off + word_of_nat (length data)) (unat c - length data)
             (write_bytes c wa off data q)
           = read_bytes c ra (off + word_of_nat (length data)) (unat c - length data) q
         \<and> length (ring_buf (write_bytes c wa off data q)) = unat c"
proof -
  have k: "0 + length data \<le> unat c" using len by simp
  note w = ring_from_write [OF wf k, where pos = off and a = wa, simplified]
  have lb: "length (ring_buf q) = unat c" using wf by (simp add: ring_wf_def)
  show ?thesis
    using w len lb read_bytes_ring_from [OF w(2), of 0 "length data" ra off]
      read_bytes_ring_from [OF w(2), of "length data" "unat c - length data" ra off]
      read_bytes_ring_from [OF wf, of "length data" "unat c - length data" ra off]
    by (simp add: ring_wf_def)
qed

theorem ring_bytes_roundtrip_witness:
  "read_bytes 4096 3 4095 2 (write_bytes 4096 1 4095 [10, 20] (fresh_ring 4096 0)) = [10, 20]"
proof -
  have v: "shared_queue_capacity_valid 4096" by code_simp
  then have "ring_wf 4096 (fresh_ring 4096 0)"
    using fresh_ring_rep [of 4096 0] by (simp add: queue_rep_def)
  from ring_bytes_roundtrip [OF this, of "[10, 20]" 3 4095 1] show ?thesis by (simp flip: numeral_2_eq_2)
qed

end
