(* ===== verification/Spsc_Interleaving.thy ===== *)
theory Spsc_Interleaving
  imports Spsc_Queue
begin

text \<open>
  The two endpoints of \<open>common/src/queue.rs\<close> running at the same time. \<open>try_send\<close> and \<open>try_recv\<close>
  are cut at their accesses to shared memory: the producer loads the positions and checks the
  space, writes the length prefix, writes the payload and publishes the head; the consumer loads
  the positions, decodes the length prefix, copies the payload and releases the tail. A step of
  the system is one such access by either side, in any order. Two ghost lists record the messages
  published and the messages delivered. Each side stores one position only, with release
  ordering, and the other side loads it with acquire ordering before it touches the bytes, so the
  interleavings of these accesses are the behaviours of the code.
\<close>

section \<open>States and steps\<close>

datatype producer_pc =
    P_Idle
  | P_Reserved bytes u64
  | P_Length bytes u64
  | P_Payload bytes u64

datatype consumer_pc =
    C_Idle
  | C_Loaded u64 u64
  | C_Frame u64 nat
  | C_Copied u64 nat bytes

record spsc_system =
  shared :: ring
  prod_pc :: producer_pc
  cons_pc :: consumer_pc
  sent :: "bytes list"
  received :: "bytes list"

definition frame_total :: "bytes \<Rightarrow> u64" where
  "frame_total msg = word_of_nat MSG_HEADER_SIZE + word_of_nat (length msg)"

inductive spsc_step :: "u64 \<Rightarrow> nat \<Rightarrow> nat \<Rightarrow> nat \<Rightarrow> spsc_system \<Rightarrow> spsc_system \<Rightarrow> bool"
  for c la ma oa where
  reserve: "prod_pc s = P_Idle \<Longrightarrow> message_len_valid c (length msg) \<Longrightarrow>
      used = hd_pos (shared s) - tl_pos (shared s) \<Longrightarrow> \<not> c < used \<Longrightarrow>
      \<not> c - used < frame_total msg \<Longrightarrow>
      spsc_step c la ma oa s (s\<lparr>prod_pc := P_Reserved msg (hd_pos (shared s))\<rparr>)"
| write_length: "prod_pc s = P_Reserved msg h \<Longrightarrow>
      spsc_step c la ma oa s
        (s\<lparr>shared := write_bytes c la h (to_le_bytes (word_of_nat (length msg) :: u32)) (shared s),
           prod_pc := P_Length msg h\<rparr>)"
| write_payload: "prod_pc s = P_Length msg h \<Longrightarrow>
      spsc_step c la ma oa s
        (s\<lparr>shared := write_bytes c ma (h + word_of_nat MSG_HEADER_SIZE) msg (shared s),
           prod_pc := P_Payload msg h\<rparr>)"
| publish: "prod_pc s = P_Payload msg h \<Longrightarrow>
      spsc_step c la ma oa s
        (s\<lparr>shared := (shared s)\<lparr>hd_pos := h + frame_total msg\<rparr>, prod_pc := P_Idle,
           sent := sent s @ [msg]\<rparr>)"
| load: "cons_pc s = C_Idle \<Longrightarrow>
      spsc_step c la ma oa s
        (s\<lparr>cons_pc := C_Loaded (hd_pos (shared s)) (tl_pos (shared s))\<rparr>)"
| decode_frame: "cons_pc s = C_Loaded h t \<Longrightarrow>
      readable_frame c la ((shared s)\<lparr>hd_pos := h, tl_pos := t\<rparr>) = (Some (t', n), q) \<Longrightarrow>
      spsc_step c la ma oa s (s\<lparr>cons_pc := C_Frame t' n\<rparr>)"
| decode_nothing: "cons_pc s = C_Loaded h t \<Longrightarrow>
      readable_frame c la ((shared s)\<lparr>hd_pos := h, tl_pos := t\<rparr>) = (None, q) \<Longrightarrow>
      spsc_step c la ma oa s
        (s\<lparr>shared := (shared s)\<lparr>tl_pos := tl_pos q\<rparr>, cons_pc := C_Idle\<rparr>)"
| copy_payload: "cons_pc s = C_Frame t n \<Longrightarrow>
      spsc_step c la ma oa s
        (s\<lparr>cons_pc := C_Copied t n (read_bytes c oa (t + word_of_nat MSG_HEADER_SIZE) n (shared s))\<rparr>)"
| release: "cons_pc s = C_Copied t n msg \<Longrightarrow>
      spsc_step c la ma oa s
        (s\<lparr>shared := consume_frame t n (shared s), cons_pc := C_Idle,
           received := received s @ [msg]\<rparr>)"

definition spsc_init :: "u64 \<Rightarrow> nat \<Rightarrow> spsc_system" where
  "spsc_init c a =
     \<lparr>shared = fresh_ring c a, prod_pc = P_Idle, cons_pc = C_Idle, sent = [], received = []\<rparr>"

inductive spsc_reachable :: "u64 \<Rightarrow> nat \<Rightarrow> nat \<Rightarrow> nat \<Rightarrow> spsc_system \<Rightarrow> bool" for c la ma oa where
  init: "shared_queue_capacity_valid c \<Longrightarrow> spsc_reachable c la ma oa (spsc_init c a)"
| step: "spsc_reachable c la ma oa s \<Longrightarrow> spsc_step c la ma oa s s' \<Longrightarrow>
      spsc_reachable c la ma oa s'"

section \<open>Invariant\<close>

text \<open>
  The bytes behind the head, which only the producer may write, and the part of the queue that
  the consumer has seen at its load of the head.
\<close>

definition beyond_head :: "nat \<Rightarrow> ring \<Rightarrow> bytes" where
  "beyond_head n q = take n (drop (used_bytes q) (ring_from (tl_pos q) q))"

fun producer_inv :: "u64 \<Rightarrow> ring \<Rightarrow> producer_pc \<Rightarrow> bool" where
  "producer_inv c q P_Idle = True"
| "producer_inv c q (P_Reserved msg h) = (h = hd_pos q \<and> send_fits c msg q)"
| "producer_inv c q (P_Length msg h) =
     (h = hd_pos q \<and> send_fits c msg q \<and> beyond_head 4 q = take 4 (frame msg))"
| "producer_inv c q (P_Payload msg h) =
     (h = hd_pos q \<and> send_fits c msg q \<and> beyond_head (4 + length msg) q = frame msg)"

fun consumer_inv :: "ring \<Rightarrow> bytes list \<Rightarrow> consumer_pc \<Rightarrow> bool" where
  "consumer_inv q ms C_Idle = True"
| "consumer_inv q ms (C_Loaded h t) =
     (t = tl_pos q \<and> (\<exists>k\<le>length ms. h = t + word_of_nat (length (concat (map frame (take k ms))))))"
| "consumer_inv q ms (C_Frame t n) = (t = tl_pos q \<and> (\<exists>m rest. ms = m # rest \<and> n = length m))"
| "consumer_inv q ms (C_Copied t n msg) =
     (t = tl_pos q \<and> n = length msg \<and> (\<exists>rest. ms = msg # rest))"

definition spsc_inv :: "u64 \<Rightarrow> spsc_system \<Rightarrow> bool" where
  "spsc_inv c s \<longleftrightarrow> (\<exists>ms. queue_rep c (shared s) ms \<and> sent s = received s @ ms
      \<and> producer_inv c (shared s) (prod_pc s) \<and> consumer_inv (shared s) ms (cons_pc s))"

lemma spsc_invI:
  "queue_rep c (shared s) ms \<Longrightarrow> sent s = received s @ ms \<Longrightarrow>
     producer_inv c (shared s) (prod_pc s) \<Longrightarrow> consumer_inv (shared s) ms (cons_pc s) \<Longrightarrow> spsc_inv c s"
  by (auto simp: spsc_inv_def)

section \<open>Each step keeps the invariant\<close>

lemma used_bytes_write [simp]: "used_bytes (write_bytes c a p d q) = used_bytes q"
  by (simp add: used_bytes_def)

lemma send_fits_write [simp]: "send_fits c m (write_bytes c a p d q) = send_fits c m q"
  by (simp add: send_fits_def)

lemma queue_rep_write:
  assumes rep: "queue_rep c q ms" and k: "used_bytes q \<le> k" "k + length d \<le> unat c"
  shows "queue_rep c (write_bytes c a (tl_pos q + word_of_nat k) d q) ms"
  using rep ring_from_write [of c q k d, where pos = "tl_pos q" and a = a] k
  by (simp add: queue_rep_def ring_wf_def)

lemma consumer_inv_write [simp]: "consumer_inv (write_bytes c a p d q) ms pc = consumer_inv q ms pc"
  by (cases pc) auto

lemma beyond_head_write:
  assumes rep: "queue_rep c q ms" and k: "used_bytes q + j + length d \<le> unat c"
  shows "beyond_head (j + length d) (write_bytes c a (hd_pos q + word_of_nat j) d q) =
           take j (beyond_head j q) @ d"
proof -
  have p: "hd_pos q + word_of_nat j = tl_pos q + word_of_nat (used_bytes q + j)"
    by (simp add: hd_pos_used [of q] add.assoc)
  have "ring_wf c q" and lb: "length (ring_buf q) = unat c"
    using rep by (auto simp: queue_rep_def ring_wf_def)
  then show ?thesis
    unfolding p beyond_head_def
    using ring_from_write(1) [of c q "used_bytes q + j" d, where pos = "tl_pos q" and a = a] k
    by (simp add: take_drop add.commute)
qed

lemma producer_steps:
  assumes rep: "queue_rep c q ms" and fits: "send_fits c msg q"
  shows "queue_rep c (write_bytes c la (hd_pos q) (to_le_bytes (word_of_nat (length msg) :: u32)) q) ms"
    and "beyond_head 4 (write_bytes c la (hd_pos q) (to_le_bytes (word_of_nat (length msg) :: u32)) q)
           = take 4 (frame msg)"
    and "queue_rep c (write_bytes c ma (hd_pos q + word_of_nat MSG_HEADER_SIZE) msg q) ms"
    and "beyond_head 4 q = take 4 (frame msg) \<Longrightarrow>
           beyond_head (4 + length msg) (write_bytes c ma (hd_pos q + word_of_nat MSG_HEADER_SIZE) msg q)
             = frame msg"
proof -
  have f: "used_bytes q + 4 + length msg \<le> unat c" using fits by (simp add: send_fits_def)
  let ?l = "to_le_bytes (word_of_nat (length msg) :: u32)"
  show "queue_rep c (write_bytes c la (hd_pos q) ?l q) ms"
    using queue_rep_write [OF rep, of "used_bytes q" ?l la] f by (simp add: hd_pos_used [of q])
  show "beyond_head 4 (write_bytes c la (hd_pos q) ?l q) = take 4 (frame msg)"
    using beyond_head_write [OF rep, of 0 ?l la] f by (simp add: frame_def)
  show "queue_rep c (write_bytes c ma (hd_pos q + word_of_nat MSG_HEADER_SIZE) msg q) ms"
    using queue_rep_write [OF rep, of "used_bytes q + 4" msg ma] f
    by (simp add: hd_pos_used [of q] MSG_HEADER_SIZE_def add.assoc)
  show "beyond_head (4 + length msg) (write_bytes c ma (hd_pos q + word_of_nat MSG_HEADER_SIZE) msg q)
      = frame msg" if "beyond_head 4 q = take 4 (frame msg)"
    using beyond_head_write [OF rep, of 4 msg ma] f that by (simp add: MSG_HEADER_SIZE_def frame_def)
qed

lemma used_bytes_hd_pos: "used_bytes (q\<lparr>hd_pos := h\<rparr>) = unat (h - tl_pos q)"
  by (simp add: used_bytes_def)

lemma used_bytes_publish:
  assumes valid: "shared_queue_capacity_valid c" and fits: "send_fits c msg q"
  shows "used_bytes (q\<lparr>hd_pos := hd_pos q + frame_total msg\<rparr>) = used_bytes q + 4 + length msg"
proof -
  have "hd_pos q + frame_total msg - tl_pos q = word_of_nat (used_bytes q + (4 + length msg))"
    by (simp add: frame_total_def MSG_HEADER_SIZE_def hd_pos_used [of q])
  moreover have "unat (word_of_nat (used_bytes q + (4 + length msg)) :: u64)
      = used_bytes q + 4 + length msg"
    using fits valid_capacity_bounds(2) [OF valid]
    by (simp only: unat_of_nat) (simp add: mod_less send_fits_def)
  ultimately show ?thesis by (simp only: used_bytes_hd_pos)
qed

lemma publish_rep:
  assumes rep: "queue_rep c q ms" and fits: "send_fits c msg q"
    and beyond: "beyond_head (4 + length msg) q = frame msg"
  shows "queue_rep c (q\<lparr>hd_pos := hd_pos q + frame_total msg\<rparr>) (ms @ [msg])"
proof -
  have valid: "shared_queue_capacity_valid c" using rep by (simp add: queue_rep_def ring_wf_def)
  note u = used_bytes_publish [OF valid fits]
  have "take (used_bytes q + (4 + length msg)) (ring_from (tl_pos q) q)
      = concat (map frame ms) @ frame msg"
    using rep beyond by (simp add: take_add queue_rep_def beyond_head_def)
  then show ?thesis
    using rep fits by (simp add: queue_rep_def u send_fits_def add.assoc)
qed


lemma queue_rep_seen:
  assumes rep: "queue_rep c q ms" and k: "k \<le> length ms"
    and h: "h = tl_pos q + word_of_nat (length (concat (map frame (take k ms))))"
  shows "queue_rep c (q\<lparr>hd_pos := h, tl_pos := tl_pos q\<rparr>) (take k ms)"
proof -
  let ?q = "q\<lparr>hd_pos := h, tl_pos := tl_pos q\<rparr>"
  let ?n = "length (concat (map frame (take k ms)))"
  have split: "concat (map frame ms) = concat (map frame (take k ms)) @ concat (map frame (drop k ms))"
    by (metis append_take_drop_id concat_append map_append)
  then have n: "?n \<le> used_bytes q"
    using queue_rep_length [OF rep] by simp
  then have "?n < 2 ^ 64"
    using unsigned_less [of "hd_pos q - tl_pos q", where ?'a = nat] by (simp add: used_bytes_def)
  then have u: "used_bytes ?q = ?n"
    by (simp add: used_bytes_def h unat_of_nat)
  have "take ?n (ring_from (tl_pos q) q) = take ?n (take (used_bytes q) (ring_from (tl_pos q) q))"
    using n by (simp only: take_take min.absorb1)
  also have "\<dots> = take ?n (concat (map frame ms))"
    using rep by (simp only: queue_rep_def)
  also have "\<dots> = concat (map frame (take k ms))"
    unfolding split by simp
  finally have "take ?n (ring_from (tl_pos q) q) = concat (map frame (take k ms))" .
  then show ?thesis
    unfolding queue_rep_def u using rep n by (auto simp: queue_rep_def dest: in_set_takeD)
qed

lemma ring_consume [simp]:
  "hd_pos (consume_frame t n q) = hd_pos q" "ring_from p (consume_frame t n q) = ring_from p q"
  "tl_pos (consume_frame t n q) = t + word_of_nat (4 + n)"
  by (simp_all add: consume_frame_def MSG_HEADER_SIZE_def add.assoc)

lemma used_bytes_consume:
  assumes "queue_rep c q (m # ms)"
  shows "used_bytes (consume_frame (tl_pos q) (length m) q) + (4 + length m) = used_bytes q"
  using queue_rep_length [OF assms] queue_rep_length [OF consume_frame_rep [OF assms]] by simp

lemma beyond_head_consume:
  assumes rep: "queue_rep c q (m # ms)" and fit: "used_bytes q + n \<le> unat c"
  shows "beyond_head n (consume_frame (tl_pos q) (length m) q) = beyond_head n q"
proof -
  have wf: "ring_wf c q" and lb: "length (ring_buf q) = unat c"
    using rep by (auto simp: queue_rep_def ring_wf_def)
  define x where "x = 4 + length m"
  define u where "u = used_bytes (consume_frame (tl_pos q) (length m) q)"
  have u: "u + x = used_bytes q"
    using used_bytes_consume [OF rep] by (simp add: u_def x_def)
  have "ring_from (tl_pos q + word_of_nat x) q = drop x (ring_from (tl_pos q) q) @ take x (ring_from (tl_pos q) q)"
    using ring_from_add [OF wf, of "tl_pos q" x] u fit lb
    by (cases "x = unat c") (simp_all add: rotate_drop_take)
  then show ?thesis
    using u fit lb by (simp add: beyond_head_def u_def [symmetric] x_def [symmetric] take_drop)
qed

lemma producer_inv_consume:
  assumes rep: "queue_rep c q (m # ms)" and inv: "producer_inv c q pc"
  shows "producer_inv c (consume_frame (tl_pos q) (length m) q) pc"
proof -
  let ?q = "consume_frame (tl_pos q) (length m) q"
  have fits: "send_fits c x ?q" if "send_fits c x q" for x
    using that used_bytes_consume [OF rep] by (simp add: send_fits_def)
  show ?thesis
    using inv fits beyond_head_consume [OF rep]
    by (cases pc) (auto simp: send_fits_def)
qed

lemma consumer_inv_publish:
  assumes "consumer_inv q ms pc"
  shows "consumer_inv (q\<lparr>hd_pos := x\<rparr>) (ms @ [msg]) pc"
proof (cases pc)
  case (C_Loaded h t)
  with assms obtain k where "k \<le> length ms"
    and "h = t + word_of_nat (length (concat (map frame (take k ms))))" by auto
  with C_Loaded assms show ?thesis by (auto intro: exI [of _ k])
qed (use assms in auto)

lemma consumer_seen:
  assumes rep: "queue_rep c q ms" and seen: "consumer_inv q ms (C_Loaded h t)"
  shows "readable_frame c la (q\<lparr>hd_pos := h, tl_pos := t\<rparr>) = (None, q') \<Longrightarrow> tl_pos q' = tl_pos q"
    and "readable_frame c la (q\<lparr>hd_pos := h, tl_pos := t\<rparr>) = (Some (t', n), q') \<Longrightarrow>
           \<exists>m rest. ms = m # rest \<and> t' = tl_pos q \<and> n = length m"
proof -
  let ?q = "q\<lparr>hd_pos := h, tl_pos := t\<rparr>"
  obtain k where t: "t = tl_pos q" and rep': "queue_rep c ?q (take k ms)"
    using seen queue_rep_seen [OF rep] by auto
  show "readable_frame c la ?q = (None, q') \<Longrightarrow> tl_pos q' = tl_pos q"
    using rep' t readable_frame_nil [of c ?q la] readable_frame_cons [of c ?q "hd (take k ms)" "tl (take k ms)" la]
    by (cases "take k ms = []") (simp_all del: take_eq_Nil)
  show "\<exists>m rest. ms = m # rest \<and> t' = tl_pos q \<and> n = length m"
    if r: "readable_frame c la ?q = (Some (t', n), q')"
  proof (cases "take k ms")
    case Nil
    then show ?thesis using rep' [unfolded Nil] r readable_frame_nil [of c ?q la] by simp
  next
    case (Cons m rest)
    then have "\<exists>r. ms = m # r" by (cases ms; cases k) auto
    then show ?thesis
      using rep' r Cons t readable_frame_cons [of c ?q m rest la] by auto
  qed
qed

lemma reserve_fits:
  assumes "shared_queue_capacity_valid c" and "message_len_valid c (length msg)"
    and "\<not> c < hd_pos q - tl_pos q" and "\<not> c - (hd_pos q - tl_pos q) < frame_total msg"
  shows "send_fits c msg q"
  using assms send_fits_unat [OF assms(1), of msg]
  by (auto simp: send_fits_def message_len_valid_def used_bytes_def frame_total_def word_less_nat_alt
      unat_sub_if' split: if_splits)

lemma spsc_init_inv: "shared_queue_capacity_valid c \<Longrightarrow> spsc_inv c (spsc_init c a)"
  using fresh_ring_rep [of c a] by (auto simp: spsc_inv_def spsc_init_def)

lemma spsc_step_inv:
  assumes "spsc_step c la ma oa s s'" and "spsc_inv c s"
  shows "spsc_inv c s'"
proof -
  obtain ms where rep: "queue_rep c (shared s) ms" and hist: "sent s = received s @ ms"
    and P: "producer_inv c (shared s) (prod_pc s)" and C: "consumer_inv (shared s) ms (cons_pc s)"
    using assms(2) by (auto simp: spsc_inv_def)
  have valid: "shared_queue_capacity_valid c" using rep by (simp add: queue_rep_def ring_wf_def)
  show ?thesis
    using assms(1)
  proof cases
    case (reserve msg used)
    then show ?thesis
      using rep hist P C reserve_fits [OF valid, of msg "shared s"] by (intro spsc_invI [of c _ ms]) simp_all
  next
    case (write_length msg h)
    then show ?thesis
      using rep hist P C producer_steps(1,2) [OF rep, of msg la] by (intro spsc_invI [of c _ ms]) simp_all
  next
    case (write_payload msg h)
    then show ?thesis
      using rep hist P C producer_steps(3,4) [OF rep, of msg ma] by (intro spsc_invI [of c _ ms]) simp_all
  next
    case (publish msg h)
    then have "queue_rep c (shared s') (ms @ [msg])" and "consumer_inv (shared s') (ms @ [msg]) (cons_pc s')"
      using P publish_rep [OF rep, of msg] consumer_inv_publish [OF C] by auto
    then show ?thesis
      using publish hist by (intro spsc_invI [of c _ "ms @ [msg]"]) simp_all
  next
    case load
    have "hd_pos (shared s) = tl_pos (shared s) + word_of_nat (length (concat (map frame (take (length ms) ms))))"
      using queue_rep_length [OF rep] by (simp add: hd_pos_used [of "shared s"])
    then have "consumer_inv (shared s) ms (C_Loaded (hd_pos (shared s)) (tl_pos (shared s)))"
      by (auto intro!: exI [of _ "length ms"])
    then show ?thesis
      using rep hist P load by (intro spsc_invI [of c _ ms]) simp_all
  next
    case (decode_frame h t t' n q)
    note seen = consumer_seen [OF rep C [unfolded decode_frame(2)]]
    obtain m rest where "ms = m # rest" "t' = tl_pos (shared s)" "n = length m"
      using seen(2) [OF decode_frame(3)] by blast
    then show ?thesis
      using decode_frame rep hist P by (intro spsc_invI [of c _ ms]) simp_all
  next
    case (decode_nothing h t q)
    note seen = consumer_seen [OF rep C [unfolded decode_nothing(2)]]
    have "(shared s)\<lparr>tl_pos := tl_pos q\<rparr> = shared s"
      using seen(1) [OF decode_nothing(3)] by simp
    then show ?thesis
      using decode_nothing rep hist P by (intro spsc_invI [of c _ ms]) simp_all
  next
    case (copy_payload t n)
    then obtain m rest where m: "ms = m # rest" "t = tl_pos (shared s)" "n = length m"
      using C by auto
    then have "read_bytes c oa (t + word_of_nat MSG_HEADER_SIZE) n (shared s) = m"
      using queue_rep_cons(4) [of c "shared s" m rest oa] rep by (simp add: MSG_HEADER_SIZE_def)
    then show ?thesis
      using copy_payload m rep hist P by (intro spsc_invI [of c _ ms]) simp_all
  next
    case (release t n msg)
    then obtain rest where m: "ms = msg # rest" "t = tl_pos (shared s)" "n = length msg"
      using C by auto
    with rep P have "queue_rep c (shared s') rest" "producer_inv c (shared s') (prod_pc s')"
      using release consume_frame_rep [of c "shared s" msg rest]
        producer_inv_consume [of c "shared s" msg rest] by simp_all
    then show ?thesis
      using release hist m by (intro spsc_invI [of c _ rest]) simp_all
  qed
qed

lemma reachable_inv: "spsc_reachable c la ma oa s \<Longrightarrow> spsc_inv c s"
  by (induction rule: spsc_reachable.induct) (auto intro: spsc_init_inv spsc_step_inv)


section \<open>Whole operations are runs of steps\<close>

lemma send_is_run:
  assumes idle: "prod_pc s = P_Idle" and ok: "try_send c la ma msg (shared s) = (Inr (), q')"
  shows "(spsc_step c la ma oa)\<^sup>*\<^sup>* s (s\<lparr>shared := q', sent := sent s @ [msg]\<rparr>)"
proof -
  let ?h = "hd_pos (shared s)" and ?l = "to_le_bytes (word_of_nat (length msg) :: u32)"
  let ?q1 = "write_bytes c la ?h ?l (shared s)"
  let ?q2 = "write_bytes c ma (?h + word_of_nat MSG_HEADER_SIZE) msg ?q1"
  have g: "message_len_valid c (length msg)" "\<not> c < ?h - tl_pos (shared s)"
    "\<not> c - (?h - tl_pos (shared s)) < frame_total msg"
    and q': "q' = ?q2\<lparr>hd_pos := ?h + frame_total msg\<rparr>"
    using ok by (auto simp: try_send_def Let_def frame_total_def split: if_splits)
  let ?s1 = "s\<lparr>prod_pc := P_Reserved msg ?h\<rparr>"
  let ?s2 = "?s1\<lparr>shared := ?q1, prod_pc := P_Length msg ?h\<rparr>"
  let ?s3 = "?s2\<lparr>shared := ?q2, prod_pc := P_Payload msg ?h\<rparr>"
  let ?s4 = "?s3\<lparr>shared := q', prod_pc := P_Idle, sent := sent s @ [msg]\<rparr>"
  have "spsc_step c la ma oa s ?s1"
    using idle g by (rule spsc_step.reserve [OF _ _ refl])
  moreover have "spsc_step c la ma oa ?s1 ?s2"
    using spsc_step.write_length [of ?s1 msg ?h c la ma oa] by simp
  moreover have "spsc_step c la ma oa ?s2 ?s3"
    using spsc_step.write_payload [of ?s2 msg ?h c la ma oa] by simp
  moreover have "spsc_step c la ma oa ?s3 ?s4"
    using spsc_step.publish [of ?s3 msg ?h c la ma oa] by (simp add: q')
  moreover have "?s4 = s\<lparr>shared := q', sent := sent s @ [msg]\<rparr>"
    using idle by simp
  ultimately show ?thesis
    by (metis (no_types, lifting) converse_rtranclp_into_rtranclp rtranclp.rtrancl_refl)
qed

lemma recv_is_run:
  assumes idle: "cons_pc s = C_Idle" and ok: "try_recv c la oa (shared s) = (r, q')"
  shows "(spsc_step c la ma oa)\<^sup>*\<^sup>* s
           (s\<lparr>shared := q', received := received s @ (case r of None \<Rightarrow> [] | Some m \<Rightarrow> [m])\<rparr>)"
proof -
  let ?h = "hd_pos (shared s)" and ?t = "tl_pos (shared s)"
  let ?s1 = "s\<lparr>cons_pc := C_Loaded ?h ?t\<rparr>"
  have s1: "spsc_step c la ma oa s ?s1"
    using idle by (rule spsc_step.load)
  obtain f q where f: "readable_frame c la (shared s) = (f, q)" by fastforce
  show ?thesis
  proof (cases f)
    case None
    then have "q' = q" "r = None" "q = (shared s)\<lparr>tl_pos := tl_pos q\<rparr>"
      using f ok by (auto simp: try_recv_def readable_frame_def Let_def split: if_splits)
    then have "spsc_step c la ma oa ?s1 (?s1\<lparr>shared := q, cons_pc := C_Idle\<rparr>)"
      using spsc_step.decode_nothing [of ?s1 ?h ?t c la q ma oa] f None by simp
    moreover have "?s1\<lparr>shared := q, cons_pc := C_Idle\<rparr> = s\<lparr>shared := q, received := received s @ []\<rparr>"
      using idle by simp
    ultimately show ?thesis
      using s1 \<open>q' = q\<close> \<open>r = None\<close> by (simp add: converse_rtranclp_into_rtranclp r_into_rtranclp)
  next
    case (Some tn)
    obtain t n where tn: "tn = (t, n)" by fastforce
    let ?m = "read_bytes c oa (t + word_of_nat MSG_HEADER_SIZE) n (shared s)"
    have r: "q = shared s" "r = Some ?m" "q' = consume_frame t n (shared s)"
      using f ok Some tn by (auto simp: try_recv_def readable_frame_def Let_def split: if_splits)
    let ?s2 = "?s1\<lparr>cons_pc := C_Frame t n\<rparr>" and ?s3 = "?s1\<lparr>cons_pc := C_Copied t n ?m\<rparr>"
    let ?s4 = "?s3\<lparr>shared := q', cons_pc := C_Idle, received := received s @ [?m]\<rparr>"
    have "spsc_step c la ma oa ?s1 ?s2"
      using spsc_step.decode_frame [of ?s1 ?h ?t c la t n q ma oa] f Some tn by simp
    moreover have "spsc_step c la ma oa ?s2 ?s3"
      using spsc_step.copy_payload [of ?s2 t n c la ma oa] by simp
    moreover have "spsc_step c la ma oa ?s3 ?s4"
      using spsc_step.release [of ?s3 t n ?m c la ma oa] by (simp add: r)
    moreover have "?s4 = s\<lparr>shared := q', received := received s @ [?m]\<rparr>"
      using idle by simp
    ultimately have "(spsc_step c la ma oa)\<^sup>*\<^sup>* s (s\<lparr>shared := q', received := received s @ [?m]\<rparr>)"
      using s1 by (metis (no_types, lifting) converse_rtranclp_into_rtranclp rtranclp.rtrancl_refl)
    then show ?thesis by (simp add: r)
  qed
qed

lemma reachable_run:
  "(spsc_step c la ma oa)\<^sup>*\<^sup>* s s' \<Longrightarrow> spsc_reachable c la ma oa s \<Longrightarrow> spsc_reachable c la ma oa s'"
  by (induction rule: rtranclp_induct) (auto intro: spsc_reachable.step)

text \<open>
  C5 (safety). Under every interleaving of the producer's and the consumer's accesses, the messages
  delivered are a prefix of the messages published: nothing is lost, reordered, duplicated or torn.
  A payload the consumer has copied but not yet released is the next message, and the ring always
  holds exactly the frames of the messages in between.
\<close>

theorem interleaved_delivery:
  assumes "spsc_reachable c la ma oa s"
  shows "\<exists>pending. sent s = received s @ pending \<and> queue_rep c (shared s) pending
           \<and> (case cons_pc s of C_Copied t n m \<Rightarrow> \<exists>rest. pending = m # rest | _ \<Rightarrow> True)"
proof -
  obtain ms where "queue_rep c (shared s) ms" "sent s = received s @ ms"
    "consumer_inv (shared s) ms (cons_pc s)"
    using reachable_inv [OF assms] by (auto simp: spsc_inv_def)
  then show ?thesis by (intro exI [of _ ms]) (auto split: consumer_pc.split)
qed

lemma send_run_example:
  "spsc_reachable 4096 0 0 0
     ((spsc_init 4096 0)\<lparr>shared := snd (try_send 4096 0 0 [5, 6] (fresh_ring 4096 0)), sent := [[5, 6]]\<rparr>)"
proof -
  have v: "shared_queue_capacity_valid 4096" and m: "max_message_bytes 4096 = 4092"
    by code_simp+
  have "send_fits 4096 [5, 6] (fresh_ring 4096 0)"
    by (simp add: send_fits_def m used_bytes_def fresh_ring_def)
  then have "try_send 4096 0 0 [5, 6] (fresh_ring 4096 0)
      = (Inr (), snd (try_send 4096 0 0 [5, 6] (fresh_ring 4096 0)))"
    by (simp add: try_send_alt [OF v])
  then have "(spsc_step 4096 0 0 0)\<^sup>*\<^sup>* (spsc_init 4096 0)
     ((spsc_init 4096 0)\<lparr>shared := snd (try_send 4096 0 0 [5, 6] (fresh_ring 4096 0)), sent := [[5, 6]]\<rparr>)"
    using send_is_run [of "spsc_init 4096 0" 4096 0 0 "[5, 6]" _ 0] by (simp add: spsc_init_def)
  then show ?thesis
    by (rule reachable_run) (rule spsc_reachable.init [OF v])
qed

theorem interleaved_delivery_witness:
  "queue_rep 4096 (snd (try_send 4096 0 0 [5, 6] (fresh_ring 4096 0))) [[5, 6]]"
  using interleaved_delivery [OF send_run_example] by (simp add: spsc_init_def)



end
