(* ===== verification/Data_Channel.thy ===== *)
theory Data_Channel
  imports Enclave_Prelude
begin

text \<open>
  The data channel protocol of \<open>common/src/channel.rs\<close>: the message types and their wire values,
  the ranges of connection identifiers, the encoders and decoders of every message payload, and
  the write window that bounds unacknowledged bytes. A \<open>&str\<close> is its UTF-8 bytes.
\<close>

section \<open>Message types\<close>

definition CHANNEL_MSG_HEADER :: nat where "CHANNEL_MSG_HEADER = 5"

definition MAX_CHANNEL_PAYLOAD :: nat where "MAX_CHANNEL_PAYLOAD = 1024 * 1024"

definition CONNECT_REQUEST_ID_BYTES :: nat where "CONNECT_REQUEST_ID_BYTES = 8"

datatype channel_msg_type =
    TcpNew | TcpData | TcpClose | DataReady | TcpConnect | TcpConnected | TcpConnectFailed
  | LocalControlNew | PeerTcpConnect | PeerTcpConnected | Tick | TcpWriteCredit
  | TcpReadControl | TcpReadIdentity

fun msg_type_u8 :: "channel_msg_type \<Rightarrow> u8" where
  "msg_type_u8 TcpNew = 0x01"
| "msg_type_u8 TcpData = 0x02"
| "msg_type_u8 TcpClose = 0x03"
| "msg_type_u8 DataReady = 0x04"
| "msg_type_u8 TcpConnect = 0x05"
| "msg_type_u8 TcpConnected = 0x06"
| "msg_type_u8 TcpConnectFailed = 0x07"
| "msg_type_u8 LocalControlNew = 0x08"
| "msg_type_u8 PeerTcpConnect = 0x09"
| "msg_type_u8 PeerTcpConnected = 0x0A"
| "msg_type_u8 Tick = 0x0B"
| "msg_type_u8 TcpWriteCredit = 0x0C"
| "msg_type_u8 TcpReadControl = 0x0D"
| "msg_type_u8 TcpReadIdentity = 0x0E"

definition msg_type_from_u8 :: "u8 \<Rightarrow> channel_msg_type option" where
  "msg_type_from_u8 val =
     (if val = 0x01 then Some TcpNew
      else if val = 0x02 then Some TcpData
      else if val = 0x03 then Some TcpClose
      else if val = 0x04 then Some DataReady
      else if val = 0x05 then Some TcpConnect
      else if val = 0x06 then Some TcpConnected
      else if val = 0x07 then Some TcpConnectFailed
      else if val = 0x08 then Some LocalControlNew
      else if val = 0x09 then Some PeerTcpConnect
      else if val = 0x0A then Some PeerTcpConnected
      else if val = 0x0B then Some Tick
      else if val = 0x0C then Some TcpWriteCredit
      else if val = 0x0D then Some TcpReadControl
      else if val = 0x0E then Some TcpReadIdentity
      else None)"

datatype tcp_connect_failure = MalformedEndpoint | ConnectionLimit | SocketFailure | Timeout

fun connect_failure_u8 :: "tcp_connect_failure \<Rightarrow> u8" where
  "connect_failure_u8 MalformedEndpoint = 0x01"
| "connect_failure_u8 ConnectionLimit = 0x02"
| "connect_failure_u8 SocketFailure = 0x03"
| "connect_failure_u8 Timeout = 0x04"

definition connect_failure_from_u8 :: "u8 \<Rightarrow> tcp_connect_failure option" where
  "connect_failure_from_u8 val =
     (if val = 0x01 then Some MalformedEndpoint
      else if val = 0x02 then Some ConnectionLimit
      else if val = 0x03 then Some SocketFailure
      else if val = 0x04 then Some Timeout
      else None)"

section \<open>Connection identifiers\<close>

definition CONN_ID_PEER_IN_BASE :: u32 where "CONN_ID_PEER_IN_BASE = 0x40000000"

definition CONN_ID_OUTBOUND_BASE :: u32 where "CONN_ID_OUTBOUND_BASE = 0x80000000"

definition conn_id_is_ingress :: "u32 \<Rightarrow> bool" where
  "conn_id_is_ingress conn_id \<longleftrightarrow> conn_id < CONN_ID_PEER_IN_BASE"

definition conn_id_is_peer_inbound :: "u32 \<Rightarrow> bool" where
  "conn_id_is_peer_inbound conn_id \<longleftrightarrow>
     CONN_ID_PEER_IN_BASE \<le> conn_id \<and> conn_id < CONN_ID_OUTBOUND_BASE"

definition conn_id_is_outbound :: "u32 \<Rightarrow> bool" where
  "conn_id_is_outbound conn_id \<longleftrightarrow> CONN_ID_OUTBOUND_BASE \<le> conn_id"

section \<open>Encoding and decoding\<close>

definition channel_message_length :: "nat \<Rightarrow> nat option" where
  "channel_message_length payload_bytes =
     (if CHANNEL_MSG_HEADER + payload_bytes < 2 ^ 64 then Some (CHANNEL_MSG_HEADER + payload_bytes)
      else None)"

definition encode_channel_msg :: "channel_msg_type \<Rightarrow> u32 \<Rightarrow> bytes \<Rightarrow> bytes" where
  "encode_channel_msg msg_type conn_id payload =
     [msg_type_u8 msg_type] @ to_le_bytes conn_id @ payload"

definition decode_channel_msg :: "bytes \<Rightarrow> (channel_msg_type \<times> u32 \<times> bytes) option" where
  "decode_channel_msg data =
     (if length data < CHANNEL_MSG_HEADER then None
      else
        case msg_type_from_u8 (data ! 0) of
          None \<Rightarrow> None
        | Some msg_type \<Rightarrow>
            let conn_id = from_le_bytes [data ! 1, data ! 2, data ! 3, data ! 4];
                payload = drop CHANNEL_MSG_HEADER data
            in if MAX_CHANNEL_PAYLOAD < length payload then None
               else Some (msg_type, conn_id, payload))"

definition encode_tcp_new :: "u32 \<Rightarrow> bytes \<Rightarrow> bytes" where
  "encode_tcp_new conn_id peer_addr = encode_channel_msg TcpNew conn_id peer_addr"

definition encode_local_control_new :: "u32 \<Rightarrow> bytes" where
  "encode_local_control_new conn_id =
     encode_channel_msg LocalControlNew conn_id (str_bytes ''unix:local-control'')"

definition encode_tcp_data :: "u32 \<Rightarrow> bytes \<Rightarrow> bytes" where
  "encode_tcp_data conn_id data = encode_channel_msg TcpData conn_id data"

definition encode_tcp_write_credit :: "u32 \<Rightarrow> u64 \<Rightarrow> bytes" where
  "encode_tcp_write_credit conn_id written =
     encode_channel_msg TcpWriteCredit conn_id (to_le_bytes written)"

definition decode_tcp_write_credit :: "bytes \<Rightarrow> u64 option" where
  "decode_tcp_write_credit payload =
     (case array_of 8 payload of None \<Rightarrow> None | Some encoded \<Rightarrow> Some (from_le_bytes encoded))"

definition encode_tcp_close :: "u32 \<Rightarrow> bytes" where
  "encode_tcp_close conn_id = encode_channel_msg TcpClose conn_id []"

definition encode_tcp_connect :: "u64 \<Rightarrow> bytes \<Rightarrow> bytes" where
  "encode_tcp_connect request_id endpoint =
     encode_channel_msg TcpConnect 0 (to_le_bytes request_id @ endpoint)"

definition encode_tcp_connected :: "u64 \<Rightarrow> u32 \<Rightarrow> bytes" where
  "encode_tcp_connected request_id conn_id =
     encode_channel_msg TcpConnected conn_id (to_le_bytes request_id)"

definition encode_peer_tcp_connect :: "u32 \<Rightarrow> bytes \<Rightarrow> bytes" where
  "encode_peer_tcp_connect conn_id endpoint = encode_channel_msg PeerTcpConnect conn_id endpoint"

definition encode_peer_tcp_connected :: "u32 \<Rightarrow> bytes" where
  "encode_peer_tcp_connected conn_id = encode_channel_msg PeerTcpConnected conn_id []"

definition encode_tcp_connect_failed :: "u64 \<Rightarrow> tcp_connect_failure \<Rightarrow> bytes" where
  "encode_tcp_connect_failed request_id reason =
     encode_channel_msg TcpConnectFailed 0 (to_le_bytes request_id @ [connect_failure_u8 reason])"

definition decode_tcp_connect :: "bytes \<Rightarrow> (u64 \<times> bytes) option" where
  "decode_tcp_connect payload =
     (if length payload \<le> CONNECT_REQUEST_ID_BYTES then None
      else
        let request_id = from_le_bytes (take CONNECT_REQUEST_ID_BYTES payload)
        in case from_utf8 (drop CONNECT_REQUEST_ID_BYTES payload) of
             None \<Rightarrow> None
           | Some endpoint \<Rightarrow> Some (request_id, endpoint))"

definition decode_tcp_connected :: "bytes \<Rightarrow> u64 option" where
  "decode_tcp_connected payload =
     (if length payload = CONNECT_REQUEST_ID_BYTES then Some (from_le_bytes payload) else None)"

definition decode_tcp_connect_failed :: "bytes \<Rightarrow> (u64 \<times> tcp_connect_failure) option" where
  "decode_tcp_connect_failed payload =
     (if length payload \<noteq> CONNECT_REQUEST_ID_BYTES + 1 then None
      else
        let request_id = from_le_bytes (take CONNECT_REQUEST_ID_BYTES payload)
        in case connect_failure_from_u8 (payload ! CONNECT_REQUEST_ID_BYTES) of
             None \<Rightarrow> None
           | Some reason \<Rightarrow> Some (request_id, reason))"

definition TCP_READ_CONTROL_WORD_BYTES :: nat where "TCP_READ_CONTROL_WORD_BYTES = 8"

definition TCP_READ_CONTROL_COUNTERS :: nat where "TCP_READ_CONTROL_COUNTERS = 2"

definition TCP_READ_CONTROL_PAYLOAD_BYTES :: nat where
  "TCP_READ_CONTROL_PAYLOAD_BYTES = 8 * TCP_READ_CONTROL_COUNTERS + 1"

definition encode_tcp_read_control :: "u32 \<Rightarrow> u64 \<Rightarrow> u64 \<Rightarrow> bool \<Rightarrow> bytes" where
  "encode_tcp_read_control conn_id generation revision paused =
     encode_channel_msg TcpReadControl conn_id
       (to_be_bytes generation @ to_be_bytes revision @ [if paused then 1 else 0])"

definition decode_tcp_read_control :: "bytes \<Rightarrow> (u64 \<times> u64 \<times> bool) option" where
  "decode_tcp_read_control payload =
     (if length payload \<noteq> TCP_READ_CONTROL_PAYLOAD_BYTES
        \<or> 1 < payload ! (TCP_READ_CONTROL_COUNTERS * TCP_READ_CONTROL_WORD_BYTES) then None
      else
        let generation = from_be_bytes (take TCP_READ_CONTROL_WORD_BYTES payload);
            revision = from_be_bytes
              (take (TCP_READ_CONTROL_COUNTERS * TCP_READ_CONTROL_WORD_BYTES - TCP_READ_CONTROL_WORD_BYTES)
                (drop TCP_READ_CONTROL_WORD_BYTES payload))
        in if generation \<noteq> 0 \<and> revision \<noteq> 0
           then Some (generation, revision,
                  payload ! (TCP_READ_CONTROL_COUNTERS * TCP_READ_CONTROL_WORD_BYTES) \<noteq> 0)
           else None)"

definition encode_tcp_read_identity :: "u32 \<Rightarrow> u64 \<Rightarrow> bytes" where
  "encode_tcp_read_identity conn_id generation =
     encode_channel_msg TcpReadIdentity conn_id (to_be_bytes generation)"

definition decode_tcp_read_identity :: "bytes \<Rightarrow> u64 option" where
  "decode_tcp_read_identity payload =
     (case array_of 8 payload of
        None \<Rightarrow> None
      | Some encoded \<Rightarrow>
          let generation = from_be_bytes encoded
          in if generation \<noteq> 0 then Some generation else None)"

section \<open>Write window\<close>

definition TCP_WRITE_WINDOW :: u64 where "TCP_WRITE_WINDOW = 2 * 1024 * 1024"

record tcp_write_window =
  win_sent :: u64
  win_written :: u64

definition window_default :: tcp_write_window where
  "window_default = \<lparr>win_sent = 0, win_written = 0\<rparr>"

definition window_available :: "tcp_write_window \<Rightarrow> u64" where
  "window_available w = TCP_WRITE_WINDOW - (win_sent w - win_written w)"

definition window_send :: "u64 \<Rightarrow> tcp_write_window \<Rightarrow> bool \<times> tcp_write_window" where
  "window_send n w =
     (if window_available w < n then (False, w)
      else case checked_add (win_sent w) n of
             None \<Rightarrow> (False, w)
           | Some next \<Rightarrow> (True, w\<lparr>win_sent := next\<rparr>))"

definition window_acknowledge :: "u64 \<Rightarrow> tcp_write_window \<Rightarrow> bool \<times> tcp_write_window" where
  "window_acknowledge written w =
     (if written < win_written w \<or> win_sent w < written then (False, w)
      else (True, w\<lparr>win_written := written\<rparr>))"

datatype window_event = WSend u64 | WAck u64

fun window_step :: "window_event \<Rightarrow> tcp_write_window \<Rightarrow> bool \<times> tcp_write_window" where
  "window_step (WSend n) w = window_send n w"
| "window_step (WAck k) w = window_acknowledge k w"

fun window_run :: "window_event list \<Rightarrow> tcp_write_window \<Rightarrow> bool list \<times> tcp_write_window" where
  "window_run [] w = ([], w)"
| "window_run (e # es) w =
     (let (ok, w') = window_step e w; (oks, w'') = window_run es w' in (ok # oks, w''))"

section \<open>Codecs\<close>

lemma msg_type_roundtrip [simp]: "msg_type_from_u8 (msg_type_u8 t) = Some t"
  by (cases t) (simp_all add: msg_type_from_u8_def)

lemma msg_type_from_u8_Some: "msg_type_from_u8 b = Some t \<longleftrightarrow> b = msg_type_u8 t"
  by (cases t) (auto simp: msg_type_from_u8_def)

lemma connect_failure_from_u8_Some: "connect_failure_from_u8 b = Some r \<longleftrightarrow> b = connect_failure_u8 r"
  by (cases r) (auto simp: connect_failure_from_u8_def)

lemma list5_cases:
  assumes "5 \<le> length xs"
  obtains a b c d e r where "xs = a # b # c # d # e # r"
  using assms by (auto simp: numeral_eq_Suc Suc_le_length_iff)

lemma list4_cases:
  assumes "length xs = 4"
  obtains a b c d where "xs = [a, b, c, d]"
  using assms by (auto simp: numeral_eq_Suc length_Suc_conv)

interpretation channel_codec: strict_codec
  "\<lambda>(t, i, p). encode_channel_msg t i p" decode_channel_msg
  "\<lambda>(t, i, p). length p \<le> MAX_CHANNEL_PAYLOAD"
proof (unfold_locales, goal_cases)
  case (1 x)
  obtain t i p where x: "x = (t, i, p)" by (cases x)
  obtain a b c d where abcd: "to_le_bytes i = [a, b, c, d]"
    by (rule list4_cases [of "to_le_bytes i"]) simp_all
  have "from_le_bytes [a, b, c, d] = i"
    using from_to_le_bytes(2) [of i] by (simp add: abcd)
  then show ?case
    using 1 by (simp add: x encode_channel_msg_def decode_channel_msg_def abcd CHANNEL_MSG_HEADER_def
        Let_def numeral_eq_Suc)
next
  case (2 bs x)
  obtain t i p where x: "x = (t, i, p)" by (cases x)
  have "5 \<le> length bs"
    using 2 by (auto simp: decode_channel_msg_def CHANNEL_MSG_HEADER_def split: if_splits)
  then obtain a b c d e r where bs: "bs = a # b # c # d # e # r"
    by (rule list5_cases)
  have "a = msg_type_u8 t" and "i = from_le_bytes [b, c, d, e]" and "p = r"
    and "length p \<le> MAX_CHANNEL_PAYLOAD"
    using 2 by (auto simp: x bs decode_channel_msg_def CHANNEL_MSG_HEADER_def Let_def
        msg_type_from_u8_Some numeral_eq_Suc split: if_splits option.splits)
  then show ?case
    by (simp add: x bs encode_channel_msg_def to_from_le_bytes)
qed

interpretation write_credit_codec: strict_codec to_le_bytes decode_tcp_write_credit "\<lambda>_. True"
  by unfold_locales
    (auto simp: decode_tcp_write_credit_def array_of_def to_from_le_bytes split: if_splits)

interpretation tcp_connected_codec: strict_codec to_le_bytes decode_tcp_connected "\<lambda>_. True"
  by unfold_locales
    (auto simp: decode_tcp_connected_def CONNECT_REQUEST_ID_BYTES_def to_from_le_bytes split: if_splits)

interpretation read_identity_codec: strict_codec to_be_bytes decode_tcp_read_identity "\<lambda>g. g \<noteq> 0"
  by unfold_locales
    (auto simp: decode_tcp_read_identity_def array_of_def Let_def to_from_be_bytes split: if_splits)

interpretation tcp_connect_codec: strict_codec
  "\<lambda>(i, e). to_le_bytes (i :: u64) @ e" decode_tcp_connect "\<lambda>(i, e). e \<noteq> [] \<and> utf8_valid e"
proof (unfold_locales, goal_cases)
  case (1 x)
  then show ?case
    by (cases x) (simp add: decode_tcp_connect_def CONNECT_REQUEST_ID_BYTES_def Let_def from_utf8_def)
next
  case (2 bs x)
  then have len: "8 < length bs" and u: "utf8_valid (drop 8 bs)"
    and x: "x = (from_le_bytes (take 8 bs), drop 8 bs)"
    by (auto simp: decode_tcp_connect_def CONNECT_REQUEST_ID_BYTES_def Let_def from_utf8_def
        split: if_splits)
  have "to_le_bytes (from_le_bytes (take 8 bs) :: u64) = take 8 bs"
    using len by (intro to_from_le_bytes(3)) simp
  then show ?case using len u by (simp add: x)
qed

interpretation connect_failed_codec: strict_codec
  "\<lambda>(i, r). to_le_bytes (i :: u64) @ [connect_failure_u8 r]" decode_tcp_connect_failed "\<lambda>_. True"
proof (unfold_locales, goal_cases)
  case (1 x)
  have "connect_failure_from_u8 (connect_failure_u8 r) = Some r" for r
    by (simp add: connect_failure_from_u8_Some)
  then show ?case
    by (cases x) (simp add: decode_tcp_connect_failed_def CONNECT_REQUEST_ID_BYTES_def Let_def
        nth_append)
next
  case (2 bs x)
  obtain i r where x: "x = (i, r)" by (cases x)
  have len: "length bs = 9" and i: "i = from_le_bytes (take 8 bs)"
    and r: "bs ! 8 = connect_failure_u8 r"
    using 2 by (auto simp: x decode_tcp_connect_failed_def CONNECT_REQUEST_ID_BYTES_def Let_def
        connect_failure_from_u8_Some split: if_splits option.splits)
  have "to_le_bytes i = take 8 bs"
    unfolding i using len by (intro to_from_le_bytes(3)) simp
  moreover have "bs = take 8 bs @ [bs ! 8]"
    using len take_Suc_conv_app_nth [of 8 bs] by simp
  ultimately show ?case by (simp add: x r [symmetric])
qed

lemma byte_le_1: "(b :: byte) \<le> 1 \<Longrightarrow> b = 0 \<or> b = 1"
  by (simp add: word_le_nat_alt word_unat_eq_iff) arith

definition read_control_payload :: "u64 \<times> u64 \<times> bool \<Rightarrow> bytes" where
  "read_control_payload = (\<lambda>(g, v, p). to_be_bytes g @ to_be_bytes v @ [if p then 1 else 0])"

lemmas read_control_sizes =
  TCP_READ_CONTROL_PAYLOAD_BYTES_def TCP_READ_CONTROL_COUNTERS_def TCP_READ_CONTROL_WORD_BYTES_def

interpretation read_control_codec: strict_codec
  read_control_payload decode_tcp_read_control "\<lambda>(g, v, p). g \<noteq> 0 \<and> v \<noteq> 0"
proof (unfold_locales, goal_cases)
  case (1 x)
  then show ?case
    by (cases x) (simp add: read_control_payload_def decode_tcp_read_control_def read_control_sizes
        Let_def nth_append)
next
  case (2 bs x)
  obtain g v p where x: "x = (g, v, p)" by (cases x)
  have len: "length bs = 17" and b: "bs ! 16 \<le> 1"
    and g: "g = from_be_bytes (take 8 bs)" "g \<noteq> 0"
    and v: "v = from_be_bytes (take 8 (drop 8 bs))" "v \<noteq> 0" and p: "p = (bs ! 16 \<noteq> 0)"
    using 2 by (auto simp: x decode_tcp_read_control_def read_control_sizes Let_def not_less
        split: if_splits)
  have "to_be_bytes g = take 8 bs" and "to_be_bytes v = take 8 (drop 8 bs)"
    using len by (simp_all add: g v to_from_be_bytes)
  moreover have "(if p then 1 else 0) = bs ! 16"
    using b p byte_le_1 [of "bs ! 16"] by auto
  moreover have "bs = take 8 bs @ take 8 (drop 8 bs) @ [bs ! 16]"
    using len take_Suc_conv_app_nth [of 16 bs] take_add [of 8 8 bs] by simp
  ultimately show ?case using g v by (simp add: x read_control_payload_def)
qed

section \<open>The write window\<close>

definition window_inv :: "tcp_write_window \<Rightarrow> bool" where
  "window_inv w \<longleftrightarrow>
     unat (win_written w) \<le> unat (win_sent w)
     \<and> unat (win_sent w) \<le> unat (win_written w) + unat TCP_WRITE_WINDOW"

lemma window_available_unat:
  assumes "window_inv w"
  shows "unat (window_available w) = unat TCP_WRITE_WINDOW - (unat (win_sent w) - unat (win_written w))"
proof -
  have "unat (win_sent w - win_written w) = unat (win_sent w) - unat (win_written w)"
    using assms by (intro unat_sub_le) (simp add: window_inv_def word_le_nat_alt)
  moreover from this have "win_sent w - win_written w \<le> TCP_WRITE_WINDOW"
    using assms by (auto simp: window_inv_def word_le_nat_alt TCP_WRITE_WINDOW_def)
  ultimately show ?thesis
    by (simp add: window_available_def unat_sub_le)
qed

lemma window_send_inv:
  assumes inv: "window_inv w" and s: "window_send n w = (ok, w')"
  shows "window_inv w'"
    and "ok \<longleftrightarrow> unat (win_sent w) + unat n \<le> unat (win_written w) + unat TCP_WRITE_WINDOW
               \<and> unat (win_sent w) + unat n < 2 ^ 64"
    and "unat (win_sent w') = unat (win_sent w) + (if ok then unat n else 0)"
    and "win_written w' = win_written w"
  using s inv window_available_unat [OF inv]
  by (auto simp: window_send_def window_inv_def checked_add_def word_less_nat_alt unat_add_small
      split: if_splits)

lemma window_acknowledge_inv:
  assumes inv: "window_inv w" and s: "window_acknowledge k w = (ok, w')"
  shows "window_inv w'"
    and "ok \<longleftrightarrow> win_written w \<le> k \<and> k \<le> win_sent w"
    and "win_written w' = (if ok then k else win_written w)" and "win_sent w' = win_sent w"
  using s inv by (auto simp: window_acknowledge_def window_inv_def not_less word_le_nat_alt
      word_less_nat_alt split: if_splits)

lemma window_step_inv:
  assumes "window_inv w" and "window_step e w = (ok, w')"
  shows "window_inv w' \<and> unat (win_sent w) \<le> unat (win_sent w')
         \<and> unat (win_written w) \<le> unat (win_written w')"
  using assms window_send_inv [of w _ ok w'] window_acknowledge_inv [of w _ ok w']
  by (cases e) (auto simp: word_le_nat_alt)

lemma window_run_inv:
  "window_inv w \<Longrightarrow> window_run es w = (oks, w') \<Longrightarrow>
     window_inv w' \<and> unat (win_sent w) \<le> unat (win_sent w')
     \<and> unat (win_written w) \<le> unat (win_written w')"
proof (induction es arbitrary: w oks)
  case Nil
  then show ?case by simp
next
  case (Cons e es)
  obtain ok w1 where s: "window_step e w = (ok, w1)" by fastforce
  obtain oks1 where "window_run es w1 = (oks1, w')"
    using Cons.prems(2) s by (auto split: prod.splits)
  then show ?case
    using Cons.IH [of w1] window_step_inv [OF Cons.prems(1) s] by fastforce
qed

section \<open>Properties\<close>

text \<open>
  C28 (roundtrip). The channel message format is strict: the decoder returns a message exactly on the
  bytes that encode it, and only for payloads of at most \<open>MAX_CHANNEL_PAYLOAD\<close> bytes.
\<close>

theorem channel_msg_strict:
  "decode_channel_msg data = Some (t, i, p) \<longleftrightarrow>
     length p \<le> MAX_CHANNEL_PAYLOAD \<and> data = encode_channel_msg t i p"
  using channel_codec.dec_iff [of data "(t, i, p)"] by simp

text \<open>
  The payload formats are strict as well: each payload decoder accepts exactly the
  payloads its encoder builds. A connect request has a non-empty UTF-8 endpoint; read controls and
  read identities have non-zero generations and revisions.
\<close>

theorem payload_formats_strict:
  "(decode_tcp_write_credit bs = Some w \<longleftrightarrow>
      encode_channel_msg TcpWriteCredit i bs = encode_tcp_write_credit i w)
   \<and> (decode_tcp_connected bs = Some r \<longleftrightarrow>
      encode_channel_msg TcpConnected i bs = encode_tcp_connected r i)
   \<and> (decode_tcp_connect bs = Some (r, e) \<longleftrightarrow>
      e \<noteq> [] \<and> utf8_valid e \<and> encode_channel_msg TcpConnect 0 bs = encode_tcp_connect r e)
   \<and> (decode_tcp_connect_failed bs = Some (r, f) \<longleftrightarrow>
      encode_channel_msg TcpConnectFailed 0 bs = encode_tcp_connect_failed r f)
   \<and> (decode_tcp_read_control bs = Some (g, v, paused) \<longleftrightarrow>
      g \<noteq> 0 \<and> v \<noteq> 0 \<and> encode_channel_msg TcpReadControl i bs = encode_tcp_read_control i g v paused)
   \<and> (decode_tcp_read_identity bs = Some g \<longleftrightarrow>
      g \<noteq> 0 \<and> encode_channel_msg TcpReadIdentity i bs = encode_tcp_read_identity i g)"
  by (simp add: write_credit_codec.dec_iff tcp_connected_codec.dec_iff tcp_connect_codec.dec_iff
      connect_failed_codec.dec_iff read_control_codec.dec_iff read_identity_codec.dec_iff
      read_control_payload_def encode_channel_msg_def encode_tcp_write_credit_def
      encode_tcp_connected_def encode_tcp_connect_def encode_tcp_connect_failed_def
      encode_tcp_read_control_def encode_tcp_read_identity_def)

text \<open>
  C29 (invariant). From the initial window, after any sequence of sends and acknowledgements, accepted
  or not, the bytes in flight never exceed \<open>TCP_WRITE_WINDOW\<close>, the acknowledged count never passes
  the sent count, and neither counter ever moves back or wraps. A further send is accepted exactly
  when it keeps these bounds.
\<close>

theorem write_window_bounded:
  assumes "window_run es window_default = (oks, w)"
  shows "unat (win_sent w) - unat (win_written w) \<le> unat TCP_WRITE_WINDOW
         \<and> unat (win_written w) \<le> unat (win_sent w)
         \<and> unat (win_sent w) \<le> unat (win_sent (snd (window_step e w)))
         \<and> unat (win_written w) \<le> unat (win_written (snd (window_step e w)))
         \<and> (fst (window_send n w) \<longleftrightarrow>
              unat (win_sent w) + unat n \<le> unat (win_written w) + unat TCP_WRITE_WINDOW
              \<and> unat (win_sent w) + unat n < 2 ^ 64)"
proof -
  have inv: "window_inv w"
    using window_run_inv [of window_default es oks w] assms
    by (simp add: window_inv_def window_default_def)
  then show ?thesis
    using window_step_inv [OF inv surjective_pairing [of "window_step e w"]]
      window_send_inv(2) [OF inv surjective_pairing [of "window_send n w"]]
    unfolding window_inv_def by linarith
qed

theorem write_window_bounded_witness:
  "unat (win_sent (snd (window_run [WSend 5, WAck 3, WAck 1] window_default))) - 3 \<le> unat TCP_WRITE_WINDOW
   \<and> win_written (snd (window_run [WSend 5, WAck 3, WAck 1] window_default)) = 3"
proof -
  have r: "window_run [WSend 5, WAck 3, WAck 1] window_default
      = ([True, True, False], \<lparr>win_sent = 5, win_written = 3\<rparr>)"
    by (simp add: window_send_def window_acknowledge_def window_default_def window_available_def
        TCP_WRITE_WINDOW_def checked_add_def)
  show ?thesis
    using write_window_bounded [OF r, of "WSend 1" 1] unfolding r by simp
qed

text \<open>
  The three connection classes partition the identifiers: every identifier is an
  ingress, a peer-inbound or an outbound one, and exactly one of the three.
\<close>

theorem conn_id_classes:
  "(conn_id_is_ingress i \<and> \<not> conn_id_is_peer_inbound i \<and> \<not> conn_id_is_outbound i)
   \<or> (conn_id_is_peer_inbound i \<and> \<not> conn_id_is_ingress i \<and> \<not> conn_id_is_outbound i)
   \<or> (conn_id_is_outbound i \<and> \<not> conn_id_is_ingress i \<and> \<not> conn_id_is_peer_inbound i)"
  by (auto simp: conn_id_is_ingress_def conn_id_is_peer_inbound_def conn_id_is_outbound_def
      CONN_ID_PEER_IN_BASE_def CONN_ID_OUTBOUND_BASE_def word_less_nat_alt word_le_nat_alt)

end
