(* ===== verification/Wire_Parser.thy ===== *)
theory Wire_Parser
  imports Enclave_Prelude "HOL-Library.Monad_Syntax"
begin

text \<open>
  The reading discipline the binary decoders share: a cursor over the input, each read checked
  against what is left. A parser returns the value and the bytes after it, or \<open>None\<close> where the
  code returns early. The locale \<open>wire_format\<close> is the contract of one parsed element: it reads
  back exactly what the writer wrote and accepts nothing else. Repetition of a format is a format.
\<close>

definition p_bytes :: "nat \<Rightarrow> bytes \<Rightarrow> (bytes \<times> bytes) option" where
  "p_bytes n p = (if length p < n then None else Some (take n p, drop n p))"

definition p_u8 :: "bytes \<Rightarrow> (byte \<times> bytes) option" where
  "p_u8 p = (case p of [] \<Rightarrow> None | b # r \<Rightarrow> Some (b, r))"

definition p_u16 :: "bytes \<Rightarrow> (u16 \<times> bytes) option" where
  "p_u16 p = (if length p < 2 then None else Some (from_le_bytes (take 2 p), drop 2 p))"

definition p_u32 :: "bytes \<Rightarrow> (u32 \<times> bytes) option" where
  "p_u32 p = (if length p < 4 then None else Some (from_le_bytes (take 4 p), drop 4 p))"

definition p_u64 :: "bytes \<Rightarrow> (u64 \<times> bytes) option" where
  "p_u64 p = (if length p < 8 then None else Some (from_le_bytes (take 8 p), drop 8 p))"

text \<open>\<open>for _ in 0..count { ... }\<close>\<close>

fun p_many :: "(bytes \<Rightarrow> ('a \<times> bytes) option) \<Rightarrow> nat \<Rightarrow> bytes \<Rightarrow> ('a list \<times> bytes) option" where
  "p_many f 0 p = Some ([], p)"
| "p_many f (Suc n) p = do { (x, r) \<leftarrow> f p; (xs, r') \<leftarrow> p_many f n r; Some (x # xs, r') }"

section \<open>Formats\<close>

locale wire_format =
  fixes enc :: "'a \<Rightarrow> bytes" and parse :: "bytes \<Rightarrow> ('a \<times> bytes) option" and ok :: "'a \<Rightarrow> bool"
  assumes parse_enc: "ok x \<Longrightarrow> parse (enc x @ r) = Some (x, r)"
    and parse_exact: "parse p = Some (x, r) \<Longrightarrow> ok x \<and> p = enc x @ r"
begin

lemma parse_iff: "parse p = Some (x, r) \<longleftrightarrow> ok x \<and> p = enc x @ r"
  using parse_enc parse_exact by blast

lemma many_enc: "\<forall>x \<in> set xs. ok x \<Longrightarrow> p_many parse (length xs) (concat (map enc xs) @ r) = Some (xs, r)"
  by (induction xs) (simp_all add: parse_enc)

lemma many_exact:
  "p_many parse n p = Some (xs, r) \<Longrightarrow> length xs = n \<and> (\<forall>x \<in> set xs. ok x) \<and> p = concat (map enc xs) @ r"
proof (induction n arbitrary: p xs)
  case (Suc n)
  then obtain x r' ys where "parse p = Some (x, r')" "p_many parse n r' = Some (ys, r)" "xs = x # ys"
    by (auto split: Option.bind_splits)
  then show ?case
    using Suc.IH parse_exact by fastforce
qed simp

lemma many_iff:
  "p_many parse n p = Some (xs, r) \<longleftrightarrow> length xs = n \<and> (\<forall>x \<in> set xs. ok x) \<and> p = concat (map enc xs) @ r"
  using many_enc many_exact by blast

end

lemma p_bytes_iff: "p_bytes n p = Some (x, r) \<longleftrightarrow> length x = n \<and> p = x @ r"
  by (auto simp: p_bytes_def)

lemma take_of_le: "length x = n \<Longrightarrow> take n (x @ r) = x" "length x = n \<Longrightarrow> drop n (x @ r) = r"
  by simp_all

interpretation u8_format: wire_format "\<lambda>b. [b]" p_u8 "\<lambda>_. True"
  by unfold_locales (auto simp: p_u8_def split: list.splits)

interpretation u16_format: wire_format to_le_bytes p_u16 "\<lambda>_. True"
proof
  fix x :: u16 and r p
  show "p_u16 (to_le_bytes x @ r) = Some (x, r)" by (simp add: p_u16_def)
  assume "p_u16 p = Some (x, r)"
  then have "2 \<le> length p" "x = from_le_bytes (take 2 p)" "r = drop 2 p"
    by (auto simp: p_u16_def split: if_splits)
  then show "True \<and> p = to_le_bytes x @ r" by (simp add: to_from_le_bytes)
qed

interpretation u32_format: wire_format to_le_bytes p_u32 "\<lambda>_. True"
proof
  fix x :: u32 and r p
  show "p_u32 (to_le_bytes x @ r) = Some (x, r)" by (simp add: p_u32_def)
  assume "p_u32 p = Some (x, r)"
  then have "4 \<le> length p" "x = from_le_bytes (take 4 p)" "r = drop 4 p"
    by (auto simp: p_u32_def split: if_splits)
  then show "True \<and> p = to_le_bytes x @ r" by (simp add: to_from_le_bytes)
qed

interpretation u64_format: wire_format to_le_bytes p_u64 "\<lambda>_. True"
proof
  fix x :: u64 and r p
  show "p_u64 (to_le_bytes x @ r) = Some (x, r)" by (simp add: p_u64_def)
  assume "p_u64 p = Some (x, r)"
  then have "8 \<le> length p" "x = from_le_bytes (take 8 p)" "r = drop 8 p"
    by (auto simp: p_u64_def split: if_splits)
  then show "True \<and> p = to_le_bytes x @ r" by (simp add: to_from_le_bytes)
qed

lemmas read_iff = u8_format.parse_iff u16_format.parse_iff u32_format.parse_iff u64_format.parse_iff p_bytes_iff

text \<open>Length-prefixed fields with a 16-bit and a 32-bit length.\<close>

definition u16_len :: "bytes \<Rightarrow> bytes" where
  "u16_len x = to_le_bytes (word_of_nat (length x) :: u16) @ x"

definition u32_len :: "bytes \<Rightarrow> bytes" where
  "u32_len x = to_le_bytes (word_of_nat (length x) :: u32) @ x"

definition p_u16_len :: "bytes \<Rightarrow> (bytes \<times> bytes) option" where
  "p_u16_len p = do { (n, r) \<leftarrow> p_u16 p; p_bytes (unat n) r }"

definition p_u32_len :: "bytes \<Rightarrow> (bytes \<times> bytes) option" where
  "p_u32_len p = do { (n, r) \<leftarrow> p_u32 p; p_bytes (unat n) r }"

lemma bind_pair_Some:
  "do { (x, r) \<leftarrow> m; f x r } = Some y \<longleftrightarrow> (\<exists>x r. m = Some (x, r) \<and> f x r = Some y)"
  by (cases m) auto

lemma u16_of_nat_unat: "n < 65536 \<Longrightarrow> unat (word_of_nat n :: u16) = n"
  by (simp add: unat_of_nat)

lemma u32_of_nat_unat: "n < 4294967296 \<Longrightarrow> unat (word_of_nat n :: u32) = n"
  by (simp add: unat_of_nat)

lemma u16_unat_bound: "unat (w :: u16) < 65536"
  using unsigned_less [of w, where ?'a = nat] by simp

lemma u32_unat_bound: "unat (w :: u32) < 4294967296"
  using unsigned_less [of w, where ?'a = nat] by simp

interpretation u16_bytes: wire_format u16_len p_u16_len "\<lambda>x. length x < 65536"
proof
  fix x r p
  show "length x < 65536 \<Longrightarrow> p_u16_len (u16_len x @ r) = Some (x, r)"
    by (simp add: p_u16_len_def u16_len_def u16_format.parse_enc u16_of_nat_unat p_bytes_def)
  assume "p_u16_len p = Some (x, r)"
  then obtain n where "p = to_le_bytes n @ x @ r" "length x = unat (n :: u16)"
    by (auto simp: p_u16_len_def bind_pair_Some read_iff)
  then show "length x < 65536 \<and> p = u16_len x @ r"
    using u16_unat_bound [of n] by (simp add: u16_len_def)
qed

interpretation u32_bytes: wire_format u32_len p_u32_len "\<lambda>x. length x < 4294967296"
proof
  fix x r p
  show "length x < 4294967296 \<Longrightarrow> p_u32_len (u32_len x @ r) = Some (x, r)"
    by (simp add: p_u32_len_def u32_len_def u32_format.parse_enc u32_of_nat_unat p_bytes_def)
  assume "p_u32_len p = Some (x, r)"
  then obtain n where "p = to_le_bytes n @ x @ r" "length x = unat (n :: u32)"
    by (auto simp: p_u32_len_def bind_pair_Some read_iff)
  then show "length x < 4294967296 \<and> p = u32_len x @ r"
    using u32_unat_bound [of n] by (simp add: u32_len_def)
qed

text \<open>A 32-bit count followed by that many elements.\<close>

definition p_counted :: "(bytes \<Rightarrow> ('a \<times> bytes) option) \<Rightarrow> bytes \<Rightarrow> ('a list \<times> bytes) option" where
  "p_counted f p = do { (n, r) \<leftarrow> p_u32 p; p_many f (unat n) r }"

definition counted :: "('a \<Rightarrow> bytes) \<Rightarrow> 'a list \<Rightarrow> bytes" where
  "counted e xs = to_le_bytes (word_of_nat (length xs) :: u32) @ concat (map e xs)"

context wire_format
begin

lemma counted_iff:
  "p_counted parse p = Some (xs, r) \<longleftrightarrow>
     length xs < 4294967296 \<and> (\<forall>x \<in> set xs. ok x) \<and> p = counted enc xs @ r"
proof
  assume "p_counted parse p = Some (xs, r)"
  then obtain n :: u32 where "p = to_le_bytes n @ concat (map enc xs) @ r" "length xs = unat n" "\<forall>x \<in> set xs. ok x"
    by (auto simp: p_counted_def bind_pair_Some read_iff many_iff)
  then show "length xs < 4294967296 \<and> (\<forall>x \<in> set xs. ok x) \<and> p = counted enc xs @ r"
    using u32_unat_bound [of n] by (simp add: counted_def)
next
  assume "length xs < 4294967296 \<and> (\<forall>x \<in> set xs. ok x) \<and> p = counted enc xs @ r"
  then show "p_counted parse p = Some (xs, r)"
    by (simp add: p_counted_def counted_def u32_format.parse_enc u32_of_nat_unat many_enc)
qed

end

end
