(* ===== verification/Ordered_Map.thy ===== *)
theory Ordered_Map
  imports Enclave_Prelude "HOL-Library.List_Lexorder"
begin

text \<open>
  \<open>BTreeMap\<close> of the standard library as the sources use it: insertion that replaces, removal,
  lookup, and iteration in ascending key order. The model is the ascending list of its entries.
  The contract of the operations is the locale \<open>ordered_map\<close>; clients use its lemmas.
\<close>

type_synonym ('k, 'v) btree = "('k \<times> 'v) list"

definition bt_new :: "('k, 'v) btree" where
  "bt_new = []"

definition bt_get :: "('k, 'v) btree \<Rightarrow> 'k \<Rightarrow> 'v option" where
  "bt_get m k = map_of m k"

fun bt_insert :: "'k::linorder \<Rightarrow> 'v \<Rightarrow> ('k, 'v) btree \<Rightarrow> ('k, 'v) btree" where
  "bt_insert k v [] = [(k, v)]"
| "bt_insert k v ((k', v') # m) =
     (if k < k' then (k, v) # (k', v') # m
      else if k = k' then (k, v) # m
      else (k', v') # bt_insert k v m)"

definition bt_remove :: "'k \<Rightarrow> ('k, 'v) btree \<Rightarrow> ('k, 'v) btree" where
  "bt_remove k m = filter (\<lambda>e. fst e \<noteq> k) m"

definition bt_inv :: "('k::linorder, 'v) btree \<Rightarrow> bool" where
  "bt_inv m \<longleftrightarrow> sorted_wrt (<) (map fst m)"

section \<open>The interface\<close>

locale ordered_map =
  fixes inv :: "'m \<Rightarrow> bool" and new :: 'm and get :: "'m \<Rightarrow> 'k \<Rightarrow> 'v option"
    and insert_entry :: "'k \<Rightarrow> 'v \<Rightarrow> 'm \<Rightarrow> 'm" and remove_entry :: "'k \<Rightarrow> 'm \<Rightarrow> 'm"
    and entries :: "'m \<Rightarrow> ('k \<times> 'v) list"
  assumes inv_new: "inv new" and get_new: "get new k = None"
    and inv_insert: "inv m \<Longrightarrow> inv (insert_entry k v m)"
    and get_insert: "inv m \<Longrightarrow> get (insert_entry k v m) k' = (if k' = k then Some v else get m k')"
    and inv_remove: "inv m \<Longrightarrow> inv (remove_entry k m)"
    and get_remove: "inv m \<Longrightarrow> get (remove_entry k m) k' = (if k' = k then None else get m k')"
    and entries_get: "inv m \<Longrightarrow> (k, v) \<in> set (entries m) \<longleftrightarrow> get m k = Some v"
    and entries_ext: "inv m \<Longrightarrow> inv m' \<Longrightarrow> (\<And>k. get m k = get m' k) \<Longrightarrow> entries m = entries m'"
begin

text \<open>Collecting a list of entries, later ones winning.\<close>

definition collect :: "('k \<times> 'v) list \<Rightarrow> 'm" where
  "collect es = foldl (\<lambda>m (k, v). insert_entry k v m) new es"

lemma inv_fold: "inv m \<Longrightarrow> inv (foldl (\<lambda>m (k, v). insert_entry k v m) m es)"
  by (induction es arbitrary: m) (auto simp: inv_insert)

lemma get_fold:
  "inv m \<Longrightarrow> get (foldl (\<lambda>m (k, v). insert_entry k v m) m es) k =
     (case map_of (rev es) k of Some v \<Rightarrow> Some v | None \<Rightarrow> get m k)"
proof (induction es arbitrary: m)
  case Nil
  then show ?case by simp
next
  case (Cons e es)
  obtain k' v' where e: "e = (k', v')" by fastforce
  show ?case
    using Cons.IH [of "insert_entry k' v' m"] Cons.prems
    by (auto simp: e inv_insert get_insert map_add_def split: option.splits)
qed

lemma inv_collect: "inv (collect es)"
  by (simp add: collect_def inv_fold inv_new)

lemma get_collect: "get (collect es) k = map_of (rev es) k"
  by (simp add: collect_def get_fold inv_new get_new split: option.split)

lemma collect_entries_eq:
  "map_of (rev es) = map_of (rev es') \<Longrightarrow> entries (collect es) = entries (collect es')"
  by (intro entries_ext inv_collect) (simp add: get_collect)

end

section \<open>The sorted list satisfies it\<close>

lemma bt_inv_distinct: "bt_inv m \<Longrightarrow> distinct (map fst m)"
  by (simp add: bt_inv_def strict_sorted_iff)

lemma bt_insert_keys: "set (map fst (bt_insert k v m)) = insert k (set (map fst m))"
  by (induction k v m rule: bt_insert.induct) auto

lemma bt_insert_inv: "bt_inv m \<Longrightarrow> bt_inv (bt_insert k v m)"
proof (induction k v m rule: bt_insert.induct)
  case (1 k v)
  then show ?case by (simp add: bt_inv_def)
next
  case (2 k v k' v' m)
  then show ?case
    using bt_insert_keys [of k v m] by (auto simp: bt_inv_def)
qed

lemma bt_get_insert:
  "bt_inv m \<Longrightarrow> bt_get (bt_insert k v m) x = (if x = k then Some v else bt_get m x)"
  by (induction k v m rule: bt_insert.induct) (auto simp: bt_inv_def bt_get_def)

lemma bt_remove_inv: "bt_inv m \<Longrightarrow> bt_inv (bt_remove k m)"
  by (induction m) (auto simp: bt_inv_def bt_remove_def)

lemma bt_get_remove: "bt_get (bt_remove k m) x = (if x = k then None else bt_get m x)"
  by (induction m) (auto simp: bt_get_def bt_remove_def)

lemma bt_entries_get: "bt_inv m \<Longrightarrow> (k, v) \<in> set m \<longleftrightarrow> bt_get m k = Some v"
  by (metis bt_get_def bt_inv_distinct map_of_eq_Some_iff)

lemma bt_sorted_set_unique:
  "\<lbrakk>bt_inv m; bt_inv m'; set m = set m'\<rbrakk> \<Longrightarrow> m = m'"
proof (induction m arbitrary: m')
  case Nil
  then show ?case by simp
next
  case (Cons e m)
  then obtain e' n where m': "m' = e' # n" by (cases m') auto
  have lt: "\<forall>x\<in>set m. fst e < fst x" "\<forall>x\<in>set n. fst e' < fst x"
    and inv: "bt_inv m" "bt_inv n"
    using Cons.prems by (auto simp: bt_inv_def m')
  have "e = e'"
    using lt Cons.prems(3) unfolding m' by (metis list.set_intros(1) order_less_asym set_ConsD)
  moreover have "e \<notin> set m" "e' \<notin> set n"
    using lt by auto
  ultimately have "set m = set n"
    using Cons.prems(3) by (auto simp: m')
  then show ?case
    using Cons.IH [OF inv] \<open>e = e'\<close> by (simp add: m')
qed

lemma bt_ext:
  assumes "bt_inv m" "bt_inv m'" "\<And>k. bt_get m k = bt_get m' k"
  shows "m = m'"
  using assms by (intro bt_sorted_set_unique) (auto simp: bt_entries_get)

interpretation btree: ordered_map bt_inv bt_new bt_get bt_insert bt_remove "\<lambda>m. m"
  by unfold_locales
    (auto simp: bt_new_def bt_insert_inv bt_get_insert bt_remove_inv bt_get_remove bt_entries_get
      intro: bt_ext, auto simp: bt_inv_def bt_get_def)

end
