(* ===== verification/Merkle_Node.thy ===== *)
theory Merkle_Node
  imports Ordered_Map
begin

text \<open>
  The nodes of the Merkle store: \<open>crates/enclave-os-merkle/src/hash.rs\<close>, \<open>node.rs\<close> and
  \<open>error.rs\<close>. SHA-256 is a function parameter \<open>H\<close>; a \<open>[u8; 32]\<close> is a byte list whose
  length is part of the well-formedness predicates. The theory holds the tagged hashes, the nibble
  and node-key encodings, the node codec with its strictness, and the binary hash over the
  sixteen child slots.
\<close>

section \<open>Errors (error.rs)\<close>

text \<open>
  The interpolated part of a message is left out. A panic of the code (an index out of range) is a
  value of its own.
\<close>

datatype merkle_error = Backend int | Corrupted string | Missing string | Invalid string

section \<open>Hashes (hash.rs)\<close>

definition HASH_SIZE :: nat where
  "HASH_SIZE = 32"

definition TAG_LEAF :: bytes where
  "TAG_LEAF = str_bytes ''enclave-os-merkle:leaf:v1''"

definition TAG_INTERNAL :: bytes where
  "TAG_INTERNAL = str_bytes ''enclave-os-merkle:node:v1''"

definition TAG_PLACEHOLDER :: bytes where
  "TAG_PLACEHOLDER = str_bytes ''ENCLAVE_OS_MERKLE_PLACEHOLDER''"

definition sha256_parts :: "(bytes \<Rightarrow> bytes) \<Rightarrow> bytes list \<Rightarrow> bytes" where
  "sha256_parts H parts = H (concat parts)"

definition placeholder :: "(bytes \<Rightarrow> bytes) \<Rightarrow> bytes" where
  "placeholder H = sha256_parts H [TAG_PLACEHOLDER]"

definition leaf_hash :: "(bytes \<Rightarrow> bytes) \<Rightarrow> bytes \<Rightarrow> bytes \<Rightarrow> bytes" where
  "leaf_hash H path vh = sha256_parts H [TAG_LEAF, path, vh]"

definition internal_hash :: "(bytes \<Rightarrow> bytes) \<Rightarrow> bytes \<Rightarrow> bytes \<Rightarrow> bytes" where
  "internal_hash H left right = sha256_parts H [TAG_INTERNAL, left, right]"

section \<open>Paths and node keys (node.rs)\<close>

definition NIBBLES :: nat where
  "NIBBLES = 64"

text \<open>Nibble \<open>i\<close> of a path; the slice index \<open>path[i / 2]\<close> is in range for \<open>i < 64\<close>.\<close>

definition nibble :: "bytes \<Rightarrow> nat \<Rightarrow> byte" where
  "nibble path i = (if even i then drop_bit 4 (path ! (i div 2)) else path ! (i div 2) AND 0x0F)"

datatype node_key = NodeKey (nk_version: u64) (nk_prefix: bytes)

definition node_key_root :: "u64 \<Rightarrow> node_key" where
  "node_key_root version = NodeKey version []"

text \<open>The derived \<open>Ord\<close> of \<open>NodeKey\<close>: version first, then the prefix.\<close>

instantiation node_key :: linorder
begin

definition less_eq_node_key :: "node_key \<Rightarrow> node_key \<Rightarrow> bool" where
  "less_eq_node_key a b \<longleftrightarrow> nk_version a < nk_version b \<or>
     nk_version a = nk_version b \<and> nk_prefix a \<le> nk_prefix b"

definition less_node_key :: "node_key \<Rightarrow> node_key \<Rightarrow> bool" where
  "less_node_key a b \<longleftrightarrow> nk_version a < nk_version b \<or>
     nk_version a = nk_version b \<and> nk_prefix a < nk_prefix b"

instance
  by standard
    (auto simp: less_eq_node_key_def less_node_key_def intro: node_key.expand)

end

text \<open>The \<open>while\<close> loop of \<open>NodeKey::encode\<close>: two nibbles per byte, the last one padded.\<close>

fun pack_nibbles :: "bytes \<Rightarrow> bytes" where
  "pack_nibbles [] = []"
| "pack_nibbles [hi] = [push_bit 4 hi OR 0]"
| "pack_nibbles (hi # lo # rest) = (push_bit 4 hi OR lo) # pack_nibbles rest"

definition node_key_encode :: "node_key \<Rightarrow> bytes" where
  "node_key_encode nk =
     to_be_bytes (nk_version nk) @ [word_of_nat (length (nk_prefix nk))] @ pack_nibbles (nk_prefix nk)"

section \<open>Nodes\<close>

record child =
  c_version :: u64
  c_hash :: bytes
  c_is_leaf :: bool

record leaf_node =
  lf_path :: bytes
  lf_vh :: bytes
  lf_value_version :: u64

datatype node = Internal (node_children: "child option list") | Leaf (node_leaf: leaf_node)

definition NODE_TAG_INTERNAL :: byte where
  "NODE_TAG_INTERNAL = 1"

definition NODE_TAG_LEAF :: byte where
  "NODE_TAG_LEAF = 2"

definition node_is_leaf :: "node \<Rightarrow> bool" where
  "node_is_leaf n = (case n of Leaf _ \<Rightarrow> True | Internal _ \<Rightarrow> False)"

definition child_bitmap :: "child option list \<Rightarrow> u16" where
  "child_bitmap cs =
     fold (\<lambda>i bitmap. if cs ! i \<noteq> None then bitmap OR push_bit i 1 else bitmap) [0..<length cs] 0"

definition encode_child :: "child \<Rightarrow> bytes" where
  "encode_child c = to_be_bytes (c_version c) @ c_hash c @ [if c_is_leaf c then 1 else 0]"

text \<open>\<open>children.iter().flatten()\<close>\<close>

definition flatten :: "'a option list \<Rightarrow> 'a list" where
  "flatten cs = map the (filter (\<lambda>c. c \<noteq> None) cs)"

definition node_encode :: "node \<Rightarrow> bytes" where
  "node_encode n =
     (case n of
        Leaf leaf \<Rightarrow> [NODE_TAG_LEAF] @ lf_path leaf @ lf_vh leaf @ to_be_bytes (lf_value_version leaf)
      | Internal cs \<Rightarrow> [NODE_TAG_INTERNAL] @ to_le_bytes (child_bitmap cs) @
          concat (map encode_child (flatten cs)))"

definition count_ones :: "u16 \<Rightarrow> nat" where
  "count_ones w = length (filter (\<lambda>i. w AND push_bit i 1 \<noteq> 0) [0..<16])"

text \<open>The loop over the sixteen slots; \<open>off\<close> is the offset of the next entry.\<close>

fun decode_children :: "u16 \<Rightarrow> bytes \<Rightarrow> nat list \<Rightarrow> nat \<Rightarrow> merkle_error + child option list" where
  "decode_children bitmap data [] off = Inr []"
| "decode_children bitmap data (i # is) off =
     (if bitmap AND push_bit i 1 = 0 then
        (case decode_children bitmap data is off of Inl e \<Rightarrow> Inl e | Inr cs \<Rightarrow> Inr (None # cs))
      else
        let version = from_be_bytes (take 8 (drop off data));
            hash = take HASH_SIZE (drop (off + 8) data);
            flag = data ! (off + 8 + HASH_SIZE)
        in if flag \<noteq> 0 \<and> flag \<noteq> 1 then Inl (Corrupted ''node decode: bad is_leaf flag'')
           else case decode_children bitmap data is (off + (8 + HASH_SIZE + 1)) of
                  Inl e \<Rightarrow> Inl e
                | Inr cs \<Rightarrow> Inr (Some \<lparr>c_version = version, c_hash = hash, c_is_leaf = (flag = 1)\<rparr> # cs))"

definition node_decode :: "bytes \<Rightarrow> merkle_error + node" where
  "node_decode data =
     (case data of
        [] \<Rightarrow> Inl (Corrupted ''node decode: unknown tag'')
      | tag # _ \<Rightarrow>
          if tag = NODE_TAG_LEAF then
            if length data \<noteq> 1 + 2 * HASH_SIZE + 8 then Inl (Corrupted ''node decode: bad leaf length'')
            else Inr (Leaf \<lparr>lf_path = take HASH_SIZE (drop 1 data),
                            lf_vh = take HASH_SIZE (drop (1 + HASH_SIZE) data),
                            lf_value_version = from_be_bytes (drop (1 + 2 * HASH_SIZE) data)\<rparr>)
          else if tag = NODE_TAG_INTERNAL then
            if length data < 3 then Inl (Corrupted ''node decode: internal too short'')
            else let bitmap = from_le_bytes [data ! 1, data ! 2]; count = count_ones bitmap in
              if count = 0 then Inl (Corrupted ''node decode: internal with no children'')
              else if length data \<noteq> 3 + count * (8 + HASH_SIZE + 1)
                then Inl (Corrupted ''node decode: bad internal length'')
              else case decode_children bitmap data [0..<16] 3 of
                     Inl e \<Rightarrow> Inl e | Inr cs \<Rightarrow> Inr (Internal cs)
          else Inl (Corrupted ''node decode: unknown tag''))"

text \<open>The binary hash over the slots \<open>start ..< start + width\<close>; widths are 16, 8, 4, 2, 1.\<close>

lemma subtree_hash_halves: "flatten (take w xs) \<noteq> [] \<Longrightarrow> w div 2 < w"
  by (cases w) (auto simp: flatten_def)

function subtree_hash :: "(bytes \<Rightarrow> bytes) \<Rightarrow> child option list \<Rightarrow> nat \<Rightarrow> nat \<Rightarrow> bytes" where
  "subtree_hash H children start width =
     (let present = flatten (take width (drop start children)) in
      if length present = 0 then placeholder H
      else if length present = 1 \<and> (width = 1 \<or> c_is_leaf (present ! 0)) then c_hash (present ! 0)
      else let half = width div 2;
               left = subtree_hash H children start half;
               right = subtree_hash H children (start + half) half
           in internal_hash H left right)"
  by pat_completeness auto

termination
  by (relation "measure (\<lambda>(H, children, start, width). width)") (auto dest: subtree_hash_halves)

declare subtree_hash.simps [simp del]

definition node_hash :: "(bytes \<Rightarrow> bytes) \<Rightarrow> node \<Rightarrow> bytes" where
  "node_hash H n =
     (case n of Leaf leaf \<Rightarrow> leaf_hash H (lf_path leaf) (lf_vh leaf)
      | Internal cs \<Rightarrow> subtree_hash H cs 0 16)"

section \<open>The node codec is strict\<close>

lemma length_placeholder: "(\<And>x. length (H x) = 32) \<Longrightarrow> length (placeholder H) = HASH_SIZE"
  by (simp add: placeholder_def sha256_parts_def HASH_SIZE_def)

lemma flatten_simps [simp]:
  "flatten [] = []" "flatten (None # cs) = flatten cs" "flatten (Some c # cs) = c # flatten cs"
  "flatten (cs @ ds) = flatten cs @ flatten ds"
  by (simp_all add: flatten_def)

lemma flatten_mem: "c \<in> set (flatten cs) \<longleftrightarrow> Some c \<in> set cs"
  by (induction cs) (auto simp: flatten_def)

lemma flatten_Nil_iff: "flatten cs = [] \<longleftrightarrow> (\<forall>c \<in> set cs. c = None)"
  by (induction cs) (auto simp: flatten_def)

definition child_ok :: "child option \<Rightarrow> bool" where
  "child_ok c = (case c of None \<Rightarrow> True | Some ch \<Rightarrow> length (c_hash ch) = HASH_SIZE)"

definition children_ok :: "child option list \<Rightarrow> bool" where
  "children_ok cs \<longleftrightarrow> length cs = 16 \<and> flatten cs \<noteq> [] \<and> (\<forall>c \<in> set cs. child_ok c)"

definition node_ok :: "node \<Rightarrow> bool" where
  "node_ok n =
     (case n of Leaf leaf \<Rightarrow> length (lf_path leaf) = HASH_SIZE \<and> length (lf_vh leaf) = HASH_SIZE
      | Internal cs \<Rightarrow> children_ok cs)"

lemma bitmap_bit: "(bitmap :: u16) AND 2 ^ i = 0 \<longleftrightarrow> \<not> bit bitmap i"
  using bit_iff_and_push_bit_not_eq_0 [of bitmap i] by simp

lemma child_bitmap_fold:
  "n \<le> 16 \<Longrightarrow> bit (fold (\<lambda>i bitmap. if cs ! i \<noteq> None then bitmap OR push_bit i 1 else bitmap) [0..<n] 0 :: u16) j
     \<longleftrightarrow> j < n \<and> cs ! j \<noteq> None"
  by (induction n) (auto simp: bit_or_iff bit_exp_iff less_Suc_eq)

lemma bit_child_bitmap: "length cs \<le> 16 \<Longrightarrow> bit (child_bitmap cs) j \<longleftrightarrow> j < length cs \<and> cs ! j \<noteq> None"
  unfolding child_bitmap_def by (rule child_bitmap_fold)

lemma count_ones_bit: "count_ones w = length (filter (bit w) [0..<16])"
  by (simp add: count_ones_def bitmap_bit)

lemma length_encode_child: "length (c_hash c) = HASH_SIZE \<Longrightarrow> length (encode_child c) = 41"
  by (simp add: encode_child_def HASH_SIZE_def)

lemma length_flatten_filter:
  "length (flatten cs) = length (filter (\<lambda>i. cs ! i \<noteq> None) [0..<length cs])"
proof (induction cs)
  case (Cons c cs)
  have "[0..<length (c # cs)] = 0 # map Suc [0..<length cs]"
    by (metis length_Cons map_Suc_upt upt_conv_Cons zero_less_Suc)
  then show ?case
    using Cons by (cases c) (simp_all add: filter_map comp_def)
qed simp

lemma decode_children_encode:
  assumes "length cs + k = 16" "\<forall>i < length cs. bit bm (k + i) \<longleftrightarrow> cs ! i \<noteq> None" "\<forall>c \<in> set cs. child_ok c"
  shows "decode_children bm (pre @ concat (map encode_child (flatten cs))) [k..<16] (length pre) = Inr cs"
  using assms
proof (induction cs arbitrary: k pre)
  case Nil
  then show ?case by simp
next
  case (Cons c cs)
  have k: "k < 16" and upt: "[k..<16] = k # [Suc k..<16]"
    using Cons.prems(1) by (simp_all add: upt_conv_Cons)
  have bit_k: "bit bm k \<longleftrightarrow> c \<noteq> None"
    using Cons.prems(2)[rule_format, of 0] by simp
  have rest: "\<forall>i < length cs. bit bm (Suc k + i) \<longleftrightarrow> cs ! i \<noteq> None"
    using Cons.prems(2) by (metis Suc_less_eq add_Suc_shift length_Cons nth_Cons_Suc)
  have len: "length cs + Suc k = 16" and ok: "\<forall>c \<in> set cs. child_ok c"
    using Cons.prems by simp_all
  show ?case
  proof (cases c)
    case None
    then show ?thesis
      using Cons.IH [OF len rest ok] bit_k by (simp add: upt bitmap_bit)
  next
    case (Some ch)
    have hl: "length (c_hash ch) = 32"
      using Cons.prems(3) Some by (simp add: child_ok_def HASH_SIZE_def)
    have "length pre + 41 = length (pre @ encode_child ch)"
      using hl by (simp add: encode_child_def)
    then have tail: "decode_children bm ((pre @ encode_child ch) @ concat (map encode_child (flatten cs)))
        [Suc k..<16] (length pre + 41) = Inr cs"
      using Cons.IH [OF len rest ok, of "pre @ encode_child ch"] by simp
    show ?thesis
      using tail bit_k hl Some
      by (simp add: upt bitmap_bit encode_child_def [of ch] HASH_SIZE_def Let_def nth_append)
  qed
qed

lemma decode_children_ok:
  assumes "decode_children bm data [k..<16] off = Inr cs" "k \<le> 16"
    "length data = off + 41 * length (filter (bit bm) [k..<16])"
  shows "length cs + k = 16 \<and> (\<forall>i < length cs. bit bm (k + i) \<longleftrightarrow> cs ! i \<noteq> None) \<and>
    (\<forall>c \<in> set cs. child_ok c) \<and> drop off data = concat (map encode_child (flatten cs))"
  using assms
proof (induction "16 - k" arbitrary: k off cs)
  case 0
  then show ?case by simp
next
  case (Suc n)
  have k: "k < 16" and n: "n = 16 - Suc k" using Suc.hyps(2) by simp_all
  have upt: "[k..<16] = k # [Suc k..<16]" using k by (simp add: upt_conv_Cons)
  have shift: "(\<forall>i < length (c # ds). P (k + i) \<longleftrightarrow> (c # ds) ! i \<noteq> None) \<longleftrightarrow>
      (P k \<longleftrightarrow> c \<noteq> None) \<and> (\<forall>i < length ds. P (Suc k + i) \<longleftrightarrow> ds ! i \<noteq> None)"
    for P and c :: "child option" and ds
    by (auto simp: less_Suc_eq_0_disj)
  show ?case
  proof (cases "bit bm k")
    case False
    then obtain ds where ds: "decode_children bm data [Suc k..<16] off = Inr ds" and cs: "cs = None # ds"
      using Suc.prems(1) by (auto simp: upt bitmap_bit split: sum.splits)
    show ?thesis
      using Suc.hyps(1) [OF n ds] Suc.prems(3) k False
      unfolding cs shift by (simp add: upt child_ok_def)
  next
    case True
    let ?flag = "data ! (off + 40)"
    have at: "off + 8 + 32 = off + 40" "off + (8 + 32 + 1) = off + 41" by simp_all
    obtain ds where ds: "decode_children bm data [Suc k..<16] (off + 41) = Inr ds"
      and flag: "?flag = 0 \<or> ?flag = 1"
      and cs: "cs = Some \<lparr>c_version = from_be_bytes (take 8 (drop off data)),
        c_hash = take 32 (drop (off + 8) data), c_is_leaf = (?flag = 1)\<rparr> # ds"
      using Suc.prems(1) True unfolding upt decode_children.simps Let_def HASH_SIZE_def at
      by (auto simp: bitmap_bit split: sum.splits if_splits)
    have len: "length data = (off + 41) + 41 * length (filter (bit bm) [Suc k..<16])"
      using Suc.prems(3) True by (simp add: upt)
    let ?ch = "\<lparr>c_version = from_be_bytes (take 8 (drop off data)),
        c_hash = take 32 (drop (off + 8) data), c_is_leaf = (?flag = 1)\<rparr>"
    have flag_byte: "(if ?flag = 1 then 1 else 0) = ?flag" using flag by auto
    have version: "to_be_bytes (from_be_bytes (take 8 (drop off data)) :: u64) = take 8 (drop off data)"
      using len by (simp add: to_from_be_bytes)
    have enc: "encode_child ?ch = take 8 (drop off data) @ take 32 (drop (off + 8) data) @ [?flag]"
      by (simp add: encode_child_def version flag_byte)
    have "drop off data = take 8 (drop off data) @ drop (off + 8) data"
      using append_take_drop_id [of 8 "drop off data"] by (simp only: drop_drop add.commute)
    also have "drop (off + 8) data = take 32 (drop (off + 8) data) @ drop (off + 40) data"
      using append_take_drop_id [of 32 "drop (off + 8) data"] at(1) by (simp only: drop_drop add.commute)
    also have "drop (off + 40) data = ?flag # drop (off + 41) data"
    proof -
      have "Suc (off + 40) = off + 41" and "off + 40 < length data" using len by simp_all
      then show ?thesis using Cons_nth_drop_Suc [of "off + 40" data] by (simp only:)
    qed
    finally have split: "drop off data = encode_child ?ch @ drop (off + 41) data"
      unfolding enc by simp
    have hash_len: "length (c_hash ?ch) = 32" using len by simp
    have ih: "length ds + Suc k = 16" "\<forall>i < length ds. bit bm (Suc k + i) \<longleftrightarrow> ds ! i \<noteq> None"
      "\<forall>c \<in> set ds. child_ok c" "drop (off + 41) data = concat (map encode_child (flatten ds))"
      using Suc.hyps(1) [OF n ds _ len] k by simp_all
    have ok: "\<forall>c \<in> set cs. child_ok c"
      using ih(3) hash_len unfolding cs by (simp add: child_ok_def HASH_SIZE_def)
    have "drop off data = concat (map encode_child (flatten cs))"
      by (rule trans [OF split]) (simp add: cs ih(4))
    then show ?thesis
      using ih(1,2) ok True unfolding cs shift by simp
  qed
qed

definition node_decode_opt :: "bytes \<Rightarrow> node option" where
  "node_decode_opt data = (case node_decode data of Inl _ \<Rightarrow> None | Inr n \<Rightarrow> Some n)"

lemma children_bits: "children_ok cs \<Longrightarrow> count_ones (child_bitmap cs) = length (flatten cs)"
proof -
  assume "children_ok cs"
  then have l: "length cs = 16" by (simp add: children_ok_def)
  then show ?thesis
    unfolding count_ones_bit length_flatten_filter by (auto simp: bit_child_bitmap intro!: arg_cong [where f = length] filter_cong)
qed

lemma length_encoded_children:
  "\<forall>c \<in> set cs. child_ok c \<Longrightarrow> length (concat (map encode_child (flatten cs))) = 41 * length (flatten cs)"
  by (induction cs) (auto simp: child_ok_def length_encode_child split: option.splits)

lemma node_decode_internal:
  "node_decode (NODE_TAG_INTERNAL # b0 # b1 # rest) =
     (let bitmap = from_le_bytes [b0, b1]; count = count_ones bitmap in
      if count = 0 then Inl (Corrupted ''node decode: internal with no children'')
      else if length rest \<noteq> count * 41 then Inl (Corrupted ''node decode: bad internal length'')
      else case decode_children bitmap (NODE_TAG_INTERNAL # b0 # b1 # rest) [0..<16] 3 of
             Inl e \<Rightarrow> Inl e | Inr cs \<Rightarrow> Inr (Internal cs))"
proof -
  have tag: "NODE_TAG_INTERNAL \<noteq> NODE_TAG_LEAF" by (simp add: NODE_TAG_LEAF_def NODE_TAG_INTERNAL_def)
  have len: "length (NODE_TAG_INTERNAL # b0 # b1 # rest) \<noteq> 3 + n * (8 + HASH_SIZE + 1) \<longleftrightarrow> length rest \<noteq> n * 41" for n
    by (simp add: HASH_SIZE_def)
  show ?thesis
    unfolding node_decode_def list.case Let_def len using tag by simp
qed

lemma two_bytes: "length bs = 2 \<Longrightarrow> \<exists>b0 b1. bs = [b0, b1]"
  by (auto simp: length_Suc_conv eval_nat_numeral)

lemma node_decode_encode:
  assumes ok: "node_ok n"
  shows "node_decode (node_encode n) = Inr n"
proof (cases n)
  case (Leaf leaf)
  then show ?thesis
    using ok by (simp add: node_decode_def node_encode_def node_ok_def NODE_TAG_LEAF_def HASH_SIZE_def)
next
  case (Internal cs)
  then have cs: "children_ok cs" "length cs = 16" "\<forall>c \<in> set cs. child_ok c" "flatten cs \<noteq> []"
    using ok by (simp_all add: node_ok_def children_ok_def)
  let ?bm = "child_bitmap cs" and ?body = "concat (map encode_child (flatten cs))"
  obtain b0 b1 where bm: "to_le_bytes ?bm = [b0, b1]"
    using two_bytes [of "to_le_bytes ?bm"] by auto
  have bits: "from_le_bytes [b0, b1] = ?bm"
    unfolding bm [symmetric] by simp
  have "decode_children ?bm ([NODE_TAG_INTERNAL, b0, b1] @ ?body)
      [0..<16] (length [NODE_TAG_INTERNAL, b0, b1]) = Inr cs"
    using cs by (intro decode_children_encode) (auto simp: bit_child_bitmap)
  then have dec: "decode_children ?bm (NODE_TAG_INTERNAL # b0 # b1 # ?body) [0..<16] 3 = Inr cs"
    unfolding append.simps list.size by (simp only: add_0 add_Suc numeral_3_eq_3 One_nat_def)
  have enc: "node_encode n = NODE_TAG_INTERNAL # b0 # b1 # ?body"
    by (simp add: Internal node_encode_def bm)
  show ?thesis
    unfolding enc node_decode_internal bits Let_def children_bits [OF cs(1)] dec
      length_encoded_children [OF cs(3)]
    using cs(4) by (simp add: Internal)
qed

lemma child_bitmap_eqI:
  assumes "length cs = 16" "\<forall>i < 16. bit bm i \<longleftrightarrow> cs ! i \<noteq> None"
  shows "child_bitmap cs = bm"
proof (rule bit_word_eqI)
  fix j
  assume "j < LENGTH(16)"
  then show "bit (child_bitmap cs) j = bit bm j"
    using assms by (simp add: bit_child_bitmap)
qed

lemma node_encode_decode:
  assumes dec: "node_decode data = Inr n"
  shows "node_ok n \<and> node_encode n = data"
proof (cases data)
  case Nil
  then show ?thesis using dec by (simp add: node_decode_def)
next
  case (Cons tag body)
  consider "tag = NODE_TAG_LEAF" | "tag = NODE_TAG_INTERNAL"
    using dec by (auto simp: node_decode_def Cons split: if_splits)
  then show ?thesis
  proof cases
    case 1
    then have len: "length body = 72"
      and n: "n = Leaf \<lparr>lf_path = take 32 body, lf_vh = take 32 (drop 32 body),
        lf_value_version = from_be_bytes (drop 64 body)\<rparr>"
      using dec by (auto simp: node_decode_def Cons HASH_SIZE_def split: if_splits)
    have split: "take 32 body @ take 32 (drop 32 body) @ drop 64 body = body"
      using append_take_drop_id [of 32 "drop 32 body"] append_take_drop_id [of 32 body] by simp
    show ?thesis
      using len split
      by (simp add: n Cons 1 node_ok_def node_encode_def HASH_SIZE_def to_from_be_bytes)
  next
    case 2
    then have "2 \<le> length body"
      using dec by (auto simp: node_decode_def Cons NODE_TAG_LEAF_def NODE_TAG_INTERNAL_def split: if_splits)
    then obtain b0 b1 rest where body: "body = b0 # b1 # rest"
      by (cases body rule: remdups_adj.cases) auto
    let ?bm = "from_le_bytes [b0, b1] :: u16"
    have count: "count_ones ?bm \<noteq> 0" and len: "length rest = count_ones ?bm * 41"
      and dc: "\<exists>cs. decode_children ?bm (NODE_TAG_INTERNAL # b0 # b1 # rest) [0..<16] 3 = Inr cs \<and> n = Internal cs"
      using dec unfolding Cons 2 body node_decode_internal Let_def
      by (simp_all split: sum.splits if_splits del: decode_children.simps upt.simps upt_rec_numeral)
    from dc obtain cs where cs: "decode_children ?bm (NODE_TAG_INTERNAL # b0 # b1 # rest) [0..<16] 3 = Inr cs"
      and n: "n = Internal cs" by blast
    have "length (NODE_TAG_INTERNAL # b0 # b1 # rest) = 3 + 41 * length (filter (bit ?bm) [0..<16])"
      using len unfolding count_ones_bit by simp
    from decode_children_ok [OF cs _ this] have ok: "length cs = 16"
        "\<forall>i < 16. bit ?bm i \<longleftrightarrow> cs ! i \<noteq> None" "\<forall>c \<in> set cs. child_ok c"
        "rest = concat (map encode_child (flatten cs))"
      by (simp_all del: upt.simps upt_rec_numeral)
    have bm: "child_bitmap cs = ?bm" using ok(1,2) by (rule child_bitmap_eqI)
    have "flatten cs \<noteq> []"
    proof
      assume "flatten cs = []"
      then have "rest = []" by (simp add: ok(4))
      then show False using len count by simp
    qed
    moreover have "to_le_bytes ?bm = [b0, b1]" by (simp add: to_from_le_bytes)
    ultimately show ?thesis
      using ok by (simp add: n Cons 2 body node_ok_def children_ok_def node_encode_def bm)
  qed
qed

interpretation node_codec: strict_codec node_encode node_decode_opt node_ok
  by unfold_locales
    (auto simp: node_decode_opt_def node_decode_encode split: sum.splits dest: node_encode_decode)

section \<open>Node keys name records uniquely\<close>

definition node_key_ok :: "node_key \<Rightarrow> bool" where
  "node_key_ok nk \<longleftrightarrow> length (nk_prefix nk) \<le> NIBBLES \<and> (\<forall>b \<in> set (nk_prefix nk). b < 16)"

lemma nibble_take_bit: "(x :: byte) < 16 \<Longrightarrow> take_bit 4 x = x"
  by (simp add: word_unat_eq_iff unsigned_take_bit_eq take_bit_nat_eq_self word_less_nat_alt)

lemma pack_byte:
  fixes a b :: byte
  assumes "a < 16" "b < 16"
  shows "drop_bit 4 (push_bit 4 a OR b) = a" "take_bit 4 (push_bit 4 a OR b) = b"
proof -
  have b: "drop_bit 4 b = 0"
    using nibble_take_bit [OF assms(2)] by (metis drop_bit_take_bit diff_self_eq_0 take_bit_0)
  have a: "take_bit 4 (push_bit 4 a) = 0"
    by (simp add: take_bit_push_bit)
  have "drop_bit 4 (push_bit 4 a) = a"
    using nibble_take_bit [OF assms(1)] by (simp add: bit_eq_iff bit_simps)
  then show "drop_bit 4 (push_bit 4 a OR b) = a" by (simp add: drop_bit_or b)
  show "take_bit 4 (push_bit 4 a OR b) = b" using nibble_take_bit [OF assms(2)] by (simp add: take_bit_or a)
qed

lemma pack_nibbles_inject:
  "\<lbrakk>pack_nibbles p = pack_nibbles q; length p = length q; \<forall>b \<in> set p. b < 16; \<forall>b \<in> set q. b < 16\<rbrakk> \<Longrightarrow> p = q"
proof (induction p arbitrary: q rule: pack_nibbles.induct)
  case (2 hi)
  then obtain hi' where "q = [hi']" by (cases q) auto
  then show ?case using 2 pack_byte(1) [of hi 0] pack_byte(1) [of hi' 0] by auto
next
  case (3 hi lo rest)
  then obtain hi' lo' rest' where q: "q = hi' # lo' # rest'"
    by (cases q rule: pack_nibbles.cases) auto
  then have b: "push_bit 4 hi OR lo = push_bit 4 hi' OR lo'" and r: "pack_nibbles rest = pack_nibbles rest'"
    using "3.prems"(1) by simp_all
  have lt: "hi < 16" "lo < 16" "hi' < 16" "lo' < 16"
    using "3.prems"(3,4) by (simp_all add: q)
  have "hi = hi'" "lo = lo'"
    using pack_byte [OF lt(1,2)] pack_byte [OF lt(3,4)] b by auto
  then show ?case
    using "3.IH" [OF r] "3.prems" by (simp add: q)
qed auto

lemma node_key_encode_inject:
  assumes "node_key_ok a" "node_key_ok b"
  shows "node_key_encode a = node_key_encode b \<longleftrightarrow> a = b"
proof
  assume eq: "node_key_encode a = node_key_encode b"
  then have v: "nk_version a = nk_version b"
    and l: "(word_of_nat (length (nk_prefix a)) :: byte) = word_of_nat (length (nk_prefix b))"
    and p: "pack_nibbles (nk_prefix a) = pack_nibbles (nk_prefix b)"
    by (simp_all add: node_key_encode_def append_eq_append_conv)
  have "length (nk_prefix a) = length (nk_prefix b)"
    using arg_cong [OF l, of unat] assms by (simp add: node_key_ok_def NIBBLES_def unat_byte_of_nat)
  then have "nk_prefix a = nk_prefix b"
    using pack_nibbles_inject [OF p] assms by (simp add: node_key_ok_def)
  then show "a = b" using v by (simp add: node_key.expand)
qed simp

text \<open>
  C35 (Node records have exactly one encoding). \<open>Node::decode\<close> accepts a stored record iff it is the
  encoding of a node with 32-byte hashes and, when internal, at least one child: trailing bytes,
  wrong lengths, bad flags and empty bitmaps are all refused, and what is accepted re-encodes to
  the same bytes.
\<close>

theorem node_record_strict:
  "node_decode data = Inr n \<longleftrightarrow> node_ok n \<and> data = node_encode n"
  by (metis node_decode_encode node_encode_decode)

end
