(* ===== verification/Kv_Backend.thy ===== *)
theory Kv_Backend
  imports Merkle_Node
begin

text \<open>
  The storage interface of the Merkle store: \<open>crates/enclave-os-merkle/src/backend.rs\<close> and
  \<open>KvBatchOp\<close> of \<open>common/src/rpc.rs\<close>. The trait \<open>KvBackend\<close> is a record of its three methods
  over a backend state; methods take \<open>&self\<close> but may change the state behind it, so each returns
  the new state and a host is free to answer differently from one call to the next. The
  documented contract is the locale \<open>kv_contract\<close>; \<open>MemBackend\<close> is shown to satisfy it, and
  \<open>OcallBackend\<close> forwards to the host calls it is given.
\<close>

datatype kv_batch_op = Put (op_key: bytes) bytes | Delete (op_key: bytes)

record 'b kv_ops =
  kv_get :: "'b \<Rightarrow> bytes \<Rightarrow> (merkle_error + bytes option) \<times> 'b"
  kv_write_batch :: "'b \<Rightarrow> kv_batch_op list \<Rightarrow> (merkle_error + unit) \<times> 'b"
  kv_scan :: "'b \<Rightarrow> bytes \<Rightarrow> bytes \<Rightarrow> u32 \<Rightarrow> (merkle_error + (bytes \<times> bytes) list) \<times> 'b"

section \<open>OcallBackend\<close>

text \<open>The host calls of \<open>common/src/ocall.rs\<close>, over the state of the host.\<close>

record 'h kv_ocalls =
  kv_store_get :: "'h \<Rightarrow> bytes \<Rightarrow> bytes \<Rightarrow> (int + bytes option) \<times> 'h"
  kv_store_write_batch :: "'h \<Rightarrow> bytes \<Rightarrow> kv_batch_op list \<Rightarrow> (int + unit) \<times> 'h"
  kv_store_scan :: "'h \<Rightarrow> bytes \<Rightarrow> bytes \<Rightarrow> bytes \<Rightarrow> u32 \<Rightarrow> (int + (bytes \<times> bytes) list) \<times> 'h"

definition ocall_table_new :: "string \<Rightarrow> bytes" where
  "ocall_table_new store_name = str_bytes ''merkle:'' @ str_bytes store_name"

definition ocall_table_with_table :: "string \<Rightarrow> bytes" where
  "ocall_table_with_table table = str_bytes table"

definition map_backend_err :: "(int + 'a) \<times> 'h \<Rightarrow> (merkle_error + 'a) \<times> 'h" where
  "map_backend_err r = (case fst r of Inl code \<Rightarrow> Inl (Backend code) | Inr x \<Rightarrow> Inr x, snd r)"

definition ocall_backend :: "'h kv_ocalls \<Rightarrow> bytes \<Rightarrow> 'h kv_ops" where
  "ocall_backend oc table =
     \<lparr>kv_get = (\<lambda>h key. map_backend_err (kv_store_get oc h table key)),
      kv_write_batch = (\<lambda>h ops. map_backend_err (kv_store_write_batch oc h table ops)),
      kv_scan = (\<lambda>h start stop limit. map_backend_err (kv_store_scan oc h table start stop limit))\<rparr>"

section \<open>MemBackend\<close>

record mem_backend =
  mem_map :: "(bytes, bytes) btree"
  mem_reads :: u64

definition mem_new :: mem_backend where
  "mem_new = \<lparr>mem_map = bt_new, mem_reads = 0\<rparr>"

definition mem_get :: "mem_backend \<Rightarrow> bytes \<Rightarrow> (merkle_error + bytes option) \<times> mem_backend" where
  "mem_get b key = (Inr (bt_get (mem_map b) key), b\<lparr>mem_reads := mem_reads b + 1\<rparr>)"

fun mem_apply :: "kv_batch_op list \<Rightarrow> (bytes, bytes) btree \<Rightarrow> (bytes, bytes) btree" where
  "mem_apply [] m = m"
| "mem_apply (Put key val # ops) m = mem_apply ops (bt_insert key val m)"
| "mem_apply (Delete key # ops) m = mem_apply ops (bt_remove key m)"

definition mem_write_batch :: "mem_backend \<Rightarrow> kv_batch_op list \<Rightarrow> (merkle_error + unit) \<times> mem_backend" where
  "mem_write_batch b ops = (Inr (), b\<lparr>mem_map := mem_apply ops (mem_map b)\<rparr>)"

definition mem_scan :: "mem_backend \<Rightarrow> bytes \<Rightarrow> bytes \<Rightarrow> u32 \<Rightarrow> (merkle_error + (bytes \<times> bytes) list) \<times> mem_backend" where
  "mem_scan b start stop limit =
     (let range = filter (\<lambda>e. start \<le> fst e) (mem_map b);
          within = takeWhile (\<lambda>e. stop = [] \<or> fst e < stop) range
      in (Inr (if limit = 0 then within else take (unat limit) within), b))"

definition mem_ops :: "mem_backend kv_ops" where
  "mem_ops = \<lparr>kv_get = mem_get, kv_write_batch = mem_write_batch, kv_scan = mem_scan\<rparr>"

text \<open>The hooks for tests: flip a bit of a record, or lose it.\<close>

definition mem_tamper :: "mem_backend \<Rightarrow> bytes \<Rightarrow> bool \<times> mem_backend" where
  "mem_tamper b key =
     (case bt_get (mem_map b) key of
        Some (x # v) \<Rightarrow> (True, b\<lparr>mem_map := bt_insert key ((x XOR 1) # v) (mem_map b)\<rparr>)
      | _ \<Rightarrow> (False, b))"

definition mem_remove :: "mem_backend \<Rightarrow> bytes \<Rightarrow> bool \<times> mem_backend" where
  "mem_remove b key =
     (bt_get (mem_map b) key \<noteq> None, b\<lparr>mem_map := bt_remove key (mem_map b)\<rparr>)"

section \<open>The contract\<close>

fun apply_ops :: "kv_batch_op list \<Rightarrow> (bytes \<rightharpoonup> bytes) \<Rightarrow> (bytes \<rightharpoonup> bytes)" where
  "apply_ops [] m = m"
| "apply_ops (Put key val # ops) m = apply_ops ops (m(key \<mapsto> val))"
| "apply_ops (Delete key # ops) m = apply_ops ops (m(key := None))"

definition in_range :: "bytes \<Rightarrow> bytes \<Rightarrow> bytes \<Rightarrow> bool" where
  "in_range start stop k \<longleftrightarrow> start \<le> k \<and> (stop = [] \<or> k < stop)"

text \<open>
  Reads answer from the abstract map or fail with a host code and change nothing; a batch lands as
  a whole or not at all; a scan lists the range in ascending order up to the limit.
\<close>

locale kv_contract =
  fixes kv :: "'b kv_ops" and inv :: "'b \<Rightarrow> bool" and abs :: "'b \<Rightarrow> bytes \<rightharpoonup> bytes"
  assumes kv_finite: "inv b \<Longrightarrow> finite (dom (abs b))"
    and kv_get_law: "inv b \<Longrightarrow> kv_get kv b key = (r, b') \<Longrightarrow> inv b' \<and> abs b' = abs b \<and>
      (case r of Inl e \<Rightarrow> \<exists>c. e = Backend c | Inr v \<Rightarrow> v = abs b key)"
    and kv_write_law: "inv b \<Longrightarrow> kv_write_batch kv b ops = (w, b') \<Longrightarrow> inv b' \<and>
      (case w of Inl e \<Rightarrow> (\<exists>c. e = Backend c) \<and> abs b' = abs b | Inr _ \<Rightarrow> abs b' = apply_ops ops (abs b))"
    and kv_scan_law: "inv b \<Longrightarrow> kv_scan kv b start stop limit = (sc, b') \<Longrightarrow> inv b' \<and> abs b' = abs b \<and>
      (case sc of Inl e \<Rightarrow> \<exists>c. e = Backend c
       | Inr es \<Rightarrow> distinct (map fst es) \<and>
           (\<forall>(k, v) \<in> set es. abs b k = Some v \<and> in_range start stop k) \<and>
           (limit \<noteq> 0 \<longrightarrow> length es \<le> unat limit) \<and>
           (length es < unat limit \<longrightarrow>
              (\<forall>k v. abs b k = Some v \<and> in_range start stop k \<longrightarrow> (k, v) \<in> set es)))"

lemma mem_apply_inv: "bt_inv m \<Longrightarrow> bt_inv (mem_apply ops m)"
  by (induction ops m rule: mem_apply.induct) (simp_all add: btree.inv_insert btree.inv_remove)

lemma mem_apply_get: "bt_inv m \<Longrightarrow> bt_get (mem_apply ops m) = apply_ops ops (bt_get m)"
proof (induction ops m rule: mem_apply.induct)
  case (2 key val ops m)
  have "bt_get (bt_insert key val m) = (bt_get m)(key \<mapsto> val)"
    using 2 by (auto simp: btree.get_insert)
  then show ?case using 2 by (simp add: btree.inv_insert fun_upd_def)
next
  case (3 key ops m)
  have "bt_get (bt_remove key m) = (bt_get m)(key := None)"
    using 3 by (auto simp: btree.get_remove)
  then show ?case using 3 by (simp add: btree.inv_remove fun_upd_def)
qed simp

lemma takeWhile_sorted:
  "sorted_wrt (<) (map fst m) \<Longrightarrow> takeWhile (\<lambda>e. fst e < (k :: bytes)) m = filter (\<lambda>e. fst e < k) m"
  by (induction m) (auto simp: empty_filter_conv)

lemma mem_within:
  assumes "bt_inv m"
  shows "takeWhile (\<lambda>e. stop = [] \<or> fst e < stop) (filter (\<lambda>e. start \<le> fst e) m) =
    filter (\<lambda>e. in_range start stop (fst e)) m"
proof (cases "stop = []")
  case False
  have "sorted_wrt (<) (map fst (filter (\<lambda>e. start \<le> fst e) m))"
    using assms unfolding bt_inv_def by (induction m) auto
  then show ?thesis
    using False takeWhile_sorted [of "filter (\<lambda>e. start \<le> fst e) m" stop]
    by (simp add: in_range_def conj_commute)
qed (simp add: in_range_def)

definition mem_inv :: "mem_backend \<Rightarrow> bool" where
  "mem_inv b \<longleftrightarrow> bt_inv (mem_map b)"

definition mem_abs :: "mem_backend \<Rightarrow> bytes \<rightharpoonup> bytes" where
  "mem_abs b = bt_get (mem_map b)"

lemma mem_scan_law:
  assumes "mem_inv b" "mem_scan b start stop limit = (r, b')"
  shows "b' = b" "\<exists>es. r = Inr es \<and> distinct (map fst es) \<and>
    (\<forall>(k, v) \<in> set es. mem_abs b k = Some v \<and> in_range start stop k) \<and>
    (limit \<noteq> 0 \<longrightarrow> length es \<le> unat limit) \<and>
    (length es < unat limit \<longrightarrow>
       (\<forall>k v. mem_abs b k = Some v \<and> in_range start stop k \<longrightarrow> (k, v) \<in> set es))"
proof -
  define w where "w = filter (\<lambda>e. in_range start stop (fst e)) (mem_map b)"
  define es where "es = (if limit = 0 then w else take (unat limit) w)"
  have inv: "bt_inv (mem_map b)" using assms by (simp add: mem_inv_def)
  have r: "r = Inr es" and b': "b' = b"
    using assms(2) unfolding mem_scan_def Let_def mem_within [OF inv] es_def w_def by auto
  have w: "distinct (map fst w)" "(k, v) \<in> set w \<longleftrightarrow> mem_abs b k = Some v \<and> in_range start stop k" for k v
    using bt_inv_distinct [OF inv] btree.entries_get [OF inv]
    by (auto simp: w_def mem_abs_def distinct_map_filter)
  have "set es \<subseteq> set w" "distinct (map fst es)"
    using w(1) by (auto simp: es_def take_map [symmetric] dest: in_set_takeD)
  moreover have "limit \<noteq> 0 \<Longrightarrow> length es \<le> unat limit"
    by (simp add: es_def)
  moreover have "length es < unat limit \<Longrightarrow> es = w"
    by (auto simp: es_def split: if_splits)
  ultimately show "\<exists>es. r = Inr es \<and> distinct (map fst es) \<and>
    (\<forall>(k, v) \<in> set es. mem_abs b k = Some v \<and> in_range start stop k) \<and>
    (limit \<noteq> 0 \<longrightarrow> length es \<le> unat limit) \<and>
    (length es < unat limit \<longrightarrow>
       (\<forall>k v. mem_abs b k = Some v \<and> in_range start stop k \<longrightarrow> (k, v) \<in> set es))"
    using r w(2) by fastforce
  show "b' = b" by (rule b')
qed

interpretation mem: kv_contract mem_ops mem_inv mem_abs
proof
  fix b key and r :: "merkle_error + bytes option" and b'
  show "mem_inv b \<Longrightarrow> finite (dom (mem_abs b))"
    using finite_dom_map_of [of "mem_map b"] by (simp add: mem_abs_def bt_get_def [abs_def])
  show "mem_inv b \<Longrightarrow> kv_get mem_ops b key = (r, b') \<Longrightarrow> mem_inv b' \<and> mem_abs b' = mem_abs b \<and>
      (case r of Inl e \<Rightarrow> \<exists>c. e = Backend c | Inr v \<Rightarrow> v = mem_abs b key)"
    by (auto simp: mem_ops_def mem_get_def mem_inv_def mem_abs_def)
next
  fix b ops and r :: "merkle_error + unit" and b'
  show "mem_inv b \<Longrightarrow> kv_write_batch mem_ops b ops = (r, b') \<Longrightarrow> mem_inv b' \<and>
      (case r of Inl e \<Rightarrow> (\<exists>c. e = Backend c) \<and> mem_abs b' = mem_abs b | Inr _ \<Rightarrow> mem_abs b' = apply_ops ops (mem_abs b))"
    by (auto simp: mem_ops_def mem_write_batch_def mem_inv_def mem_abs_def mem_apply_inv mem_apply_get)
next
  fix b start stop limit and r :: "merkle_error + (bytes \<times> bytes) list" and b'
  assume "mem_inv b" "kv_scan mem_ops b start stop limit = (r, b')"
  then show "mem_inv b' \<and> mem_abs b' = mem_abs b \<and>
      (case r of Inl e \<Rightarrow> \<exists>c. e = Backend c
       | Inr es \<Rightarrow> distinct (map fst es) \<and>
           (\<forall>(k, v) \<in> set es. mem_abs b k = Some v \<and> in_range start stop k) \<and>
           (limit \<noteq> 0 \<longrightarrow> length es \<le> unat limit) \<and>
           (length es < unat limit \<longrightarrow>
              (\<forall>k v. mem_abs b k = Some v \<and> in_range start stop k \<longrightarrow> (k, v) \<in> set es)))"
    using mem_scan_law [of b start stop limit r b'] by (auto simp: mem_ops_def)
qed

lemma mem_never_fails:
  "\<exists>v b'. kv_get mem_ops b key = (Inr v, b')" "\<exists>b'. kv_write_batch mem_ops b ops = (Inr (), b')"
  "\<exists>es b'. kv_scan mem_ops b start stop limit = (Inr es, b')"
  by (simp_all add: mem_ops_def mem_get_def mem_write_batch_def mem_scan_def Let_def)

end
