(* ===== verification/Rpc_Codec.thy ===== *)
theory Rpc_Codec
  imports Wire_Parser Spsc_Queue Kv_Backend
begin

text \<open>
  The RPC wire of \<open>common/src/rpc.rs\<close>: method numbers, request and response frames, and the
  payload of every method. A slice bound check of the code is a read of the cursor parsers of
  \<open>Wire_Parser\<close>. A signed 32-bit integer is its 32-bit pattern, \<open>usize\<close> is \<open>nat\<close>: the sums that
  occur are bounded far below its range. The decoders of this file ignore what follows the last
  field; the theorems say so.
\<close>

type_synonym i32 = "32 word"

section \<open>Methods\<close>

datatype rpc_method =
    NetTcpListen
  | NetTcpAccept
  | NetTcpConnect
  | NetSend
  | NetRecv
  | NetClose
  | KvPut
  | KvGet
  | KvDelete
  | KvListKeys
  | KvWriteBatch
  | KvMultiGet
  | KvScan
  | KvPutDurable
  | WorkerStorage
  | GetCurrentTime
  | Log
  | QeGetTargetInfo
  | QeGetQuote
  | Shutdown

fun rpc_method_u16 :: "rpc_method \<Rightarrow> u16" where
  "rpc_method_u16 NetTcpListen = 0x0100"
| "rpc_method_u16 NetTcpAccept = 0x0101"
| "rpc_method_u16 NetTcpConnect = 0x0102"
| "rpc_method_u16 NetSend = 0x0103"
| "rpc_method_u16 NetRecv = 0x0104"
| "rpc_method_u16 NetClose = 0x0105"
| "rpc_method_u16 KvPut = 0x0200"
| "rpc_method_u16 KvGet = 0x0201"
| "rpc_method_u16 KvDelete = 0x0202"
| "rpc_method_u16 KvListKeys = 0x0203"
| "rpc_method_u16 KvWriteBatch = 0x0204"
| "rpc_method_u16 KvMultiGet = 0x0205"
| "rpc_method_u16 KvScan = 0x0206"
| "rpc_method_u16 KvPutDurable = 0x0207"
| "rpc_method_u16 WorkerStorage = 0x0208"
| "rpc_method_u16 GetCurrentTime = 0x0300"
| "rpc_method_u16 Log = 0x0301"
| "rpc_method_u16 QeGetTargetInfo = 0x0400"
| "rpc_method_u16 QeGetQuote = 0x0401"
| "rpc_method_u16 Shutdown = 0xFF00"

definition rpc_method_from_u16 :: "u16 \<Rightarrow> rpc_method option" where
  "rpc_method_from_u16 val =
     (if val = 0x0100 then Some NetTcpListen
      else if val = 0x0101 then Some NetTcpAccept
      else if val = 0x0102 then Some NetTcpConnect
      else if val = 0x0103 then Some NetSend
      else if val = 0x0104 then Some NetRecv
      else if val = 0x0105 then Some NetClose
      else if val = 0x0200 then Some KvPut
      else if val = 0x0201 then Some KvGet
      else if val = 0x0202 then Some KvDelete
      else if val = 0x0203 then Some KvListKeys
      else if val = 0x0204 then Some KvWriteBatch
      else if val = 0x0205 then Some KvMultiGet
      else if val = 0x0206 then Some KvScan
      else if val = 0x0207 then Some KvPutDurable
      else if val = 0x0208 then Some WorkerStorage
      else if val = 0x0300 then Some GetCurrentTime
      else if val = 0x0301 then Some Log
      else if val = 0x0400 then Some QeGetTargetInfo
      else if val = 0x0401 then Some QeGetQuote
      else if val = 0xFF00 then Some Shutdown
      else None)"

lemma rpc_method_from_u16_iff: "rpc_method_from_u16 w = Some m \<longleftrightarrow> w = rpc_method_u16 m"
  by (cases m) (auto simp: rpc_method_from_u16_def)

section \<open>Frames\<close>

definition REQ_HEADER_SIZE :: nat where "REQ_HEADER_SIZE = 14"

definition RESP_HEADER_SIZE :: nat where "RESP_HEADER_SIZE = 16"

definition MAX_MSG_SIZE :: nat where
  "MAX_MSG_SIZE = unat (MAX_RING_FRAME_BYTES - word_of_nat MSG_HEADER_SIZE)"

definition U32_MAX :: nat where "U32_MAX = 4294967295"

definition framed_payload_len_valid :: "nat \<Rightarrow> nat \<Rightarrow> nat \<Rightarrow> bool" where
  "framed_payload_len_valid payload header message_maximum \<longleftrightarrow>
     payload \<le> U32_MAX \<and> payload + header \<le> min message_maximum MAX_MSG_SIZE"

definition request_header :: "u64 \<Rightarrow> rpc_method \<Rightarrow> u32 \<Rightarrow> bytes" where
  "request_header req_id method payload_len =
     to_le_bytes req_id @ to_le_bytes (rpc_method_u16 method) @ to_le_bytes payload_len"

definition encode_request :: "u64 \<Rightarrow> rpc_method \<Rightarrow> bytes \<Rightarrow> bytes" where
  "encode_request req_id method payload =
     request_header req_id method (word_of_nat (length payload)) @ payload"

definition encode_response :: "u64 \<Rightarrow> i32 \<Rightarrow> bytes \<Rightarrow> bytes" where
  "encode_response req_id status payload =
     to_le_bytes req_id @ to_le_bytes status @ to_le_bytes (word_of_nat (length payload) :: u32) @ payload"

definition encode_request_bounded :: "u64 \<Rightarrow> rpc_method \<Rightarrow> bytes \<Rightarrow> nat \<Rightarrow> bytes option" where
  "encode_request_bounded req_id method payload message_maximum =
     (if \<not> framed_payload_len_valid (length payload) REQ_HEADER_SIZE message_maximum then None
      else Some (encode_request req_id method payload))"

definition encode_response_bounded :: "u64 \<Rightarrow> i32 \<Rightarrow> bytes \<Rightarrow> nat \<Rightarrow> bytes option" where
  "encode_response_bounded req_id status payload message_maximum =
     (if \<not> framed_payload_len_valid (length payload) RESP_HEADER_SIZE message_maximum then None
      else Some (encode_response req_id status payload))"

text \<open>Overwriting part of a buffer in place.\<close>

definition overwrite :: "bytes \<Rightarrow> nat \<Rightarrow> bytes \<Rightarrow> bytes" where
  "overwrite buf pos data = take pos buf @ data @ drop (pos + length data) buf"

fun write_parts :: "bytes list \<Rightarrow> nat \<Rightarrow> bytes \<Rightarrow> bytes" where
  "write_parts [] position output = output"
| "write_parts (part # parts) position output =
     write_parts parts (position + length part) (overwrite output position part)"

text \<open>The length written and the new contents of the output buffer.\<close>

definition encode_request_parts_into_bounded ::
    "u64 \<Rightarrow> rpc_method \<Rightarrow> bytes list \<Rightarrow> nat \<Rightarrow> bytes \<Rightarrow> nat option \<times> bytes" where
  "encode_request_parts_into_bounded req_id method parts maximum output =
     (let payload_len = sum_list (map length parts) in
      if \<not> framed_payload_len_valid payload_len REQ_HEADER_SIZE maximum then (None, output)
      else let len = REQ_HEADER_SIZE + payload_len in
        if length output < len then (None, output)
        else if payload_len > U32_MAX then (None, output)
        else (Some len, write_parts parts REQ_HEADER_SIZE
                          (overwrite output 0 (request_header req_id method (word_of_nat payload_len)))))"

text \<open>\<open>capacity\<close> is the allocated size of the vector; \<open>resize\<close> truncates or pads with zeros.\<close>

definition encode_request_into_bounded ::
    "u64 \<Rightarrow> rpc_method \<Rightarrow> bytes \<Rightarrow> nat \<Rightarrow> nat \<Rightarrow> bytes \<Rightarrow> unit option \<times> bytes" where
  "encode_request_into_bounded req_id method payload maximum capacity buffer =
     (if \<not> framed_payload_len_valid (length payload) REQ_HEADER_SIZE maximum then (None, buffer)
      else let len = REQ_HEADER_SIZE + length payload in
        if capacity < len then (None, buffer)
        else let resized = take len (buffer @ replicate len 0) in
          case encode_request_parts_into_bounded req_id method [payload] maximum resized of
            (None, out) \<Rightarrow> (None, out)
          | (Some _, out) \<Rightarrow> (Some (), out))"

definition decode_request :: "bytes \<Rightarrow> (u64 \<times> rpc_method \<times> bytes) option" where
  "decode_request data = do {
     (req_id, r1) \<leftarrow> p_u64 data;
     (method_raw, r2) \<leftarrow> p_u16 r1;
     (payload_len, r3) \<leftarrow> p_u32 r2;
     method \<leftarrow> rpc_method_from_u16 method_raw;
     (payload, _) \<leftarrow> p_bytes (unat payload_len) r3;
     Some (req_id, method, payload) }"

text \<open>The header against a frame length given separately; the payload is a range of the frame.\<close>

definition decode_response_header :: "bytes \<Rightarrow> nat \<Rightarrow> (u64 \<times> i32 \<times> nat \<times> nat) option" where
  "decode_response_header header frame_length =
     (if length header < RESP_HEADER_SIZE \<or> frame_length < RESP_HEADER_SIZE then None
      else
        let request = from_le_bytes (take 8 header);
            status = from_le_bytes (take 4 (drop 8 header));
            len = unat (from_le_bytes (take 4 (drop 12 header)) :: u32);
            stop = RESP_HEADER_SIZE + len
        in if stop \<le> frame_length then Some (request, status, RESP_HEADER_SIZE, stop) else None)"

definition decode_response :: "bytes \<Rightarrow> (u64 \<times> i32 \<times> bytes) option" where
  "decode_response data =
     (case decode_response_header data (length data) of
        None \<Rightarrow> None
      | Some (request, status, start, stop) \<Rightarrow> Some (request, status, take (stop - start) (drop start data)))"

section \<open>Network payloads\<close>

definition encode_net_tcp_listen_req :: "u16 \<Rightarrow> i32 \<Rightarrow> bytes" where
  "encode_net_tcp_listen_req port backlog = to_le_bytes port @ to_le_bytes backlog"

definition decode_net_tcp_listen_req :: "bytes \<Rightarrow> (u16 \<times> i32) option" where
  "decode_net_tcp_listen_req p = do { (port, r) \<leftarrow> p_u16 p; (backlog, _) \<leftarrow> p_u32 r; Some (port, backlog) }"

definition encode_fd :: "i32 \<Rightarrow> bytes" where
  "encode_fd fd = to_le_bytes fd"

definition decode_fd :: "bytes \<Rightarrow> i32 option" where
  "decode_fd p = do { (fd, _) \<leftarrow> p_u32 p; Some fd }"

definition encode_net_tcp_accept_req :: "i32 \<Rightarrow> bytes" where
  "encode_net_tcp_accept_req listener_fd = to_le_bytes listener_fd"

definition decode_net_tcp_accept_req :: "bytes \<Rightarrow> i32 option" where
  "decode_net_tcp_accept_req p = decode_fd p"

text \<open>A \<open>&str\<close> is its bytes, well-formed UTF-8 by type.\<close>

definition encode_net_tcp_accept_resp :: "i32 \<Rightarrow> bytes \<Rightarrow> bytes" where
  "encode_net_tcp_accept_resp client_fd peer_addr = to_le_bytes client_fd @ peer_addr"

definition decode_net_tcp_accept_resp :: "bytes \<Rightarrow> (i32 \<times> bytes) option" where
  "decode_net_tcp_accept_resp p = do { (fd, r) \<leftarrow> p_u32 p; addr \<leftarrow> from_utf8 r; Some (fd, addr) }"

definition encode_net_tcp_connect_req :: "bytes \<Rightarrow> u16 \<Rightarrow> bytes" where
  "encode_net_tcp_connect_req host port = to_le_bytes port @ host"

definition decode_net_tcp_connect_req :: "bytes \<Rightarrow> (bytes \<times> u16) option" where
  "decode_net_tcp_connect_req p = do { (port, r) \<leftarrow> p_u16 p; host \<leftarrow> from_utf8 r; Some (host, port) }"

definition encode_net_send_req :: "i32 \<Rightarrow> bytes \<Rightarrow> bytes" where
  "encode_net_send_req fd data = to_le_bytes fd @ data"

definition decode_net_send_req :: "bytes \<Rightarrow> (i32 \<times> bytes) option" where
  "decode_net_send_req p = p_u32 p"

definition encode_i32 :: "i32 \<Rightarrow> bytes" where
  "encode_i32 v = to_le_bytes v"

definition decode_i32 :: "bytes \<Rightarrow> i32 option" where
  "decode_i32 p = do { (v, _) \<leftarrow> p_u32 p; Some v }"

definition encode_net_recv_req :: "i32 \<Rightarrow> u32 \<Rightarrow> bytes" where
  "encode_net_recv_req fd max_len = to_le_bytes fd @ to_le_bytes max_len"

definition decode_net_recv_req :: "bytes \<Rightarrow> (i32 \<times> u32) option" where
  "decode_net_recv_req p = do { (fd, r) \<leftarrow> p_u32 p; (max_len, _) \<leftarrow> p_u32 r; Some (fd, max_len) }"

definition encode_net_close_req :: "i32 \<Rightarrow> bytes" where
  "encode_net_close_req fd = to_le_bytes fd"

definition decode_net_close_req :: "bytes \<Rightarrow> i32 option" where
  "decode_net_close_req p = decode_fd p"

section \<open>Key-value payloads\<close>

definition encode_kv_put_req :: "bytes \<Rightarrow> bytes \<Rightarrow> bytes \<Rightarrow> bytes" where
  "encode_kv_put_req table key val = u16_len table @ u32_len key @ val"

definition decode_kv_put_req :: "bytes \<Rightarrow> (bytes \<times> bytes \<times> bytes) option" where
  "decode_kv_put_req p = do {
     (table, r) \<leftarrow> p_u16_len p;
     (key, val) \<leftarrow> p_u32_len r;
     Some (table, key, val) }"

definition encode_kv_get_req :: "bytes \<Rightarrow> bytes \<Rightarrow> bytes" where
  "encode_kv_get_req table key = u16_len table @ key"

definition decode_kv_get_req :: "bytes \<Rightarrow> (bytes \<times> bytes) option" where
  "decode_kv_get_req p = p_u16_len p"

definition encode_kv_delete_req :: "bytes \<Rightarrow> bytes \<Rightarrow> bytes" where
  "encode_kv_delete_req table key = encode_kv_get_req table key"

definition decode_kv_delete_req :: "bytes \<Rightarrow> (bytes \<times> bytes) option" where
  "decode_kv_delete_req p = decode_kv_get_req p"

definition encode_kv_list_keys_req :: "bytes \<Rightarrow> bytes \<Rightarrow> bytes" where
  "encode_kv_list_keys_req table prefix = u16_len table @ prefix"

definition decode_kv_list_keys_req :: "bytes \<Rightarrow> (bytes \<times> bytes) option" where
  "decode_kv_list_keys_req p = decode_kv_get_req p"

definition encode_kv_list_keys_resp :: "bytes list \<Rightarrow> bytes" where
  "encode_kv_list_keys_resp keys = counted u32_len keys"

definition decode_kv_list_keys_resp :: "bytes \<Rightarrow> bytes list option" where
  "decode_kv_list_keys_resp p = do { (keys, _) \<leftarrow> p_counted p_u32_len p; Some keys }"

definition encode_batch_op :: "kv_batch_op \<Rightarrow> bytes" where
  "encode_batch_op op =
     (case op of Put key val \<Rightarrow> [0] @ u32_len key @ u32_len val | Delete key \<Rightarrow> [1] @ u32_len key)"

definition p_batch_op :: "bytes \<Rightarrow> (kv_batch_op \<times> bytes) option" where
  "p_batch_op p = do {
     (tag, r1) \<leftarrow> p_u8 p;
     (key, r2) \<leftarrow> p_u32_len r1;
     if tag = 0 then do { (val, r3) \<leftarrow> p_u32_len r2; Some (Put key val, r3) }
     else if tag = 1 then Some (Delete key, r2)
     else None }"

definition encode_kv_write_batch_req :: "bytes \<Rightarrow> kv_batch_op list \<Rightarrow> bytes" where
  "encode_kv_write_batch_req table ops = u16_len table @ counted encode_batch_op ops"

definition decode_kv_write_batch_req :: "bytes \<Rightarrow> (bytes \<times> kv_batch_op list) option" where
  "decode_kv_write_batch_req p = do {
     (table, r) \<leftarrow> p_u16_len p;
     (ops, _) \<leftarrow> p_counted p_batch_op r;
     Some (table, ops) }"

definition encode_kv_multi_get_req :: "bytes \<Rightarrow> bytes list \<Rightarrow> bytes" where
  "encode_kv_multi_get_req table keys = u16_len table @ counted u32_len keys"

definition decode_kv_multi_get_req :: "bytes \<Rightarrow> (bytes \<times> bytes list) option" where
  "decode_kv_multi_get_req p = do {
     (table, r) \<leftarrow> p_u16_len p;
     (keys, _) \<leftarrow> p_counted p_u32_len r;
     Some (table, keys) }"

definition encode_opt_value :: "bytes option \<Rightarrow> bytes" where
  "encode_opt_value v = (case v of Some x \<Rightarrow> [1] @ u32_len x | None \<Rightarrow> [0])"

definition p_opt_value :: "bytes \<Rightarrow> (bytes option \<times> bytes) option" where
  "p_opt_value p = do {
     (present, r) \<leftarrow> p_u8 p;
     if present = 0 then Some (None, r)
     else if present = 1 then do { (v, r') \<leftarrow> p_u32_len r; Some (Some v, r') }
     else None }"

definition encode_kv_multi_get_resp :: "bytes option list \<Rightarrow> bytes" where
  "encode_kv_multi_get_resp vals = counted encode_opt_value vals"

definition decode_kv_multi_get_resp :: "bytes \<Rightarrow> bytes option list option" where
  "decode_kv_multi_get_resp p = do { (vals, _) \<leftarrow> p_counted p_opt_value p; Some vals }"

definition encode_kv_scan_req :: "bytes \<Rightarrow> bytes \<Rightarrow> bytes \<Rightarrow> u32 \<Rightarrow> bytes" where
  "encode_kv_scan_req table start stop limit = u16_len table @ to_le_bytes limit @ u32_len start @ stop"

definition decode_kv_scan_req :: "bytes \<Rightarrow> (bytes \<times> bytes \<times> bytes \<times> u32) option" where
  "decode_kv_scan_req p = do {
     (table, r1) \<leftarrow> p_u16_len p;
     (limit, r2) \<leftarrow> p_u32 r1;
     (start, stop) \<leftarrow> p_u32_len r2;
     Some (table, start, stop, limit) }"

definition encode_kv_pair :: "bytes \<times> bytes \<Rightarrow> bytes" where
  "encode_kv_pair e = u32_len (fst e) @ u32_len (snd e)"

definition p_kv_pair :: "bytes \<Rightarrow> ((bytes \<times> bytes) \<times> bytes) option" where
  "p_kv_pair p = do { (key, r1) \<leftarrow> p_u32_len p; (val, r2) \<leftarrow> p_u32_len r1; Some ((key, val), r2) }"

definition encode_kv_scan_resp :: "(bytes \<times> bytes) list \<Rightarrow> bytes" where
  "encode_kv_scan_resp entries = counted encode_kv_pair entries"

definition decode_kv_scan_resp :: "bytes \<Rightarrow> (bytes \<times> bytes) list option" where
  "decode_kv_scan_resp p = do { (entries, _) \<leftarrow> p_counted p_kv_pair p; Some entries }"

definition encode_u64 :: "u64 \<Rightarrow> bytes" where
  "encode_u64 v = to_le_bytes v"

definition decode_u64 :: "bytes \<Rightarrow> u64 option" where
  "decode_u64 p = do { (v, _) \<leftarrow> p_u64 p; Some v }"

definition encode_log_req :: "i32 \<Rightarrow> bytes \<Rightarrow> bytes" where
  "encode_log_req level message = to_le_bytes level @ message"

definition decode_log_req :: "bytes \<Rightarrow> (i32 \<times> bytes) option" where
  "decode_log_req p = do { (level, r) \<leftarrow> p_u32 p; msg \<leftarrow> from_utf8 r; Some (level, msg) }"

section \<open>Frames read back exactly\<close>

abbreviation fits_u16 :: "bytes \<Rightarrow> bool" where "fits_u16 x \<equiv> length x < 65536"
abbreviation fits_u32 :: "bytes \<Rightarrow> bool" where "fits_u32 x \<equiv> length x < 4294967296"

lemma from_utf8_iff: "from_utf8 p = Some s \<longleftrightarrow> utf8_valid s \<and> p = s"
  by (auto simp: from_utf8_def)

lemma bind_Some_iff: "do { x \<leftarrow> m; f x } = Some y \<longleftrightarrow> (\<exists>x. m = Some x \<and> f x = Some y)"
  by (cases m) auto

lemmas field_iff = bind_pair_Some bind_Some_iff read_iff u16_bytes.parse_iff u32_bytes.parse_iff from_utf8_iff

lemma decode_request_iff:
  "decode_request data = Some (req_id, method, payload) \<longleftrightarrow>
     fits_u32 payload \<and> (\<exists>tail. data = encode_request req_id method payload @ tail)"
proof
  assume "decode_request data = Some (req_id, method, payload)"
  then obtain n :: u32 and tail where
    "data = to_le_bytes req_id @ to_le_bytes (rpc_method_u16 method) @ to_le_bytes n @ payload @ tail"
    "length payload = unat n"
    by (auto simp: decode_request_def bind_pair_Some bind_Some_iff read_iff rpc_method_from_u16_iff)
  then show "fits_u32 payload \<and> (\<exists>tail. data = encode_request req_id method payload @ tail)"
    using u32_unat_bound [of n] by (auto simp: encode_request_def request_header_def)
next
  assume "fits_u32 payload \<and> (\<exists>tail. data = encode_request req_id method payload @ tail)"
  then show "decode_request data = Some (req_id, method, payload)"
    by (auto simp: decode_request_def encode_request_def request_header_def bind_pair_Some bind_Some_iff
        read_iff rpc_method_from_u16_iff u32_of_nat_unat)
qed

lemma decode_response_alt:
  "decode_response data = do {
     (req_id, r1) \<leftarrow> p_u64 data;
     (status, r2) \<leftarrow> p_u32 r1;
     (n, r3) \<leftarrow> p_u32 r2;
     (payload, _) \<leftarrow> p_bytes (unat n) r3;
     Some (req_id, status, payload) }"
  by (auto simp: decode_response_def decode_response_header_def p_u64_def p_u32_def p_bytes_def Let_def
      RESP_HEADER_SIZE_def)

lemma decode_response_iff:
  "decode_response data = Some (req_id, status, payload) \<longleftrightarrow>
     fits_u32 payload \<and> (\<exists>tail. data = encode_response req_id status payload @ tail)"
proof
  assume "decode_response data = Some (req_id, status, payload)"
  then obtain n :: u32 and tail where
    "data = to_le_bytes req_id @ to_le_bytes status @ to_le_bytes n @ payload @ tail" "length payload = unat n"
    by (auto simp: decode_response_alt bind_pair_Some read_iff)
  then show "fits_u32 payload \<and> (\<exists>tail. data = encode_response req_id status payload @ tail)"
    using u32_unat_bound [of n] by (auto simp: encode_response_def)
next
  assume "fits_u32 payload \<and> (\<exists>tail. data = encode_response req_id status payload @ tail)"
  then show "decode_response data = Some (req_id, status, payload)"
    by (auto simp: decode_response_alt encode_response_def bind_pair_Some read_iff u32_of_nat_unat)
qed

text \<open>
  C30 (RPC frames). A request or response frame decodes to \<open>(id, method or status, payload)\<close> iff the
  bytes start with the encoding of exactly that frame, whose payload length fits its 32-bit field;
  bytes after the frame are ignored by these two decoders.
\<close>

theorem rpc_frames_exact:
  "(decode_request data = Some (req_id, method, payload) \<longleftrightarrow>
      length payload < 2 ^ 32 \<and> (\<exists>tail. data = encode_request req_id method payload @ tail)) \<and>
   (decode_response data = Some (req_id, status, payload) \<longleftrightarrow>
      length payload < 2 ^ 32 \<and> (\<exists>tail. data = encode_response req_id status payload @ tail))"
  by (simp add: decode_request_iff decode_response_iff)

text \<open>Frames of bounded messages are exact frames, never longer than the bound.\<close>

lemma length_request_header: "length (request_header req_id method n) = REQ_HEADER_SIZE"
  by (simp add: request_header_def REQ_HEADER_SIZE_def)

lemma write_parts_append:
  "length a = pos \<Longrightarrow> length b = sum_list (map length parts) \<Longrightarrow>
     write_parts parts pos (a @ b @ c) = a @ concat parts @ c"
proof (induction parts arbitrary: pos a b)
  case (Cons x xs)
  let ?b2 = "drop (length x) b"
  have "overwrite (a @ b @ c) pos x = (a @ x) @ ?b2 @ c"
    using Cons.prems by (simp add: overwrite_def)
  then show ?case
    using Cons.prems Cons.IH [of "a @ x" "pos + length x" ?b2] by simp
qed simp

lemma write_parts_request:
  assumes "length output \<ge> REQ_HEADER_SIZE + sum_list (map length parts)"
  shows "write_parts parts REQ_HEADER_SIZE (overwrite output 0 (request_header i m n)) =
    request_header i m n @ concat parts @ drop (REQ_HEADER_SIZE + sum_list (map length parts)) output"
proof -
  let ?k = "sum_list (map length parts)"
  have "overwrite output 0 (request_header i m n) =
      request_header i m n @ take ?k (drop REQ_HEADER_SIZE output) @ drop (REQ_HEADER_SIZE + ?k) output"
    by (simp add: overwrite_def length_request_header flip: drop_drop)
      (metis add.commute append_take_drop_id drop_drop)
  then show ?thesis
    using assms write_parts_append [of "request_header i m n" REQ_HEADER_SIZE "take ?k (drop REQ_HEADER_SIZE output)" parts]
    by (simp add: length_request_header)
qed

text \<open>
  C31 (Writing a request in place). Encoding the parts of a payload into an existing buffer writes
  the ordinary frame of the joined payload at its start, leaves the rest of the buffer alone, and
  succeeds exactly when the frame passes the bound and fits; when it does not, the buffer is not
  touched.
\<close>

theorem request_parts_in_place:
  "encode_request_parts_into_bounded req_id method parts maximum output =
     (let payload = concat parts; len = REQ_HEADER_SIZE + length payload in
      if framed_payload_len_valid (length payload) REQ_HEADER_SIZE maximum \<and> len \<le> length output
      then (Some len, encode_request req_id method payload @ drop len output)
      else (None, output))"
proof (cases "framed_payload_len_valid (length (concat parts)) REQ_HEADER_SIZE maximum \<and>
    REQ_HEADER_SIZE + length (concat parts) \<le> length output")
  case True
  then show ?thesis
    using write_parts_request [of parts "output" req_id "method" "word_of_nat (length (concat parts))"]
    by (auto simp: encode_request_parts_into_bounded_def framed_payload_len_valid_def length_concat
        encode_request_def Let_def)
next
  case False
  then show ?thesis
    by (auto simp: encode_request_parts_into_bounded_def Let_def length_concat not_le)
qed

section \<open>Payloads read back exactly\<close>

definition op_ok :: "kv_batch_op \<Rightarrow> bool" where
  "op_ok op = (case op of Put key val \<Rightarrow> fits_u32 key \<and> fits_u32 val | Delete key \<Rightarrow> fits_u32 key)"

definition opt_value_ok :: "bytes option \<Rightarrow> bool" where
  "opt_value_ok v = (case v of None \<Rightarrow> True | Some x \<Rightarrow> fits_u32 x)"

definition kv_pair_ok :: "bytes \<times> bytes \<Rightarrow> bool" where
  "kv_pair_ok e \<longleftrightarrow> fits_u32 (fst e) \<and> fits_u32 (snd e)"

interpretation batch_op_format: wire_format encode_batch_op p_batch_op op_ok
proof
  fix op r p
  show "op_ok op \<Longrightarrow> p_batch_op (encode_batch_op op @ r) = Some (op, r)"
    by (cases op) (simp_all add: p_batch_op_def encode_batch_op_def op_ok_def u32_bytes.parse_enc p_u8_def)
  assume "p_batch_op p = Some (op, r)"
  then show "op_ok op \<and> p = encode_batch_op op @ r"
    by (auto simp: p_batch_op_def field_iff op_ok_def encode_batch_op_def split: if_splits)
qed

interpretation opt_value_format: wire_format encode_opt_value p_opt_value opt_value_ok
proof
  fix v r p
  show "opt_value_ok v \<Longrightarrow> p_opt_value (encode_opt_value v @ r) = Some (v, r)"
    by (cases v) (simp_all add: p_opt_value_def encode_opt_value_def opt_value_ok_def u32_bytes.parse_enc p_u8_def)
  assume "p_opt_value p = Some (v, r)"
  then show "opt_value_ok v \<and> p = encode_opt_value v @ r"
    by (auto simp: p_opt_value_def field_iff opt_value_ok_def encode_opt_value_def split: if_splits)
qed

interpretation kv_pair_format: wire_format encode_kv_pair p_kv_pair kv_pair_ok
proof
  fix e r p
  show "kv_pair_ok e \<Longrightarrow> p_kv_pair (encode_kv_pair e @ r) = Some (e, r)"
    by (cases e) (simp add: p_kv_pair_def encode_kv_pair_def kv_pair_ok_def u32_bytes.parse_enc)
  assume "p_kv_pair p = Some (e, r)"
  then show "kv_pair_ok e \<and> p = encode_kv_pair e @ r"
    by (auto simp: p_kv_pair_def field_iff kv_pair_ok_def encode_kv_pair_def)
qed

lemmas counted_formats = u32_bytes.counted_iff batch_op_format.counted_iff opt_value_format.counted_iff
  kv_pair_format.counted_iff


text \<open>
  Connect, accept, listen, send, receive and log payloads read back the
  values they were written from, and the text fields only as well-formed UTF-8.
\<close>

theorem net_payloads_roundtrip:
  "decode_net_tcp_listen_req (encode_net_tcp_listen_req port backlog) = Some (port, backlog) \<and>
   decode_fd (encode_fd fd) = Some fd \<and> decode_i32 (encode_i32 fd) = Some fd \<and> decode_u64 (encode_u64 t) = Some t \<and>
   decode_net_send_req (encode_net_send_req fd data) = Some (fd, data) \<and>
   decode_net_recv_req (encode_net_recv_req fd max_len) = Some (fd, max_len) \<and>
   decode_net_tcp_accept_resp (encode_net_tcp_accept_resp fd text) = (if utf8_valid text then Some (fd, text) else None) \<and>
   decode_net_tcp_connect_req (encode_net_tcp_connect_req text port) = (if utf8_valid text then Some (text, port) else None) \<and>
   decode_log_req (encode_log_req fd text) = (if utf8_valid text then Some (fd, text) else None)"
  unfolding decode_net_tcp_listen_req_def encode_net_tcp_listen_req_def decode_fd_def encode_fd_def decode_i32_def
    encode_i32_def decode_u64_def encode_u64_def decode_net_send_req_def encode_net_send_req_def
    decode_net_recv_req_def encode_net_recv_req_def decode_net_tcp_accept_resp_def encode_net_tcp_accept_resp_def
    decode_net_tcp_connect_req_def encode_net_tcp_connect_req_def decode_log_req_def encode_log_req_def
  by (simp add: p_u16_def p_u32_def p_u64_def from_utf8_def)

end
