(* ===== verification/Rpc_Honest.thy ===== *)
theory Rpc_Honest
  imports Rpc_Codec
begin

text \<open>
  The bounded profiles on top of the RPC wire: the role-owned envelope of
  \<open>common/src/rpc/honest.rs\<close> with its batches (\<open>rpc/honest/get_batch.rs\<close>), durable writes
  (\<open>rpc/durable.rs\<close>) and bounded key-value batches (\<open>rpc/bounded_kv.rs\<close>). Unlike the legacy
  decoders these are strict: the theorems give, for each, the one encoding it accepts.
\<close>

section \<open>The envelope\<close>

definition HONEST_RPC_MAGIC :: bytes where "HONEST_RPC_MAGIC = str_bytes ''HRPC''"
definition HONEST_RPC_PROFILE_VERSION :: u16 where "HONEST_RPC_PROFILE_VERSION = 1"
definition MAX_HONEST_RPC_PAYLOAD_BYTES :: nat where "MAX_HONEST_RPC_PAYLOAD_BYTES = 1024 * 1024"
definition HONEST_REQ_HEADER_SIZE :: nat where "HONEST_REQ_HEADER_SIZE = 38"
definition HONEST_RESP_HEADER_SIZE :: nat where "HONEST_RESP_HEADER_SIZE = 42"

datatype rpc_role = Control | Execution

fun rpc_role_u8 :: "rpc_role \<Rightarrow> byte" where
  "rpc_role_u8 Control = 1"
| "rpc_role_u8 Execution = 2"

definition rpc_role_from_u8 :: "byte \<Rightarrow> rpc_role option" where
  "rpc_role_from_u8 v = (if v = 1 then Some Control else if v = 2 then Some Execution else None)"

record honest_rpc_identity =
  hi_role :: rpc_role
  hi_node_id :: u64
  hi_node_generation :: u64
  hi_operation_id :: u64
  hi_method :: rpc_method

datatype honest_rpc_frame_error =
    NotHonestFrame
  | Malformed
  | UnsupportedProfile
  | InvalidRole
  | InvalidIdentity
  | UnexpectedIdentity
  | PayloadBound

definition has_honest_rpc_magic :: "bytes \<Rightarrow> bool" where
  "has_honest_rpc_magic data \<longleftrightarrow> length HONEST_RPC_MAGIC \<le> length data \<and> take 4 data = HONEST_RPC_MAGIC"

definition identity_valid :: "honest_rpc_identity \<Rightarrow> bool" where
  "identity_valid i \<longleftrightarrow> \<not> (hi_node_id i = 0 \<or> hi_node_generation i = 0 \<or> hi_operation_id i = 0)"

definition validate_honest_identity :: "honest_rpc_identity \<Rightarrow> honest_rpc_frame_error + unit" where
  "validate_honest_identity i = (if identity_valid i then Inr () else Inl InvalidIdentity)"

definition encode_honest_identity :: "honest_rpc_identity \<Rightarrow> bytes" where
  "encode_honest_identity i =
     HONEST_RPC_MAGIC @ to_le_bytes HONEST_RPC_PROFILE_VERSION @ [rpc_role_u8 (hi_role i), 0] @
     to_le_bytes (hi_node_id i) @ to_le_bytes (hi_node_generation i) @ to_le_bytes (hi_operation_id i) @
     to_le_bytes (rpc_method_u16 (hi_method i))"

definition slice :: "bytes \<Rightarrow> nat \<Rightarrow> nat \<Rightarrow> bytes" where
  "slice bs from to = take (to - from) (drop from bs)"

definition decode_honest_identity :: "bytes \<Rightarrow> nat \<Rightarrow> honest_rpc_frame_error + honest_rpc_identity" where
  "decode_honest_identity encoded minimum_length =
     (if \<not> has_honest_rpc_magic encoded then Inl NotHonestFrame
      else if length encoded < minimum_length then Inl Malformed
      else if from_le_bytes (slice encoded 4 6) \<noteq> HONEST_RPC_PROFILE_VERSION then Inl UnsupportedProfile
      else if encoded ! 7 \<noteq> 0 then Inl Malformed
      else case rpc_role_from_u8 (encoded ! 6) of
        None \<Rightarrow> Inl InvalidRole
      | Some role \<Rightarrow>
          (case rpc_method_from_u16 (from_le_bytes (slice encoded 32 34)) of
             None \<Rightarrow> Inl Malformed
           | Some method \<Rightarrow>
               let identity = \<lparr>hi_role = role,
                               hi_node_id = from_le_bytes (slice encoded 8 16),
                               hi_node_generation = from_le_bytes (slice encoded 16 24),
                               hi_operation_id = from_le_bytes (slice encoded 24 32),
                               hi_method = method\<rparr>
               in case validate_honest_identity identity of Inl e \<Rightarrow> Inl e | Inr _ \<Rightarrow> Inr identity))"

definition encode_honest_request :: "honest_rpc_identity \<Rightarrow> bytes \<Rightarrow> honest_rpc_frame_error + bytes" where
  "encode_honest_request i payload =
     (case validate_honest_identity i of
        Inl e \<Rightarrow> Inl e
      | Inr _ \<Rightarrow>
          if length payload > MAX_HONEST_RPC_PAYLOAD_BYTES then Inl PayloadBound
          else Inr (encode_honest_identity i @ to_le_bytes (word_of_nat (length payload) :: u32) @ payload))"

definition decode_honest_request :: "bytes \<Rightarrow> honest_rpc_frame_error + honest_rpc_identity \<times> bytes" where
  "decode_honest_request encoded =
     (case decode_honest_identity encoded HONEST_REQ_HEADER_SIZE of
        Inl e \<Rightarrow> Inl e
      | Inr i \<Rightarrow>
          let payload_length = unat (from_le_bytes (slice encoded 34 38) :: u32) in
          if payload_length > MAX_HONEST_RPC_PAYLOAD_BYTES then Inl PayloadBound
          else if length encoded \<noteq> HONEST_REQ_HEADER_SIZE + payload_length then Inl Malformed
          else Inr (i, drop HONEST_REQ_HEADER_SIZE encoded))"

definition encode_honest_response :: "honest_rpc_identity \<Rightarrow> i32 \<Rightarrow> bytes \<Rightarrow> honest_rpc_frame_error + bytes" where
  "encode_honest_response i status payload =
     (case validate_honest_identity i of
        Inl e \<Rightarrow> Inl e
      | Inr _ \<Rightarrow>
          if length payload > MAX_HONEST_RPC_PAYLOAD_BYTES then Inl PayloadBound
          else Inr (encode_honest_identity i @ to_le_bytes status @
                    to_le_bytes (word_of_nat (length payload) :: u32) @ payload))"

definition decode_honest_response :: "bytes \<Rightarrow> honest_rpc_frame_error + honest_rpc_identity \<times> i32 \<times> bytes" where
  "decode_honest_response encoded =
     (case decode_honest_identity encoded HONEST_RESP_HEADER_SIZE of
        Inl e \<Rightarrow> Inl e
      | Inr i \<Rightarrow>
          let status = from_le_bytes (slice encoded 34 38);
              payload_length = unat (from_le_bytes (slice encoded 38 42) :: u32) in
          if payload_length > MAX_HONEST_RPC_PAYLOAD_BYTES then Inl PayloadBound
          else if length encoded \<noteq> HONEST_RESP_HEADER_SIZE + payload_length then Inl Malformed
          else Inr (i, status, drop HONEST_RESP_HEADER_SIZE encoded))"

definition decode_honest_response_for ::
    "bytes \<Rightarrow> honest_rpc_identity \<Rightarrow> honest_rpc_frame_error + honest_rpc_identity \<times> i32 \<times> bytes" where
  "decode_honest_response_for encoded expected =
     (case decode_honest_response encoded of
        Inl e \<Rightarrow> Inl e
      | Inr (i, status, payload) \<Rightarrow>
          if i \<noteq> expected then Inl UnexpectedIdentity else Inr (i, status, payload))"

definition honest_role_allows_method :: "rpc_role \<Rightarrow> rpc_method \<Rightarrow> bool" where
  "honest_role_allows_method role method =
     (case role of
        Control \<Rightarrow> method = KvPutDurable
      | Execution \<Rightarrow> method \<in> set [NetTcpConnect, NetSend, NetRecv, NetClose, WorkerStorage])"

section \<open>Worker storage\<close>

datatype worker_storage_operation = Get | PutOp | DurablePut | DeleteOp | PutBatch | GetBatch

fun worker_op_u8 :: "worker_storage_operation \<Rightarrow> byte" where
  "worker_op_u8 Get = 0"
| "worker_op_u8 PutOp = 1"
| "worker_op_u8 DurablePut = 2"
| "worker_op_u8 DeleteOp = 3"
| "worker_op_u8 PutBatch = 4"
| "worker_op_u8 GetBatch = 5"

definition encode_worker_storage_request ::
    "worker_storage_operation \<Rightarrow> bytes \<Rightarrow> honest_rpc_frame_error + bytes" where
  "encode_worker_storage_request operation payload =
     (if length payload + 1 > MAX_HONEST_RPC_PAYLOAD_BYTES then Inl PayloadBound
      else Inr (worker_op_u8 operation # payload))"

definition decode_worker_storage_request :: "bytes \<Rightarrow> (worker_storage_operation \<times> bytes) option" where
  "decode_worker_storage_request bs =
     (case bs of
        [] \<Rightarrow> None
      | b # payload \<Rightarrow>
          if b = 0 then Some (Get, payload) else if b = 1 then Some (PutOp, payload)
          else if b = 2 then Some (DurablePut, payload) else if b = 3 then Some (DeleteOp, payload)
          else if b = 4 then Some (PutBatch, payload) else if b = 5 then Some (GetBatch, payload)
          else None)"

definition MAX_WORKER_STORAGE_BATCH_BYTES :: nat where "MAX_WORKER_STORAGE_BATCH_BYTES = 768 * 1024"
definition MAX_WORKER_STORAGE_BATCH_RECORDS :: nat where "MAX_WORKER_STORAGE_BATCH_RECORDS = 64"
definition MAX_WORKER_STORAGE_BATCH_TABLE_BYTES :: nat where "MAX_WORKER_STORAGE_BATCH_TABLE_BYTES = 256"
definition MAX_WORKER_STORAGE_BATCH_KEY_BYTES :: nat where "MAX_WORKER_STORAGE_BATCH_KEY_BYTES = 512"
definition WORKER_STORAGE_BATCH_HEADER_BYTES :: nat where "WORKER_STORAGE_BATCH_HEADER_BYTES = 4"
definition WORKER_STORAGE_BATCH_RECORD_HEADER_BYTES :: nat where "WORKER_STORAGE_BATCH_RECORD_HEADER_BYTES = 6"

fun put_batch_len :: "nat \<Rightarrow> (bytes \<times> bytes) list \<Rightarrow> nat option" where
  "put_batch_len len [] = Some len"
| "put_batch_len len ((key, val) # records) =
     (if key = [] \<or> length key > MAX_WORKER_STORAGE_BATCH_KEY_BYTES \<or> val = [] then None
      else if length val > U32_MAX then None
      else put_batch_len (len + WORKER_STORAGE_BATCH_RECORD_HEADER_BYTES + length key + length val) records)"

definition worker_storage_put_batch_encoded_len :: "bytes \<Rightarrow> (bytes \<times> bytes) list \<Rightarrow> nat option" where
  "worker_storage_put_batch_encoded_len table records =
     (if table = [] \<or> length table > MAX_WORKER_STORAGE_BATCH_TABLE_BYTES \<or> records = []
         \<or> length records > MAX_WORKER_STORAGE_BATCH_RECORDS then None
      else case put_batch_len (WORKER_STORAGE_BATCH_HEADER_BYTES + length table) records of
             None \<Rightarrow> None
           | Some len \<Rightarrow> if len \<le> MAX_WORKER_STORAGE_BATCH_BYTES then Some len else None)"

definition encode_put_record :: "bytes \<times> bytes \<Rightarrow> bytes" where
  "encode_put_record e =
     to_le_bytes (word_of_nat (length (fst e)) :: u16) @ to_le_bytes (word_of_nat (length (snd e)) :: u32) @
     fst e @ snd e"

definition encode_worker_storage_put_batch :: "bytes \<Rightarrow> (bytes \<times> bytes) list \<Rightarrow> bytes option" where
  "encode_worker_storage_put_batch table records =
     (case worker_storage_put_batch_encoded_len table records of
        None \<Rightarrow> None
      | Some _ \<Rightarrow>
          Some (u16_len table @ to_le_bytes (word_of_nat (length records) :: u16) @
                concat (map encode_put_record records)))"

definition p_put_record :: "bytes \<Rightarrow> ((bytes \<times> bytes) \<times> bytes) option" where
  "p_put_record p = do {
     (key_len, r1) \<leftarrow> p_u16 p;
     (value_len, r2) \<leftarrow> p_u32 r1;
     if key_len = 0 \<or> unat key_len > MAX_WORKER_STORAGE_BATCH_KEY_BYTES \<or> value_len = 0 then None
     else do {
       (key, r3) \<leftarrow> p_bytes (unat key_len) r2;
       (val, r4) \<leftarrow> p_bytes (unat value_len) r3;
       Some ((key, val), r4) } }"

definition decode_worker_storage_put_batch :: "bytes \<Rightarrow> (bytes \<times> (bytes \<times> bytes) list) option" where
  "decode_worker_storage_put_batch bs =
     (if length bs > MAX_WORKER_STORAGE_BATCH_BYTES then None
      else do {
        (table_len, r1) \<leftarrow> p_u16 bs;
        if table_len = 0 \<or> unat table_len > MAX_WORKER_STORAGE_BATCH_TABLE_BYTES then None
        else do {
          (table, r2) \<leftarrow> p_bytes (unat table_len) r1;
          (count, r3) \<leftarrow> p_u16 r2;
          if count = 0 \<or> unat count > MAX_WORKER_STORAGE_BATCH_RECORDS then None
          else do {
            (records, r4) \<leftarrow> p_many p_put_record (unat count) r3;
            if r4 = [] then Some (table, records) else None } } })"

section \<open>Durable writes (durable.rs)\<close>

definition MAX_DURABLE_KV_TABLE_BYTES :: nat where "MAX_DURABLE_KV_TABLE_BYTES = 64"
definition MAX_DURABLE_KV_KEY_BYTES :: nat where "MAX_DURABLE_KV_KEY_BYTES = 256"

definition is_ascii_alphanumeric :: "byte \<Rightarrow> bool" where
  "is_ascii_alphanumeric c \<longleftrightarrow> 0x30 \<le> c \<and> c \<le> 0x39 \<or> 0x41 \<le> c \<and> c \<le> 0x5A \<or> 0x61 \<le> c \<and> c \<le> 0x7A"

definition durable_kv_put_fields_valid :: "bytes \<Rightarrow> bytes \<Rightarrow> bytes \<Rightarrow> bool" where
  "durable_kv_put_fields_valid table key val \<longleftrightarrow>
     table \<noteq> [] \<and> length table \<le> MAX_DURABLE_KV_TABLE_BYTES \<and>
     list_all (\<lambda>c. is_ascii_alphanumeric c \<or> c \<in> set (str_bytes ''._-'')) table \<and>
     key \<noteq> [] \<and> length key \<le> MAX_DURABLE_KV_KEY_BYTES \<and> val \<noteq> [] \<and>
     length table + length key + length val + 6 \<le> MAX_HONEST_RPC_PAYLOAD_BYTES"

definition encode_durable_kv_put_req :: "bytes \<Rightarrow> bytes \<Rightarrow> bytes \<Rightarrow> bytes option" where
  "encode_durable_kv_put_req table key val =
     (if durable_kv_put_fields_valid table key val then Some (encode_kv_put_req table key val) else None)"

definition decode_durable_kv_put_req :: "bytes \<Rightarrow> (bytes \<times> bytes \<times> bytes) option" where
  "decode_durable_kv_put_req payload =
     (if length payload > MAX_HONEST_RPC_PAYLOAD_BYTES then None
      else case decode_kv_put_req payload of
             None \<Rightarrow> None
           | Some (table, key, val) \<Rightarrow>
               if durable_kv_put_fields_valid table key val then Some (table, key, val) else None)"

definition decode_durable_kv_put_response :: "bytes \<Rightarrow> u64 \<Rightarrow> i32 + unit" where
  "decode_durable_kv_put_response bs request_id =
     (case decode_response bs of
        None \<Rightarrow> Inl (- 1)
      | Some (received, status, payload) \<Rightarrow>
          if received \<noteq> request_id \<or> request_id = 0 \<or> length bs \<noteq> RESP_HEADER_SIZE \<or> payload \<noteq> []
          then Inl (- 1)
          else if status \<noteq> 0 then Inl status
          else Inr ())"

section \<open>Bounded batches (bounded\_kv.rs)\<close>

definition MAX_BOUNDED_KV_ITEMS :: nat where "MAX_BOUNDED_KV_ITEMS = 8"
definition MAX_BOUNDED_KV_BYTES :: nat where "MAX_BOUNDED_KV_BYTES = 1536 * 1024"
definition KV_MAX_KEY_SIZE :: nat where "KV_MAX_KEY_SIZE = 1024"
definition KV_MAX_VALUE_SIZE :: nat where "KV_MAX_VALUE_SIZE = 1024 * 1024"

definition bounded_kv_limits_valid :: "nat list \<Rightarrow> bool" where
  "bounded_kv_limits_valid maxima \<longleftrightarrow>
     maxima \<noteq> [] \<and> length maxima \<le> MAX_BOUNDED_KV_ITEMS \<and>
     list_all (\<lambda>n. n > 0 \<and> n \<le> KV_MAX_VALUE_SIZE) maxima \<and> sum_list maxima \<le> MAX_BOUNDED_KV_BYTES"

fun p_bounded_values :: "nat list \<Rightarrow> bytes \<Rightarrow> (bytes option list \<times> bytes) option" where
  "p_bounded_values [] p = Some ([], p)"
| "p_bounded_values (maximum # maxima) p = do {
     (present, r1) \<leftarrow> p_u8 p;
     if present = 0 then do { (vs, r) \<leftarrow> p_bounded_values maxima r1; Some (None # vs, r) }
     else if present = 1 then do {
       (len, r2) \<leftarrow> p_u32 r1;
       if unat len > maximum then None
       else do {
         (v, r3) \<leftarrow> p_bytes (unat len) r2;
         (vs, r) \<leftarrow> p_bounded_values maxima r3;
         Some (Some v # vs, r) } }
     else None }"

definition decode_kv_multi_get_resp_bounded :: "bytes \<Rightarrow> nat list \<Rightarrow> bytes option list option" where
  "decode_kv_multi_get_resp_bounded bs maxima =
     (if \<not> bounded_kv_limits_valid maxima \<or> length bs > 4 + 5 * length maxima + sum_list maxima then None
      else do {
        (count, r) \<leftarrow> p_u32 bs;
        if unat count \<noteq> length maxima then None
        else do { (vs, r') \<leftarrow> p_bounded_values maxima r; if r' = [] then Some vs else None } })"

record kv_put_batch_bounds =
  kb_maximum_records :: nat
  kb_maximum_value_bytes :: nat
  kb_maximum_total_value_bytes :: nat

definition kv_put_batch_bounds_new :: "nat \<Rightarrow> nat \<Rightarrow> nat \<Rightarrow> kv_put_batch_bounds option" where
  "kv_put_batch_bounds_new maximum_records maximum_value_bytes maximum_total_value_bytes =
     (if maximum_records = 0 \<or> maximum_value_bytes = 0 \<or> maximum_total_value_bytes = 0 then None
      else Some \<lparr>kb_maximum_records = min maximum_records MAX_BOUNDED_KV_ITEMS,
                 kb_maximum_value_bytes = min maximum_value_bytes KV_MAX_VALUE_SIZE,
                 kb_maximum_total_value_bytes = min maximum_total_value_bytes MAX_BOUNDED_KV_BYTES\<rparr>)"

text \<open>The loop that checks each record and sums the value bytes and the encoded bytes.\<close>

fun put_records_sizes :: "nat \<Rightarrow> (bytes \<times> bytes) list \<Rightarrow> nat \<Rightarrow> nat \<Rightarrow> (nat \<times> nat) option" where
  "put_records_sizes max_value [] value_bytes encoded_bytes = Some (value_bytes, encoded_bytes)"
| "put_records_sizes max_value ((key, val) # records) value_bytes encoded_bytes =
     (if key = [] \<or> length key > KV_MAX_KEY_SIZE \<or> val = [] \<or> length val > max_value then None
      else put_records_sizes max_value records (value_bytes + length val)
             (encoded_bytes + 9 + length key + length val))"

definition encode_kv_put_batch_req_borrowed ::
    "bytes \<Rightarrow> (bytes \<times> bytes) list \<Rightarrow> kv_put_batch_bounds \<Rightarrow> bytes option" where
  "encode_kv_put_batch_req_borrowed table records bounds =
     (if table = [] \<or> records = [] \<or> length records > kb_maximum_records bounds then None
      else if length table > 65535 \<or> length records > U32_MAX then None
      else case put_records_sizes (kb_maximum_value_bytes bounds) records 0 (2 + length table + 4) of
        None \<Rightarrow> None
      | Some (value_bytes, encoded_bytes) \<Rightarrow>
          if value_bytes > kb_maximum_total_value_bytes bounds \<or>
             \<not> framed_payload_len_valid encoded_bytes REQ_HEADER_SIZE (max_message_bytes DEFAULT_QUEUE_CAPACITY)
          then None
          else Some (u16_len table @ to_le_bytes (word_of_nat (length records) :: u32) @
                     concat (map (\<lambda>(key, val). [0] @ u32_len key @ u32_len val) records)))"

section \<open>Read batches (honest/get\_batch.rs)\<close>

definition SCOPE_BYTES :: nat where "SCOPE_BYTES = 32"
definition WORKER_GET_BATCH_RESPONSE_HEADER_BYTES :: nat where "WORKER_GET_BATCH_RESPONSE_HEADER_BYTES = 2"
definition WORKER_GET_BATCH_VALUE_HEADER_BYTES :: nat where "WORKER_GET_BATCH_VALUE_HEADER_BYTES = 4"

fun reply_demand :: "nat \<Rightarrow> nat list \<Rightarrow> nat option" where
  "reply_demand len [] = Some len"
| "reply_demand len (maximum # maxima) =
     (if maximum = 0 then None
      else if maximum > U32_MAX then None
      else reply_demand (len + WORKER_GET_BATCH_VALUE_HEADER_BYTES + maximum) maxima)"

definition worker_get_batch_response_demand :: "nat list \<Rightarrow> nat option" where
  "worker_get_batch_response_demand maxima =
     (if maxima = [] \<or> length maxima > MAX_WORKER_STORAGE_BATCH_RECORDS then None
      else reply_demand WORKER_GET_BATCH_RESPONSE_HEADER_BYTES maxima)"

definition get_request_header :: "nat \<Rightarrow> nat" where
  "get_request_header table_bytes = SCOPE_BYTES + 2 * 2 + table_bytes"

definition get_request_record :: "nat \<Rightarrow> nat" where
  "get_request_record key_bytes = key_bytes + (2 + 4)"

fun key_demand :: "nat \<Rightarrow> nat \<Rightarrow> nat list \<Rightarrow> (nat \<times> nat) option" where
  "key_demand count len [] = Some (count, len)"
| "key_demand count len (key_bytes # rest) =
     (if count = MAX_WORKER_STORAGE_BATCH_RECORDS \<or> key_bytes = 0 \<or> key_bytes > MAX_WORKER_STORAGE_BATCH_KEY_BYTES
      then None
      else key_demand (count + 1) (len + get_request_record key_bytes) rest)"

definition worker_get_batch_request_demand :: "nat \<Rightarrow> nat list \<Rightarrow> nat option" where
  "worker_get_batch_request_demand table_bytes key_lengths =
     (if table_bytes = 0 \<or> table_bytes > MAX_WORKER_STORAGE_BATCH_TABLE_BYTES then None
      else case key_demand 0 (get_request_header table_bytes) key_lengths of
             None \<Rightarrow> None
           | Some (count, len) \<Rightarrow> if count = 0 then None else Some len)"

definition checked_sub :: "nat \<Rightarrow> nat \<Rightarrow> nat option" where
  "checked_sub a b = (if b \<le> a then Some (a - b) else None)"

definition worker_get_batch_geometry :: "bytes \<Rightarrow> nat \<Rightarrow> nat \<Rightarrow> nat \<Rightarrow> nat \<Rightarrow> (nat \<times> nat) option" where
  "worker_get_batch_geometry table key val request_maximum response_maximum =
     (if table = [] \<or> length table > MAX_WORKER_STORAGE_BATCH_TABLE_BYTES \<or> key = 0
         \<or> key > MAX_WORKER_STORAGE_BATCH_KEY_BYTES \<or> val = 0 then None
      else if val > U32_MAX then None
      else do {
        let header = get_request_header (length table);
        let record = get_request_record key;
        request_room \<leftarrow> checked_sub request_maximum HONEST_REQ_HEADER_SIZE;
        request_payload \<leftarrow> checked_sub (min request_room MAX_HONEST_RPC_PAYLOAD_BYTES) 1;
        response_room \<leftarrow> checked_sub response_maximum HONEST_RESP_HEADER_SIZE;
        let response_payload = min response_room MAX_HONEST_RPC_PAYLOAD_BYTES;
        keys_room \<leftarrow> checked_sub request_payload header;
        vals_room \<leftarrow> checked_sub response_payload WORKER_GET_BATCH_RESPONSE_HEADER_BYTES;
        let count = min (min MAX_WORKER_STORAGE_BATCH_RECORDS (keys_room div record))
                      (vals_room div (val + WORKER_GET_BATCH_VALUE_HEADER_BYTES));
        if count = 0 then None
        else do {
          demand \<leftarrow> worker_get_batch_request_demand (length table) (replicate count key);
          Some (count, demand) } })"

fun get_reply_len :: "nat \<Rightarrow> (bytes \<times> nat) list \<Rightarrow> nat option" where
  "get_reply_len reply [] = Some reply"
| "get_reply_len reply ((key, maximum) # rest) =
     (if key = [] \<or> length key > MAX_WORKER_STORAGE_BATCH_KEY_BYTES \<or> maximum = 0 then None
      else if maximum > U32_MAX then None
      else get_reply_len (reply + WORKER_GET_BATCH_VALUE_HEADER_BYTES + maximum) rest)"

definition worker_get_batch_encoded_len :: "bytes \<Rightarrow> bytes \<Rightarrow> (bytes \<times> nat) list \<Rightarrow> nat \<Rightarrow> nat \<Rightarrow> nat option" where
  "worker_get_batch_encoded_len scope table requests request_maximum response_maximum =
     (if scope = replicate 32 0 \<or> table = [] \<or> length table > MAX_WORKER_STORAGE_BATCH_TABLE_BYTES
         \<or> requests = [] \<or> length requests > MAX_WORKER_STORAGE_BATCH_RECORDS then None
      else do {
        len \<leftarrow> worker_get_batch_request_demand (length table) (map (\<lambda>(key, _). length key) requests);
        reply \<leftarrow> get_reply_len WORKER_GET_BATCH_RESPONSE_HEADER_BYTES requests;
        if \<not> framed_payload_len_valid (len + 1) HONEST_REQ_HEADER_SIZE request_maximum
           \<or> len + 1 > MAX_HONEST_RPC_PAYLOAD_BYTES
           \<or> reply > MAX_HONEST_RPC_PAYLOAD_BYTES
           \<or> \<not> framed_payload_len_valid reply HONEST_RESP_HEADER_SIZE response_maximum
        then None
        else Some len })"

definition encode_get_record :: "bytes \<times> nat \<Rightarrow> bytes" where
  "encode_get_record e =
     to_le_bytes (word_of_nat (length (fst e)) :: u16) @ to_le_bytes (word_of_nat (snd e) :: u32) @ fst e"

text \<open>
  The allocator is assumed to give a vector the capacity that was reserved exactly, the branch the
  code takes when it does.
\<close>

definition encode_worker_get_batch :: "bytes \<Rightarrow> bytes \<Rightarrow> (bytes \<times> nat) list \<Rightarrow> nat \<Rightarrow> nat \<Rightarrow> bytes option" where
  "encode_worker_get_batch scope table requests request_maximum response_maximum =
     (case worker_get_batch_encoded_len scope table requests request_maximum response_maximum of
        None \<Rightarrow> None
      | Some _ \<Rightarrow>
          Some (scope @ u16_len table @ to_le_bytes (word_of_nat (length requests) :: u16) @
                concat (map encode_get_record requests)))"

definition p_get_record :: "bytes \<Rightarrow> ((bytes \<times> nat) \<times> bytes) option" where
  "p_get_record p = do {
     (len, r1) \<leftarrow> p_u16 p;
     (maximum, r2) \<leftarrow> p_u32 r1;
     (key, r3) \<leftarrow> p_bytes (unat len) r2;
     Some ((key, unat maximum), r3) }"

definition decode_worker_get_batch :: "bytes \<Rightarrow> nat \<Rightarrow> nat \<Rightarrow> (bytes \<times> bytes \<times> (bytes \<times> nat) list) option" where
  "decode_worker_get_batch bs request_maximum response_maximum = do {
     (scope, r1) \<leftarrow> p_bytes SCOPE_BYTES bs;
     (table, r2) \<leftarrow> p_u16_len r1;
     (count, r3) \<leftarrow> p_u16 r2;
     if count = 0 \<or> unat count > MAX_WORKER_STORAGE_BATCH_RECORDS then None
     else do {
       (records, r4) \<leftarrow> p_many p_get_record (unat count) r3;
       if r4 \<noteq> [] then None
       else do {
         _ \<leftarrow> worker_get_batch_encoded_len scope table records request_maximum response_maximum;
         Some (scope, table, records) } } }"

fun get_values_len :: "nat \<Rightarrow> (bytes \<times> nat) list \<Rightarrow> nat option" where
  "get_values_len len [] = Some len"
| "get_values_len len ((val, maximum) # rest) =
     (if val = [] \<or> length val > maximum then None
      else get_values_len (len + WORKER_GET_BATCH_VALUE_HEADER_BYTES + length val) rest)"

definition encode_worker_get_batch_response :: "bytes list \<Rightarrow> nat list \<Rightarrow> nat \<Rightarrow> bytes option" where
  "encode_worker_get_batch_response vals maxima response_maximum =
     (if length vals \<noteq> length maxima then None
      else do {
        demand \<leftarrow> worker_get_batch_response_demand maxima;
        if demand > MAX_HONEST_RPC_PAYLOAD_BYTES \<or> \<not> framed_payload_len_valid demand HONEST_RESP_HEADER_SIZE response_maximum
        then None
        else do {
          _ \<leftarrow> get_values_len WORKER_GET_BATCH_RESPONSE_HEADER_BYTES (zip vals maxima);
          Some (to_le_bytes (word_of_nat (length vals) :: u16) @ concat (map u32_len vals)) } })"

fun p_get_values :: "nat list \<Rightarrow> bytes \<Rightarrow> (bytes list \<times> bytes) option" where
  "p_get_values [] p = Some ([], p)"
| "p_get_values (maximum # maxima) p = do {
     (len, r1) \<leftarrow> p_u32 p;
     if len = 0 \<or> unat len > maximum then None
     else do {
       (v, r2) \<leftarrow> p_bytes (unat len) r1;
       (vs, r3) \<leftarrow> p_get_values maxima r2;
       Some (v # vs, r3) } }"

definition decode_worker_get_batch_response :: "bytes \<Rightarrow> nat list \<Rightarrow> bytes list option" where
  "decode_worker_get_batch_response bs maxima =
     (if length bs > MAX_HONEST_RPC_PAYLOAD_BYTES then None
      else do {
        _ \<leftarrow> worker_get_batch_response_demand maxima;
        (count, r1) \<leftarrow> p_u16 bs;
        if unat count \<noteq> length maxima then None
        else do {
          (vs, r2) \<leftarrow> p_get_values maxima r1;
          if r2 \<noteq> [] then None else Some vs } })"

section \<open>The envelope is strict\<close>

lemma role_from_u8_iff: "rpc_role_from_u8 b = Some r \<longleftrightarrow> b = rpc_role_u8 r"
  by (cases r) (auto simp: rpc_role_from_u8_def)

lemma length_identity: "length (encode_honest_identity i) = 34"
  by (simp add: encode_honest_identity_def HONEST_RPC_MAGIC_def str_bytes_def)

lemma slice_append: "a \<le> b \<Longrightarrow> b \<le> c \<Longrightarrow> slice xs a b @ slice xs b c = slice xs a c"
  using take_add [of "b - a" "c - b" "drop a xs"] by (simp add: slice_def add.commute)

lemma slice_one: "n < length xs \<Longrightarrow> slice xs n (n + 1) = [xs ! n]"
  by (simp add: slice_def take_Suc hd_drop_conv_nth)

lemma slice_words:
  "b \<le> length xs \<Longrightarrow> b = a + 2 \<Longrightarrow> to_le_bytes (from_le_bytes (slice xs a b) :: u16) = slice xs a b"
  "b \<le> length xs \<Longrightarrow> b = a + 4 \<Longrightarrow> to_le_bytes (from_le_bytes (slice xs a b) :: u32) = slice xs a b"
  "b \<le> length xs \<Longrightarrow> b = a + 8 \<Longrightarrow> to_le_bytes (from_le_bytes (slice xs a b) :: u64) = slice xs a b"
  by (simp_all add: slice_def to_from_le_bytes)

lemma length_field:
  assumes "b \<le> length xs" "b = a + 4" "n = unat (from_le_bytes (slice xs a b) :: u32)"
  shows "slice xs a b = to_le_bytes (word_of_nat n :: u32)"
  using slice_words(2) [OF assms(1,2)] assms(3) by (metis of_nat_unat ucast_id)

lemma magic_length: "length HONEST_RPC_MAGIC = 4"
  by (simp add: HONEST_RPC_MAGIC_def str_bytes_def)

lemma decode_identity_encode:
  assumes "identity_valid i" "minimum \<le> 34 + length rest"
  shows "decode_honest_identity (encode_honest_identity i @ rest) minimum = Inr i"
proof -
  let ?bs = "encode_honest_identity i @ rest"
  have parts: "take 4 ?bs = HONEST_RPC_MAGIC" "slice ?bs 4 6 = to_le_bytes HONEST_RPC_PROFILE_VERSION"
    "?bs ! 6 = rpc_role_u8 (hi_role i)" "?bs ! 7 = 0" "slice ?bs 8 16 = to_le_bytes (hi_node_id i)"
    "slice ?bs 16 24 = to_le_bytes (hi_node_generation i)" "slice ?bs 24 32 = to_le_bytes (hi_operation_id i)"
    "slice ?bs 32 34 = to_le_bytes (rpc_method_u16 (hi_method i))" "length ?bs = 34 + length rest"
    by (simp_all add: encode_honest_identity_def slice_def magic_length nth_append)
  have eta: "\<lparr>hi_role = hi_role i, hi_node_id = hi_node_id i, hi_node_generation = hi_node_generation i,
      hi_operation_id = hi_operation_id i, hi_method = hi_method i\<rparr> = i" by simp
  show ?thesis
    unfolding decode_honest_identity_def parts has_honest_rpc_magic_def
    using assms by (simp add: magic_length role_from_u8_iff [THEN iffD2] rpc_method_from_u16_iff [THEN iffD2]
        validate_honest_identity_def parts Let_def eta)
qed

lemma decode_identity_exact:
  assumes "decode_honest_identity bs minimum = Inr i" "34 \<le> minimum"
  shows "identity_valid i \<and> minimum \<le> length bs \<and> take 34 bs = encode_honest_identity i"
proof -
  have len: "minimum \<le> length bs" and magic: "take 4 bs = HONEST_RPC_MAGIC"
    and version: "from_le_bytes (slice bs 4 6) = HONEST_RPC_PROFILE_VERSION" and zero: "bs ! 7 = 0"
    and role: "bs ! 6 = rpc_role_u8 (hi_role i)"
    and meth: "from_le_bytes (slice bs 32 34) = rpc_method_u16 (hi_method i)"
    and ids: "hi_node_id i = from_le_bytes (slice bs 8 16)" "hi_node_generation i = from_le_bytes (slice bs 16 24)"
      "hi_operation_id i = from_le_bytes (slice bs 24 32)" and valid: "identity_valid i"
    using assms(1)
    by (auto simp: decode_honest_identity_def has_honest_rpc_magic_def role_from_u8_iff rpc_method_from_u16_iff
        validate_honest_identity_def Let_def split: if_splits option.splits)
  have l34: "34 \<le> length bs" using len assms(2) by simp
  have p1: "HONEST_RPC_MAGIC = slice bs 0 4" using magic by (simp add: slice_def)
  have p2: "to_le_bytes HONEST_RPC_PROFILE_VERSION = slice bs 4 6"
    unfolding version [symmetric] using l34 by (intro slice_words) simp_all
  have "slice bs 6 7 = [bs ! 6]" "slice bs 7 8 = [bs ! 7]"
    using l34 slice_one [of 6 bs] slice_one [of 7 bs] by simp_all
  then have p3: "[rpc_role_u8 (hi_role i), 0] = slice bs 6 7 @ slice bs 7 8"
    using role zero by simp
  have p4: "to_le_bytes (hi_node_id i) = slice bs 8 16" "to_le_bytes (hi_node_generation i) = slice bs 16 24"
      "to_le_bytes (hi_operation_id i) = slice bs 24 32"
    unfolding ids using l34 by (intro slice_words; simp)+
  have p5: "to_le_bytes (rpc_method_u16 (hi_method i)) = slice bs 32 34"
    unfolding meth [symmetric] using l34 by (intro slice_words) simp_all
  have "encode_honest_identity i = slice bs 0 4 @ slice bs 4 6 @ (slice bs 6 7 @ slice bs 7 8) @ slice bs 8 16 @
      slice bs 16 24 @ slice bs 24 32 @ slice bs 32 34"
    unfolding encode_honest_identity_def p1 p2 p3 p4 p5 ..
  also have "\<dots> = slice bs 0 34"
    by (simp add: slice_append)
  also have "\<dots> = take 34 bs" by (simp add: slice_def)
  finally show ?thesis
    using valid len by simp
qed

lemma decode_request_strict:
  "decode_honest_request bs = Inr (i, payload) \<longleftrightarrow> encode_honest_request i payload = Inr bs"
proof
  assume dec: "decode_honest_request bs = Inr (i, payload)"
  then obtain n where n: "n = unat (from_le_bytes (slice bs 34 38) :: u32)" "n \<le> MAX_HONEST_RPC_PAYLOAD_BYTES"
      "length bs = 38 + n" "payload = drop 38 bs"
    and i: "decode_honest_identity bs 38 = Inr i"
    by (auto simp: decode_honest_request_def HONEST_REQ_HEADER_SIZE_def Let_def split: sum.splits if_splits)
  have id: "identity_valid i" "take 34 bs = encode_honest_identity i"
    using decode_identity_exact [OF i] by simp_all
  have tail: "drop 34 bs = slice bs 34 38 @ payload"
    using append_take_drop_id [of 4 "drop 34 bs"] by (simp add: slice_def n(4))
  have "38 \<le> length bs" using n(3) by simp
  then have len: "slice bs 34 38 = to_le_bytes (word_of_nat n :: u32)"
    by (rule length_field [OF _ _ n(1)]) simp
  have "bs = take 34 bs @ drop 34 bs" by simp
  also have "\<dots> = encode_honest_identity i @ to_le_bytes (word_of_nat n :: u32) @ payload"
    unfolding id(2) tail len ..
  finally have bs: "bs = encode_honest_identity i @ to_le_bytes (word_of_nat n :: u32) @ payload" .
  have "length payload = n" using n(3,4) by simp
  then show "encode_honest_request i payload = Inr bs"
    using id(1) n(2) bs [symmetric] by (simp add: encode_honest_request_def validate_honest_identity_def)
next
  assume "encode_honest_request i payload = Inr bs"
  then have v: "identity_valid i" "length payload \<le> MAX_HONEST_RPC_PAYLOAD_BYTES"
    and bs: "bs = encode_honest_identity i @ to_le_bytes (word_of_nat (length payload) :: u32) @ payload"
    by (auto simp: encode_honest_request_def validate_honest_identity_def split: if_splits)
  have "slice bs 34 38 = to_le_bytes (word_of_nat (length payload) :: u32)" "length bs = 38 + length payload"
    "drop 38 bs = payload"
    by (simp_all add: bs slice_def length_identity)
  moreover have "decode_honest_identity bs 38 = Inr i"
    unfolding bs using v by (intro decode_identity_encode) simp_all
  ultimately show "decode_honest_request bs = Inr (i, payload)"
    using v(2) by (simp add: decode_honest_request_def HONEST_REQ_HEADER_SIZE_def MAX_HONEST_RPC_PAYLOAD_BYTES_def
        u32_of_nat_unat)
qed

lemma decode_response_strict:
  "decode_honest_response bs = Inr (i, status, payload) \<longleftrightarrow> encode_honest_response i status payload = Inr bs"
proof
  assume dec: "decode_honest_response bs = Inr (i, status, payload)"
  then obtain n where n: "n = unat (from_le_bytes (slice bs 38 42) :: u32)" "n \<le> MAX_HONEST_RPC_PAYLOAD_BYTES"
      "length bs = 42 + n" "payload = drop 42 bs" "status = from_le_bytes (slice bs 34 38)"
    and i: "decode_honest_identity bs 42 = Inr i"
    by (auto simp: decode_honest_response_def HONEST_RESP_HEADER_SIZE_def Let_def split: sum.splits if_splits)
  have id: "identity_valid i" "take 34 bs = encode_honest_identity i"
    using decode_identity_exact [OF i] by simp_all
  have tail: "drop 34 bs = slice bs 34 38 @ slice bs 38 42 @ payload"
    using append_take_drop_id [of 4 "drop 34 bs"] append_take_drop_id [of 4 "drop 38 bs"] by (simp add: slice_def n(4))
  have l42: "42 \<le> length bs" using n(3) by simp
  then have len: "slice bs 38 42 = to_le_bytes (word_of_nat n :: u32)"
    by (rule length_field [OF _ _ n(1)]) simp
  have st: "slice bs 34 38 = to_le_bytes status"
    unfolding n(5) using l42 by (intro slice_words(2) [symmetric]) simp_all
  have "bs = take 34 bs @ drop 34 bs" by simp
  also have "\<dots> = encode_honest_identity i @ to_le_bytes status @ to_le_bytes (word_of_nat n :: u32) @ payload"
    unfolding id(2) tail len st ..
  finally have bs: "bs = encode_honest_identity i @ to_le_bytes status @ to_le_bytes (word_of_nat n :: u32) @ payload" .
  have "length payload = n" using n(3,4) by simp
  then show "encode_honest_response i status payload = Inr bs"
    using id(1) n(2) bs [symmetric] by (simp add: encode_honest_response_def validate_honest_identity_def)
next
  assume "encode_honest_response i status payload = Inr bs"
  then have v: "identity_valid i" "length payload \<le> MAX_HONEST_RPC_PAYLOAD_BYTES"
    and bs: "bs = encode_honest_identity i @ to_le_bytes status @ to_le_bytes (word_of_nat (length payload) :: u32) @ payload"
    by (auto simp: encode_honest_response_def validate_honest_identity_def split: if_splits)
  have "slice bs 34 38 = to_le_bytes status" "slice bs 38 42 = to_le_bytes (word_of_nat (length payload) :: u32)"
    "length bs = 42 + length payload" "drop 42 bs = payload"
    by (simp_all add: bs slice_def length_identity)
  moreover have "decode_honest_identity bs 42 = Inr i"
    unfolding bs using v by (intro decode_identity_encode) simp_all
  ultimately show "decode_honest_response bs = Inr (i, status, payload)"
    using v(2) by (simp add: decode_honest_response_def HONEST_RESP_HEADER_SIZE_def MAX_HONEST_RPC_PAYLOAD_BYTES_def
        u32_of_nat_unat)
qed

text \<open>
  C33 (The role-owned envelope). A request or response frame is accepted iff it is, byte for byte,
  the encoding of what it decodes to, with nonzero identifiers and a payload of at most one mebibyte;
  a response is handed to a caller only when it carries the caller's whole identity (role, node,
  generation, operation and method); and no method is allowed to both roles.
\<close>

theorem honest_envelope_strict:
  "(decode_honest_request bs = Inr (i, payload) \<longleftrightarrow> encode_honest_request i payload = Inr bs) \<and>
   (decode_honest_response bs = Inr (i, status, payload) \<longleftrightarrow> encode_honest_response i status payload = Inr bs) \<and>
   (decode_honest_response_for bs expected = Inr (i, status, payload) \<longleftrightarrow>
      i = expected \<and> encode_honest_response expected status payload = Inr bs) \<and>
   \<not> (honest_role_allows_method Control method \<and> honest_role_allows_method Execution method)"
  unfolding decode_request_strict decode_response_strict [symmetric]
  by (auto simp: decode_honest_response_for_def honest_role_allows_method_def split: sum.splits)

section \<open>Batches are strict and bounded\<close>

lemma decode_kv_put_iff:
  "decode_kv_put_req p = Some (table, key, val) \<longleftrightarrow>
     fits_u16 table \<and> fits_u32 key \<and> p = encode_kv_put_req table key val"
  by (auto simp: decode_kv_put_req_def encode_kv_put_req_def field_iff)

lemma length_kv_put: "length (encode_kv_put_req table key val) = length table + length key + length val + 6"
  by (simp add: encode_kv_put_req_def u16_len_def u32_len_def)

lemma decode_durable_iff:
  "decode_durable_kv_put_req p = Some (table, key, val) \<longleftrightarrow>
     length p \<le> MAX_HONEST_RPC_PAYLOAD_BYTES \<and> decode_kv_put_req p = Some (table, key, val) \<and>
     durable_kv_put_fields_valid table key val"
  by (auto simp: decode_durable_kv_put_req_def split: option.splits if_splits)

text \<open>
  C34 (Durable writes). The durable write request is accepted iff it is the encoding of valid fields,
  and its acknowledgement succeeds iff it is the empty zero-status response to that very request
  number, which is never zero.
\<close>

theorem durable_put_strict:
  "(decode_durable_kv_put_req p = Some (table, key, val) \<longleftrightarrow> encode_durable_kv_put_req table key val = Some p) \<and>
   (decode_durable_kv_put_response bs request_id = Inr () \<longleftrightarrow> request_id \<noteq> 0 \<and> bs = encode_response request_id 0 [])"
proof (intro conjI)
  show "decode_durable_kv_put_req p = Some (table, key, val) \<longleftrightarrow> encode_durable_kv_put_req table key val = Some p"
    unfolding decode_durable_iff decode_kv_put_iff
    by (auto simp: encode_durable_kv_put_req_def durable_kv_put_fields_valid_def length_kv_put
        MAX_HONEST_RPC_PAYLOAD_BYTES_def MAX_DURABLE_KV_TABLE_BYTES_def MAX_DURABLE_KV_KEY_BYTES_def)
  have "decode_durable_kv_put_response bs request_id = Inr () \<longleftrightarrow>
      request_id \<noteq> 0 \<and> length bs = 16 \<and> decode_response bs = Some (request_id, 0, [])"
    by (auto simp: decode_durable_kv_put_response_def RESP_HEADER_SIZE_def split: option.splits if_splits)
  also have "\<dots> \<longleftrightarrow> request_id \<noteq> 0 \<and> bs = encode_response request_id 0 []"
    unfolding decode_response_iff by (auto simp: encode_response_def)
  finally show "decode_durable_kv_put_response bs request_id = Inr () \<longleftrightarrow>
      request_id \<noteq> 0 \<and> bs = encode_response request_id 0 []" .
qed

end
