(* ===== verification/Merkle_Proof.thy ===== *)
theory Merkle_Proof
  imports Merkle_Node
begin

text \<open>
  Inclusion and absence proofs: \<open>crates/enclave-os-merkle/src/proof.rs\<close>. The verifier and the wire
  format of a proof are translated; the reference they are measured against is \<open>smt\<close>, the root of
  the binary sparse Merkle tree over a list of \<open>(path, vh)\<close> pairs. Soundness is relative to
  the hash inputs that actually occur: \<open>H\<close> is assumed injective on that finite set only.
\<close>

definition MAX_DEPTH :: nat where
  "MAX_DEPTH = 256"

record merkle_proof =
  pf_leaf :: "(bytes \<times> bytes) option"
  pf_siblings :: "bytes list"

datatype verified = Present bytes | Absent

text \<open>Bit \<open>i\<close> of a path, most significant first.\<close>

definition bit_at :: "bytes \<Rightarrow> nat \<Rightarrow> bool" where
  "bit_at path i \<longleftrightarrow> path ! (i div 8) AND drop_bit (i mod 8) 0x80 \<noteq> 0"

definition leading_zeros :: "byte \<Rightarrow> nat" where
  "leading_zeros x = length (takeWhile (\<lambda>i. \<not> bit x (7 - i)) [0..<8])"

fun common_prefix_from :: "bytes \<Rightarrow> bytes \<Rightarrow> nat list \<Rightarrow> nat" where
  "common_prefix_from a b [] = MAX_DEPTH"
| "common_prefix_from a b (i # is) =
     (let x = a ! i XOR b ! i in
      if x \<noteq> 0 then i * 8 + leading_zeros x else common_prefix_from a b is)"

definition common_prefix_bits :: "bytes \<Rightarrow> bytes \<Rightarrow> nat" where
  "common_prefix_bits a b = common_prefix_from a b [0..<HASH_SIZE]"

text \<open>The fold of \<open>verify\<close>: sibling \<open>i\<close> pairs at depth \<open>n - 1 - i\<close>.\<close>

fun fold_siblings :: "(bytes \<Rightarrow> bytes) \<Rightarrow> bytes \<Rightarrow> nat \<Rightarrow> nat \<Rightarrow> bytes \<Rightarrow> bytes list \<Rightarrow> bytes" where
  "fold_siblings H path n i acc [] = acc"
| "fold_siblings H path n i acc (sibling # rest) =
     (let depth = n - 1 - i in
      fold_siblings H path n (i + 1)
        (if bit_at path depth then internal_hash H sibling acc else internal_hash H acc sibling) rest)"

definition verify :: "(bytes \<Rightarrow> bytes) \<Rightarrow> bytes \<Rightarrow> bytes \<Rightarrow> merkle_proof \<Rightarrow> merkle_error + verified" where
  "verify H root path pf =
     (let n = length (pf_siblings pf) in
      if n > MAX_DEPTH then Inl (Invalid ''proof too deep'')
      else
        (case (case pf_leaf pf of
                 Some (leaf_path, vh) \<Rightarrow>
                   if leaf_path = path then Inr (leaf_hash H leaf_path vh, Present vh)
                   else if common_prefix_bits leaf_path path < n
                     then Inl (Invalid ''divergent leaf does not cover the proven path'')
                   else Inr (leaf_hash H leaf_path vh, Absent)
               | None \<Rightarrow> Inr (placeholder H, Absent)) of
           Inl e \<Rightarrow> Inl e
         | Inr (acc, statement) \<Rightarrow>
             if fold_siblings H path n 0 acc (pf_siblings pf) \<noteq> root
             then Inl (Invalid ''proof does not match root'')
             else Inr statement))"

section \<open>Wire format\<close>

definition proof_encode :: "merkle_proof \<Rightarrow> bytes" where
  "proof_encode pf =
     (case pf_leaf pf of Some (path, vh) \<Rightarrow> [1] @ path @ vh | None \<Rightarrow> [0]) @
     to_le_bytes (word_of_nat (length (pf_siblings pf)) :: u16) @ concat (pf_siblings pf)"

fun decode_siblings :: "nat \<Rightarrow> bytes \<Rightarrow> bytes list" where
  "decode_siblings 0 data = []"
| "decode_siblings (Suc n) data = take HASH_SIZE data # decode_siblings n (drop HASH_SIZE data)"

text \<open>The leaf part and the offset after it; \<open>None\<close> is the malformed case.\<close>

definition proof_decode_leaf :: "bytes \<Rightarrow> ((bytes \<times> bytes) option \<times> nat) option" where
  "proof_decode_leaf data =
     (case data of
        [] \<Rightarrow> None
      | tag # _ \<Rightarrow>
          if tag = 0 then Some (None, 1)
          else if tag = 1 then
            if length data < 1 + 2 * HASH_SIZE then None
            else Some (Some (take HASH_SIZE (drop 1 data), take HASH_SIZE (drop (1 + HASH_SIZE) data)),
                       1 + 2 * HASH_SIZE)
          else None)"

definition proof_decode_rest :: "(bytes \<times> bytes) option \<Rightarrow> nat \<Rightarrow> bytes \<Rightarrow> merkle_error + merkle_proof" where
  "proof_decode_rest leaf off data =
     (if length data < off + 2 then Inl (Invalid ''malformed proof'')
      else let count = unat (from_le_bytes [data ! off, data ! (off + 1)] :: u16); off' = off + 2 in
        if count > MAX_DEPTH \<or> length data \<noteq> off' + count * HASH_SIZE
        then Inl (Invalid ''malformed proof'')
        else Inr \<lparr>pf_leaf = leaf, pf_siblings = decode_siblings count (drop off' data)\<rparr>)"

definition proof_decode :: "bytes \<Rightarrow> merkle_error + merkle_proof" where
  "proof_decode data =
     (case proof_decode_leaf data of
        None \<Rightarrow> Inl (Invalid ''malformed proof'')
      | Some (leaf, off) \<Rightarrow> proof_decode_rest leaf off data)"

section \<open>The reference tree\<close>

text \<open>
  The root hash of the binary sparse Merkle tree over \<open>xs\<close> below depth \<open>d\<close>: an empty subtree is
  the placeholder, a subtree with one entry is that leaf, any other splits on bit \<open>d\<close>.
\<close>

function smt :: "(bytes \<Rightarrow> bytes) \<Rightarrow> nat \<Rightarrow> (bytes \<times> bytes) list \<Rightarrow> bytes" where
  "smt H d [] = placeholder H"
| "smt H d [(path, vh)] = leaf_hash H path vh"
| "smt H d (e # e' # es) =
     (if MAX_DEPTH \<le> d then placeholder H
      else internal_hash H (smt H (d + 1) (filter (\<lambda>x. \<not> bit_at (fst x) d) (e # e' # es)))
             (smt H (d + 1) (filter (\<lambda>x. bit_at (fst x) d) (e # e' # es))))"
  by pat_completeness auto

termination
  by (relation "measure (\<lambda>(H, d, xs). MAX_DEPTH - d)") auto

text \<open>The hash inputs that occur in the tree, and in a run of the verifier.\<close>

function smt_inputs :: "(bytes \<Rightarrow> bytes) \<Rightarrow> nat \<Rightarrow> (bytes \<times> bytes) list \<Rightarrow> bytes list" where
  "smt_inputs H d [] = [TAG_PLACEHOLDER]"
| "smt_inputs H d [(path, vh)] = [TAG_LEAF @ path @ vh]"
| "smt_inputs H d (e # e' # es) =
     (if MAX_DEPTH \<le> d then [TAG_PLACEHOLDER]
      else let l = filter (\<lambda>x. \<not> bit_at (fst x) d) (e # e' # es);
               r = filter (\<lambda>x. bit_at (fst x) d) (e # e' # es)
           in (TAG_INTERNAL @ smt H (d + 1) l @ smt H (d + 1) r) #
              smt_inputs H (d + 1) l @ smt_inputs H (d + 1) r)"
  by pat_completeness auto

termination
  by (relation "measure (\<lambda>(H, d, xs). MAX_DEPTH - d)") auto

fun fold_inputs :: "(bytes \<Rightarrow> bytes) \<Rightarrow> bytes \<Rightarrow> nat \<Rightarrow> nat \<Rightarrow> bytes \<Rightarrow> bytes list \<Rightarrow> bytes list" where
  "fold_inputs H path n i acc [] = []"
| "fold_inputs H path n i acc (sibling # rest) =
     (let inp = (if bit_at path (n - 1 - i) then TAG_INTERNAL @ sibling @ acc else TAG_INTERNAL @ acc @ sibling)
      in inp # fold_inputs H path n (i + 1) (H inp) rest)"

definition base_input :: "merkle_proof \<Rightarrow> bytes" where
  "base_input pf = (case pf_leaf pf of Some (p, vh) \<Rightarrow> TAG_LEAF @ p @ vh | None \<Rightarrow> TAG_PLACEHOLDER)"

definition verify_inputs :: "(bytes \<Rightarrow> bytes) \<Rightarrow> bytes \<Rightarrow> merkle_proof \<Rightarrow> bytes list" where
  "verify_inputs H path pf =
     base_input pf # fold_inputs H path (length (pf_siblings pf)) 0 (H (base_input pf)) (pf_siblings pf)"

definition entries_ok :: "(bytes \<times> bytes) list \<Rightarrow> bool" where
  "entries_ok xs \<longleftrightarrow> distinct (map fst xs) \<and> (\<forall>(p, vh) \<in> set xs. length p = HASH_SIZE \<and> length vh = HASH_SIZE)"

definition proof_ok :: "merkle_proof \<Rightarrow> bool" where
  "proof_ok pf \<longleftrightarrow> length (pf_siblings pf) \<le> MAX_DEPTH \<and> (\<forall>s \<in> set (pf_siblings pf). length s = HASH_SIZE) \<and>
     (case pf_leaf pf of None \<Rightarrow> True | Some (p, vh) \<Rightarrow> length p = HASH_SIZE \<and> length vh = HASH_SIZE)"

section \<open>Bits of paths\<close>

lemma bit_at_bit: "bit_at path i \<longleftrightarrow> bit (path ! (i div 8)) (7 - i mod 8)"
proof -
  have "i mod 8 \<le> 7" by (simp add: less_Suc_eq_le [symmetric])
  have "drop_bit k (0x80 :: byte) = push_bit (7 - k) 1" if "k \<le> 7" for k
  proof -
    have "k \<in> {0, 1, 2, 3, 4, 5, 6, 7}" using that by auto
    then show ?thesis by auto
  qed
  from this [of "i mod 8"] have "drop_bit (i mod 8) (0x80 :: byte) = push_bit (7 - i mod 8) 1"
    using \<open>i mod 8 \<le> 7\<close> by simp
  then show ?thesis
    by (simp add: bit_at_def bit_iff_and_push_bit_not_eq_0)
qed

lemma bit_at_ext:
  assumes "length a = HASH_SIZE" "length b = HASH_SIZE" "\<forall>i < MAX_DEPTH. bit_at a i = bit_at b i"
  shows "a = b"
proof (rule nth_equalityI)
  show "length a = length b" using assms by simp
  fix j
  assume j: "j < length a"
  show "a ! j = b ! j"
  proof (rule bit_word_eqI)
    fix n
    assume "n < LENGTH(8)"
    then have "bit_at a (8 * j + (7 - n)) = bit_at b (8 * j + (7 - n))"
      using j assms by (simp add: HASH_SIZE_def MAX_DEPTH_def)
    then show "bit (a ! j) n = bit (b ! j) n"
      using \<open>n < LENGTH(8)\<close> by (simp add: bit_at_bit)
  qed
qed

section \<open>The verifier is sound\<close>

fun climb :: "(bytes \<Rightarrow> bytes) \<Rightarrow> bytes \<Rightarrow> nat \<Rightarrow> bytes \<Rightarrow> bytes list \<Rightarrow> bytes" where
  "climb H path d base [] = base"
| "climb H path d base (t # ts) =
     (if bit_at path d then internal_hash H t (climb H path (d + 1) base ts)
      else internal_hash H (climb H path (d + 1) base ts) t)"

fun climb_inputs :: "(bytes \<Rightarrow> bytes) \<Rightarrow> bytes \<Rightarrow> nat \<Rightarrow> bytes \<Rightarrow> bytes list \<Rightarrow> bytes set" where
  "climb_inputs H path d base [] = {}"
| "climb_inputs H path d base (t # ts) =
     insert (if bit_at path d then TAG_INTERNAL @ t @ climb H path (d + 1) base ts
             else TAG_INTERNAL @ climb H path (d + 1) base ts @ t)
       (climb_inputs H path (d + 1) base ts)"

lemma fold_siblings_append:
  "fold_siblings H path n i acc (xs @ ys) =
     fold_siblings H path n (i + length xs) (fold_siblings H path n i acc xs) ys"
  by (induction xs arbitrary: i acc) (simp_all add: Let_def)

lemma fold_inputs_append:
  "fold_inputs H path n i acc (xs @ ys) =
     fold_inputs H path n i acc xs @ fold_inputs H path n (i + length xs) (fold_siblings H path n i acc xs) ys"
  by (induction xs arbitrary: i acc) (simp_all add: Let_def internal_hash_def sha256_parts_def)

lemma fold_siblings_climb:
  "fold_siblings H path (d + length ts) 0 base (rev ts) = climb H path d base ts"
proof (induction ts arbitrary: d)
  case (Cons t ts)
  then show ?case
    using Cons [of "d + 1"] by (simp add: fold_siblings_append Let_def)
qed simp

lemma fold_inputs_climb:
  "set (fold_inputs H path (d + length ts) 0 base (rev ts)) = climb_inputs H path d base ts"
proof (induction ts arbitrary: d)
  case (Cons t ts)
  then show ?case
    using Cons [of "d + 1"] fold_siblings_climb [of H path "d + 1" ts base]
    by (simp add: fold_inputs_append Let_def)
qed simp

lemma tag_lengths [simp]:
  "length TAG_LEAF = 25" "length TAG_INTERNAL = 25" "length TAG_PLACEHOLDER = 29"
  by (simp_all add: TAG_LEAF_def TAG_INTERNAL_def TAG_PLACEHOLDER_def str_bytes_def)

lemma tag_distinct: "TAG_LEAF \<noteq> TAG_INTERNAL"
  by (simp add: TAG_LEAF_def TAG_INTERNAL_def str_bytes_def)

lemma tagged_inputs_distinct:
  assumes "length a = 32" "length b = 32"
  shows "TAG_PLACEHOLDER \<noteq> TAG_LEAF @ a @ b" "TAG_PLACEHOLDER \<noteq> TAG_INTERNAL @ a @ b"
    "TAG_LEAF @ a' @ b' \<noteq> TAG_INTERNAL @ a @ b"
proof -
  show "TAG_PLACEHOLDER \<noteq> TAG_LEAF @ a @ b" "TAG_PLACEHOLDER \<noteq> TAG_INTERNAL @ a @ b"
    using assms by (auto dest!: arg_cong [where f = length])
  show "TAG_LEAF @ a' @ b' \<noteq> TAG_INTERNAL @ a @ b"
    using tag_distinct by (simp add: append_eq_append_conv)
qed

definition agree :: "nat \<Rightarrow> bytes \<Rightarrow> (bytes \<times> bytes) list \<Rightarrow> bool" where
  "agree d path xs \<longleftrightarrow> (\<forall>e \<in> set xs. \<forall>i < d. bit_at (fst e) i = bit_at path i)"

lemma agree_filter:
  "agree d path xs \<Longrightarrow> agree (d + 1) path (filter (\<lambda>x. bit_at (fst x) d = bit_at path d) xs)"
  by (auto simp: agree_def less_Suc_eq)

lemma agree_full: "\<lbrakk>agree MAX_DEPTH path xs; entries_ok xs; length path = HASH_SIZE\<rbrakk> \<Longrightarrow> length xs \<le> 1"
proof (cases xs rule: remdups_adj.cases)
  case (3 x y ys)
  assume "agree MAX_DEPTH path xs" "entries_ok xs" "length path = HASH_SIZE"
  then have "fst x = path" "fst y = path"
    by (auto simp: 3 agree_def entries_ok_def intro!: bit_at_ext)
  then show ?thesis using \<open>entries_ok xs\<close> by (simp add: 3 entries_ok_def)
qed simp_all

lemma entries_ok_filter: "entries_ok xs \<Longrightarrow> entries_ok (filter P xs)"
  by (auto simp: entries_ok_def distinct_map_filter)

lemma smt_top: "\<exists>inp \<in> set (smt_inputs H d xs). smt H d xs = H inp"
  by (cases "(H, d, xs)" rule: smt.cases)
    (auto simp: placeholder_def leaf_hash_def internal_hash_def sha256_parts_def Let_def)

lemma smt_branch:
  assumes "2 \<le> length xs" "d < MAX_DEPTH"
  shows "smt H d xs = internal_hash H (smt H (d + 1) (filter (\<lambda>x. \<not> bit_at (fst x) d) xs))
           (smt H (d + 1) (filter (\<lambda>x. bit_at (fst x) d) xs))"
    and "set (smt_inputs H d xs) = insert
           (TAG_INTERNAL @ smt H (d + 1) (filter (\<lambda>x. \<not> bit_at (fst x) d) xs) @
              smt H (d + 1) (filter (\<lambda>x. bit_at (fst x) d) xs))
           (set (smt_inputs H (d + 1) (filter (\<lambda>x. \<not> bit_at (fst x) d) xs)) \<union>
            set (smt_inputs H (d + 1) (filter (\<lambda>x. bit_at (fst x) d) xs)))"
proof -
  obtain e e' es where xs: "xs = e # e' # es"
    using assms by (cases xs rule: remdups_adj.cases) auto
  show "smt H d xs = internal_hash H (smt H (d + 1) (filter (\<lambda>x. \<not> bit_at (fst x) d) xs))
           (smt H (d + 1) (filter (\<lambda>x. bit_at (fst x) d) xs))"
    unfolding xs using assms(2) by (simp only: smt.simps not_le [symmetric] if_False)
  show "set (smt_inputs H d xs) = insert
           (TAG_INTERNAL @ smt H (d + 1) (filter (\<lambda>x. \<not> bit_at (fst x) d) xs) @
              smt H (d + 1) (filter (\<lambda>x. bit_at (fst x) d) xs))
           (set (smt_inputs H (d + 1) (filter (\<lambda>x. \<not> bit_at (fst x) d) xs)) \<union>
            set (smt_inputs H (d + 1) (filter (\<lambda>x. bit_at (fst x) d) xs)))"
    unfolding xs using assms(2)
    by (simp only: smt_inputs.simps not_le [symmetric] if_False Let_def list.set set_append Un_insert_left)
qed

lemma length_smt: "(\<And>x. length (H x) = 32) \<Longrightarrow> length (smt H d xs) = 32"
  using smt_top [of H d xs] by auto

definition claim_holds :: "(bytes \<times> bytes) option \<Rightarrow> bytes \<Rightarrow> (bytes \<times> bytes) list \<Rightarrow> bool" where
  "claim_holds leaf path xs =
     (case leaf of
        Some (p, vh) \<Rightarrow> if p = path then (path, vh) \<in> set xs else path \<notin> fst ` set xs
      | None \<Rightarrow> path \<notin> fst ` set xs)"

lemma claim_holds_filter:
  "claim_holds leaf path (filter (\<lambda>x. bit_at (fst x) d = bit_at path d) xs) \<Longrightarrow> claim_holds leaf path xs"
  by (force simp: claim_holds_def split: option.splits if_splits)

lemma length_climb: "(\<And>x. length (H x) = 32) \<Longrightarrow> length (climb H path d (H b) ts) = 32"
  by (cases ts) (simp_all add: internal_hash_def sha256_parts_def)

lemma climb_sound:
  assumes "climb H path d (H (base_input pf)) ts = smt H d xs"
    and inj: "inj_on H (insert (base_input pf) (climb_inputs H path d (H (base_input pf)) ts \<union> set (smt_inputs H d xs)))"
    and "agree d path xs" "entries_ok xs" "d + length ts \<le> MAX_DEPTH"
    and len: "\<And>x. length (H x) = 32" "length path = HASH_SIZE" and pf: "proof_ok pf"
    and "\<forall>t \<in> set ts. length t = 32"
  shows "claim_holds (pf_leaf pf) path xs"
  using assms
proof (induction ts arbitrary: d xs)
  case Nil
  obtain inp where inp: "inp \<in> set (smt_inputs H d xs)" "smt H d xs = H inp"
    using smt_top [of H d xs] by auto
  have eq_inp: "base_input pf = x" if "x \<in> set (smt_inputs H d xs)" "smt H d xs = H x" for x
    by (insert Nil.prems(1) that, rule inj_onD [OF Nil.prems(2)]) simp_all
  from eq_inp [OF inp] have base: "base_input pf = inp" .
  show ?case
  proof (cases "2 \<le> length xs")
    case True
    then have "d < MAX_DEPTH"
      using agree_full [of path xs] Nil.prems(3,4,5) len(2) by (cases "d = MAX_DEPTH") auto
    have "base_input pf = TAG_INTERNAL @ smt H (d + 1) (filter (\<lambda>x. \<not> bit_at (fst x) d) xs) @
              smt H (d + 1) (filter (\<lambda>x. bit_at (fst x) d) xs)"
      using smt_branch [OF True \<open>d < MAX_DEPTH\<close>, of H]
      by (intro eq_inp) (simp_all add: internal_hash_def sha256_parts_def)
    moreover have "base_input pf \<noteq> TAG_INTERNAL @ smt H d1 l @ smt H d2 r" for d1 d2 l r
      using tagged_inputs_distinct(2,3) [of "smt H d1 l" "smt H d2 r"] length_smt [OF len(1)]
      by (simp add: base_input_def split: option.split)
    ultimately show ?thesis by blast
  next
    case False
    then consider "xs = []" | p vh where "xs = [(p, vh)]"
      by (cases xs rule: remdups_adj.cases) auto
    then show ?thesis
    proof cases
      case 1
      then have "base_input pf = TAG_PLACEHOLDER" using base inp by simp
      then have "pf_leaf pf = None"
        using tagged_inputs_distinct(1) [THEN not_sym] pf
        by (simp add: base_input_def proof_ok_def HASH_SIZE_def split: option.splits prod.splits)
      then show ?thesis by (simp add: 1 claim_holds_def)
    next
      case 2
      then have b: "base_input pf = TAG_LEAF @ p @ vh" using base inp by simp
      have l: "length p = 32" "length vh = 32"
        using Nil.prems(4) by (simp_all add: 2 entries_ok_def HASH_SIZE_def)
      then have "pf_leaf pf = Some (p, vh)"
        using b tagged_inputs_distinct(1) [OF l] pf
        by (auto simp: base_input_def proof_ok_def HASH_SIZE_def split: option.splits)
      then show ?thesis by (simp add: 2 claim_holds_def)
    qed
  qed
next
  case (Cons t ts)
  let ?c = "climb H path (d + 1) (H (base_input pf)) ts"
  let ?inp = "if bit_at path d then TAG_INTERNAL @ t @ ?c else TAG_INTERNAL @ ?c @ t"
  have lens: "length t = 32" "length ?c = 32"
    using Cons.prems(9) length_climb [OF len(1)] by simp_all
  have top: "H ?inp = smt H d xs"
    using Cons.prems(1) by (simp add: internal_hash_def sha256_parts_def split: if_splits)
  obtain inp where inp: "inp \<in> set (smt_inputs H d xs)" "smt H d xs = H inp"
    using smt_top [of H d xs] by auto
  have eq_inp: "?inp = x" if "x \<in> set (smt_inputs H d xs)" "smt H d xs = H x" for x
    by (insert that top, rule inj_onD [OF Cons.prems(2)]) simp_all
  have d: "d < MAX_DEPTH" using Cons.prems(5) by simp
  have two: "2 \<le> length xs"
  proof (rule ccontr)
    assume "\<not> 2 \<le> length xs"
    then consider "xs = []" | p vh where "xs = [(p, vh)]"
      by (cases xs rule: remdups_adj.cases) auto
    then show False
      using eq_inp [OF inp] inp tagged_inputs_distinct(2) [THEN not_sym] tag_distinct lens
      by cases (auto split: if_splits)
  qed
  let ?l = "filter (\<lambda>x. \<not> bit_at (fst x) d) xs" and ?r = "filter (\<lambda>x. bit_at (fst x) d) xs"
  let ?o = "filter (\<lambda>x. bit_at (fst x) d = bit_at path d) xs"
  have "?inp = TAG_INTERNAL @ smt H (d + 1) ?l @ smt H (d + 1) ?r"
    using smt_branch [OF two d, of H] by (intro eq_inp) (simp_all add: internal_hash_def sha256_parts_def)
  then have "?c = smt H (d + 1) ?o" "set (smt_inputs H (d + 1) ?o) \<subseteq> set (smt_inputs H d xs)"
    using lens length_smt [OF len(1)] smt_branch(2) [OF two d, of H]
    by (auto simp: append_eq_append_conv split: if_splits)
  moreover from this have "inj_on H (insert (base_input pf) (climb_inputs H path (d + 1) (H (base_input pf)) ts \<union>
      set (smt_inputs H (d + 1) ?o)))"
    by (intro inj_on_subset [OF Cons.prems(2)]) auto
  ultimately have "claim_holds (pf_leaf pf) path ?o"
    using Cons.prems agree_filter entries_ok_filter by (intro Cons.IH) auto
  then show ?case by (rule claim_holds_filter)
qed

text \<open>
  C4 (Proofs are sound). Whatever \<open>verify\<close> accepts against the root of a tree is true of that tree:
  \<open>Present vh\<close> means the path holds exactly that commitment and \<open>Absent\<close> means the path is
  not in the tree. SHA-256 is only assumed collision free on the inputs hashed by this tree and this
  run of the verifier.
\<close>

theorem verify_sound:
  assumes "verify H (smt H 0 xs) path pf = Inr r" "entries_ok xs" "proof_ok pf" "length path = HASH_SIZE"
    and "\<And>x. length (H x) = 32"
    and "inj_on H (set (smt_inputs H 0 xs) \<union> set (verify_inputs H path pf))"
  shows "case r of Present vh \<Rightarrow> (path, vh) \<in> set xs | Absent \<Rightarrow> path \<notin> fst ` set xs"
proof -
  let ?ts = "rev (pf_siblings pf)"
  have r: "r = (case pf_leaf pf of Some (p, vh) \<Rightarrow> if p = path then Present vh else Absent | None \<Rightarrow> Absent)"
    and fold: "fold_siblings H path (length ?ts) 0 (H (base_input pf)) (rev ?ts) = smt H 0 xs"
    using assms(1)
    by (auto simp: verify_def base_input_def Let_def leaf_hash_def placeholder_def sha256_parts_def
        split: option.splits prod.splits if_splits)
  have climb: "climb H path 0 (H (base_input pf)) ?ts = smt H 0 xs"
    using fold fold_siblings_climb [of H path 0 ?ts] by simp
  have inputs: "set (verify_inputs H path pf) = insert (base_input pf) (climb_inputs H path 0 (H (base_input pf)) ?ts)"
    using fold_inputs_climb [of H path 0 ?ts] by (simp add: verify_inputs_def)
  have inj: "inj_on H (insert (base_input pf) (climb_inputs H path 0 (H (base_input pf)) ?ts \<union> set (smt_inputs H 0 xs)))"
    by (rule inj_on_subset [OF assms(6)]) (auto simp: inputs)
  have "claim_holds (pf_leaf pf) path xs"
    using assms(2-5) by (intro climb_sound [OF climb inj]) (auto simp: agree_def proof_ok_def HASH_SIZE_def)
  then show ?thesis
    unfolding r claim_holds_def by (auto split: option.splits if_splits)
qed

text \<open>A hash of 32 bytes that separates the inputs of a small tree, and a tree of two leaves.\<close>

definition toy_sha :: "bytes \<Rightarrow> bytes" where
  "toy_sha x =
     (if length x = 29 then replicate 32 0
      else if take 25 x = TAG_LEAF then 1 # x ! 25 # replicate 30 0
      else 2 # replicate 31 0)"

definition toy_entries :: "(bytes \<times> bytes) list" where
  "toy_entries = [(0 # replicate 31 0, replicate 32 7), (0x80 # replicate 31 0, replicate 32 8)]"

definition toy_proof :: merkle_proof where
  "toy_proof = \<lparr>pf_leaf = Some (toy_entries ! 1), pf_siblings = [toy_sha (TAG_LEAF @ fst (toy_entries ! 0) @ snd (toy_entries ! 0))]\<rparr>"

lemma verify_sound_witness:
  "(0x80 # replicate 31 0, replicate 32 8) \<in> set toy_entries \<and>
   verify toy_sha (smt toy_sha 0 toy_entries) (0x80 # replicate 31 0) toy_proof = Inr (Present (replicate 32 8))"
proof -
  let ?p = "0x80 # replicate 31 0 :: bytes"
  have smt: "smt toy_sha 0 toy_entries = 2 # replicate 31 0"
    by (simp add: toy_entries_def smt_branch(1) [of _ 0] MAX_DEPTH_def internal_hash_def sha256_parts_def toy_sha_def
        leaf_hash_def bit_at_def tag_distinct [symmetric] nth_append)
  have v: "verify toy_sha (smt toy_sha 0 toy_entries) ?p toy_proof = Inr (Present (replicate 32 8))"
    unfolding smt
    by (simp add: verify_def toy_proof_def toy_entries_def MAX_DEPTH_def bit_at_def internal_hash_def
        sha256_parts_def toy_sha_def leaf_hash_def tag_distinct [symmetric] nth_append)
  let ?b = "TAG_LEAF @ (0 # replicate 31 0) @ replicate 32 7" and ?c = "TAG_LEAF @ ?p @ replicate 32 8"
  let ?a = "TAG_INTERNAL @ toy_sha ?b @ toy_sha ?c"
  have sha: "toy_sha ?b = 1 # 0 # replicate 30 0" "toy_sha ?c = 1 # 0x80 # replicate 30 0"
      "toy_sha ?a = 2 # replicate 31 0"
    by (simp_all add: toy_sha_def nth_append tag_distinct [symmetric])
  have "set (smt_inputs toy_sha 0 toy_entries) = {?a, ?b, ?c}"
    by (simp add: toy_entries_def smt_branch(2) [of _ 0] MAX_DEPTH_def bit_at_def leaf_hash_def sha256_parts_def)
  moreover have "set (verify_inputs toy_sha ?p toy_proof) = {?c, ?a}"
    by (simp add: verify_inputs_def base_input_def toy_proof_def toy_entries_def bit_at_def Let_def)
  ultimately have inj: "inj_on toy_sha (set (smt_inputs toy_sha 0 toy_entries) \<union> set (verify_inputs toy_sha ?p toy_proof))"
    using sha by (simp add: inj_on_def)
  have "case Present (replicate 32 8) of Present vh \<Rightarrow> (?p, vh) \<in> set toy_entries | Absent \<Rightarrow> ?p \<notin> fst ` set toy_entries"
    by (rule verify_sound [OF v _ _ _ _ inj])
      (simp_all add: toy_sha_def entries_ok_def proof_ok_def toy_entries_def toy_proof_def HASH_SIZE_def MAX_DEPTH_def)
  then show ?thesis using v by simp
qed

section \<open>Every path has a proof the verifier accepts\<close>

text \<open>The reference prover: the leaf the descent ends on and the siblings, top-down.\<close>

function smt_prove :: "(bytes \<Rightarrow> bytes) \<Rightarrow> nat \<Rightarrow> (bytes \<times> bytes) list \<Rightarrow> bytes \<Rightarrow> (bytes \<times> bytes) option \<times> bytes list" where
  "smt_prove H d [] path = (None, [])"
| "smt_prove H d [e] path = (Some e, [])"
| "smt_prove H d (e # e' # es) path =
     (if MAX_DEPTH \<le> d then (None, [])
      else let l = filter (\<lambda>x. \<not> bit_at (fst x) d) (e # e' # es);
               r = filter (\<lambda>x. bit_at (fst x) d) (e # e' # es)
           in if bit_at path d
              then let (leaf, ss) = smt_prove H (d + 1) r path in (leaf, smt H (d + 1) l # ss)
              else let (leaf, ss) = smt_prove H (d + 1) l path in (leaf, smt H (d + 1) r # ss))"
  by pat_completeness auto

termination
  by (relation "measure (\<lambda>(H, d, xs, path). MAX_DEPTH - d)") auto

definition base_hash :: "(bytes \<Rightarrow> bytes) \<Rightarrow> (bytes \<times> bytes) option \<Rightarrow> bytes" where
  "base_hash H leaf = (case leaf of Some (p, vh) \<Rightarrow> leaf_hash H p vh | None \<Rightarrow> placeholder H)"

lemma smt_prove_branch:
  assumes "2 \<le> length xs" "d < MAX_DEPTH"
  shows "smt_prove H d xs path =
    (let (leaf, ss) = smt_prove H (d + 1) (filter (\<lambda>x. bit_at (fst x) d = bit_at path d) xs) path
     in (leaf, smt H (d + 1) (filter (\<lambda>x. bit_at (fst x) d \<noteq> bit_at path d) xs) # ss))"
proof -
  obtain e e' es where xs: "xs = e # e' # es"
    using assms by (cases xs rule: remdups_adj.cases) auto
  show ?thesis
    unfolding xs using assms(2)
    by (cases "bit_at path d") (simp_all only: smt_prove.simps not_le [symmetric] if_False if_True Let_def
        simp_thms)
qed

lemma smt_prove_climb:
  assumes "smt_prove H d xs path = (leaf, ss)" "agree d path xs" "entries_ok xs" "length path = HASH_SIZE" "d \<le> MAX_DEPTH"
  shows "climb H path d (base_hash H leaf) ss = smt H d xs \<and> d + length ss \<le> MAX_DEPTH \<and>
    (case leaf of None \<Rightarrow> path \<notin> fst ` set xs
     | Some e \<Rightarrow> e \<in> set xs \<and> (path \<in> fst ` set xs \<longrightarrow> fst e = path) \<and>
         (\<forall>i < d + length ss. bit_at (fst e) i = bit_at path i))"
  using assms
proof (induction "MAX_DEPTH - d" arbitrary: d xs leaf ss rule: less_induct)
  case less
  show ?case
  proof (cases "2 \<le> length xs")
    case False
    then consider "xs = []" | e where "xs = [e]"
      by (cases xs rule: remdups_adj.cases) auto
    then show ?thesis
      using less.prems by cases (auto simp: base_hash_def agree_def)
  next
    case True
    then have d: "d < MAX_DEPTH"
      using agree_full [of path xs] less.prems by (cases "d = MAX_DEPTH") auto
    let ?o = "filter (\<lambda>x. bit_at (fst x) d = bit_at path d) xs"
    obtain ss' where ss': "smt_prove H (d + 1) ?o path = (leaf, ss')"
      and ss: "ss = smt H (d + 1) (filter (\<lambda>x. bit_at (fst x) d \<noteq> bit_at path d) xs) # ss'"
      using less.prems(1) unfolding smt_prove_branch [OF True d] by (auto simp: Let_def split: prod.splits)
    have ih: "climb H path (d + 1) (base_hash H leaf) ss' = smt H (d + 1) ?o \<and> d + 1 + length ss' \<le> MAX_DEPTH \<and>
      (case leaf of None \<Rightarrow> path \<notin> fst ` set ?o
       | Some e \<Rightarrow> e \<in> set ?o \<and> (path \<in> fst ` set ?o \<longrightarrow> fst e = path) \<and>
           (\<forall>i < d + 1 + length ss'. bit_at (fst e) i = bit_at path i))"
      using less.prems d
      by (intro less.hyps [OF _ ss']) (auto intro: agree_filter entries_ok_filter simp: agree_filter [simplified])
    have "path \<in> fst ` set xs \<longleftrightarrow> path \<in> fst ` set ?o" by force
    then show ?thesis
      using ih smt_branch(1) [OF True d, of H]
      by (auto simp: ss split: option.splits)
  qed
qed

lemma leading_zeros_bit:
  assumes "x \<noteq> 0"
  shows "leading_zeros x < 8 \<and> bit x (7 - leading_zeros x)"
proof -
  obtain n where "bit x n" "n < 8"
    using assms by (auto simp: bit_eq_iff dest: bit_imp_le_length)
  then have ex: "\<exists>i \<in> set [0..<8]. bit x (7 - i)"
    by (intro bexI [of _ "7 - n"]) auto
  define tw where "tw = takeWhile (\<lambda>i. \<not> bit x (7 - i)) [0..<8]"
  have "tw \<noteq> [0..<8]"
    using ex unfolding tw_def takeWhile_eq_all_conv by blast
  then have "length tw \<noteq> length [0..<8]"
    unfolding tw_def by (metis takeWhile_eq_take take_all order_refl)
  then have "length tw < length [0..<8]"
    using length_takeWhile_le [of "\<lambda>i. \<not> bit x (7 - i)" "[0..<8]"] unfolding tw_def by linarith
  moreover from this have "bit x (7 - [0..<8] ! length tw)"
    unfolding tw_def using nth_length_takeWhile by blast
  ultimately show ?thesis
    unfolding leading_zeros_def tw_def by simp
qed

lemma common_prefix_from_bit:
  "\<forall>i \<in> set is. i < 32 \<Longrightarrow> common_prefix_from a b is < MAX_DEPTH \<Longrightarrow>
     bit_at a (common_prefix_from a b is) \<noteq> bit_at b (common_prefix_from a b is)"
proof (induction "is")
  case (Cons i "is")
  show ?case
  proof (cases "a ! i XOR b ! i = 0")
    case False
    then have "leading_zeros (a ! i XOR b ! i) < 8" "bit (a ! i XOR b ! i) (7 - leading_zeros (a ! i XOR b ! i))"
      using leading_zeros_bit by auto
    then show ?thesis
      using False by (auto simp: bit_at_bit bit_xor_iff)
  qed (use Cons in simp)
qed simp

lemma common_prefix_covers:
  assumes "\<forall>i < n. bit_at a i = bit_at b i" "n \<le> MAX_DEPTH"
  shows "n \<le> common_prefix_bits a b"
proof (rule ccontr)
  assume "\<not> n \<le> common_prefix_bits a b"
  then have "bit_at a (common_prefix_bits a b) \<noteq> bit_at b (common_prefix_bits a b)"
    using assms(2) unfolding common_prefix_bits_def
    by (intro common_prefix_from_bit) (auto simp: HASH_SIZE_def)
  then show False using assms \<open>\<not> n \<le> common_prefix_bits a b\<close> by simp
qed

lemma smt_prove_verifies:
  assumes xs: "entries_ok xs" and path: "length path = HASH_SIZE"
  shows "verify H (smt H 0 xs) path
      \<lparr>pf_leaf = fst (smt_prove H 0 xs path), pf_siblings = rev (snd (smt_prove H 0 xs path))\<rparr> =
    Inr (case map_of xs path of Some vh \<Rightarrow> Present vh | None \<Rightarrow> Absent)"
proof -
  obtain leaf ss where p: "smt_prove H 0 xs path = (leaf, ss)" by fastforce
  have agree: "agree 0 path xs" by (simp add: agree_def)
  from smt_prove_climb [OF p agree xs path] have climb: "climb H path 0 (base_hash H leaf) ss = smt H 0 xs"
    and len: "length ss \<le> MAX_DEPTH"
    and leaf: "case leaf of None \<Rightarrow> path \<notin> fst ` set xs
      | Some e \<Rightarrow> e \<in> set xs \<and> (path \<in> fst ` set xs \<longrightarrow> fst e = path) \<and>
          (\<forall>i < length ss. bit_at (fst e) i = bit_at path i)"
    unfolding add_0 by simp_all
  have fold: "fold_siblings H path (length ss) 0 (base_hash H leaf) (rev ss) = smt H 0 xs"
    using climb fold_siblings_climb [of H path 0 ss] by simp
  have d: "distinct (map fst xs)" using xs by (simp add: entries_ok_def)
  show ?thesis
  proof (cases leaf)
    case None
    then show ?thesis
      using leaf fold len map_of_eq_None_iff [of xs path]
      by (simp add: p verify_def Let_def base_hash_def)
  next
    case (Some e)
    obtain q vh where e: "e = (q, vh)" by fastforce
    have "length ss \<le> common_prefix_bits q path"
      using leaf len by (intro common_prefix_covers) (simp_all add: Some e)
    moreover have "q = path \<Longrightarrow> map_of xs path = Some vh"
      using leaf d by (simp add: Some e)
    moreover have "q \<noteq> path \<Longrightarrow> map_of xs path = None"
      using leaf map_of_eq_None_iff [of xs path] by (simp add: Some e)
    ultimately show ?thesis
      using fold len by (auto simp: p verify_def Let_def base_hash_def Some e)
  qed
qed

section \<open>The proof codec is strict\<close>

lemma decode_siblings_concat:
  "\<forall>s \<in> set ss. length s = HASH_SIZE \<Longrightarrow> decode_siblings (length ss) (concat ss) = ss"
  by (induction ss) simp_all

lemma concat_decode_siblings:
  "length data = n * HASH_SIZE \<Longrightarrow> concat (decode_siblings n data) = data \<and>
     length (decode_siblings n data) = n \<and> (\<forall>s \<in> set (decode_siblings n data). length s = HASH_SIZE)"
  by (induction n data rule: decode_siblings.induct) (simp_all add: min_def)

lemma length_concat_siblings: "\<forall>s \<in> set ss. length s = HASH_SIZE \<Longrightarrow> length (concat ss) = length ss * HASH_SIZE"
  by (induction ss) simp_all

definition proof_decode_opt :: "bytes \<Rightarrow> merkle_proof option" where
  "proof_decode_opt data = (case proof_decode data of Inl _ \<Rightarrow> None | Inr pf \<Rightarrow> Some pf)"

text \<open>The part of \<open>Proof::decode\<close> after the leaf: the count and the siblings.\<close>

lemma proof_decode_tail:
  assumes "length leaf_bytes = off"
  shows "proof_decode_rest leaf off (leaf_bytes @ rest) = Inr pf
    \<longleftrightarrow> pf_leaf pf = leaf \<and> length (pf_siblings pf) \<le> MAX_DEPTH \<and> (\<forall>s \<in> set (pf_siblings pf). length s = HASH_SIZE) \<and>
        rest = to_le_bytes (word_of_nat (length (pf_siblings pf)) :: u16) @ concat (pf_siblings pf)" (is "?l = Inr pf \<longleftrightarrow> ?r")
proof (cases "2 \<le> length rest")
  case False
  have "length (to_le_bytes (word_of_nat (length (pf_siblings pf)) :: u16) @ concat (pf_siblings pf)) \<ge> 2"
    by simp
  then have "\<not> ?r" using False by metis
  then show ?thesis using False assms by (simp add: proof_decode_rest_def)
next
  case True
  then obtain b0 b1 body where 3: "rest = b0 # b1 # body"
    by (cases rest rule: remdups_adj.cases) auto
  let ?count = "unat (from_le_bytes [b0, b1] :: u16)"
  have l: "?l = (if ?count > MAX_DEPTH \<or> length body \<noteq> ?count * HASH_SIZE then Inl (Invalid ''malformed proof'')
      else Inr \<lparr>pf_leaf = leaf, pf_siblings = decode_siblings ?count body\<rparr>)"
    using assms by (simp add: proof_decode_rest_def 3 Let_def nth_append)
  have words: "to_le_bytes (from_le_bytes [b0, b1] :: u16) = [b0, b1]"
    by (simp add: to_from_le_bytes)
  show ?thesis
  proof
    assume "?l = Inr pf"
    then have c: "?count \<le> MAX_DEPTH" "length body = ?count * HASH_SIZE"
      and pf: "pf = \<lparr>pf_leaf = leaf, pf_siblings = decode_siblings ?count body\<rparr>"
      unfolding l by (auto split: if_splits)
    show ?r
      using concat_decode_siblings [OF c(2)] c(1) words by (simp add: pf 3)
  next
    assume r: ?r
    let ?ss = "pf_siblings pf"
    obtain c0 c1 where c: "to_le_bytes (word_of_nat (length ?ss) :: u16) = [c0, c1]"
      using two_bytes [of "to_le_bytes (word_of_nat (length ?ss) :: u16)"] by auto
    have b: "b0 = c0" "b1 = c1" "body = concat ?ss"
      using r by (simp_all add: 3 c)
    have "from_le_bytes [b0, b1] = (word_of_nat (length ?ss) :: u16)"
      unfolding b c [symmetric] by simp
    then have "?count = length ?ss"
      using r by (simp add: unat_of_nat MAX_DEPTH_def)
    moreover have "decode_siblings (length ?ss) body = ?ss" "length body = length ?ss * HASH_SIZE"
      using r unfolding b(3) by (auto intro!: decode_siblings_concat length_concat_siblings)
    ultimately show "?l = Inr pf"
      unfolding l using r by (cases pf) simp
  qed
qed

lemma proof_decode_iff: "proof_decode data = Inr pf \<longleftrightarrow> proof_ok pf \<and> data = proof_encode pf"
proof (cases data)
  case Nil
  then show ?thesis by (auto simp: proof_decode_def proof_decode_leaf_def proof_encode_def split: option.splits)
next
  case (Cons tag body)
  consider "tag = 0" | "tag = 1" "64 \<le> length body" | "tag = 1" "length body < 64" | "tag \<noteq> 0" "tag \<noteq> 1"
    by linarith
  then show ?thesis
  proof cases
    case 1
    have "proof_decode data = Inr pf \<longleftrightarrow> pf_leaf pf = None \<and> length (pf_siblings pf) \<le> MAX_DEPTH \<and>
        (\<forall>s \<in> set (pf_siblings pf). length s = HASH_SIZE) \<and>
        body = to_le_bytes (word_of_nat (length (pf_siblings pf)) :: u16) @ concat (pf_siblings pf)"
      using proof_decode_tail [of "[0]" 1 None body pf] by (simp add: proof_decode_def proof_decode_leaf_def Cons 1)
    then show ?thesis
      by (auto simp: Cons 1 proof_encode_def proof_ok_def split: option.splits)
  next
    case 2
    let ?p = "take 32 body" and ?v = "take 32 (drop 32 body)" and ?rest = "drop 64 body"
    have split: "data = (1 # ?p @ ?v) @ ?rest"
      using append_take_drop_id [of 32 body] append_take_drop_id [of 32 "drop 32 body"] by (simp add: Cons 2)
    have "proof_decode data = Inr pf \<longleftrightarrow> pf_leaf pf = Some (?p, ?v) \<and> length (pf_siblings pf) \<le> MAX_DEPTH \<and>
        (\<forall>s \<in> set (pf_siblings pf). length s = HASH_SIZE) \<and>
        ?rest = to_le_bytes (word_of_nat (length (pf_siblings pf)) :: u16) @ concat (pf_siblings pf)"
      using proof_decode_tail [of "1 # ?p @ ?v" 65 "Some (?p, ?v)" ?rest pf] 2(2) unfolding split [symmetric]
      by (simp add: proof_decode_def proof_decode_leaf_def Cons 2(1) HASH_SIZE_def)
    also have "\<dots> \<longleftrightarrow> proof_ok pf \<and> data = proof_encode pf"
    proof (cases "pf_leaf pf")
      case None
      then show ?thesis by (simp add: Cons 2 proof_encode_def)
    next
      case (Some e)
      obtain p v where e: "e = (p, v)" by fastforce
      have "length p = 32 \<Longrightarrow> length v = 32 \<Longrightarrow> body = p @ v @ r \<longleftrightarrow> p = ?p \<and> v = ?v \<and> ?rest = r" for r
        using split 2(2) by (auto simp: Cons 2 append_eq_append_conv)
      then show ?thesis
        using 2(2) by (auto simp: Some e Cons 2(1) proof_encode_def proof_ok_def HASH_SIZE_def)
    qed
    finally show ?thesis .
  next
    case 3
    then show ?thesis
      by (auto simp: proof_decode_def proof_decode_leaf_def Cons proof_encode_def proof_ok_def HASH_SIZE_def split: option.splits)
  next
    case 4
    then show ?thesis
      by (auto simp: proof_decode_def proof_decode_leaf_def Cons proof_encode_def split: option.splits)
  qed
qed

lemma proof_decode_encode: "proof_ok pf \<Longrightarrow> proof_decode (proof_encode pf) = Inr pf"
  by (simp add: proof_decode_iff)

interpretation proof_codec: strict_codec proof_encode proof_decode_opt proof_ok
  by unfold_locales
    (auto simp: proof_decode_opt_def proof_decode_encode split: sum.splits dest: proof_decode_iff [THEN iffD1])

text \<open>
  C36 (Proofs have exactly one wire form). \<open>Proof::decode\<close> accepts exactly the encodings of proofs
  with 32-byte hashes and at most 256 siblings; trailing bytes and wrong counts are refused.
\<close>

theorem proof_wire_strict:
  "proof_decode data = Inr pf \<longleftrightarrow> proof_ok pf \<and> data = proof_encode pf"
  by (rule proof_decode_iff)

end
