(* ===== verification/Merkle_Cache.thy ===== *)
theory Merkle_Cache
  imports Merkle_Node "HOL-Library.AList"
begin

text \<open>
  The node cache: \<open>crates/enclave-os-merkle/src/cache.rs\<close>. The hash map is the list of its
  entries; ticks are 64-bit counters and wrap. Its contract with the store is that an entry is
  only ever what was last put under its key, and that it never holds more than its capacity.
\<close>

record node_cache =
  ca_capacity :: nat
  ca_tick :: u64
  ca_map :: "(node_key \<times> node \<times> u64) list"

definition cache_new :: "nat \<Rightarrow> node_cache" where
  "cache_new capacity = \<lparr>ca_capacity = capacity, ca_tick = 0, ca_map = []\<rparr>"

definition cache_get :: "node_cache \<Rightarrow> node_key \<Rightarrow> node option \<times> node_cache" where
  "cache_get c key =
     (let tick = ca_tick c + 1; c' = c\<lparr>ca_tick := tick\<rparr> in
      case map_of (ca_map c) key of
        Some (node, last_used) \<Rightarrow> (Some node, c'\<lparr>ca_map := AList.update key (node, tick) (ca_map c)\<rparr>)
      | None \<Rightarrow> (None, c'))"

text \<open>\<open>min_by_key\<close> on the last-used tick; the first of several minimal entries.\<close>

fun min_by_tick :: "(node_key \<times> node \<times> u64) list \<Rightarrow> (node_key \<times> node \<times> u64) option" where
  "min_by_tick [] = None"
| "min_by_tick (e # es) =
     (case min_by_tick es of
        None \<Rightarrow> Some e
      | Some e' \<Rightarrow> if snd (snd e') < snd (snd e) then Some e' else Some e)"

definition cache_put :: "node_cache \<Rightarrow> node_key \<Rightarrow> node \<Rightarrow> node_cache" where
  "cache_put c key node =
     (if ca_capacity c = 0 then c
      else
        let m = (if ca_capacity c \<le> length (ca_map c) \<and> map_of (ca_map c) key = None
                 then case min_by_tick (ca_map c) of
                        Some (oldest, _) \<Rightarrow> AList.delete oldest (ca_map c)
                      | None \<Rightarrow> ca_map c
                 else ca_map c);
            tick = ca_tick c + 1
        in c\<lparr>ca_tick := tick, ca_map := AList.update key (node, tick) m\<rparr>)"

definition cache_clear :: "node_cache \<Rightarrow> node_cache" where
  "cache_clear c = c\<lparr>ca_map := []\<rparr>"

definition cache_set_capacity :: "node_cache \<Rightarrow> nat \<Rightarrow> node_cache" where
  "cache_set_capacity c capacity = c\<lparr>ca_capacity := capacity, ca_map := []\<rparr>"

section \<open>What the store relies on\<close>

definition cache_lookup :: "node_cache \<Rightarrow> node_key \<Rightarrow> node option" where
  "cache_lookup c key = map_option fst (map_of (ca_map c) key)"

definition cache_inv :: "node_cache \<Rightarrow> bool" where
  "cache_inv c \<longleftrightarrow> distinct (map fst (ca_map c)) \<and> length (ca_map c) \<le> ca_capacity c"

text \<open>
  The contract: an operation adds at most the entry that is put, so evicting and
  clearing are allowed at any time.
\<close>

locale lossy_cache =
  fixes inv :: "'c \<Rightarrow> bool" and lookup :: "'c \<Rightarrow> 'k \<Rightarrow> 'v option"
    and get :: "'c \<Rightarrow> 'k \<Rightarrow> 'v option \<times> 'c" and put :: "'c \<Rightarrow> 'k \<Rightarrow> 'v \<Rightarrow> 'c"
  assumes get_result: "fst (get c k) = lookup c k"
    and get_keeps: "lookup (snd (get c k)) = lookup c"
    and get_inv: "inv c \<Longrightarrow> inv (snd (get c k))"
    and put_lookup: "inv c \<Longrightarrow> lookup (put c k v) k' = Some v' \<Longrightarrow> (k' = k \<and> v' = v) \<or> lookup c k' = Some v'"
    and put_inv: "inv c \<Longrightarrow> inv (put c k v)"
begin

text \<open>
  Coherence with a store of records: every cached value is the stored one. Every operation of the
  cache keeps it as long as only stored values are put.
\<close>

definition coherent :: "('k \<Rightarrow> 'v \<Rightarrow> bool) \<Rightarrow> 'c \<Rightarrow> bool" where
  "coherent stored c \<longleftrightarrow> inv c \<and> (\<forall>k v. lookup c k = Some v \<longrightarrow> stored k v)"

lemma coherent_get: "coherent stored c \<Longrightarrow> coherent stored (snd (get c k))"
  by (simp add: coherent_def get_keeps get_inv)

lemma coherent_hit: "coherent stored c \<Longrightarrow> fst (get c k) = Some v \<Longrightarrow> stored k v"
  by (simp add: coherent_def get_result)

lemma coherent_put: "coherent stored c \<Longrightarrow> stored k v \<Longrightarrow> coherent stored (put c k v)"
  unfolding coherent_def using put_inv put_lookup by blast

lemma coherent_mono: "coherent stored c \<Longrightarrow> (\<And>k v. stored k v \<Longrightarrow> stored' k v) \<Longrightarrow> coherent stored' c"
  unfolding coherent_def by blast

end

lemma min_by_tick_mem: "min_by_tick es = Some e \<Longrightarrow> e \<in> set es"
  by (induction es arbitrary: e) (auto split: option.splits if_splits)

lemma min_by_tick_None: "min_by_tick es = None \<longleftrightarrow> es = []"
  by (cases es) (auto split: option.splits)

lemma min_by_tick_least: "min_by_tick es = Some e \<Longrightarrow> e' \<in> set es \<Longrightarrow> snd (snd e) \<le> snd (snd e')"
  by (induction es arbitrary: e) (fastforce split: option.splits if_splits simp: min_by_tick_None)+

lemma length_update:
  "length (AList.update k v m) = (if k \<in> fst ` set m then length m else length m + 1)"
  by (induction m) auto

lemma length_delete_mem:
  assumes "k \<in> fst ` set m"
  shows "length (AList.delete k m) < length m"
proof -
  from assms obtain v where "(k, v) \<in> set m" by auto
  then show ?thesis
    unfolding AList.delete_eq by (rule length_filter_less) simp
qed

definition evicted :: "node_cache \<Rightarrow> node_key \<Rightarrow> (node_key \<times> node \<times> u64) list" where
  "evicted c key =
     (if ca_capacity c \<le> length (ca_map c) \<and> map_of (ca_map c) key = None
      then case min_by_tick (ca_map c) of
             Some (oldest, _) \<Rightarrow> AList.delete oldest (ca_map c)
           | None \<Rightarrow> ca_map c
      else ca_map c)"

lemma cache_put_evicted:
  "cache_put c key node = (if ca_capacity c = 0 then c
     else c\<lparr>ca_tick := ca_tick c + 1, ca_map := AList.update key (node, ca_tick c + 1) (evicted c key)\<rparr>)"
  by (simp add: cache_put_def evicted_def Let_def)

lemma evicted_distinct: "distinct (map fst (ca_map c)) \<Longrightarrow> distinct (map fst (evicted c key))"
  by (auto simp: evicted_def distinct_delete split: option.splits)

lemma evicted_lookup: "map_of (evicted c key) k = Some v \<Longrightarrow> map_of (ca_map c) k = Some v"
  by (auto simp: evicted_def delete_conv' split: option.splits if_splits)

lemma evicted_room:
  assumes "cache_inv c" "ca_capacity c \<noteq> 0"
  shows "length (AList.update key v (evicted c key)) \<le> ca_capacity c"
proof (cases "ca_capacity c \<le> length (ca_map c) \<and> map_of (ca_map c) key = None")
  case True
  then obtain oldest e where m: "min_by_tick (ca_map c) = Some (oldest, e)"
    using assms by (cases "min_by_tick (ca_map c)") (auto simp: min_by_tick_None)
  then have "oldest \<in> fst ` set (ca_map c)"
    using min_by_tick_mem [OF m] by (auto intro: rev_image_eqI)
  then show ?thesis
    using length_delete_mem [of oldest "ca_map c"] True assms
    by (simp add: evicted_def m length_update cache_inv_def)
next
  case False
  then show ?thesis
    using assms by (auto simp: evicted_def length_update cache_inv_def map_of_eq_None_iff dest: map_of_SomeD
        intro: rev_image_eqI)
qed

lemma cache_put_inv: "cache_inv c \<Longrightarrow> cache_inv (cache_put c k n)"
  using evicted_room [of c k "(n, ca_tick c + 1)"]
  by (auto simp: cache_put_evicted cache_inv_def evicted_distinct distinct_update)

interpretation node_lru: lossy_cache cache_inv cache_lookup cache_get cache_put
proof
  fix c k k' and v v' :: node
  show "fst (cache_get c k) = cache_lookup c k"
    by (simp add: cache_get_def cache_lookup_def Let_def split: option.split)
  show "cache_lookup (snd (cache_get c k)) = cache_lookup c"
    by (rule ext) (auto simp: cache_get_def cache_lookup_def Let_def update_conv' split: option.split)
  show "cache_inv c \<Longrightarrow> cache_inv (snd (cache_get c k))"
    by (auto simp: cache_get_def cache_inv_def Let_def length_update distinct_update split: option.split
        dest: map_of_SomeD intro: rev_image_eqI)
  show "cache_inv c \<Longrightarrow> cache_lookup (cache_put c k v) k' = Some v' \<Longrightarrow>
      (k' = k \<and> v' = v) \<or> cache_lookup c k' = Some v'"
    by (auto simp: cache_put_evicted cache_lookup_def update_conv' dest!: evicted_lookup split: if_splits)
  show "cache_inv c \<Longrightarrow> cache_inv (cache_put c k v)"
    by (rule cache_put_inv)
qed


text \<open>Two entries in a cache of capacity two; a third evicts the older one.\<close>

definition toy_leaf :: node where
  "toy_leaf = Leaf \<lparr>lf_path = replicate 32 0, lf_vh = replicate 32 1, lf_value_version = 1\<rparr>"

definition toy_cache :: node_cache where
  "toy_cache = cache_put (cache_put (cache_new 2) (NodeKey 1 []) toy_leaf) (NodeKey 2 []) toy_leaf"


end
