(* ===== verification/Aead_Cipher.thy ===== *)
theory Aead_Cipher
  imports Enclave_Prelude
begin

text \<open>
  \<open>common/src/aead.rs\<close>: AES-256-GCM records of the form \<open>nonce || ciphertext || tag\<close>. The
  primitives of the \<open>ring\<close> crate are the fields of a \<open>crypto\<close> record: SHA-256, HMAC-SHA256,
  GCM seal and open, and the system random generator, whose \<open>i\<close>-th draw of \<open>n\<close> bytes is
  \<open>rng_fill cr i n\<close>. What the code relies on is the predicate \<open>crypto_ok\<close>.
\<close>

record crypto =
  sha256 :: "bytes \<Rightarrow> bytes"
  hmac_sha256 :: "bytes \<Rightarrow> bytes \<Rightarrow> bytes"
  gcm_seal :: "bytes \<Rightarrow> bytes \<Rightarrow> bytes \<Rightarrow> bytes \<Rightarrow> bytes option"
  gcm_open :: "bytes \<Rightarrow> bytes \<Rightarrow> bytes \<Rightarrow> bytes \<Rightarrow> bytes option"
  rng_fill :: "nat \<Rightarrow> nat \<Rightarrow> bytes option"

definition AEAD_NONCE_SIZE :: nat where
  "AEAD_NONCE_SIZE = 12"

definition AEAD_TAG_SIZE :: nat where
  "AEAD_TAG_SIZE = 16"

definition AEAD_KEY_SIZE :: nat where
  "AEAD_KEY_SIZE = 32"

text \<open>
  Every operation that draws randomness takes the number of draws made so far and returns the new
  one.
\<close>

definition aead_new_random :: "crypto \<Rightarrow> nat \<Rightarrow> (string + bytes) \<times> nat" where
  "aead_new_random cr d =
     (case rng_fill cr d AEAD_KEY_SIZE of None \<Rightarrow> Inl ''RNG failed'' | Some key \<Rightarrow> Inr key, d + 1)"

definition aead_encrypt :: "crypto \<Rightarrow> bytes \<Rightarrow> bytes \<Rightarrow> bytes \<Rightarrow> nat \<Rightarrow> (string + bytes) \<times> nat" where
  "aead_encrypt cr key plaintext aad d =
     (case rng_fill cr d AEAD_NONCE_SIZE of
        None \<Rightarrow> Inl ''RNG failed''
      | Some nonce \<Rightarrow>
          if length key \<noteq> AEAD_KEY_SIZE then Inl ''Invalid key''
          else case gcm_seal cr key nonce aad plaintext of
                 None \<Rightarrow> Inl ''Encryption failed''
               | Some in_out \<Rightarrow> Inr (nonce @ in_out), d + 1)"

definition aead_decrypt :: "crypto \<Rightarrow> bytes \<Rightarrow> bytes \<Rightarrow> bytes \<Rightarrow> string + bytes" where
  "aead_decrypt cr key ciphertext aad =
     (if length ciphertext < AEAD_NONCE_SIZE + AEAD_TAG_SIZE then Inl ''Ciphertext too short''
      else let nonce = take AEAD_NONCE_SIZE ciphertext; encrypted = drop AEAD_NONCE_SIZE ciphertext in
        if length key \<noteq> AEAD_KEY_SIZE then Inl ''Invalid key''
        else case gcm_open cr key nonce aad encrypted of
               None \<Rightarrow> Inl ''Decryption failed''
             | Some plaintext \<Rightarrow> Inr plaintext)"

text \<open>
  The documented behaviour of the primitives: output lengths, that opening a sealed message under
  the same key, nonce and associated data gives it back, and that the generator fills the buffer.
\<close>

definition crypto_ok :: "crypto \<Rightarrow> bool" where
  "crypto_ok cr \<longleftrightarrow>
     (\<forall>x. length (sha256 cr x) = 32) \<and> (\<forall>k x. length (hmac_sha256 cr k x) = 32) \<and>
     (\<forall>k n a p c. gcm_seal cr k n a p = Some c \<longrightarrow>
        length c = length p + AEAD_TAG_SIZE \<and> gcm_open cr k n a c = Some p) \<and>
     (\<forall>d n b. rng_fill cr d n = Some b \<longrightarrow> length b = n)"

lemma aead_decrypt_encrypt:
  assumes "crypto_ok cr" "aead_encrypt cr key pt aad d = (Inr ct, d')"
  shows "aead_decrypt cr key ct aad = Inr pt"
  using assms
  by (auto simp: aead_encrypt_def aead_decrypt_def crypto_ok_def split: option.splits if_splits)

lemma aead_encrypt_draw: "snd (aead_encrypt cr key pt aad d) = d + 1"
  by (simp add: aead_encrypt_def)

lemma aead_encrypt_length:
  assumes "crypto_ok cr" "aead_encrypt cr key pt aad d = (Inr ct, d')"
  shows "length ct = AEAD_NONCE_SIZE + length pt + AEAD_TAG_SIZE"
  using assms by (auto simp: aead_encrypt_def crypto_ok_def split: option.splits if_splits)

text \<open>
  What \<open>encrypt\<close> produced,
  \<open>decrypt\<close> under the same key and associated data returns unchanged, 28 bytes longer on the wire;
  and every record \<open>decrypt\<close> accepts was accepted by GCM under the nonce in its first twelve bytes.
\<close>

theorem aead_roundtrip:
  assumes "crypto_ok cr" "aead_encrypt cr key pt aad d = (Inr ct, d')"
  shows "aead_decrypt cr key ct aad = Inr pt \<and> length ct = length pt + 28 \<and>
    (\<forall>pt'. gcm_open cr key (take 12 ct) aad (drop 12 ct) = Some pt' \<longleftrightarrow> pt' = pt)"
proof -
  have "gcm_open cr key (take 12 ct) aad (drop 12 ct) = Some pt"
    using assms by (auto simp: aead_encrypt_def crypto_ok_def AEAD_NONCE_SIZE_def split: option.splits if_splits)
  then show ?thesis
    using aead_decrypt_encrypt [OF assms] aead_encrypt_length [OF assms]
    by (auto simp: AEAD_NONCE_SIZE_def AEAD_TAG_SIZE_def)
qed

text \<open>
  A concrete \<open>crypto\<close>: sealing prepends sixteen zero bytes, the generator counts.
\<close>

definition toy_crypto :: crypto where
  "toy_crypto =
     \<lparr>sha256 = (\<lambda>x. take 32 (x @ replicate 32 0)),
      hmac_sha256 = (\<lambda>k x. take 32 (x @ replicate 32 0)),
      gcm_seal = (\<lambda>k n a p. Some (p @ replicate 16 0)),
      gcm_open = (\<lambda>k n a c. if length c < 16 \<or> drop (length c - 16) c \<noteq> replicate 16 0 then None
                   else Some (take (length c - 16) c)),
      rng_fill = (\<lambda>d n. Some (replicate n (word_of_nat d)))\<rparr>"

lemma toy_crypto_ok: "crypto_ok toy_crypto"
  by (simp add: crypto_ok_def toy_crypto_def AEAD_TAG_SIZE_def min_def)

theorem aead_roundtrip_witness:
  "aead_decrypt toy_crypto (replicate 32 1) (replicate 12 3 @ [5, 6] @ replicate 16 0) [9] = Inr [5, 6]"
proof -
  have "aead_encrypt toy_crypto (replicate 32 1) [5, 6] [9] 3 = (Inr (replicate 12 3 @ [5, 6] @ replicate 16 0), 4)"
    by (simp add: aead_encrypt_def toy_crypto_def AEAD_NONCE_SIZE_def AEAD_KEY_SIZE_def)
  from aead_roundtrip [OF toy_crypto_ok this] show ?thesis by simp
qed

end
