(* ===== verification/Merkle_Store.thy ===== *)
theory Merkle_Store
  imports Merkle_Proof Merkle_Cache Kv_Backend Aead_Cipher
begin

text \<open>
  The versioned sparse Merkle store: \<open>crates/enclave-os-merkle/src/tree.rs\<close>, its read side. The
  state \<open>MerkleStore\<close> is a record; a method with \<open>&self\<close> may still change the node cache and
  the backend behind their locks, so every operation returns the store. A result is a fault or a
  value; the only panic of this code, an index past the end of a path in \<open>nibble\<close>, is a fault of
  its own. The number of random draws made so far is part of the state, the generator is a field of
  the \<open>crypto\<close> parameter.
\<close>

datatype fault = Err merkle_error | Panic

record 'b merkle_store =
  st_backend :: 'b
  st_ck :: bytes
  st_cipher :: bytes
  st_root :: bytes
  st_version :: u64
  st_root_child :: "child option"
  st_cache :: node_cache
  st_pin :: "u64 option"
  st_draws :: nat

type_synonym ('a, 'b) outcome = "(fault + 'a) \<times> 'b merkle_store"

section \<open>Record keys\<close>

definition REC_NODE :: byte where "REC_NODE = 0x6E"
definition REC_VALUE :: byte where "REC_VALUE = 0x76"
definition REC_STALE :: byte where "REC_STALE = 0x73"
definition REC_ROOT :: byte where "REC_ROOT = 0x72"
definition REC_CHECKPOINT :: byte where "REC_CHECKPOINT = 0x63"

definition HMAC_TAG_PATH :: bytes where "HMAC_TAG_PATH = str_bytes ''p''"
definition HMAC_TAG_VALUE :: bytes where "HMAC_TAG_VALUE = str_bytes ''v''"
definition VALUE_AAD_TAG :: bytes where "VALUE_AAD_TAG = str_bytes ''enclave_os_merkle_val''"
definition CHECKPOINT_AAD :: bytes where "CHECKPOINT_AAD = str_bytes ''enclave_os_merkle_ckpt''"

definition DEFAULT_CACHE_CAPACITY :: nat where "DEFAULT_CACHE_CAPACITY = 1024"
definition PRUNE_CHUNK :: u32 where "PRUNE_CHUNK = 512"

definition node_record_key :: "node_key \<Rightarrow> bytes" where
  "node_record_key nk = REC_NODE # node_key_encode nk"

definition value_record_key :: "bytes \<Rightarrow> u64 \<Rightarrow> bytes" where
  "value_record_key vh value_version = REC_VALUE # vh @ to_be_bytes value_version"

definition stale_record_key :: "u64 \<Rightarrow> bytes \<Rightarrow> bytes" where
  "stale_record_key stale_since target = REC_STALE # to_be_bytes stale_since @ target"

definition root_record_key :: "u64 \<Rightarrow> bytes" where
  "root_record_key version = REC_ROOT # to_be_bytes version"

definition checkpoint_record_key :: bytes where
  "checkpoint_record_key = [REC_CHECKPOINT]"

section \<open>Commitments\<close>

definition path_of :: "crypto \<Rightarrow> 'b merkle_store \<Rightarrow> bytes \<Rightarrow> bytes" where
  "path_of cr s key = hmac_sha256 cr (st_ck s) (HMAC_TAG_PATH @ key)"

definition vh_of :: "crypto \<Rightarrow> 'b merkle_store \<Rightarrow> bytes \<Rightarrow> bytes \<Rightarrow> bytes" where
  "vh_of cr s path plaintext = hmac_sha256 cr (st_ck s) (HMAC_TAG_VALUE @ path @ plaintext)"

definition value_aad :: "bytes \<Rightarrow> bytes" where
  "value_aad path = VALUE_AAD_TAG @ path"

text \<open>\<open>self.cipher.encrypt\<close>, drawing a nonce.\<close>

definition store_encrypt :: "crypto \<Rightarrow> 'b merkle_store \<Rightarrow> bytes \<Rightarrow> bytes \<Rightarrow> string \<Rightarrow> (bytes, 'b) outcome" where
  "store_encrypt cr s plaintext aad what =
     (case aead_encrypt cr (st_cipher s) plaintext aad (st_draws s) of
        (Inl _, d) \<Rightarrow> (Inl (Err (Corrupted what)), s\<lparr>st_draws := d\<rparr>)
      | (Inr ct, d) \<Rightarrow> (Inr ct, s\<lparr>st_draws := d\<rparr>))"

definition encrypt_checkpoint :: "crypto \<Rightarrow> 'b merkle_store \<Rightarrow> bytes \<Rightarrow> u64 \<Rightarrow> (bytes, 'b) outcome" where
  "encrypt_checkpoint cr s root version =
     store_encrypt cr s (root @ to_be_bytes version) CHECKPOINT_AAD ''checkpoint encrypt''"

definition decrypt_checkpoint :: "crypto \<Rightarrow> bytes \<Rightarrow> bytes \<Rightarrow> fault + bytes \<times> u64" where
  "decrypt_checkpoint cr cipher record =
     (case aead_decrypt cr cipher record CHECKPOINT_AAD of
        Inl _ \<Rightarrow> Inl (Err (Corrupted ''checkpoint decrypt''))
      | Inr payload \<Rightarrow>
          if length payload \<noteq> HASH_SIZE + 8 then Inl (Err (Corrupted ''checkpoint bad length''))
          else Inr (take HASH_SIZE payload, from_be_bytes (drop HASH_SIZE payload)))"

section \<open>Loading\<close>

definition backend_get :: "'b kv_ops \<Rightarrow> 'b merkle_store \<Rightarrow> bytes \<Rightarrow> (bytes option, 'b) outcome" where
  "backend_get kv s key =
     (case kv_get kv (st_backend s) key of
        (Inl e, b) \<Rightarrow> (Inl (Err e), s\<lparr>st_backend := b\<rparr>)
      | (Inr v, b) \<Rightarrow> (Inr v, s\<lparr>st_backend := b\<rparr>))"

definition load_node :: "crypto \<Rightarrow> 'b kv_ops \<Rightarrow> 'b merkle_store \<Rightarrow> node_key \<Rightarrow> bytes \<Rightarrow> (node, 'b) outcome" where
  "load_node cr kv s nk expected_hash =
     (case cache_get (st_cache s) nk of
        (Some node, c) \<Rightarrow>
          (if node_hash (sha256 cr) node \<noteq> expected_hash then Inl (Err (Corrupted ''node hash mismatch''))
           else Inr node, s\<lparr>st_cache := c\<rparr>)
      | (None, c) \<Rightarrow>
          (case backend_get kv (s\<lparr>st_cache := c\<rparr>) (node_record_key nk) of
             (Inl e, s') \<Rightarrow> (Inl e, s')
           | (Inr None, s') \<Rightarrow> (Inl (Err (Missing ''node'')), s')
           | (Inr (Some record), s') \<Rightarrow>
               (case node_decode record of
                  Inl e \<Rightarrow> (Inl (Err e), s')
                | Inr node \<Rightarrow>
                    if node_hash (sha256 cr) node \<noteq> expected_hash
                    then (Inl (Err (Corrupted ''node hash mismatch'')), s')
                    else (Inr node, s'\<lparr>st_cache := cache_put (st_cache s') nk node\<rparr>))))"

definition load_root_record :: "'b kv_ops \<Rightarrow> 'b merkle_store \<Rightarrow> u64 \<Rightarrow> (bytes, 'b) outcome" where
  "load_root_record kv s version =
     (case backend_get kv s (root_record_key version) of
        (Inl e, s') \<Rightarrow> (Inl e, s')
      | (Inr None, s') \<Rightarrow> (Inl (Err (Missing ''root record'')), s')
      | (Inr (Some rec), s') \<Rightarrow>
          (if length rec \<noteq> HASH_SIZE then Inl (Err (Corrupted ''root record bad length'')) else Inr rec, s'))"

definition load_root_child :: "crypto \<Rightarrow> 'b kv_ops \<Rightarrow> 'b merkle_store \<Rightarrow> bytes \<Rightarrow> u64 \<Rightarrow> (child option, 'b) outcome" where
  "load_root_child cr kv s root version =
     (if root = placeholder (sha256 cr) then (Inr None, s)
      else case load_node cr kv s (node_key_root version) root of
             (Inl e, s') \<Rightarrow> (Inl e, s')
           | (Inr node, s') \<Rightarrow>
               (Inr (Some \<lparr>c_version = version, c_hash = root, c_is_leaf = node_is_leaf node\<rparr>), s'))"

definition read_value :: "crypto \<Rightarrow> 'b kv_ops \<Rightarrow> 'b merkle_store \<Rightarrow> bytes \<Rightarrow> bytes \<Rightarrow> u64 \<Rightarrow> (bytes, 'b) outcome" where
  "read_value cr kv s path vh value_version =
     (case backend_get kv s (value_record_key vh value_version) of
        (Inl e, s') \<Rightarrow> (Inl e, s')
      | (Inr None, s') \<Rightarrow> (Inl (Err (Missing ''value record'')), s')
      | (Inr (Some ct), s') \<Rightarrow>
          (case aead_decrypt cr (st_cipher s') ct (value_aad path) of
             Inl _ \<Rightarrow> (Inl (Err (Corrupted ''value decrypt'')), s')
           | Inr pt \<Rightarrow>
               (if vh_of cr s' path pt \<noteq> vh then Inl (Err (Corrupted ''value commitment mismatch''))
                else Inr pt, s')))"

section \<open>Reads\<close>

text \<open>The loop of \<open>walk\<close>; each round goes one nibble deeper, so there are at most 65 of them.\<close>

function walk_from :: "crypto \<Rightarrow> 'b kv_ops \<Rightarrow> 'b merkle_store \<Rightarrow> child \<Rightarrow> bytes \<Rightarrow> bytes \<Rightarrow> (bytes option, 'b) outcome" where
  "walk_from cr kv s child prefix path =
     (case load_node cr kv s (NodeKey (c_version child) prefix) (c_hash child) of
        (Inl e, s') \<Rightarrow> (Inl e, s')
      | (Inr node, s') \<Rightarrow>
          if node_is_leaf node \<noteq> c_is_leaf child then (Inl (Err (Corrupted ''node kind mismatch'')), s')
          else (case node of
                  Leaf leaf \<Rightarrow>
                    if lf_path leaf = path
                    then (case read_value cr kv s' path (lf_vh leaf) (lf_value_version leaf) of
                            (Inl e, s'') \<Rightarrow> (Inl e, s'')
                          | (Inr v, s'') \<Rightarrow> (Inr (Some v), s''))
                    else (Inr None, s')
                | Internal children \<Rightarrow>
                    if NIBBLES \<le> length prefix then (Inl Panic, s')
                    else let nib = nibble path (length prefix) in
                      (case children ! unat nib of
                         None \<Rightarrow> (Inr None, s')
                       | Some c \<Rightarrow> walk_from cr kv s' c (prefix @ [nib]) path)))"
  by pat_completeness auto

termination
  by (relation "measure (\<lambda>(cr, kv, s, child, prefix, path). NIBBLES - length prefix)") auto

declare walk_from.simps [simp del]

definition walk :: "crypto \<Rightarrow> 'b kv_ops \<Rightarrow> 'b merkle_store \<Rightarrow> child option \<Rightarrow> bytes \<Rightarrow> (bytes option, 'b) outcome" where
  "walk cr kv s root_child path =
     (case root_child of None \<Rightarrow> (Inr None, s) | Some c \<Rightarrow> walk_from cr kv s c [] path)"

definition store_get :: "crypto \<Rightarrow> 'b kv_ops \<Rightarrow> 'b merkle_store \<Rightarrow> bytes \<Rightarrow> (bytes option, 'b) outcome" where
  "store_get cr kv s key = walk cr kv s (st_root_child s) (path_of cr s key)"

definition root_at :: "'b kv_ops \<Rightarrow> 'b merkle_store \<Rightarrow> u64 \<Rightarrow> (bytes, 'b) outcome" where
  "root_at kv s version =
     (if version > st_version s then (Inl (Err (Invalid ''version is in the future'')), s)
      else load_root_record kv s version)"

text \<open>The root child of a past version, shared by \<open>get_at\<close> and \<open>prove_at\<close>.\<close>

definition root_child_at :: "crypto \<Rightarrow> 'b kv_ops \<Rightarrow> 'b merkle_store \<Rightarrow> u64 \<Rightarrow> (child option, 'b) outcome" where
  "root_child_at cr kv s version =
     (case load_root_record kv s version of
        (Inl e, s') \<Rightarrow> (Inl e, s')
      | (Inr root, s') \<Rightarrow> load_root_child cr kv s' root version)"

definition get_at :: "crypto \<Rightarrow> 'b kv_ops \<Rightarrow> 'b merkle_store \<Rightarrow> u64 \<Rightarrow> bytes \<Rightarrow> (bytes option, 'b) outcome" where
  "get_at cr kv s version key =
     (if version > st_version s then (Inl (Err (Invalid ''version is in the future'')), s)
      else case root_child_at cr kv s version of
             (Inl e, s') \<Rightarrow> (Inl e, s')
           | (Inr root_child, s') \<Rightarrow> walk cr kv s' root_child (path_of cr s' key))"

section \<open>Opening\<close>

definition store_create :: "crypto \<Rightarrow> 'b kv_ops \<Rightarrow> 'b \<Rightarrow> bytes \<Rightarrow> bytes \<Rightarrow> nat \<Rightarrow> (unit, 'b) outcome" where
  "store_create cr kv backend commitment_key storage_key draws =
     (let s = \<lparr>st_backend = backend, st_ck = commitment_key, st_cipher = storage_key,
               st_root = placeholder (sha256 cr), st_version = 0, st_root_child = None,
               st_cache = cache_new DEFAULT_CACHE_CAPACITY, st_pin = None, st_draws = draws\<rparr>
      in case encrypt_checkpoint cr s (placeholder (sha256 cr)) 0 of
           (Inl e, s') \<Rightarrow> (Inl e, s')
         | (Inr ckpt, s') \<Rightarrow>
             (case kv_write_batch kv (st_backend s')
                     [Put (root_record_key 0) (placeholder (sha256 cr)), Put checkpoint_record_key ckpt] of
                (Inl e, b) \<Rightarrow> (Inl (Err e), s'\<lparr>st_backend := b\<rparr>)
              | (Inr _, b) \<Rightarrow> (Inr (), s'\<lparr>st_backend := b\<rparr>)))"

definition store_open :: "crypto \<Rightarrow> 'b kv_ops \<Rightarrow> 'b \<Rightarrow> bytes \<Rightarrow> bytes \<Rightarrow> nat \<Rightarrow> bytes \<Rightarrow> u64 \<Rightarrow> (unit, 'b) outcome" where
  "store_open cr kv backend commitment_key storage_key draws root version =
     (let s = \<lparr>st_backend = backend, st_ck = commitment_key, st_cipher = storage_key,
               st_root = root, st_version = version, st_root_child = None,
               st_cache = cache_new DEFAULT_CACHE_CAPACITY, st_pin = None, st_draws = draws\<rparr>
      in case load_root_child cr kv s root version of
           (Inl e, s') \<Rightarrow> (Inl e, s')
         | (Inr root_child, s') \<Rightarrow> (Inr (), s'\<lparr>st_root_child := root_child\<rparr>))"

text \<open>
  The constructors that look at the checkpoint record first. Before a store exists there is only the
  backend, so a failure gives back the backend.
\<close>

definition open_latest :: "crypto \<Rightarrow> 'b kv_ops \<Rightarrow> 'b \<Rightarrow> bytes \<Rightarrow> bytes \<Rightarrow> nat \<Rightarrow> (fault \<times> 'b) + 'b merkle_store" where
  "open_latest cr kv backend commitment_key storage_key draws =
     (case kv_get kv backend checkpoint_record_key of
        (Inl e, b) \<Rightarrow> Inl (Err e, b)
      | (Inr None, b) \<Rightarrow> Inl (Err (Missing ''checkpoint record''), b)
      | (Inr (Some record), b) \<Rightarrow>
          (case decrypt_checkpoint cr storage_key record of
             Inl e \<Rightarrow> Inl (e, b)
           | Inr (root, version) \<Rightarrow>
               (case store_open cr kv b commitment_key storage_key draws root version of
                  (Inl e, s) \<Rightarrow> Inl (e, st_backend s)
                | (Inr _, s) \<Rightarrow> Inr s)))"

definition open_or_create :: "crypto \<Rightarrow> 'b kv_ops \<Rightarrow> 'b \<Rightarrow> bytes \<Rightarrow> bytes \<Rightarrow> nat \<Rightarrow> (fault \<times> 'b) + 'b merkle_store" where
  "open_or_create cr kv backend commitment_key storage_key draws =
     (case kv_get kv backend checkpoint_record_key of
        (Inl e, b) \<Rightarrow> Inl (Err e, b)
      | (Inr found, b) \<Rightarrow>
          if found \<noteq> None then open_latest cr kv b commitment_key storage_key draws
          else (case store_create cr kv b commitment_key storage_key draws of
                  (Inl e, s) \<Rightarrow> Inl (e, st_backend s)
                | (Inr _, s) \<Rightarrow> Inr s))"

end
