(* ===== verification/Merkle_Batch.thy ===== *)
theory Merkle_Batch
  imports Merkle_Store
begin

text \<open>
  The write side of \<open>crates/enclave-os-merkle/src/tree.rs\<close> (batches, commits, stamping, pruning),
  the prover and the snapshot iterator, and the transaction forks and snapshot restore built on them
  (\<open>fork.rs\<close>, \<open>snapshot.rs\<close>). The accumulator a batch fills is passed and returned; on a
  fault the code drops it, and so does the model.
\<close>

record commit_acc =
  ac_new_version :: u64
  ac_pending :: "(node_key, node) btree"
  ac_stale :: "bytes list"
  ac_insert_cts :: "(bytes, bytes) btree"
  ac_values :: "(bytes, bytes) btree"

type_synonym update = "bytes \<times> bytes option"

definition acc_new :: "u64 \<Rightarrow> commit_acc" where
  "acc_new new_version =
     \<lparr>ac_new_version = new_version, ac_pending = bt_new, ac_stale = [], ac_insert_cts = bt_new,
      ac_values = bt_new\<rparr>"

definition add_pending :: "node_key \<Rightarrow> node \<Rightarrow> commit_acc \<Rightarrow> commit_acc" where
  "add_pending nk node acc = acc\<lparr>ac_pending := bt_insert nk node (ac_pending acc)\<rparr>"

definition add_stale :: "bytes \<Rightarrow> commit_acc \<Rightarrow> commit_acc" where
  "add_stale key acc = acc\<lparr>ac_stale := ac_stale acc @ [key]\<rparr>"

section \<open>Building subtrees\<close>

definition put_leaf :: "crypto \<Rightarrow> commit_acc \<Rightarrow> bytes \<Rightarrow> leaf_node \<Rightarrow> fault + child \<times> commit_acc" where
  "put_leaf cr acc prefix leaf =
     (let with_value =
        (if lf_value_version leaf = ac_new_version acc \<and> bt_get (ac_values acc) (lf_vh leaf) = None
         then case bt_get (ac_insert_cts acc) (lf_path leaf) of
                None \<Rightarrow> Inl (Err (Corrupted ''internal: landed insert without ciphertext''))
              | Some ct \<Rightarrow> Inr (acc\<lparr>ac_values := bt_insert (lf_vh leaf) ct (ac_values acc)\<rparr>)
         else Inr acc)
      in case with_value of
           Inl e \<Rightarrow> Inl e
         | Inr acc' \<Rightarrow>
             let node = Leaf leaf; hash = node_hash (sha256 cr) node in
             Inr (\<lparr>c_version = ac_new_version acc', c_hash = hash, c_is_leaf = True\<rparr>,
                  add_pending (NodeKey (ac_new_version acc') prefix) node acc'))"

text \<open>Storing a new internal node, the end of \<open>build_from_pairs\<close> and of \<open>apply_subtree\<close>.\<close>

definition put_internal :: "crypto \<Rightarrow> commit_acc \<Rightarrow> bytes \<Rightarrow> child option list \<Rightarrow> child \<times> commit_acc" where
  "put_internal cr acc prefix children =
     (let node = Internal children; hash = node_hash (sha256 cr) node in
      (\<lparr>c_version = ac_new_version acc, c_hash = hash, c_is_leaf = False\<rparr>,
       add_pending (NodeKey (ac_new_version acc) prefix) node acc))"

text \<open>
  \<open>build_from_pairs\<close> and its loop over the runs of pairs with the same nibble at this depth.
\<close>

function (sequential) build_from_pairs ::
    "crypto \<Rightarrow> commit_acc \<Rightarrow> bytes \<Rightarrow> (bytes \<times> bytes \<times> u64) list \<Rightarrow> fault + child option \<times> commit_acc"
  and build_groups ::
    "crypto \<Rightarrow> commit_acc \<Rightarrow> bytes \<Rightarrow> (bytes \<times> bytes \<times> u64) list \<Rightarrow> child option list \<Rightarrow>
       fault + child option list \<times> commit_acc" where
  "build_from_pairs cr acc prefix [] = Inr (None, acc)"
| "build_from_pairs cr acc prefix [(path, vh, vv)] =
     (case put_leaf cr acc prefix \<lparr>lf_path = path, lf_vh = vh, lf_value_version = vv\<rparr> of
        Inl e \<Rightarrow> Inl e
      | Inr (c, acc') \<Rightarrow> Inr (Some c, acc'))"
| "build_from_pairs cr acc prefix pairs =
     (case build_groups cr acc prefix pairs (replicate 16 None) of
        Inl e \<Rightarrow> Inl e
      | Inr (children, acc') \<Rightarrow> let (c, acc'') = put_internal cr acc' prefix children in Inr (Some c, acc''))"
| "build_groups cr acc prefix [] children = Inr (children, acc)"
| "build_groups cr acc prefix (p # ps) children =
     (if NIBBLES \<le> length prefix then Inl Panic
      else
        let depth = length prefix;
            nib = nibble (fst p) depth;
            group = takeWhile (\<lambda>q. nibble (fst q) depth = nib) ps;
            rest = dropWhile (\<lambda>q. nibble (fst q) depth = nib) ps
        in case build_from_pairs cr acc (prefix @ [nib]) (p # group) of
             Inl e \<Rightarrow> Inl e
           | Inr (c, acc') \<Rightarrow> build_groups cr acc' prefix rest (children[unat nib := c]))"
  by pat_completeness auto

termination
  by (relation "inv_image (less_than <*lex*> (less_than <*lex*> less_than))
      (\<lambda>x. case x of Inl (cr, acc, prefix, pairs) \<Rightarrow> (NIBBLES - length prefix, 1 :: nat, 0)
                   | Inr (cr, acc, prefix, pairs, children) \<Rightarrow> (NIBBLES - length prefix, 0, length pairs))")
    (auto simp: less_Suc_eq_le length_dropWhile_le)

section \<open>Applying updates\<close>

definition take_leaf ::
    "crypto \<Rightarrow> 'b kv_ops \<Rightarrow> 'b merkle_store \<Rightarrow> commit_acc \<Rightarrow> child \<Rightarrow> bytes \<Rightarrow> (leaf_node \<times> commit_acc, 'b) outcome" where
  "take_leaf cr kv s acc child prefix =
     (let nk = NodeKey (c_version child) prefix in
      if c_version child = ac_new_version acc then
        (case bt_get (ac_pending acc) nk of
           Some (Leaf leaf) \<Rightarrow> Inr (leaf, acc\<lparr>ac_pending := bt_remove nk (ac_pending acc)\<rparr>)
         | _ \<Rightarrow> Inl (Err (Corrupted ''pending leaf missing or wrong kind'')), s)
      else
        (case load_node cr kv s nk (c_hash child) of
           (Inl e, s') \<Rightarrow> (Inl e, s')
         | (Inr (Leaf leaf), s') \<Rightarrow> (Inr (leaf, add_stale (node_record_key nk) acc), s')
         | (Inr (Internal _), s') \<Rightarrow> (Inl (Err (Corrupted ''node kind mismatch'')), s')))"

text \<open>The resident leaf merged with the updates, by path.\<close>

definition merge_leaf :: "u64 \<Rightarrow> leaf_node \<Rightarrow> update list \<Rightarrow> (bytes, bytes \<times> u64) btree" where
  "merge_leaf new_version leaf updates =
     foldl (\<lambda>merged (p, vh).
         case vh of
           Some h \<Rightarrow>
             bt_insert p (h, if p = lf_path leaf \<and> h = lf_vh leaf then lf_value_version leaf else new_version) merged
         | None \<Rightarrow> bt_remove p merged)
       (bt_insert (lf_path leaf) (lf_vh leaf, lf_value_version leaf) bt_new) updates"

definition apply_leaf ::
    "crypto \<Rightarrow> commit_acc \<Rightarrow> child \<Rightarrow> leaf_node \<Rightarrow> bytes \<Rightarrow> update list \<Rightarrow> fault + child option \<times> commit_acc" where
  "apply_leaf cr acc old_child leaf prefix updates =
     (let merged = merge_leaf (ac_new_version acc) leaf updates in
      if length merged = 1 \<and> bt_get merged (lf_path leaf) = Some (lf_vh leaf, lf_value_version leaf)
      then Inr (Some old_child, acc)
      else
        let acc' = add_stale (node_record_key (NodeKey (c_version old_child) prefix)) acc;
            acc'' = (case bt_get merged (lf_path leaf) of
                       Some (vh, _) \<Rightarrow> if vh = lf_vh leaf then acc'
                         else add_stale (value_record_key (lf_vh leaf) (lf_value_version leaf)) acc'
                     | None \<Rightarrow> add_stale (value_record_key (lf_vh leaf) (lf_value_version leaf)) acc')
        in build_from_pairs cr acc'' prefix (map (\<lambda>(p, (vh, vv)). (p, vh, vv)) merged))"

text \<open>The end of the internal case, after the loop over the nibble groups.\<close>

definition apply_internal_end ::
    "crypto \<Rightarrow> 'b kv_ops \<Rightarrow> 'b merkle_store \<Rightarrow> commit_acc \<Rightarrow> child \<Rightarrow> bytes \<Rightarrow> child option list \<Rightarrow> bool \<Rightarrow>
       (child option \<times> commit_acc, 'b) outcome" where
  "apply_internal_end cr kv s acc old_child prefix children changed =
     (if \<not> changed then (Inr (Some old_child, acc), s)
      else
        let acc' = add_stale (node_record_key (NodeKey (c_version old_child) prefix)) acc in
        case flatten children of
          [] \<Rightarrow> (Inr (None, acc'), s)
        | [only] \<Rightarrow>
            if c_is_leaf only then
              let nib = word_of_nat (length (takeWhile (\<lambda>c. c = None) children)) in
              (case take_leaf cr kv s acc' only (prefix @ [nib]) of
                 (Inl e, s') \<Rightarrow> (Inl e, s')
               | (Inr (leaf, acc''), s') \<Rightarrow>
                   (case put_leaf cr acc'' prefix leaf of
                      Inl e \<Rightarrow> (Inl e, s')
                    | Inr (c, acc''') \<Rightarrow> (Inr (Some c, acc'''), s')))
            else let (c, acc'') = put_internal cr acc' prefix children in (Inr (Some c, acc''), s)
        | _ \<Rightarrow> let (c, acc'') = put_internal cr acc' prefix children in (Inr (Some c, acc''), s))"

definition inserts :: "u64 \<Rightarrow> update list \<Rightarrow> (bytes \<times> bytes \<times> u64) list" where
  "inserts new_version updates =
     List.map_filter (\<lambda>(p, vh). map_option (\<lambda>h. (p, h, new_version)) vh) updates"

function (sequential) apply_subtree ::
    "crypto \<Rightarrow> 'b kv_ops \<Rightarrow> 'b merkle_store \<Rightarrow> commit_acc \<Rightarrow> child option \<Rightarrow> bytes \<Rightarrow> update list \<Rightarrow>
       (child option \<times> commit_acc, 'b) outcome"
  and apply_groups ::
    "crypto \<Rightarrow> 'b kv_ops \<Rightarrow> 'b merkle_store \<Rightarrow> commit_acc \<Rightarrow> bytes \<Rightarrow> update list \<Rightarrow> child option list \<Rightarrow> bool \<Rightarrow>
       (child option list \<times> bool \<times> commit_acc, 'b) outcome" where
  "apply_subtree cr kv s acc old prefix [] = (Inr (old, acc), s)"
| "apply_subtree cr kv s acc None prefix updates =
     (build_from_pairs cr acc prefix (inserts (ac_new_version acc) updates), s)"
| "apply_subtree cr kv s acc (Some old_child) prefix updates =
     (case load_node cr kv s (NodeKey (c_version old_child) prefix) (c_hash old_child) of
        (Inl e, s') \<Rightarrow> (Inl e, s')
      | (Inr node, s') \<Rightarrow>
          if node_is_leaf node \<noteq> c_is_leaf old_child then (Inl (Err (Corrupted ''node kind mismatch'')), s')
          else (case node of
                  Leaf leaf \<Rightarrow> (apply_leaf cr acc old_child leaf prefix updates, s')
                | Internal children \<Rightarrow>
                    (case apply_groups cr kv s' acc prefix updates children False of
                       (Inl e, s'') \<Rightarrow> (Inl e, s'')
                     | (Inr (children', changed, acc'), s'') \<Rightarrow>
                         apply_internal_end cr kv s'' acc' old_child prefix children' changed)))"
| "apply_groups cr kv s acc prefix [] children changed = (Inr (children, changed, acc), s)"
| "apply_groups cr kv s acc prefix (u # us) children changed =
     (if NIBBLES \<le> length prefix then (Inl Panic, s)
      else
        let depth = length prefix;
            nib = nibble (fst u) depth;
            group = takeWhile (\<lambda>q. nibble (fst q) depth = nib) us;
            rest = dropWhile (\<lambda>q. nibble (fst q) depth = nib) us
        in case apply_subtree cr kv s acc (children ! unat nib) (prefix @ [nib]) (u # group) of
             (Inl e, s') \<Rightarrow> (Inl e, s')
           | (Inr (new_child, acc'), s') \<Rightarrow>
               if new_child \<noteq> children ! unat nib
               then apply_groups cr kv s' acc' prefix rest (children[unat nib := new_child]) True
               else apply_groups cr kv s' acc' prefix rest children changed)"
  by pat_completeness auto

termination
  by (relation "inv_image (less_than <*lex*> (less_than <*lex*> less_than))
      (\<lambda>x. case x of Inl (cr, kv, s, acc, old, prefix, updates) \<Rightarrow> (NIBBLES - length prefix, 1 :: nat, 0)
                   | Inr (cr, kv, s, acc, prefix, updates, children, changed) \<Rightarrow>
                       (NIBBLES - length prefix, 0, length updates))")
    (auto simp: less_Suc_eq_le length_dropWhile_le)

section \<open>Batches and commits\<close>

text \<open>Commitments and ciphertexts of the deduplicated operations, in path order.\<close>

fun prepare_updates ::
    "crypto \<Rightarrow> 'b merkle_store \<Rightarrow> commit_acc \<Rightarrow> (bytes \<times> bytes option) list \<Rightarrow> (update list \<times> commit_acc, 'b) outcome" where
  "prepare_updates cr s acc [] = (Inr ([], acc), s)"
| "prepare_updates cr s acc ((path, Some pt) # rest) =
     (let vh = vh_of cr s path pt in
      case store_encrypt cr s pt (value_aad path) ''encrypt'' of
        (Inl e, s') \<Rightarrow> (Inl e, s')
      | (Inr ct, s') \<Rightarrow>
          (case prepare_updates cr s' (acc\<lparr>ac_insert_cts := bt_insert path ct (ac_insert_cts acc)\<rparr>) rest of
             (Inl e, s'') \<Rightarrow> (Inl e, s'')
           | (Inr (updates, acc'), s'') \<Rightarrow> (Inr ((path, Some vh) # updates, acc'), s'')))"
| "prepare_updates cr s acc ((path, None) # rest) =
     (case prepare_updates cr s acc rest of
        (Inl e, s'') \<Rightarrow> (Inl e, s'')
      | (Inr (updates, acc'), s'') \<Rightarrow> (Inr ((path, None) # updates, acc'), s''))"

definition root_of :: "crypto \<Rightarrow> child option \<Rightarrow> bytes" where
  "root_of cr c = (case c of Some c' \<Rightarrow> c_hash c' | None \<Rightarrow> placeholder (sha256 cr))"

text \<open>
  The part \<open>compute_batch\<close> and \<open>put_batch_by_path\<close> share, from the deduplicated operations on;
  \<open>None\<close> is a batch that changes nothing.
\<close>

definition fold_deduped ::
    "crypto \<Rightarrow> 'b kv_ops \<Rightarrow> 'b merkle_store \<Rightarrow> (bytes, bytes option) btree \<Rightarrow>
       ((commit_acc \<times> child option \<times> bytes) option, 'b) outcome" where
  "fold_deduped cr kv s deduped =
     (if deduped = [] then (Inr None, s)
      else
        case prepare_updates cr s (acc_new (st_version s + 1)) deduped of
          (Inl e, s') \<Rightarrow> (Inl e, s')
        | (Inr (updates, acc), s') \<Rightarrow>
            (case apply_subtree cr kv s' acc (st_root_child s') [] updates of
               (Inl e, s'') \<Rightarrow> (Inl e, s'')
             | (Inr (new_root_child, acc'), s'') \<Rightarrow>
                 if new_root_child = st_root_child s'' then (Inr None, s'')
                 else (Inr (Some (acc', new_root_child, root_of cr new_root_child)), s'')))"

definition compute_batch ::
    "crypto \<Rightarrow> 'b kv_ops \<Rightarrow> 'b merkle_store \<Rightarrow> (bytes \<times> bytes option) list \<Rightarrow>
       ((commit_acc \<times> child option \<times> bytes) option, 'b) outcome" where
  "compute_batch cr kv s ops =
     fold_deduped cr kv s (foldl (\<lambda>m (key, val). bt_insert (path_of cr s key) val m) bt_new ops)"

definition preview_batch ::
    "crypto \<Rightarrow> 'b kv_ops \<Rightarrow> 'b merkle_store \<Rightarrow> (bytes \<times> bytes option) list \<Rightarrow> (bytes \<times> u64, 'b) outcome" where
  "preview_batch cr kv s ops =
     (case compute_batch cr kv s ops of
        (Inl e, s') \<Rightarrow> (Inl e, s')
      | (Inr (Some (_, _, new_root)), s') \<Rightarrow> (Inr (new_root, st_version s' + 1), s')
      | (Inr None, s') \<Rightarrow> (Inr (st_root s', st_version s'), s'))"

definition commit_ops :: "commit_acc \<Rightarrow> bytes \<Rightarrow> bytes \<Rightarrow> kv_batch_op list" where
  "commit_ops acc new_root ckpt =
     map (\<lambda>(nk, node). Put (node_record_key nk) (node_encode node)) (ac_pending acc) @
     map (\<lambda>(vh, ct). Put (value_record_key vh (ac_new_version acc)) ct) (ac_values acc) @
     map (\<lambda>target. Put (stale_record_key (ac_new_version acc) target) []) (ac_stale acc) @
     [Put (root_record_key (ac_new_version acc)) new_root, Put checkpoint_record_key ckpt]"

definition commit ::
    "crypto \<Rightarrow> 'b kv_ops \<Rightarrow> 'b merkle_store \<Rightarrow> commit_acc \<Rightarrow> child option \<Rightarrow> bytes \<Rightarrow> (bytes \<times> u64, 'b) outcome" where
  "commit cr kv s acc new_root_child new_root =
     (case encrypt_checkpoint cr s new_root (ac_new_version acc) of
        (Inl e, s') \<Rightarrow> (Inl e, s')
      | (Inr ckpt, s') \<Rightarrow>
          (case kv_write_batch kv (st_backend s') (commit_ops acc new_root ckpt) of
             (Inl e, b) \<Rightarrow> (Inl (Err e), s'\<lparr>st_backend := b\<rparr>)
           | (Inr _, b) \<Rightarrow>
               (Inr (new_root, ac_new_version acc),
                s'\<lparr>st_backend := b,
                   st_cache := foldl (\<lambda>c (nk, node). cache_put c nk node) (st_cache s') (ac_pending acc),
                   st_root := new_root, st_version := ac_new_version acc,
                   st_root_child := new_root_child\<rparr>)))"

definition put_batch ::
    "crypto \<Rightarrow> 'b kv_ops \<Rightarrow> 'b merkle_store \<Rightarrow> (bytes \<times> bytes option) list \<Rightarrow> (bytes \<times> u64, 'b) outcome" where
  "put_batch cr kv s ops =
     (case compute_batch cr kv s ops of
        (Inl e, s') \<Rightarrow> (Inl e, s')
      | (Inr None, s') \<Rightarrow> (Inr (st_root s', st_version s'), s')
      | (Inr (Some (acc, new_root_child, new_root)), s') \<Rightarrow> commit cr kv s' acc new_root_child new_root)"

definition put_batch_by_path ::
    "crypto \<Rightarrow> 'b kv_ops \<Rightarrow> 'b merkle_store \<Rightarrow> (bytes \<times> bytes) list \<Rightarrow> (bytes \<times> u64, 'b) outcome" where
  "put_batch_by_path cr kv s ops =
     (case fold_deduped cr kv s (foldl (\<lambda>m (path, val). bt_insert path (Some val) m) bt_new ops) of
        (Inl e, s') \<Rightarrow> (Inl e, s')
      | (Inr None, s') \<Rightarrow> (Inr (st_root s', st_version s'), s')
      | (Inr (Some (acc, new_root_child, new_root)), s') \<Rightarrow> commit cr kv s' acc new_root_child new_root)"

definition stamp_version :: "crypto \<Rightarrow> 'b kv_ops \<Rightarrow> 'b merkle_store \<Rightarrow> u64 \<Rightarrow> (unit, 'b) outcome" where
  "stamp_version cr kv s version =
     (if version < st_version s then (Inl (Err (Invalid ''cannot stamp version below current'')), s)
      else
        case encrypt_checkpoint cr s (st_root s) version of
          (Inl e, s') \<Rightarrow> (Inl e, s')
        | (Inr ckpt, s') \<Rightarrow>
            let batch = [Put (root_record_key version) (st_root s'), Put checkpoint_record_key ckpt];
                write = (\<lambda>ops t. case kv_write_batch kv (st_backend t) ops of
                           (Inl e, b) \<Rightarrow> (Inl (Err e), t\<lparr>st_backend := b\<rparr>)
                         | (Inr _, b) \<Rightarrow> (Inr (), t\<lparr>st_backend := b, st_version := version\<rparr>))
            in case st_root_child s' of
                 None \<Rightarrow> write batch s'
               | Some c \<Rightarrow>
                   (case load_node cr kv s' (NodeKey (c_version c) []) (c_hash c) of
                      (Inl e, s'') \<Rightarrow> (Inl e, s'')
                    | (Inr node, s'') \<Rightarrow>
                        write (batch @ [Put (node_record_key (NodeKey version [])) (node_encode node)])
                          (s''\<lparr>st_root_child := Some (c\<lparr>c_version := version\<rparr>)\<rparr>)))"

section \<open>Pruning\<close>

record prune_stats =
  ps_stale_entries :: nat
  ps_records_deleted :: nat
  ps_root_records_deleted :: nat

text \<open>
  One pass over the scanned stale entries: the two deletions per entry, or a fault on a short key.
\<close>

fun stale_deletes :: "(bytes \<times> bytes) list \<Rightarrow> fault + kv_batch_op list" where
  "stale_deletes [] = Inr []"
| "stale_deletes ((key, _) # entries) =
     (if length key < 10 then Inl (Err (Corrupted ''stale entry key too short''))
      else case stale_deletes entries of
             Inl e \<Rightarrow> Inl e
           | Inr ops \<Rightarrow> Inr (Delete (drop 9 key) # Delete key # ops))"

text \<open>
  The two scan-and-delete loops. A backend that kept returning full chunks would be scanned forever,
  so the loops carry fuel and \<open>None\<close> means that it ran out.
\<close>

fun prune_stale ::
    "'b kv_ops \<Rightarrow> nat \<Rightarrow> 'b merkle_store \<Rightarrow> bytes \<Rightarrow> bytes \<Rightarrow> prune_stats \<Rightarrow> (prune_stats, 'b) outcome option" where
  "prune_stale kv 0 s start stop stats = None"
| "prune_stale kv (Suc fuel) s start stop stats =
     (case kv_scan kv (st_backend s) start stop PRUNE_CHUNK of
        (Inl e, b) \<Rightarrow> Some (Inl (Err e), s\<lparr>st_backend := b\<rparr>)
      | (Inr entries, b) \<Rightarrow>
          let s' = s\<lparr>st_backend := b\<rparr> in
          if entries = [] then Some (Inr stats, s')
          else case stale_deletes entries of
            Inl e \<Rightarrow> Some (Inl e, s')
          | Inr batch \<Rightarrow>
              (let stats' = stats\<lparr>ps_stale_entries := ps_stale_entries stats + length entries,
                                 ps_records_deleted := ps_records_deleted stats + length entries\<rparr>
               in case kv_write_batch kv (st_backend s') batch of
                 (Inl e, b') \<Rightarrow> Some (Inl (Err e), s'\<lparr>st_backend := b'\<rparr>)
               | (Inr _, b') \<Rightarrow>
                   if length entries = unat PRUNE_CHUNK
                   then prune_stale kv fuel (s'\<lparr>st_backend := b'\<rparr>) start stop stats'
                   else Some (Inr stats', s'\<lparr>st_backend := b'\<rparr>)))"

fun prune_roots ::
    "'b kv_ops \<Rightarrow> nat \<Rightarrow> 'b merkle_store \<Rightarrow> bytes \<Rightarrow> bytes \<Rightarrow> prune_stats \<Rightarrow> (prune_stats, 'b) outcome option" where
  "prune_roots kv 0 s start stop stats = None"
| "prune_roots kv (Suc fuel) s start stop stats =
     (case kv_scan kv (st_backend s) start stop PRUNE_CHUNK of
        (Inl e, b) \<Rightarrow> Some (Inl (Err e), s\<lparr>st_backend := b\<rparr>)
      | (Inr entries, b) \<Rightarrow>
          let s' = s\<lparr>st_backend := b\<rparr> in
          if entries = [] then Some (Inr stats, s')
          else
            let stats' = stats\<lparr>ps_root_records_deleted := ps_root_records_deleted stats + length entries\<rparr>
            in case kv_write_batch kv (st_backend s') (map (\<lambda>(key, _). Delete key) entries) of
                 (Inl e, b') \<Rightarrow> Some (Inl (Err e), s'\<lparr>st_backend := b'\<rparr>)
               | (Inr _, b') \<Rightarrow>
                   if length entries = unat PRUNE_CHUNK
                   then prune_roots kv fuel (s'\<lparr>st_backend := b'\<rparr>) start stop stats'
                   else Some (Inr stats', s'\<lparr>st_backend := b'\<rparr>))"

definition prune_horizon :: "'b merkle_store \<Rightarrow> u64 \<Rightarrow> u64" where
  "prune_horizon s before_version =
     (case st_pin s of Some pin \<Rightarrow> min before_version pin | None \<Rightarrow> before_version)"

definition stale_end :: "u64 \<Rightarrow> bytes" where
  "stale_end before_version =
     (case checked_add before_version 1 of
        Some v \<Rightarrow> REC_STALE # to_be_bytes v
      | None \<Rightarrow> [REC_STALE + 1])"

definition prune :: "'b kv_ops \<Rightarrow> nat \<Rightarrow> 'b merkle_store \<Rightarrow> u64 \<Rightarrow> (prune_stats, 'b) outcome option" where
  "prune kv fuel s before_version =
     (let before = prune_horizon s before_version in
      if before > st_version s then Some (Inl (Err (Invalid ''cannot prune to future version'')), s)
      else
        let s' = s\<lparr>st_cache := cache_clear (st_cache s)\<rparr>;
            stats = \<lparr>ps_stale_entries = 0, ps_records_deleted = 0, ps_root_records_deleted = 0\<rparr>
        in case prune_stale kv fuel s' [REC_STALE] (stale_end before) stats of
             None \<Rightarrow> None
           | Some (Inl e, s'') \<Rightarrow> Some (Inl e, s'')
           | Some (Inr stats', s'') \<Rightarrow>
               prune_roots kv fuel s'' [REC_ROOT] (REC_ROOT # to_be_bytes before) stats')"

definition retain_recent :: "'b kv_ops \<Rightarrow> nat \<Rightarrow> 'b merkle_store \<Rightarrow> u64 \<Rightarrow> (prune_stats, 'b) outcome option" where
  "retain_recent kv fuel s window = prune kv fuel s (saturating_sub (st_version s) window)"

definition pin_version :: "'b merkle_store \<Rightarrow> u64 option \<Rightarrow> 'b merkle_store" where
  "pin_version s version = s\<lparr>st_pin := version\<rparr>"

definition set_cache_capacity :: "'b merkle_store \<Rightarrow> nat \<Rightarrow> 'b merkle_store" where
  "set_cache_capacity s capacity = s\<lparr>st_cache := cache_set_capacity (st_cache s) capacity\<rparr>"

section \<open>Proofs\<close>

text \<open>
  The binary descent inside one node towards \<open>slot\<close>: it ends on an empty range, on a lone leaf at
  index \<open>idx\<close>, or on an internal child, with the sibling hashes collected so far.
\<close>

datatype descent = Empty_Range "bytes list" | Lone_Leaf nat child "bytes list" | Into child "bytes list"

lemma descend_halves:
  "x # xs = filter P [start..<start + width] \<Longrightarrow> width div 2 < width"
  by (cases width) auto

function descend :: "(bytes \<Rightarrow> bytes) \<Rightarrow> child option list \<Rightarrow> nat \<Rightarrow> nat \<Rightarrow> nat \<Rightarrow> bytes list \<Rightarrow> descent" where
  "descend H children slot start width siblings =
     (let present = filter (\<lambda>i. children ! i \<noteq> None) [start..<start + width];
          half = width div 2;
          (ours, sib) = (if slot < start + half then (start, start + half) else (start + half, start))
      in case present of
           [] \<Rightarrow> Empty_Range siblings
         | [idx] \<Rightarrow>
             let c = the (children ! idx) in
             if c_is_leaf c then Lone_Leaf idx c siblings
             else if width = 1 then Into c siblings
             else descend H children slot ours half (siblings @ [subtree_hash H children sib half])
         | _ \<Rightarrow> descend H children slot ours half (siblings @ [subtree_hash H children sib half]))"
  by pat_completeness auto

termination
  by (relation "measure (\<lambda>(H, children, slot, start, width, siblings). width)")
    (auto dest: descend_halves)

declare descend.simps [simp del]

text \<open>The outer loop of \<open>prove_path\<close>; siblings are collected top-down.\<close>

function prove_from ::
    "crypto \<Rightarrow> 'b kv_ops \<Rightarrow> 'b merkle_store \<Rightarrow> child \<Rightarrow> bytes \<Rightarrow> bytes \<Rightarrow> bytes list \<Rightarrow>
       (leaf_node option \<times> bytes list, 'b) outcome" where
  "prove_from cr kv s child prefix path siblings =
     (case load_node cr kv s (NodeKey (c_version child) prefix) (c_hash child) of
        (Inl e, s') \<Rightarrow> (Inl e, s')
      | (Inr node, s') \<Rightarrow>
          if node_is_leaf node \<noteq> c_is_leaf child then (Inl (Err (Corrupted ''node kind mismatch'')), s')
          else (case node of
                  Leaf leaf \<Rightarrow> (Inr (Some leaf, siblings), s')
                | Internal children \<Rightarrow>
                    if NIBBLES \<le> length prefix then (Inl Panic, s')
                    else let nib = nibble path (length prefix) in
                      (case descend (sha256 cr) children (unat nib) 0 16 siblings of
                         Empty_Range sibs \<Rightarrow> (Inr (None, sibs), s')
                       | Lone_Leaf idx c sibs \<Rightarrow>
                           (case load_node cr kv s' (NodeKey (c_version c) (prefix @ [word_of_nat idx])) (c_hash c) of
                              (Inl e, s'') \<Rightarrow> (Inl e, s'')
                            | (Inr (Leaf leaf), s'') \<Rightarrow> (Inr (Some leaf, sibs), s'')
                            | (Inr (Internal _), s'') \<Rightarrow> (Inl (Err (Corrupted ''node kind mismatch'')), s''))
                       | Into c sibs \<Rightarrow> prove_from cr kv s' c (prefix @ [nib]) path sibs)))"
  by pat_completeness auto

termination
  by (relation "measure (\<lambda>(cr, kv, s, child, prefix, path, siblings). NIBBLES - length prefix)") auto

declare prove_from.simps [simp del]

definition prove_path ::
    "crypto \<Rightarrow> 'b kv_ops \<Rightarrow> 'b merkle_store \<Rightarrow> child option \<Rightarrow> bytes \<Rightarrow> (merkle_proof, 'b) outcome" where
  "prove_path cr kv s root_child path =
     (case root_child of
        None \<Rightarrow> (Inr \<lparr>pf_leaf = None, pf_siblings = []\<rparr>, s)
      | Some c \<Rightarrow>
          (case prove_from cr kv s c [] path [] of
             (Inl e, s') \<Rightarrow> (Inl e, s')
           | (Inr (leaf, siblings), s') \<Rightarrow>
               (Inr \<lparr>pf_leaf = map_option (\<lambda>l. (lf_path l, lf_vh l)) leaf, pf_siblings = rev siblings\<rparr>, s')))"

definition prove :: "crypto \<Rightarrow> 'b kv_ops \<Rightarrow> 'b merkle_store \<Rightarrow> bytes \<Rightarrow> (merkle_proof, 'b) outcome" where
  "prove cr kv s key = prove_path cr kv s (st_root_child s) (path_of cr s key)"

definition prove_at :: "crypto \<Rightarrow> 'b kv_ops \<Rightarrow> 'b merkle_store \<Rightarrow> u64 \<Rightarrow> bytes \<Rightarrow> (merkle_proof, 'b) outcome" where
  "prove_at cr kv s version key =
     (if version > st_version s then (Inl (Err (Invalid ''version is in the future'')), s)
      else case root_child_at cr kv s version of
             (Inl e, s') \<Rightarrow> (Inl e, s')
           | (Inr root_child, s') \<Rightarrow> prove_path cr kv s' root_child (path_of cr s' key))"

definition verify_value ::
    "crypto \<Rightarrow> 'b merkle_store \<Rightarrow> bytes \<Rightarrow> bytes \<Rightarrow> bytes \<Rightarrow> merkle_proof \<Rightarrow> merkle_error + bool" where
  "verify_value cr s root key val pf =
     (let path = path_of cr s key in
      case verify (sha256 cr) root path pf of
        Inl e \<Rightarrow> Inl e
      | Inr (Present vh) \<Rightarrow> Inr (vh = vh_of cr s path val)
      | Inr Absent \<Rightarrow> Inr False)"

definition verify_absent ::
    "crypto \<Rightarrow> 'b merkle_store \<Rightarrow> bytes \<Rightarrow> bytes \<Rightarrow> merkle_proof \<Rightarrow> merkle_error + bool" where
  "verify_absent cr s root key pf =
     (case verify (sha256 cr) root (path_of cr s key) pf of
        Inl e \<Rightarrow> Inl e
      | Inr v \<Rightarrow> Inr (v = Absent))"

section \<open>Snapshots\<close>

text \<open>
  The depth-first iterator. Without a resume path nothing bounds the depth the host's nodes may
  claim, so the recursion carries fuel for the levels; \<open>None\<close> means that it ran out.
\<close>

function (sequential) collect_leaves ::
    "crypto \<Rightarrow> 'b kv_ops \<Rightarrow> nat \<Rightarrow> 'b merkle_store \<Rightarrow> child \<Rightarrow> bytes \<Rightarrow> bytes option \<Rightarrow> nat \<Rightarrow> (bytes \<times> bytes) list \<Rightarrow>
       (bool \<times> (bytes \<times> bytes) list, 'b) outcome option"
  and collect_children ::
    "crypto \<Rightarrow> 'b kv_ops \<Rightarrow> nat \<Rightarrow> 'b merkle_store \<Rightarrow> child option list \<Rightarrow> nat list \<Rightarrow> bytes \<Rightarrow> bytes option \<Rightarrow>
       byte option \<Rightarrow> nat \<Rightarrow> (bytes \<times> bytes) list \<Rightarrow> (bool \<times> (bytes \<times> bytes) list, 'b) outcome option" where
  "collect_leaves cr kv 0 s child prefix start_after limit out = None"
| "collect_leaves cr kv (Suc fuel) s child prefix start_after limit out =
     (if limit \<le> length out then Some (Inr (False, out), s)
      else case load_node cr kv s (NodeKey (c_version child) prefix) (c_hash child) of
        (Inl e, s') \<Rightarrow> Some (Inl e, s')
      | (Inr (Leaf leaf), s') \<Rightarrow>
          if (case start_after of Some sa \<Rightarrow> lf_path leaf \<le> sa | None \<Rightarrow> False) then Some (Inr (True, out), s')
          else (case read_value cr kv s' (lf_path leaf) (lf_vh leaf) (lf_value_version leaf) of
                  (Inl e, s'') \<Rightarrow> Some (Inl e, s'')
                | (Inr v, s'') \<Rightarrow> Some (Inr (True, out @ [(lf_path leaf, v)]), s''))
      | (Inr (Internal children), s') \<Rightarrow>
          if start_after \<noteq> None \<and> NIBBLES \<le> length prefix then Some (Inl Panic, s')
          else collect_children cr kv fuel s' children [0..<16] prefix start_after
                 (map_option (\<lambda>sa. nibble sa (length prefix)) start_after) limit out)"
| "collect_children cr kv fuel s children [] prefix start_after resume_nib limit out = Some (Inr (True, out), s)"
| "collect_children cr kv fuel s children (i # is) prefix start_after resume_nib limit out =
     (let nib = word_of_nat i in
      if (case resume_nib of Some rn \<Rightarrow> nib < rn | None \<Rightarrow> False)
      then collect_children cr kv fuel s children is prefix start_after resume_nib limit out
      else case children ! i of
        None \<Rightarrow> collect_children cr kv fuel s children is prefix start_after resume_nib limit out
      | Some c \<Rightarrow>
          (case collect_leaves cr kv fuel s c (prefix @ [nib]) (if resume_nib = Some nib then start_after else None)
                  limit out of
             None \<Rightarrow> None
           | Some (Inl e, s') \<Rightarrow> Some (Inl e, s')
           | Some (Inr (exhausted, out'), s') \<Rightarrow>
               if \<not> exhausted then Some (Inr (False, out'), s')
               else collect_children cr kv fuel s' children is prefix start_after resume_nib limit out'))"
  by pat_completeness auto

termination
  by (relation "inv_image (less_than <*lex*> (less_than <*lex*> less_than))
      (\<lambda>x. case x of
             Inl (cr, kv, fuel, s, child, prefix, start_after, limit, out) \<Rightarrow> (fuel, 0 :: nat, 0 :: nat)
           | Inr (cr, kv, fuel, s, children, is, prefix, start_after, resume_nib, limit, out) \<Rightarrow> (fuel, 1, length is))")
    auto

definition snapshot_leaves ::
    "crypto \<Rightarrow> 'b kv_ops \<Rightarrow> nat \<Rightarrow> 'b merkle_store \<Rightarrow> u64 \<Rightarrow> bytes option \<Rightarrow> nat \<Rightarrow>
       ((bytes \<times> bytes) list \<times> bool, 'b) outcome option" where
  "snapshot_leaves cr kv fuel s version start_after limit =
     (case root_child_at cr kv s version of
        (Inl e, s') \<Rightarrow> Some (Inl e, s')
      | (Inr None, s') \<Rightarrow> Some (Inr ([], True), s')
      | (Inr (Some c), s') \<Rightarrow>
          (case collect_leaves cr kv fuel s' c [] start_after limit [] of
             None \<Rightarrow> None
           | Some (Inl e, s'') \<Rightarrow> Some (Inl e, s'')
           | Some (Inr (done, out), s'') \<Rightarrow> Some (Inr (out, done), s'')))"

text \<open>Restore: a fresh store, the streamed leaves, and the check against the advertised root.\<close>

record 'b snapshot_builder =
  sb_store :: "'b merkle_store"
  sb_leaves :: "(bytes \<times> bytes) list"

definition builder_new :: "crypto \<Rightarrow> 'b kv_ops \<Rightarrow> 'b \<Rightarrow> bytes \<Rightarrow> bytes \<Rightarrow> nat \<Rightarrow> (fault \<times> 'b) + 'b snapshot_builder" where
  "builder_new cr kv backend commitment_key storage_key draws =
     (case store_create cr kv backend commitment_key storage_key draws of
        (Inl e, s) \<Rightarrow> Inl (e, st_backend s)
      | (Inr _, s) \<Rightarrow> Inr \<lparr>sb_store = s, sb_leaves = []\<rparr>)"

definition add_leaves :: "'b snapshot_builder \<Rightarrow> (bytes \<times> bytes) list \<Rightarrow> 'b snapshot_builder" where
  "add_leaves sb chunk = sb\<lparr>sb_leaves := sb_leaves sb @ chunk\<rparr>"

definition leaf_count :: "'b snapshot_builder \<Rightarrow> nat" where
  "leaf_count sb = length (sb_leaves sb)"

definition finalize :: "crypto \<Rightarrow> 'b kv_ops \<Rightarrow> 'b snapshot_builder \<Rightarrow> bytes \<Rightarrow> u64 \<Rightarrow> (unit, 'b) outcome" where
  "finalize cr kv sb expected_root version =
     (case put_batch_by_path cr kv (sb_store sb) (sb_leaves sb) of
        (Inl e, s) \<Rightarrow> (Inl e, s)
      | (Inr (root, built_version), s) \<Rightarrow>
          if root \<noteq> expected_root then (Inl (Err (Corrupted ''snapshot root mismatch'')), s)
          else if version < built_version then (Inl (Err (Invalid ''snapshot version below build version'')), s)
          else stamp_version cr kv s version)"

section \<open>Transaction forks (fork.rs)\<close>

record 'b merkle_fork =
  fk_store :: "'b merkle_store"
  fk_root_before :: bytes
  fk_version_before :: u64
  fk_overlay :: "(bytes, bytes option) btree"

record sealed_fork =
  sf_root_before :: bytes
  sf_version_before :: u64
  sf_root_after :: bytes
  sf_version_after :: u64
  sf_ops :: "(bytes \<times> bytes option) list"

definition fork_new :: "'b merkle_store \<Rightarrow> 'b merkle_fork" where
  "fork_new s = \<lparr>fk_store = s, fk_root_before = st_root s, fk_version_before = st_version s, fk_overlay = bt_new\<rparr>"

definition fork_get ::
    "crypto \<Rightarrow> 'b kv_ops \<Rightarrow> 'b merkle_fork \<Rightarrow> bytes \<Rightarrow> (fault + bytes option) \<times> 'b merkle_fork" where
  "fork_get cr kv f key =
     (case bt_get (fk_overlay f) key of
        Some pending \<Rightarrow> (Inr pending, f)
      | None \<Rightarrow> (case store_get cr kv (fk_store f) key of (r, s) \<Rightarrow> (r, f\<lparr>fk_store := s\<rparr>)))"

definition fork_put :: "'b merkle_fork \<Rightarrow> bytes \<Rightarrow> bytes \<Rightarrow> 'b merkle_fork" where
  "fork_put f key val = f\<lparr>fk_overlay := bt_insert key (Some val) (fk_overlay f)\<rparr>"

definition fork_delete :: "'b merkle_fork \<Rightarrow> bytes \<Rightarrow> 'b merkle_fork" where
  "fork_delete f key = f\<lparr>fk_overlay := bt_insert key None (fk_overlay f)\<rparr>"

definition pending_ops :: "'b merkle_fork \<Rightarrow> nat" where
  "pending_ops f = length (fk_overlay f)"

definition seal :: "crypto \<Rightarrow> 'b kv_ops \<Rightarrow> 'b merkle_fork \<Rightarrow> (sealed_fork, 'b) outcome" where
  "seal cr kv f =
     (if (st_root (fk_store f), st_version (fk_store f)) \<noteq> (fk_root_before f, fk_version_before f)
      then (Inl (Err (Invalid ''store moved under the fork'')), fk_store f)
      else case preview_batch cr kv (fk_store f) (fk_overlay f) of
             (Inl e, s) \<Rightarrow> (Inl e, s)
           | (Inr (root_after, version_after), s) \<Rightarrow>
               (Inr \<lparr>sf_root_before = fk_root_before f, sf_version_before = fk_version_before f,
                     sf_root_after = root_after, sf_version_after = version_after, sf_ops = fk_overlay f\<rparr>, s))"

definition is_noop :: "sealed_fork \<Rightarrow> bool" where
  "is_noop sf \<longleftrightarrow> sf_root_after sf = sf_root_before sf"

end
