(* ===== verification/Merkle_Tree.thy ===== *)
theory Merkle_Tree
  imports Merkle_Batch
begin

text \<open>
  The trees the records of the Merkle store spell out. A tree gives each node its version; its
  records, its leaves in path order and its hash are functions of it. The main result is that the
  hash the store keeps for a well-formed tree is the hash of the reference binary tree over its
  leaves, so equal contents have equal roots whatever the history.
\<close>

section \<open>Slots of a node and bits of a path\<close>

lemma bit_at_nibble:
  assumes "j < 4"
  shows "bit_at path (4 * d + j) \<longleftrightarrow> bit (nibble path d) (3 - j)"
proof (cases "even d")
  case True
  then obtain e where d: "d = 2 * e" by blast
  have "4 * d + j = j + 8 * e" by (simp add: d)
  then have div: "(4 * d + j) div 8 = e" "(4 * d + j) mod 8 = j"
    using assms by simp_all
  have nib: "nibble path d = drop_bit 4 (path ! e)" by (simp add: nibble_def d)
  have "4 + (3 - j) = 7 - j" using assms by simp
  then show ?thesis
    unfolding bit_at_bit div nib bit_drop_bit_eq comp_def by (simp only:)
next
  case False
  then obtain e where d: "d = 2 * e + 1" using oddE by blast
  have eq: "4 * d + j = (4 + j) + 8 * e" by (simp add: d)
  have div: "(4 * d + j) div 8 = e" "(4 * d + j) mod 8 = 4 + j"
    unfolding eq mod_mult_self2 using assms by simp_all
  have "bit (0x0F :: byte) (3 - j)"
  proof -
    have "(0x0F :: byte) = mask 4" by (simp add: mask_eq_exp_minus_1)
    then show ?thesis using assms by (simp only: bit_mask_iff) auto
  qed
  moreover have nib: "nibble path d = path ! e AND 0x0F" by (simp add: nibble_def d)
  moreover have "7 - (4 + j) = 3 - j" by simp
  ultimately show ?thesis
    unfolding bit_at_bit div nib by (simp only: bit_and_iff simp_thms)
qed

lemma bit_slot_halves:
  assumes "i < 16" "k < 4" "2 ^ Suc k dvd start" "start \<le> i"
  shows "i < start + 2 ^ k \<Longrightarrow> \<not> bit (word_of_nat i :: byte) k"
    and "start + 2 ^ k \<le> i \<Longrightarrow> i < start + 2 ^ Suc k \<Longrightarrow> bit (word_of_nat i :: byte) k"
proof -
  obtain q where q: "start = 2 ^ k * (2 * q)" using assms(3) by (auto simp: mult.assoc)
  have bit: "bit (word_of_nat i :: byte) k \<longleftrightarrow> odd (i div 2 ^ k)"
    using assms(2) by (simp add: bit_of_nat_iff) (simp add: bit_iff_odd)
  show "\<not> bit (word_of_nat i :: byte) k" if "i < start + 2 ^ k"
  proof -
    have "i div 2 ^ k = 2 * q"
      using that assms(4) by (intro div_nat_eqI) (simp_all add: q algebra_simps)
    then show ?thesis by (simp add: bit)
  qed
  show "bit (word_of_nat i :: byte) k" if "start + 2 ^ k \<le> i" "i < start + 2 ^ Suc k"
  proof -
    have "i div 2 ^ k = 2 * q + 1"
      using that by (intro div_nat_eqI) (simp_all add: q algebra_simps)
    then show ?thesis by (simp add: bit)
  qed
qed

text \<open>A child slot together with the entries below it.\<close>

definition slot_ok :: "(bytes \<Rightarrow> bytes) \<Rightarrow> nat \<Rightarrow> nat \<Rightarrow> child option \<Rightarrow> (bytes \<times> bytes) list \<Rightarrow> bool" where
  "slot_ok H d i c es \<longleftrightarrow> (\<forall>e \<in> set es. nibble (fst e) d = word_of_nat i) \<and>
     (case c of
        None \<Rightarrow> es = []
      | Some ch \<Rightarrow> es \<noteq> [] \<and> (c_is_leaf ch \<longleftrightarrow> length es = 1) \<and> c_hash ch = smt H (4 * (d + 1)) es)"

definition slots_ok :: "(bytes \<Rightarrow> bytes) \<Rightarrow> nat \<Rightarrow> child option list \<Rightarrow> (bytes \<times> bytes) list list \<Rightarrow> bool" where
  "slots_ok H d cs ess \<longleftrightarrow> d < NIBBLES \<and> length cs = 16 \<and> length ess = 16 \<and>
     (\<forall>i < 16. slot_ok H d i (cs ! i) (ess ! i))"

text \<open>The entries below the slots \<open>start ..< start + width\<close>.\<close>

definition range_entries :: "(bytes \<times> bytes) list list \<Rightarrow> nat \<Rightarrow> nat \<Rightarrow> (bytes \<times> bytes) list" where
  "range_entries ess start width = concat (take width (drop start ess))"

lemma range_entries_split:
  "range_entries ess start (a + b) = range_entries ess start a @ range_entries ess (start + a) b"
  by (simp add: range_entries_def take_add add.commute)

lemma range_entries_mem:
  assumes "e \<in> set (range_entries ess start width)"
  obtains i where "start \<le> i" "i < start + width" "i < length ess" "e \<in> set (ess ! i)"
proof -
  from assms obtain es where "es \<in> set (take width (drop start ess))" "e \<in> set es"
    by (auto simp: range_entries_def)
  then obtain j where "j < length (take width (drop start ess))" "ess ! (start + j) = es"
    by (auto simp: in_set_conv_nth)
  with \<open>e \<in> set es\<close> that [of "start + j"] show ?thesis by auto
qed

lemma range_bits:
  assumes "slots_ok H d cs ess" "k < 4" "2 ^ Suc k dvd start" "start + 2 ^ Suc k \<le> 16"
  shows "e \<in> set (range_entries ess start (2 ^ k)) \<Longrightarrow> \<not> bit_at (fst e) (4 * d + (3 - k))"
    and "e \<in> set (range_entries ess (start + 2 ^ k) (2 ^ k)) \<Longrightarrow> bit_at (fst e) (4 * d + (3 - k))"
proof -
  have nib: "nibble (fst e) d = word_of_nat i" if "i < 16" "e \<in> set (ess ! i)" for i
    using assms(1) that by (auto simp: slots_ok_def slot_ok_def)
  have bit: "bit_at (fst e) (4 * d + (3 - k)) \<longleftrightarrow> bit (nibble (fst e) d) k"
    using bit_at_nibble [of "3 - k" "fst e" d] assms(2) by simp
  have i: "i < 16" if "i < start + 2 ^ Suc k" for i using that assms(4) by simp
  show "e \<in> set (range_entries ess start (2 ^ k)) \<Longrightarrow> \<not> bit_at (fst e) (4 * d + (3 - k))"
  proof (elim range_entries_mem)
    fix i
    assume a: "start \<le> i" "i < start + 2 ^ k" "e \<in> set (ess ! i)"
    then have "i < 16" by (intro i) simp
    then show ?thesis
      unfolding bit using nib [OF _ a(3)] bit_slot_halves(1) [OF _ assms(2,3) a(1,2)] by simp
  qed
  show "e \<in> set (range_entries ess (start + 2 ^ k) (2 ^ k)) \<Longrightarrow> bit_at (fst e) (4 * d + (3 - k))"
  proof (elim range_entries_mem)
    fix i
    assume a: "start + 2 ^ k \<le> i" "i < start + 2 ^ k + 2 ^ k" "e \<in> set (ess ! i)"
    then have i: "i < 16" "i < start + 2 ^ Suc k" by (auto intro: i)
    then show ?thesis
      unfolding bit using nib [OF i(1) a(3)] bit_slot_halves(2) [OF _ assms(2,3) _ a(1)] a(1) by simp
  qed
qed

lemma range_filter:
  assumes "slots_ok H d cs ess" "k < 4" "2 ^ Suc k dvd start" "start + 2 ^ Suc k \<le> 16"
  shows "filter (\<lambda>x. \<not> bit_at (fst x) (4 * d + (3 - k))) (range_entries ess start (2 ^ Suc k)) =
      range_entries ess start (2 ^ k)" (is ?l)
    and "filter (\<lambda>x. bit_at (fst x) (4 * d + (3 - k))) (range_entries ess start (2 ^ Suc k)) =
      range_entries ess (start + 2 ^ k) (2 ^ k)" (is ?r)
proof -
  have split: "range_entries ess start (2 ^ Suc k) =
      range_entries ess start (2 ^ k) @ range_entries ess (start + 2 ^ k) (2 ^ k)"
    using range_entries_split [of ess start "2 ^ k" "2 ^ k"] by (simp add: mult_2)
  show ?l ?r
    unfolding split filter_append
    using range_bits [OF assms] by (auto simp: filter_id_conv filter_empty_conv)
qed

text \<open>The present slots of a range against its entries.\<close>

lemma slot_range:
  assumes "slots_ok H d cs ess" "start + width \<le> 16"
  shows "list_all2 (\<lambda>c es. case c of None \<Rightarrow> es = []
      | Some ch \<Rightarrow> es \<noteq> [] \<and> (c_is_leaf ch \<longleftrightarrow> length es = 1) \<and> c_hash ch = smt H (4 * (d + 1)) es)
    (take width (drop start cs)) (take width (drop start ess))"
proof (rule list_all2_all_nthI)
  show "length (take width (drop start cs)) = length (take width (drop start ess))"
    using assms(1) by (simp add: slots_ok_def)
  fix n
  assume "n < length (take width (drop start cs))"
  then have n: "n < width" "start + n < 16" "length cs = 16" "length ess = 16"
    using assms by (auto simp: slots_ok_def)
  then have "slot_ok H d (start + n) (cs ! (start + n)) (ess ! (start + n))"
    using assms(1) by (simp add: slots_ok_def)
  moreover have "take width (drop start cs) ! n = cs ! (start + n)" "take width (drop start ess) ! n = ess ! (start + n)"
    using n by simp_all
  ultimately show "case take width (drop start cs) ! n of None \<Rightarrow> take width (drop start ess) ! n = []
      | Some ch \<Rightarrow> take width (drop start ess) ! n \<noteq> [] \<and>
          (c_is_leaf ch \<longleftrightarrow> length (take width (drop start ess) ! n) = 1) \<and>
          c_hash ch = smt H (4 * (d + 1)) (take width (drop start ess) ! n)"
    by (simp only: slot_ok_def)
qed

lemma present_entries:
  assumes "list_all2 (\<lambda>c es. case c of None \<Rightarrow> es = []
      | Some ch \<Rightarrow> es \<noteq> [] \<and> (c_is_leaf ch \<longleftrightarrow> length es = 1) \<and> c_hash ch = h es) cs ess"
  shows "flatten cs = [] \<Longrightarrow> concat ess = []"
    and "flatten cs = [ch] \<Longrightarrow> concat ess \<noteq> [] \<and> (c_is_leaf ch \<longleftrightarrow> length (concat ess) = 1) \<and> c_hash ch = h (concat ess)"
    and "2 \<le> length (flatten cs) \<Longrightarrow> 2 \<le> length (concat ess)"
proof -
  have len: "length (flatten cs) \<le> length (concat ess) \<and> (flatten cs = [] \<longrightarrow> concat ess = []) \<and>
    (\<forall>ch. flatten cs = [ch] \<longrightarrow> concat ess \<noteq> [] \<and> (c_is_leaf ch \<longleftrightarrow> length (concat ess) = 1) \<and> c_hash ch = h (concat ess))"
    using assms
  proof (induction cs ess rule: list_all2_induct)
    case (Cons c cs es ess)
    then show ?case
      by (cases c; cases es) (auto simp: Suc_le_eq simp del: concat_eq_Nil_conv)
  qed simp
  show "flatten cs = [] \<Longrightarrow> concat ess = []"
    and "flatten cs = [ch] \<Longrightarrow> concat ess \<noteq> [] \<and> (c_is_leaf ch \<longleftrightarrow> length (concat ess) = 1) \<and> c_hash ch = h (concat ess)"
    and "2 \<le> length (flatten cs) \<Longrightarrow> 2 \<le> length (concat ess)"
    using len by auto
qed

lemma subtree_hash_smt:
  assumes "slots_ok H d cs ess" "k \<le> 4" "2 ^ k dvd start" "start + 2 ^ k \<le> 16"
  shows "subtree_hash H cs start (2 ^ k) = smt H (4 * d + (4 - k)) (range_entries ess start (2 ^ k))"
  using assms(2-4)
proof (induction k arbitrary: start)
  case 0
  then have len: "start < length cs" "start < length ess" using assms(1) by (auto simp: slots_ok_def)
  have "slot_ok H d start (cs ! start) (ess ! start)"
    using assms(1) 0 by (simp add: slots_ok_def)
  moreover have "range_entries ess start 1 = ess ! start" "take 1 (drop start cs) = [cs ! start]"
    using len by (simp_all add: range_entries_def take_Suc hd_drop_conv_nth)
  ultimately show ?case
    by (cases "cs ! start") (simp_all add: subtree_hash.simps [of H cs start "Suc 0"] slot_ok_def Let_def algebra_simps)
next
  case (Suc k)
  let ?es = "range_entries ess start (2 ^ Suc k)" and ?cs = "take (2 ^ Suc k) (drop start cs)"
  note all2 = slot_range [OF assms(1) Suc.prems(3)]
  note present = present_entries [OF all2, folded range_entries_def]
  have k: "k < 4" "2 ^ k dvd start" "2 ^ k dvd start + 2 ^ k" "start + 2 ^ k \<le> 16" "start + 2 ^ k + 2 ^ k \<le> 16"
    using Suc.prems dvd_mult_right [of 2 "2 ^ k" start] by (auto simp: mult_2 add.assoc)
  have d: "4 * d + (3 - k) < MAX_DEPTH" "4 * d + (3 - k) + 1 = 4 * d + (4 - k)" "4 - Suc k = 3 - k"
    using assms(1) k(1) by (auto simp: slots_ok_def NIBBLES_def MAX_DEPTH_def)
  consider "flatten ?cs = []" | ch where "flatten ?cs = [ch]" "c_is_leaf ch"
    | "2 \<le> length ?es" "flatten ?cs \<noteq> []" "\<not> (length (flatten ?cs) = 1 \<and> c_is_leaf (flatten ?cs ! 0))"
    using present(2,3) by (cases "flatten ?cs" rule: remdups_adj.cases) (auto simp: Suc_le_eq length_Suc_conv neq_Nil_conv)
  then show ?case
  proof cases
    case 1
    then show ?thesis using present(1) by (simp add: subtree_hash.simps Let_def)
  next
    case 2
    then obtain p v where "?es = [(p, v)]"
      using present(2) by (cases ?es) auto
    then show ?thesis using 2 present(2) [OF 2(1)] by (simp add: subtree_hash.simps Let_def)
  next
    case 3
    have "subtree_hash H cs start (2 ^ Suc k) =
        internal_hash H (subtree_hash H cs start (2 ^ k)) (subtree_hash H cs (start + 2 ^ k) (2 ^ k))"
      by (subst subtree_hash.simps) (use 3 in \<open>auto simp: Let_def\<close>)
    also have "\<dots> = smt H (4 * d + (4 - Suc k)) ?es"
      unfolding d(3) smt_branch(1) [OF 3(1) d(1)] d(2) range_filter [OF assms(1) k(1) Suc.prems(2,3)]
      using Suc.IH [of start] Suc.IH [of "start + 2 ^ k"] k by simp
    finally show ?thesis .
  qed
qed

section \<open>Trees\<close>

datatype ptree = PLeaf u64 leaf_node | PNode u64 "ptree option list"

fun pt_version :: "ptree \<Rightarrow> u64" where
  "pt_version (PLeaf v l) = v"
| "pt_version (PNode v ts) = v"

fun pt_is_leaf :: "ptree \<Rightarrow> bool" where
  "pt_is_leaf (PLeaf v l) = True"
| "pt_is_leaf (PNode v ts) = False"

fun pt_hash :: "(bytes \<Rightarrow> bytes) \<Rightarrow> ptree \<Rightarrow> bytes" where
  "pt_hash H (PLeaf v l) = leaf_hash H (lf_path l) (lf_vh l)"
| "pt_hash H (PNode v ts) =
     subtree_hash H
       (map (map_option (\<lambda>t. \<lparr>c_version = pt_version t, c_hash = pt_hash H t, c_is_leaf = pt_is_leaf t\<rparr>)) ts) 0 16"

definition pt_child :: "(bytes \<Rightarrow> bytes) \<Rightarrow> ptree \<Rightarrow> child" where
  "pt_child H t = \<lparr>c_version = pt_version t, c_hash = pt_hash H t, c_is_leaf = pt_is_leaf t\<rparr>"

abbreviation ot_child :: "(bytes \<Rightarrow> bytes) \<Rightarrow> ptree option \<Rightarrow> child option" where
  "ot_child H \<equiv> map_option (pt_child H)"

fun pt_node :: "(bytes \<Rightarrow> bytes) \<Rightarrow> ptree \<Rightarrow> node" where
  "pt_node H (PLeaf v l) = Leaf l"
| "pt_node H (PNode v ts) = Internal (map (ot_child H) ts)"

definition opt_concat :: "'a list option \<Rightarrow> 'a list" where
  "opt_concat x = (case x of None \<Rightarrow> [] | Some xs \<Rightarrow> xs)"

fun pt_leaves :: "ptree \<Rightarrow> leaf_node list" where
  "pt_leaves (PLeaf v l) = [l]"
| "pt_leaves (PNode v ts) = concat (map (\<lambda>t. opt_concat (map_option pt_leaves t)) ts)"

definition ot_leaves :: "ptree option \<Rightarrow> leaf_node list" where
  "ot_leaves t = opt_concat (map_option pt_leaves t)"

definition leaf_entry :: "leaf_node \<Rightarrow> bytes \<times> bytes" where
  "leaf_entry l = (lf_path l, lf_vh l)"

text \<open>The path starts with the nibbles of the prefix.\<close>

definition under :: "bytes \<Rightarrow> bytes \<Rightarrow> bool" where
  "under prefix path \<longleftrightarrow> length prefix \<le> NIBBLES \<and> (\<forall>i < length prefix. nibble path i = prefix ! i)"

definition leaf_ok :: "leaf_node \<Rightarrow> bool" where
  "leaf_ok l \<longleftrightarrow> length (lf_path l) = HASH_SIZE \<and> length (lf_vh l) = HASH_SIZE"

lemma slot_size [termination_simp]:
  "(i, Some t) \<in> set (zip xs ts) \<Longrightarrow> size t < Suc (size_list (size_option size) ts)"
  by (induction xs ts rule: list_induct2') auto

text \<open>
  Well-formed below a prefix: leaves belong there, a node has sixteen slots and at least two leaves
  below it.
\<close>

fun pt_wf :: "bytes \<Rightarrow> ptree \<Rightarrow> bool" where
  "pt_wf prefix (PLeaf v l) \<longleftrightarrow> leaf_ok l \<and> under prefix (lf_path l)"
| "pt_wf prefix (PNode v ts) \<longleftrightarrow> length prefix < NIBBLES \<and> length ts = 16 \<and>
     (\<forall>(i, t) \<in> set (zip [0..<16] ts). pred_option (pt_wf (prefix @ [word_of_nat i])) t) \<and>
     2 \<le> length (pt_leaves (PNode v ts))"

fun pt_nodes :: "(bytes \<Rightarrow> bytes) \<Rightarrow> bytes \<Rightarrow> ptree \<Rightarrow> (node_key \<times> node) set" where
  "pt_nodes H prefix (PLeaf v l) = {(NodeKey v prefix, Leaf l)}"
| "pt_nodes H prefix (PNode v ts) =
     insert (NodeKey v prefix, pt_node H (PNode v ts))
       (\<Union>(i, t) \<in> set (zip [0..<16] ts). \<Union>(pt_nodes H (prefix @ [word_of_nat i]) ` set_option t))"

text \<open>The two recursive definitions by slot index.\<close>

lemma set_zip16: "length ts = 16 \<Longrightarrow> set (zip [0..<16] ts) = (\<lambda>i. (i, ts ! i)) ` {..<16}"
proof -
  assume "length ts = 16"
  then have "zip [0..<16] ts = map (\<lambda>i. (i, ts ! i)) [0..<16]"
    by (intro nth_equalityI) simp_all
  then show ?thesis by (simp add: atLeast0LessThan)
qed

lemma pt_wf_node:
  "pt_wf prefix (PNode v ts) \<longleftrightarrow> length prefix < NIBBLES \<and> length ts = 16 \<and>
     (\<forall>i < 16. \<forall>t. ts ! i = Some t \<longrightarrow> pt_wf (prefix @ [word_of_nat i]) t) \<and>
     2 \<le> length (concat (map ot_leaves ts))"
  by (cases "length ts = 16")
    (auto simp: set_zip16 ot_leaves_def [abs_def] option.pred_set elem_set [symmetric] simp del: elem_set)

lemma pt_nodes_node:
  "length ts = 16 \<Longrightarrow> pt_nodes H prefix (PNode v ts) =
     insert (NodeKey v prefix, Internal (map (ot_child H) ts))
       (\<Union>i < 16. \<Union>t \<in> set_option (ts ! i). pt_nodes H (prefix @ [word_of_nat i]) t)"
  by (simp add: set_zip16)

declare pt_wf.simps(2) [simp del] pt_nodes.simps(2) [simp del]

lemma pt_child_sel [simp]:
  "c_version (pt_child H t) = pt_version t" "c_hash (pt_child H t) = pt_hash H t"
  "c_is_leaf (pt_child H t) = pt_is_leaf t"
  by (simp_all add: pt_child_def)

lemma pt_hash_node: "pt_hash H t = node_hash H (pt_node H t)"
  by (cases t) (simp_all add: node_hash_def pt_child_def [abs_def])

declare pt_hash.simps [simp del]

lemma pt_is_leaf_node: "node_is_leaf (pt_node H t) = pt_is_leaf t"
  by (cases t) (simp_all add: node_is_leaf_def)

lemma ot_leaves_simps [simp]: "ot_leaves None = []" "ot_leaves (Some t) = pt_leaves t"
  by (simp_all add: ot_leaves_def opt_concat_def)

lemma pt_leaves_node: "pt_leaves (PNode v ts) = concat (map ot_leaves ts)"
  by (simp add: ot_leaves_def [abs_def])

declare pt_leaves.simps(2) [simp del]

lemma under_snoc: "under (prefix @ [n]) path \<longleftrightarrow> under prefix path \<and> length prefix < NIBBLES \<and> nibble path (length prefix) = n"
  by (auto simp: under_def nth_append less_Suc_eq)

lemma pt_wf_leaf: "pt_wf prefix t \<Longrightarrow> l \<in> set (pt_leaves t) \<Longrightarrow> leaf_ok l \<and> under prefix (lf_path l)"
proof (induction prefix t rule: pt_wf.induct)
  case (2 prefix v ts)
  from 2(2) have wf: "length ts = 16" "\<And>i t. i < 16 \<Longrightarrow> ts ! i = Some t \<Longrightarrow> pt_wf (prefix @ [word_of_nat i]) t"
    by (auto simp: pt_wf_node)
  from 2(3) obtain i where i: "i < 16" "l \<in> set (ot_leaves (ts ! i))"
    using wf(1) by (auto simp: pt_leaves_node in_set_conv_nth [of _ ts])
  then obtain t where t: "ts ! i = Some t" "l \<in> set (pt_leaves t)"
    by (cases "ts ! i") auto
  have "leaf_ok l \<and> under (prefix @ [word_of_nat i]) (lf_path l)"
    by (rule 2(1) [of "(i, Some t)" i "Some t"]) (use wf i t in \<open>simp_all add: set_zip16 image_iff\<close>)
  then show ?case by (simp add: under_snoc)
qed simp

lemma pt_leaves_nonempty: "pt_wf prefix t \<Longrightarrow> pt_leaves t \<noteq> []"
  by (cases t) (auto simp: pt_wf_node pt_leaves_node simp del: concat_eq_Nil_conv)

lemma pt_is_leaf_leaves: "pt_wf prefix t \<Longrightarrow> pt_is_leaf t \<longleftrightarrow> length (pt_leaves t) = 1"
  by (cases t) (auto simp: pt_wf_node pt_leaves_node)

text \<open>The hash of a tree is the hash of the reference tree over its leaves.\<close>

lemma pt_slots_ok:
  assumes wf: "pt_wf prefix (PNode v ts)"
    and hash: "\<And>i t. i < 16 \<Longrightarrow> ts ! i = Some t \<Longrightarrow> pt_hash H t = smt H (4 * (length prefix + 1)) (map leaf_entry (pt_leaves t))"
  shows "slots_ok H (length prefix) (map (ot_child H) ts) (map (\<lambda>t. map leaf_entry (ot_leaves t)) ts)"
proof -
  have "slot_ok H (length prefix) i (map (ot_child H) ts ! i) (map (\<lambda>t. map leaf_entry (ot_leaves t)) ts ! i)" if i: "i < 16" for i
  proof (cases "ts ! i")
    case None
    with wf i show ?thesis by (simp add: slot_ok_def pt_wf_node)
  next
    case (Some t)
    with wf i have t: "pt_wf (prefix @ [word_of_nat i]) t" "length ts = 16" by (auto simp: pt_wf_node)
    have "nibble (lf_path l) (length prefix) = word_of_nat i" if "l \<in> set (pt_leaves t)" for l
      using pt_wf_leaf [OF t(1) that] by (simp add: under_snoc)
    with Some i t hash [OF i Some] show ?thesis
      by (simp add: slot_ok_def leaf_entry_def pt_leaves_nonempty pt_is_leaf_leaves)
  qed
  with wf show ?thesis by (simp add: slots_ok_def pt_wf_node)
qed

lemma pt_hash_smt:
  "pt_wf prefix t \<Longrightarrow> pt_hash H t = smt H (4 * length prefix) (map leaf_entry (pt_leaves t))"
proof (induction prefix t rule: pt_wf.induct)
  case (1 prefix v l)
  then show ?case by (simp add: leaf_entry_def pt_hash.simps)
next
  case (2 prefix v ts)
  then have len: "length ts = 16" by (simp add: pt_wf_node)
  have "pt_hash H t = smt H (4 * (length prefix + 1)) (map leaf_entry (pt_leaves t))" if "i < 16" "ts ! i = Some t" for i t
    using 2(1) [of "(i, Some t)" i "Some t" t] 2(2) that len by (simp add: set_zip16 image_iff pt_wf_node)
  from subtree_hash_smt [OF pt_slots_ok [OF 2(2) this], where k = 4 and start = 0]
  show ?case
    using len by (simp add: range_entries_def pt_leaves_node map_concat comp_def pt_hash.simps pt_child_def [abs_def])
qed

section \<open>Path order\<close>

lemma unat_high: "unat (drop_bit 4 (x :: byte)) = unat x div 16"
  by (simp add: drop_bit_eq_div unat_div)

lemma unat_low: "unat ((x :: byte) AND 0x0F) = unat x mod 16"
proof -
  have "(x AND 0x0F) = take_bit 4 x"
    by (simp add: take_bit_eq_mask mask_eq_exp_minus_1)
  then show ?thesis by (simp add: take_bit_eq_mod unat_mod)
qed

lemma nibble_small: "unat (nibble path i) < 16"
proof -
  have "unat (path ! (i div 2)) < 256" by (rule unat_byte_less)
  then show ?thesis by (auto simp: nibble_def unat_high unat_low)
qed

lemma byte_of_nibbles:
  "unat (path ! j) = 16 * unat (nibble path (2 * j)) + unat (nibble path (2 * j + 1))"
  by (simp add: nibble_def unat_high unat_low)

lemma nibble_less:
  assumes len: "length p = HASH_SIZE" "length q = HASH_SIZE" and d: "d < NIBBLES"
    and eq: "\<And>i. i < d \<Longrightarrow> nibble p i = nibble q i" and less: "nibble p d < nibble q d"
  shows "p < q"
proof -
  have j: "d div 2 < HASH_SIZE" using d by (simp add: NIBBLES_def HASH_SIZE_def)
  have "take (d div 2) p = take (d div 2) q"
  proof (rule nth_equalityI)
    show "length (take (d div 2) p) = length (take (d div 2) q)" using len by simp
    fix i
    assume "i < length (take (d div 2) p)"
    then have "i < d div 2" by simp
    then have "2 * i < d" "2 * i + 1 < d" by linarith+
    then have "unat (p ! i) = unat (q ! i)" unfolding byte_of_nibbles by (simp add: eq)
    then have "p ! i = q ! i" by (simp add: word_unat_eq_iff)
    with \<open>i < d div 2\<close> show "take (d div 2) p ! i = take (d div 2) q ! i" by simp
  qed
  moreover have "unat (p ! (d div 2)) < unat (q ! (d div 2))"
  proof -
    have l: "unat (nibble p d) < unat (nibble q d)" using less by (simp add: word_less_nat_alt)
    obtain j where j: "d = 2 * j \<or> d = 2 * j + 1" by (metis oddE evenE)
    then show ?thesis
    proof
      assume d: "d = 2 * j"
      then have "d div 2 = j" by simp
      then show ?thesis
        using l nibble_small [of p "2 * j + 1"] unfolding d byte_of_nibbles by simp
    next
      assume d: "d = 2 * j + 1"
      then have "d div 2 = j" "nibble p (2 * j) = nibble q (2 * j)" by (simp_all add: eq)
      then show ?thesis
        using l unfolding d byte_of_nibbles by simp
    qed
  qed
  then have "p ! (d div 2) < q ! (d div 2)" by (simp add: word_less_nat_alt)
  ultimately show ?thesis
    using len j by (auto simp: list_less_def lexord_take_index_conv)
qed

lemma nibble_mono:
  assumes "length p = HASH_SIZE" "length q = HASH_SIZE" "under prefix p" "under prefix q"
    "length prefix < NIBBLES" "p < q"
  shows "nibble p (length prefix) \<le> nibble q (length prefix)"
  using nibble_less [of q p "length prefix"] assms by (fastforce simp: under_def not_le [symmetric])

lemma sorted_wrt_concat:
  assumes "\<And>x. x \<in> set xss \<Longrightarrow> sorted_wrt R x"
    and "\<And>i j x y. i < j \<Longrightarrow> j < length xss \<Longrightarrow> x \<in> set (xss ! i) \<Longrightarrow> y \<in> set (xss ! j) \<Longrightarrow> R x y"
  shows "sorted_wrt R (concat xss)"
  using assms
proof (induction xss)
  case (Cons xs xss)
  have "sorted_wrt R (concat xss)"
    using Cons.prems(1) Cons.prems(2) [of "Suc i" "Suc j" for i j] by (intro Cons.IH) auto
  moreover have "R x y" if "x \<in> set xs" "y \<in> set (concat xss)" for x y
  proof -
    from that(2) obtain j where "j < length xss" "y \<in> set (xss ! j)"
      by (auto simp: in_set_conv_nth [of _ xss])
    then show ?thesis using Cons.prems(2) [of 0 "Suc j" x y] that(1) by simp
  qed
  ultimately show ?case using Cons.prems(1) by (simp add: sorted_wrt_append)
qed simp

lemma pt_leaves_sorted: "pt_wf prefix t \<Longrightarrow> sorted_wrt (\<lambda>a b. lf_path a < lf_path b) (pt_leaves t)"
proof (induction prefix t rule: pt_wf.induct)
  case (2 prefix v ts)
  then have ts: "length ts = 16" "length prefix < NIBBLES"
    "\<And>i t. i < 16 \<Longrightarrow> ts ! i = Some t \<Longrightarrow> pt_wf (prefix @ [word_of_nat i]) t"
    by (auto simp: pt_wf_node)
  have slot: "leaf_ok l \<and> under prefix (lf_path l) \<and> nibble (lf_path l) (length prefix) = word_of_nat i"
    if "i < 16" "l \<in> set (ot_leaves (ts ! i))" for i l
    using that ts(3) [OF that(1)] pt_wf_leaf [of "prefix @ [word_of_nat i]"] by (cases "ts ! i") (auto simp: under_snoc)
  show ?case
    unfolding pt_leaves_node
  proof (rule sorted_wrt_concat)
    fix x
    assume "x \<in> set (map ot_leaves ts)"
    then obtain i where "i < 16" "x = ot_leaves (ts ! i)"
      using ts(1) by (auto simp: in_set_conv_nth)
    then show "sorted_wrt (\<lambda>a b. lf_path a < lf_path b) x"
      using 2(1) [of "(i, ts ! i)" i "ts ! i"] ts by (cases "ts ! i") (auto simp: set_zip16 image_iff)
  next
    fix i j x y
    assume a: "i < j" "j < length (map ot_leaves ts)" "x \<in> set (map ot_leaves ts ! i)" "y \<in> set (map ot_leaves ts ! j)"
    then have "leaf_ok x \<and> under prefix (lf_path x) \<and> nibble (lf_path x) (length prefix) = word_of_nat i"
      "leaf_ok y \<and> under prefix (lf_path y) \<and> nibble (lf_path y) (length prefix) = word_of_nat j"
      using ts(1) slot [of i x] slot [of j y] by auto
    moreover have "(word_of_nat i :: byte) < word_of_nat j"
      using a(1,2) ts(1) by (simp add: word_less_nat_alt unat_byte_of_nat)
    ultimately show "lf_path x < lf_path y"
      using ts(2) by (intro nibble_less [of _ _ "length prefix"]) (auto simp: leaf_ok_def under_def)
  qed
qed simp

section \<open>Looking up leaves\<close>

definition leaf_at :: "leaf_node list \<Rightarrow> bytes \<Rightarrow> leaf_node option" where
  "leaf_at ls path = find (\<lambda>l. lf_path l = path) ls"

lemma leaf_at_None: "leaf_at ls path = None \<longleftrightarrow> (\<forall>l \<in> set ls. lf_path l \<noteq> path)"
  by (auto simp: leaf_at_def find_None_iff)

lemma leaf_at_Some:
  assumes "distinct (map lf_path ls)"
  shows "leaf_at ls path = Some l \<longleftrightarrow> l \<in> set ls \<and> lf_path l = path"
  using assms unfolding leaf_at_def by (induction ls) (auto simp: image_iff)

lemma leaf_at_eqI:
  assumes "distinct (map lf_path ls)" "distinct (map lf_path ls')"
    and "\<And>l. lf_path l = path \<Longrightarrow> l \<in> set ls \<longleftrightarrow> l \<in> set ls'"
  shows "leaf_at ls path = leaf_at ls' path"
  using leaf_at_Some [OF assms(1), of path] leaf_at_Some [OF assms(2), of path] assms(3)
  by (metis option.exhaust)

lemma pt_leaves_distinct: "pt_wf prefix t \<Longrightarrow> distinct (map lf_path (pt_leaves t))"
  using pt_leaves_sorted [of prefix t] strict_sorted_iff [of "map lf_path (pt_leaves t)"]
  by (simp add: sorted_wrt_map)

text \<open>The leaves below slot \<open>i\<close> are those whose next nibble is \<open>i\<close>.\<close>

lemma slot_leaf:
  assumes "pt_wf prefix (PNode v ts)" "i < 16"
  shows "l \<in> set (ot_leaves (ts ! i)) \<longleftrightarrow>
    l \<in> set (pt_leaves (PNode v ts)) \<and> nibble (lf_path l) (length prefix) = word_of_nat i"
proof -
  have len: "length ts = 16" using assms by (simp add: pt_wf_node)
  have slot: "nibble (lf_path l) (length prefix) = word_of_nat j" if "j < 16" "l \<in> set (ot_leaves (ts ! j))" for j
    using that assms(1) pt_wf_leaf [of "prefix @ [word_of_nat j]"]
    by (cases "ts ! j") (auto simp: under_snoc pt_wf_node)
  have "l \<in> set (pt_leaves (PNode v ts)) \<longleftrightarrow> (\<exists>j < 16. l \<in> set (ot_leaves (ts ! j)))"
    using len by (auto simp: pt_leaves_node in_set_conv_nth [of _ ts] intro!: bexI [of _ "ts ! j" for j])
  moreover have "i = j" if "j < 16" "(word_of_nat j :: byte) = word_of_nat i" for j
    using arg_cong [OF that(2), of unat] that(1) assms(2) by (simp add: unat_byte_of_nat)
  ultimately show ?thesis using slot assms(2) by metis
qed

lemma leaf_at_node:
  assumes "pt_wf prefix (PNode v ts)"
  shows "leaf_at (pt_leaves (PNode v ts)) path = leaf_at (ot_leaves (ts ! unat (nibble path (length prefix)))) path"
proof (rule leaf_at_eqI)
  let ?i = "unat (nibble path (length prefix))"
  show "distinct (map lf_path (pt_leaves (PNode v ts)))" by (rule pt_leaves_distinct [OF assms])
  show "distinct (map lf_path (ot_leaves (ts ! ?i)))"
    using assms nibble_small [of path "length prefix"] pt_leaves_distinct
    by (cases "ts ! ?i") (auto simp: pt_wf_node)
  show "l \<in> set (pt_leaves (PNode v ts)) \<longleftrightarrow> l \<in> set (ot_leaves (ts ! ?i))" if "lf_path l = path" for l
    using slot_leaf [OF assms nibble_small, of l path "length prefix"] that by simp
qed

lemma length_pt_hash: "pt_wf prefix t \<Longrightarrow> (\<And>x. length (H x) = 32) \<Longrightarrow> length (pt_hash H t) = HASH_SIZE"
  using length_smt [of H] pt_hash_smt [of prefix t H] by (simp add: HASH_SIZE_def)

lemma pt_node_ok: "pt_wf prefix t \<Longrightarrow> (\<And>x. length (H x) = 32) \<Longrightarrow> node_ok (pt_node H t)"
proof (cases t)
  case (PNode v ts)
  assume wf: "pt_wf prefix t" and H: "\<And>x. length (H x) = 32"
  have "length (pt_hash H c) = HASH_SIZE" if "Some c \<in> set ts" for c
  proof -
    from that obtain i where "i < 16" "ts ! i = Some c"
      using wf by (auto simp: PNode pt_wf_node in_set_conv_nth)
    then show ?thesis using wf length_pt_hash [OF _ H] by (auto simp: PNode pt_wf_node)
  qed
  moreover have "\<exists>c \<in> set ts. c \<noteq> None"
  proof (rule ccontr)
    assume "\<not> (\<exists>c \<in> set ts. c \<noteq> None)"
    then have "concat (map ot_leaves ts) = []" by auto
    with wf show False by (simp add: PNode pt_wf_node)
  qed
  ultimately show ?thesis
    using wf by (auto simp: PNode node_ok_def children_ok_def child_ok_def pt_wf_node flatten_Nil_iff split: option.splits)
qed (auto simp: node_ok_def leaf_ok_def)

section \<open>The descent of the prover\<close>

text \<open>The present slots of a range, as the prover and as the hasher list them.\<close>

lemma present_slots:
  assumes "start + width \<le> length cs"
  shows "flatten (take width (drop start cs)) =
    map (\<lambda>i. the (cs ! i)) (filter (\<lambda>i. cs ! i \<noteq> None) [start..<start + width])"
  using assms
proof (induction width)
  case (Suc width)
  have "take (Suc width) (drop start cs) = take width (drop start cs) @ [cs ! (start + width)]"
    using Suc.prems by (simp add: take_Suc_conv_app_nth)
  then show ?case using Suc by (cases "cs ! (start + width)") simp_all
qed simp

lemma range_entries_empty:
  assumes "slots_ok H d cs ess" "start + width \<le> 16" "\<And>i. start \<le> i \<Longrightarrow> i < start + width \<Longrightarrow> cs ! i = None"
  shows "range_entries ess start width = []"
proof (rule ccontr)
  assume "range_entries ess start width \<noteq> []"
  then have "hd (range_entries ess start width) \<in> set (range_entries ess start width)" by simp
  then obtain i where "start \<le> i" "i < start + width" "hd (range_entries ess start width) \<in> set (ess ! i)"
    by (rule range_entries_mem)
  moreover have "slot_ok H d i (cs ! i) (ess ! i)"
    using assms(1,2) \<open>i < start + width\<close> by (simp add: slots_ok_def)
  ultimately show False using assms(3) by (simp add: slot_ok_def)
qed

lemma lone_entry:
  assumes "slots_ok H d cs ess" "start + width \<le> 16" "filter (\<lambda>i. cs ! i \<noteq> None) [start..<start + width] = [idx]"
  shows "range_entries ess start width = ess ! idx" "start \<le> idx" "idx < start + width" "cs ! idx \<noteq> None"
proof -
  have "i \<in> set (filter (\<lambda>i. cs ! i \<noteq> None) [start..<start + width]) \<longleftrightarrow> i = idx" for i
    unfolding assms(3) by simp
  then have mem: "(start \<le> i \<and> i < start + width) \<and> cs ! i \<noteq> None \<longleftrightarrow> i = idx" for i
    by (simp only: set_filter mem_Collect_eq set_upt atLeastLessThan_iff)
  have idx: "start \<le> idx" "idx < start + width" "cs ! idx \<noteq> None"
    and only: "\<And>i. start \<le> i \<Longrightarrow> i < start + width \<Longrightarrow> i \<noteq> idx \<Longrightarrow> cs ! i = None"
    using mem by blast+
  define a b where "a = idx - start" and "b = start + width - Suc idx"
  have w: "width = a + (1 + b)" "start + a = idx" using idx by (simp_all add: a_def b_def)
  have one: "range_entries ess idx 1 = ess ! idx"
    using assms(1,2) idx by (simp add: range_entries_def take_Suc hd_drop_conv_nth slots_ok_def)
  have "range_entries ess start a = []" "range_entries ess (idx + 1) b = []"
    using idx assms(2) only by (auto intro!: range_entries_empty [OF assms(1)] simp: a_def b_def)
  then show "range_entries ess start width = ess ! idx"
    unfolding w(1) range_entries_split w(2) one by simp
  show "start \<le> idx" "idx < start + width" "cs ! idx \<noteq> None" by (rule idx)+
qed

lemma present_cases:
  assumes "\<And>c. map f xs = [c] \<Longrightarrow> es \<noteq> [] \<and> (c_is_leaf c \<longleftrightarrow> length es = 1) \<and> Q c"
    and "2 \<le> length (map f xs) \<Longrightarrow> 2 \<le> length es"
  shows "xs = [] \<or> (\<exists>i. xs = [i] \<and> c_is_leaf (f i)) \<or>
    2 \<le> length es \<and> xs \<noteq> [] \<and> (\<forall>i. xs = [i] \<longrightarrow> \<not> c_is_leaf (f i))"
proof (cases xs rule: remdups_adj.cases)
  case (2 i)
  then show ?thesis using assms(1) [of "f i"] by (cases es rule: remdups_adj.cases) auto
qed (use assms(2) in auto)

lemma descend_smt_prove:
  assumes "slots_ok H d cs ess" "k \<le> 4" "2 ^ k dvd start" "start + 2 ^ k \<le> 16"
    and "slot = unat (nibble path d)" "start \<le> slot" "slot < start + 2 ^ k"
  shows "case descend H cs slot start (2 ^ k) sibs of
      Empty_Range ss \<Rightarrow> \<exists>us. ss = sibs @ us \<and>
        smt_prove H (4 * d + (4 - k)) (range_entries ess start (2 ^ k)) path = (None, us)
    | Lone_Leaf idx c ss \<Rightarrow> idx < 16 \<and> cs ! idx = Some c \<and> c_is_leaf c \<and>
        (\<exists>us e. ss = sibs @ us \<and> ess ! idx = [e] \<and>
          smt_prove H (4 * d + (4 - k)) (range_entries ess start (2 ^ k)) path = (Some e, us))
    | Into c ss \<Rightarrow> cs ! slot = Some c \<and> \<not> c_is_leaf c \<and>
        (\<exists>us. ss = sibs @ us \<and> (\<forall>leaf us'. smt_prove H (4 * (d + 1)) (ess ! slot) path = (leaf, us') \<longrightarrow>
          smt_prove H (4 * d + (4 - k)) (range_entries ess start (2 ^ k)) path = (leaf, us @ us')))"
  using assms(2-4,6,7)
proof (induction k arbitrary: start sibs)
  case 0
  then have start: "start = slot" by simp
  then have len: "slot < length cs" "slot < length ess" using 0 assms(1) by (auto simp: slots_ok_def)
  have ok: "slot_ok H d slot (cs ! slot) (ess ! slot)"
    using assms(1) 0 start by (simp add: slots_ok_def)
  have re: "range_entries ess slot (Suc 0) = ess ! slot"
    using len by (simp add: range_entries_def take_Suc hd_drop_conv_nth)
  note unf = descend.simps [of H cs slot slot "Suc 0"] Let_def re slot_ok_def algebra_simps
  show ?case
  proof (cases "cs ! slot")
    case None
    then show ?thesis using ok start by (simp add: unf)
  next
    case (Some c)
    show ?thesis
    proof (cases "c_is_leaf c")
      case True
      with ok Some obtain e where "ess ! slot = [e]"
        by (cases "ess ! slot") (auto simp: slot_ok_def)
      then show ?thesis using True Some 0 start by (simp add: unf)
    next
      case False
      then show ?thesis using Some start by (simp add: unf)
    qed
  qed
next
  case (Suc k)
  let ?es = "range_entries ess start (2 ^ Suc k)" and ?present = "filter (\<lambda>i. cs ! i \<noteq> None) [start..<start + 2 ^ Suc k]"
  have len: "length cs = 16" using assms(1) by (simp add: slots_ok_def)
  note all2 = slot_range [OF assms(1) Suc.prems(3)]
  have flat: "flatten (take (2 ^ Suc k) (drop start cs)) = map (\<lambda>i. the (cs ! i)) ?present"
    using Suc.prems len by (intro present_slots) simp
  note present = present_entries [OF all2, folded range_entries_def, unfolded flat]
  have k: "k < 4" "2 ^ k dvd start" "2 ^ k dvd start + 2 ^ k" "start + 2 ^ k \<le> 16" "start + 2 ^ k + 2 ^ k \<le> 16"
    using Suc.prems dvd_mult_right [of 2 "2 ^ k" start] by (auto simp: mult_2 add.assoc)
  have d: "4 * d + (3 - k) < MAX_DEPTH" "4 * d + (3 - k) + 1 = 4 * d + (4 - k)" "4 - Suc k = 3 - k"
    using assms(1) k(1) by (auto simp: slots_ok_def NIBBLES_def MAX_DEPTH_def)
  have slot16: "slot < 16" "word_of_nat slot = nibble path d" using assms(5) nibble_small [of path d] by auto
  have side: "bit_at path (4 * d + (3 - k)) \<longleftrightarrow> \<not> slot < start + 2 ^ k"
    using bit_at_nibble [of "3 - k" path d] k(1) bit_slot_halves [OF slot16(1) k(1) Suc.prems(2,4)]
      Suc.prems(5) slot16(2) by auto
  define ours sib where "ours = (if slot < start + 2 ^ k then start else start + 2 ^ k)"
    and "sib = (if slot < start + 2 ^ k then start + 2 ^ k else start)"
  have o: "2 ^ k dvd ours" "ours + 2 ^ k \<le> 16" "ours \<le> slot" "slot < ours + 2 ^ k"
    "2 ^ k dvd sib" "sib + 2 ^ k \<le> 16"
    using k Suc.prems(4,5) by (auto simp: ours_def sib_def)
  have prove: "smt_prove H (4 * d + (4 - Suc k)) ?es path =
      (let (leaf, ss) = smt_prove H (4 * d + (4 - k)) (range_entries ess ours (2 ^ k)) path
       in (leaf, subtree_hash H cs sib (2 ^ k) # ss))" if "2 \<le> length ?es"
  proof -
    have "filter (\<lambda>x. bit_at (fst x) (4 * d + (3 - k)) = bit_at path (4 * d + (3 - k))) ?es = range_entries ess ours (2 ^ k)"
      "filter (\<lambda>x. bit_at (fst x) (4 * d + (3 - k)) \<noteq> bit_at path (4 * d + (3 - k))) ?es = range_entries ess sib (2 ^ k)"
      using range_filter [OF assms(1) k(1) Suc.prems(2,3)] side by (auto simp: ours_def sib_def)
    then show ?thesis
      unfolding d(3) smt_prove_branch [OF that d(1)] d(2) using subtree_hash_smt [OF assms(1) less_imp_le [OF k(1)] o(5,6)]
      by simp
  qed
  consider "?present = []" | idx where "?present = [idx]" "c_is_leaf (the (cs ! idx))"
    | "2 \<le> length ?es" "?present \<noteq> []" "\<And>idx. ?present = [idx] \<Longrightarrow> \<not> c_is_leaf (the (cs ! idx))"
    using present_cases [OF present(2,3)] by blast
  then show ?case
  proof cases
    case 1
    then show ?thesis using present(1) by (subst descend.simps) (simp add: Let_def)
  next
    case (2 idx)
    note lone = lone_entry [OF assms(1) Suc.prems(3) 2(1)]
    have "length (ess ! idx) = 1" using present(2) [of "the (cs ! idx)"] 2 lone(1) by simp
    then obtain e where "ess ! idx = [e]" by (cases "ess ! idx") auto
    then show ?thesis
      using 2 lone Suc.prems(3) by (subst descend.simps) (auto simp: Let_def)
  next
    case 3
    have "descend H cs slot start (2 ^ Suc k) sibs =
        descend H cs slot ours (2 ^ k) (sibs @ [subtree_hash H cs sib (2 ^ k)])"
      using 3(2,3) by (subst descend.simps) (auto simp: Let_def ours_def sib_def split: list.split)
    with Suc.IH [of ours "sibs @ [subtree_hash H cs sib (2 ^ k)]"] o k(1) prove [OF 3(1)]
    show ?thesis by (auto split: descent.splits)
  qed
qed

lemma pt_slots:
  assumes "pt_wf prefix (PNode v ts)"
  shows "slots_ok H (length prefix) (map (ot_child H) ts) (map (\<lambda>t. map leaf_entry (ot_leaves t)) ts)"
proof (rule pt_slots_ok [OF assms])
  fix i t
  assume "i < 16" "ts ! i = Some t"
  with assms have "pt_wf (prefix @ [word_of_nat i]) t" by (simp add: pt_wf_node)
  from pt_hash_smt [OF this] show "pt_hash H t = smt H (4 * (length prefix + 1)) (map leaf_entry (pt_leaves t))"
    by simp
qed

lemma node_entries:
  "length ts = 16 \<Longrightarrow> range_entries (map (\<lambda>t. map leaf_entry (ot_leaves t)) ts) 0 16 =
     map leaf_entry (pt_leaves (PNode v ts))"
  by (simp add: range_entries_def pt_leaves_node map_concat comp_def)

text \<open>The descent inside a node of a tree, against the reference prover.\<close>

lemma descend_node:
  assumes wf: "pt_wf prefix (PNode v ts)"
    and slot_def: "slot = unat (nibble path (length prefix))"
  shows "case descend H (map (ot_child H) ts) slot 0 16 sibs of
      Empty_Range ss \<Rightarrow> \<exists>us. ss = sibs @ us \<and>
        smt_prove H (4 * length prefix) (map leaf_entry (pt_leaves (PNode v ts))) path = (None, us)
    | Lone_Leaf idx c ss \<Rightarrow> \<exists>us cv l. idx < 16 \<and> ts ! idx = Some (PLeaf cv l) \<and> c = pt_child H (PLeaf cv l) \<and> ss = sibs @ us \<and>
        smt_prove H (4 * length prefix) (map leaf_entry (pt_leaves (PNode v ts))) path = (Some (leaf_entry l), us)
    | Into c ss \<Rightarrow> \<exists>us t. ts ! slot = Some t \<and> c = pt_child H t \<and> ss = sibs @ us \<and>
        (\<forall>leaf us'. smt_prove H (4 * (length prefix + 1)) (map leaf_entry (pt_leaves t)) path = (leaf, us') \<longrightarrow>
          smt_prove H (4 * length prefix) (map leaf_entry (pt_leaves (PNode v ts))) path = (leaf, us @ us'))"
proof -
  let ?cs = "map (ot_child H) ts" and ?ess = "map (\<lambda>t. map leaf_entry (ot_leaves t)) ts"
  have len: "length ts = 16" and slot: "slot < 16"
    using wf by (auto simp: pt_wf_node slot_def nibble_small)
  have leaf: "\<exists>cv l. t = PLeaf cv l" if "pt_is_leaf t" for t
    using that by (cases t) auto
  have p16: "(2 :: nat) ^ 4 = 16" by simp
  from descend_smt_prove [OF pt_slots [OF wf], where k = 4 and start = 0 and slot = slot and path = path and sibs = sibs and H = H] slot slot_def
  have "case descend H ?cs slot 0 16 sibs of
      Empty_Range ss \<Rightarrow> \<exists>us. ss = sibs @ us \<and>
        smt_prove H (4 * length prefix) (range_entries ?ess 0 16) path = (None, us)
    | Lone_Leaf idx c ss \<Rightarrow> idx < 16 \<and> ?cs ! idx = Some c \<and> c_is_leaf c \<and>
        (\<exists>us e. ss = sibs @ us \<and> ?ess ! idx = [e] \<and>
          smt_prove H (4 * length prefix) (range_entries ?ess 0 16) path = (Some e, us))
    | Into c ss \<Rightarrow> ?cs ! slot = Some c \<and> \<not> c_is_leaf c \<and>
        (\<exists>us. ss = sibs @ us \<and> (\<forall>leaf us'. smt_prove H (4 * (length prefix + 1)) (?ess ! slot) path = (leaf, us') \<longrightarrow>
          smt_prove H (4 * length prefix) (range_entries ?ess 0 16) path = (leaf, us @ us')))"
    unfolding p16 diff_self_eq_0 add_0_right add_0_left by simp
  then show ?thesis
    unfolding node_entries [OF len, of v] using len slot
    by (auto split: descent.splits dest!: leaf)
qed

end
