(* ===== verification/Merkle_Read.thy ===== *)
theory Merkle_Read
  imports Merkle_Tree
begin

text \<open>
  Reads of a Merkle store whose backend keeps its contract: loading a node, walking to a path, and
  proving a path, each against the tree the records spell out. A backend may fail; it may not lie,
  which is the subject of \<open>Merkle_Proof\<close>. The lemmas are proved in the locale \<open>kv_contract\<close>.
\<close>

section \<open>Stores and records\<close>

text \<open>A host that answers every call.\<close>

definition reliable :: "'b kv_ops \<Rightarrow> bool" where
  "reliable kv \<longleftrightarrow> (\<forall>b key e. fst (kv_get kv b key) \<noteq> Inl e) \<and> (\<forall>b ops e. fst (kv_write_batch kv b ops) \<noteq> Inl e) \<and>
     (\<forall>b start stop limit e. fst (kv_scan kv b start stop limit) \<noteq> Inl e)"

text \<open>A failure that is the host's: an error code it returned.\<close>

definition host_fault :: "'b kv_ops \<Rightarrow> fault \<Rightarrow> bool" where
  "host_fault kv e \<longleftrightarrow> (\<exists>c. e = Err (Backend c)) \<and> \<not> reliable kv"

text \<open>A record of a committed node: some root record is at least as new.\<close>

definition stored_node :: "(bytes \<rightharpoonup> bytes) \<Rightarrow> node_key \<Rightarrow> node \<Rightarrow> bool" where
  "stored_node m nk n \<longleftrightarrow> m (node_record_key nk) = Some (node_encode n) \<and> node_ok n \<and>
     (\<exists>v. nk_version nk \<le> v \<and> m (root_record_key v) \<noteq> None)"

text \<open>The store runs over a backend with records \<open>m\<close>, and its cache agrees with them.\<close>

definition live :: "('b \<Rightarrow> bool) \<Rightarrow> ('b \<Rightarrow> bytes \<rightharpoonup> bytes) \<Rightarrow> (bytes \<rightharpoonup> bytes) \<Rightarrow> 'b merkle_store \<Rightarrow> bool" where
  "live ok view m s \<longleftrightarrow> ok (st_backend s) \<and> view (st_backend s) = m \<and>
     node_lru.coherent (stored_node m) (st_cache s)"

text \<open>Only the backend handle, the cache and the number of random draws differ.\<close>

definition same_store :: "'b merkle_store \<Rightarrow> 'b merkle_store \<Rightarrow> bool" where
  "same_store s s' \<longleftrightarrow> st_ck s' = st_ck s \<and> st_cipher s' = st_cipher s \<and> st_root s' = st_root s \<and>
     st_version s' = st_version s \<and> st_root_child s' = st_root_child s \<and> st_pin s' = st_pin s"

lemma same_store_simps [simp]:
  "same_store s s" "same_store s (s'\<lparr>st_backend := b\<rparr>) = same_store s s'" "same_store s (s'\<lparr>st_cache := c\<rparr>) = same_store s s'"
  "same_store (s\<lparr>st_cache := c\<rparr>) s' = same_store s s'" "same_store (s\<lparr>st_backend := b\<rparr>) s' = same_store s s'"
  "same_store s (s'\<lparr>st_draws := d\<rparr>) = same_store s s'" "same_store (s\<lparr>st_draws := d\<rparr>) s' = same_store s s'"
  by (simp_all add: same_store_def)

lemma same_store_trans: "same_store a b \<Longrightarrow> same_store b c \<Longrightarrow> same_store a c"
  by (simp add: same_store_def)

lemma same_store_sel:
  assumes "same_store s s'"
  shows "st_ck s' = st_ck s" "st_cipher s' = st_cipher s" "st_root s' = st_root s" "st_version s' = st_version s"
    "st_root_child s' = st_root_child s" "st_pin s' = st_pin s"
    "path_of cr s' key = path_of cr s key" "vh_of cr s' path pt = vh_of cr s path pt"
  using assms by (simp_all add: same_store_def path_of_def vh_of_def)

text \<open>What an operation that only reads promises: a result \<open>x\<close>, or a fault of the host.\<close>

definition reads ::
    "('b \<Rightarrow> bool) \<Rightarrow> ('b \<Rightarrow> bytes \<rightharpoonup> bytes) \<Rightarrow> 'b kv_ops \<Rightarrow> (bytes \<rightharpoonup> bytes) \<Rightarrow> 'b merkle_store \<Rightarrow>
       ('a, 'b) outcome \<Rightarrow> 'a \<Rightarrow> bool" where
  "reads ok view kv m s out x \<longleftrightarrow> live ok view m (snd out) \<and> same_store s (snd out) \<and>
     (fst out = Inr x \<or> (\<exists>e. fst out = Inl e \<and> host_fault kv e))"

text \<open>The same for an operation whose result is only constrained.\<close>

definition yields ::
    "('b \<Rightarrow> bool) \<Rightarrow> ('b \<Rightarrow> bytes \<rightharpoonup> bytes) \<Rightarrow> 'b kv_ops \<Rightarrow> (bytes \<rightharpoonup> bytes) \<Rightarrow> 'b merkle_store \<Rightarrow>
       ('a, 'b) outcome \<Rightarrow> ('a \<Rightarrow> bool) \<Rightarrow> bool" where
  "yields ok view kv m s out P \<longleftrightarrow> live ok view m (snd out) \<and> same_store s (snd out) \<and>
     ((\<exists>x. fst out = Inr x \<and> P x) \<or> (\<exists>e. fst out = Inl e \<and> host_fault kv e))"

lemma yieldsE:
  assumes "yields ok view kv m s out P"
  obtains x s' where "out = (Inr x, s')" "P x" "live ok view m s'" "same_store s s'"
    | e s' where "out = (Inl e, s')" "live ok view m s'" "same_store s s'" "host_fault kv e"
  using assms by (cases out) (auto simp: yields_def)

lemma yields_fault: "live ok view m s' \<Longrightarrow> same_store s s' \<Longrightarrow> host_fault kv e \<Longrightarrow> yields ok view kv m s (Inl e, s') P"
  by (auto simp: yields_def)

lemma yields_value: "live ok view m s' \<Longrightarrow> same_store s s' \<Longrightarrow> P x \<Longrightarrow> yields ok view kv m s (Inr x, s') P"
  by (auto simp: yields_def)

lemma yields_trans: "same_store s s' \<Longrightarrow> yields ok view kv m s' out P \<Longrightarrow> yields ok view kv m s out P"
  by (auto simp: yields_def intro: same_store_trans)

lemma yields_mono: "yields ok view kv m s out P \<Longrightarrow> (\<And>x. P x \<Longrightarrow> Q x) \<Longrightarrow> yields ok view kv m s out Q"
  by (auto simp: yields_def)

lemma readsE:
  assumes "reads ok view kv m s out x"
  obtains s' where "out = (Inr x, s')" "live ok view m s'" "same_store s s'"
    | e s' where "out = (Inl e, s')" "live ok view m s'" "same_store s s'" "host_fault kv e"
  using assms by (cases out) (auto simp: reads_def)

lemma reads_fault: "live ok view m s' \<Longrightarrow> same_store s s' \<Longrightarrow> host_fault kv e \<Longrightarrow> reads ok view kv m s (Inl e, s') x"
  by (auto simp: reads_def)

lemma reads_value: "live ok view m s' \<Longrightarrow> same_store s s' \<Longrightarrow> reads ok view kv m s (Inr x, s') x"
  by (auto simp: reads_def)

lemma reads_trans: "same_store s s' \<Longrightarrow> reads ok view kv m s' out x \<Longrightarrow> reads ok view kv m s out x"
  by (auto simp: reads_def intro: same_store_trans)

lemma node_decode_stored: "node_ok n \<Longrightarrow> node_decode (node_encode n) = Inr n"
  by (rule node_decode_encode)

text \<open>A tree whose records are all stored.\<close>

definition tree_stored :: "crypto \<Rightarrow> (bytes \<rightharpoonup> bytes) \<Rightarrow> bytes \<Rightarrow> ptree \<Rightarrow> bool" where
  "tree_stored cr m prefix t \<longleftrightarrow> pt_wf prefix t \<and>
     (\<forall>(nk, n) \<in> pt_nodes (sha256 cr) prefix t. m (node_record_key nk) = Some (node_encode n) \<and>
        (\<exists>v. nk_version nk \<le> v \<and> m (root_record_key v) \<noteq> None))"

lemma tree_stored_slot:
  "tree_stored cr m prefix (PNode v ts) \<Longrightarrow> i < 16 \<Longrightarrow> ts ! i = Some t \<Longrightarrow> tree_stored cr m (prefix @ [word_of_nat i]) t"
  unfolding tree_stored_def by (fastforce simp: pt_wf_node pt_nodes_node)

lemma pt_nodes_root: "(NodeKey (pt_version t) prefix, pt_node H t) \<in> pt_nodes H prefix t"
  by (cases t) (simp_all add: pt_nodes.simps)

lemma tree_stored_root:
  assumes "tree_stored cr m prefix t" "crypto_ok cr"
  shows "stored_node m (NodeKey (pt_version t) prefix) (pt_node (sha256 cr) t)"
proof -
  have "node_ok (pt_node (sha256 cr) t)"
    using assms pt_node_ok [of prefix t "sha256 cr"] by (simp add: tree_stored_def crypto_ok_def)
  moreover have "case (NodeKey (pt_version t) prefix, pt_node (sha256 cr) t) of (nk, n) \<Rightarrow>
      m (node_record_key nk) = Some (node_encode n) \<and> (\<exists>v. nk_version nk \<le> v \<and> m (root_record_key v) \<noteq> None)"
    using assms(1) pt_nodes_root [of t prefix "sha256 cr"] unfolding tree_stored_def by blast
  ultimately show ?thesis by (simp add: stored_node_def)
qed

text \<open>The plaintext a leaf commits to, when its value record is intact.\<close>

definition leaf_value :: "crypto \<Rightarrow> 'b merkle_store \<Rightarrow> (bytes \<rightharpoonup> bytes) \<Rightarrow> leaf_node \<Rightarrow> bytes option" where
  "leaf_value cr s m l =
     (case m (value_record_key (lf_vh l) (lf_value_version l)) of
        None \<Rightarrow> None
      | Some ct \<Rightarrow>
          (case aead_decrypt cr (st_cipher s) ct (value_aad (lf_path l)) of
             Inl _ \<Rightarrow> None
           | Inr pt \<Rightarrow> if vh_of cr s (lf_path l) pt = lf_vh l then Some pt else None))"

definition tree_value :: "crypto \<Rightarrow> 'b merkle_store \<Rightarrow> (bytes \<rightharpoonup> bytes) \<Rightarrow> ptree option \<Rightarrow> bytes \<rightharpoonup> bytes" where
  "tree_value cr s m t path = Option.bind (leaf_at (ot_leaves t) path) (leaf_value cr s m)"

definition values_stored :: "crypto \<Rightarrow> 'b merkle_store \<Rightarrow> (bytes \<rightharpoonup> bytes) \<Rightarrow> ptree option \<Rightarrow> bool" where
  "values_stored cr s m t \<longleftrightarrow> (\<forall>l \<in> set (ot_leaves t). leaf_value cr s m l \<noteq> None)"

lemma leaf_value_same: "st_ck s' = st_ck s \<Longrightarrow> st_cipher s' = st_cipher s \<Longrightarrow> leaf_value cr s' m = leaf_value cr s m"
  by (rule ext) (simp add: leaf_value_def vh_of_def split: option.split sum.split)

lemma tree_value_same: "same_store s s' \<Longrightarrow> tree_value cr s' m = tree_value cr s m"
  by (intro ext) (simp add: tree_value_def leaf_value_same [of s' s] same_store_sel)

lemma values_stored_same: "same_store s s' \<Longrightarrow> values_stored cr s' m = values_stored cr s m"
  by (intro ext) (simp add: values_stored_def leaf_value_same [of s' s] same_store_sel)

lemma values_stored_slot:
  "values_stored cr s m (Some (PNode v ts)) \<Longrightarrow> i < length ts \<Longrightarrow> values_stored cr s m (ts ! i)"
  by (auto simp: values_stored_def pt_leaves_node)

context kv_contract
begin

lemma backend_get_reads:
  assumes "live inv abs m s"
  shows "reads inv abs kv m s (backend_get kv s key) (m key)"
proof -
  obtain r b where g: "kv_get kv (st_backend s) key = (r, b)" by fastforce
  from assms have inv: "inv (st_backend s)" by (simp add: live_def)
  have "\<not> reliable kv" if "r = Inl e" for e
  proof -
    have "fst (kv_get kv (st_backend s) key) = Inl e" using g that by simp
    then show ?thesis unfolding reliable_def by blast
  qed
  with kv_get_law [OF inv g] show ?thesis
    using assms
    by (cases r) (auto simp: backend_get_def g live_def host_fault_def intro!: reads_fault reads_value)
qed

lemma load_node_reads:
  assumes live: "live inv abs m s" and stored: "stored_node m nk n" and hash: "node_hash (sha256 cr) n = h"
  shows "reads inv abs kv m s (load_node cr kv s nk h) n"
proof -
  obtain hit c where g: "cache_get (st_cache s) nk = (hit, c)" by fastforce
  from live have coh: "node_lru.coherent (stored_node m) (st_cache s)" by (simp add: live_def)
  have c: "node_lru.coherent (stored_node m) c"
    using node_lru.coherent_get [OF coh, of nk] by (simp add: g)
  have live': "live inv abs m (s\<lparr>st_cache := c\<rparr>)" using live c by (simp add: live_def)
  show ?thesis
  proof (cases hit)
    case (Some n')
    have "stored_node m nk n'"
      using node_lru.coherent_hit [OF coh, of nk n'] by (simp add: g Some)
    then have "n' = n"
      using stored node_codec.enc_inject [of n' n] by (auto simp: stored_node_def)
    then show ?thesis
      using hash live' by (simp add: load_node_def g Some reads_value)
  next
    case None
    note get = backend_get_reads [OF live', of "node_record_key nk"]
    from get show ?thesis
    proof (cases rule: readsE)
      case (1 s')
      then have "backend_get kv (s\<lparr>st_cache := c\<rparr>) (node_record_key nk) = (Inr (Some (node_encode n)), s')"
        using stored by (simp add: stored_node_def)
      moreover have "live inv abs m (s'\<lparr>st_cache := cache_put (st_cache s') nk n\<rparr>)"
        using 1 stored by (auto simp: live_def intro: node_lru.coherent_put)
      ultimately show ?thesis
        using stored hash 1(3)
        by (simp add: load_node_def g None stored_node_def node_decode_stored reads_value)
    next
      case (2 e s')
      then show ?thesis by (simp add: load_node_def g None reads_fault)
    qed
  qed
qed

lemma read_value_reads:
  assumes "live inv abs m s" "leaf_value cr s m l = Some pt"
  shows "reads inv abs kv m s (read_value cr kv s (lf_path l) (lf_vh l) (lf_value_version l)) pt"
proof -
  from assms(2) obtain ct where ct: "m (value_record_key (lf_vh l) (lf_value_version l)) = Some ct"
    "aead_decrypt cr (st_cipher s) ct (value_aad (lf_path l)) = Inr pt" "vh_of cr s (lf_path l) pt = lf_vh l"
    by (auto simp: leaf_value_def split: option.splits sum.splits if_splits)
  from backend_get_reads [OF assms(1), of "value_record_key (lf_vh l) (lf_value_version l)"]
  show ?thesis
    by (cases rule: readsE) (simp_all add: read_value_def ct same_store_sel reads_value reads_fault)
qed

lemma load_tree_reads:
  assumes "live inv abs m s" "tree_stored cr m prefix t" "crypto_ok cr"
  shows "reads inv abs kv m s (load_node cr kv s (NodeKey (pt_version t) prefix) (pt_hash (sha256 cr) t)) (pt_node (sha256 cr) t)"
  by (rule load_node_reads [OF assms(1) tree_stored_root [OF assms(2,3)]]) (simp add: pt_hash_node)

lemma walk_from_reads:
  assumes "crypto_ok cr" "length path = HASH_SIZE"
  shows "live inv abs m s \<Longrightarrow> tree_stored cr m prefix t \<Longrightarrow> values_stored cr s m (Some t) \<Longrightarrow> under prefix path \<Longrightarrow>
    reads inv abs kv m s (walk_from cr kv s (pt_child (sha256 cr) t) prefix path) (tree_value cr s m (Some t) path)"
proof (induction prefix t arbitrary: s rule: pt_wf.induct)
  case (1 prefix v l)
  let ?t = "PLeaf v l"
  from load_tree_reads [OF 1(1,2) assms(1)]
  show ?case
  proof (cases rule: readsE)
    case (1 s')
    then have load: "load_node cr kv s (NodeKey v prefix) (pt_hash (sha256 cr) ?t) = (Inr (Leaf l), s')"
      by simp
    show ?thesis
    proof (cases "lf_path l = path")
      case True
      have val: "leaf_value cr s' m l = leaf_value cr s m l"
        by (rule leaf_value_same [THEN fun_cong]) (simp_all add: same_store_sel [OF 1(3)])
      from \<open>values_stored cr s m (Some ?t)\<close> obtain pt where pt: "leaf_value cr s m l = Some pt"
        by (auto simp: values_stored_def)
      from read_value_reads [OF 1(2), of cr l pt] pt val
      have "reads inv abs kv m s' (read_value cr kv s' path (lf_vh l) (lf_value_version l)) pt"
        using True by simp
      then show ?thesis
        by (subst walk_from.simps, cases rule: readsE) (use 1(3) True pt in
          \<open>simp_all add: load node_is_leaf_def tree_value_def leaf_at_def
             reads_value reads_fault same_store_trans [OF 1(3)]\<close>)
    next
      case False
      then show ?thesis
        using 1 by (subst walk_from.simps) (simp add: load node_is_leaf_def tree_value_def leaf_at_def reads_value)
    qed
  next
    case (2 e s')
    then show ?thesis by (subst walk_from.simps) (simp add: reads_fault)
  qed
next
  case (2 prefix v ts)
  let ?t = "PNode v ts" and ?H = "sha256 cr"
  let ?nib = "nibble path (length prefix)"
  have wf: "pt_wf prefix ?t" "length ts = 16" "length prefix < NIBBLES"
    using 2(3) by (auto simp: tree_stored_def pt_wf_node)
  note small = nibble_small [of path "length prefix"]
  from load_tree_reads [OF 2(2,3) assms(1)]
  show ?case
  proof (cases rule: readsE)
    case (1 s')
    then have load: "load_node cr kv s (NodeKey v prefix) (pt_hash ?H ?t) = (Inr (Internal (map (ot_child ?H) ts)), s')"
      by simp
    have val: "tree_value cr s m (Some ?t) path = tree_value cr s' m (ts ! unat ?nib) path"
      using leaf_at_node [OF wf(1), of path] tree_value_same [OF 1(3), of cr m] by (simp add: tree_value_def)
    show ?thesis
    proof (cases "ts ! unat ?nib")
      case None
      then have "tree_value cr s' m (ts ! unat ?nib) path = None"
        by (simp add: tree_value_def leaf_at_def)
      then show ?thesis
        using 1 None wf small by (subst walk_from.simps) (simp add: load node_is_leaf_def val reads_value)
    next
      case (Some c)
      have idx: "(unat ?nib, Some c) \<in> set (zip [0..<16] ts)"
        using wf small Some by (auto simp: set_zip16 image_iff)
      have c: "tree_stored cr m (prefix @ [?nib]) c"
        using tree_stored_slot [OF 2(3) small Some] by simp
      have v: "values_stored cr s' m (Some c)"
        using values_stored_slot [OF 2(4), of "unat ?nib"] wf small Some
        by (simp add: values_stored_same [OF 1(3)])
      have "reads inv abs kv m s' (walk_from cr kv s' (pt_child ?H c) (prefix @ [?nib]) path) (tree_value cr s' m (Some c) path)"
        using 2(1) [OF idx refl, of c s'] 1 c v 2(5) wf by (simp add: under_snoc)
      from reads_trans [OF 1(3) this] show ?thesis
        using Some wf small by (subst walk_from.simps) (simp add: load node_is_leaf_def val)
    qed
  next
    case (2 e s')
    then show ?thesis by (subst walk_from.simps) (simp add: reads_fault)
  qed
qed

text \<open>The prover collects the siblings of the reference prover.\<close>

lemma prove_from_reads:
  assumes "crypto_ok cr"
  shows "live inv abs m s \<Longrightarrow> tree_stored cr m prefix t \<Longrightarrow>
    smt_prove (sha256 cr) (4 * length prefix) (map leaf_entry (pt_leaves t)) path = (leaf, us) \<Longrightarrow>
    \<exists>l. map_option leaf_entry l = leaf \<and>
      reads inv abs kv m s (prove_from cr kv s (pt_child (sha256 cr) t) prefix path sibs) (l, sibs @ us)"
proof (induction prefix t arbitrary: s sibs leaf us rule: pt_wf.induct)
  case (1 prefix v l)
  from 1(3) have res: "leaf = Some (leaf_entry l)" "us = []" by auto
  from load_tree_reads [OF 1(1,2) assms] show ?case
    by (cases rule: readsE; subst prove_from.simps)
      (auto simp: node_is_leaf_def res intro!: exI [of _ "Some l"] reads_value reads_fault)
next
  case (2 prefix v ts)
  let ?t = "PNode v ts" and ?H = "sha256 cr" and ?slot = "unat (nibble path (length prefix))"
  have wf: "pt_wf prefix ?t" "length ts = 16" "length prefix < NIBBLES"
    using 2(3) by (auto simp: tree_stored_def pt_wf_node)
  from load_tree_reads [OF 2(2,3) assms] show ?case
  proof (cases rule: readsE)
    case (1 s')
    then have load: "load_node cr kv s (NodeKey v prefix) (pt_hash ?H ?t) = (Inr (Internal (map (ot_child ?H) ts)), s')"
      by simp
    note desc = descend_node [OF wf(1) refl, where path = path and H = ?H and sibs = sibs]
    show ?thesis
    proof (cases "descend ?H (map (ot_child ?H) ts) ?slot 0 16 sibs")
      case (Empty_Range ss)
      with desc 2(4) have "leaf = None" "ss = sibs @ us" by auto
      then show ?thesis
        using 1 wf by (subst prove_from.simps)
          (auto simp: load node_is_leaf_def Empty_Range intro!: exI [of _ None] reads_value)
    next
      case (Lone_Leaf idx c ss)
      with desc 2(4) obtain cv l where l: "idx < 16" "ts ! idx = Some (PLeaf cv l)" "c = pt_child ?H (PLeaf cv l)"
        "ss = sibs @ us" "leaf = Some (leaf_entry l)" by auto
      from load_tree_reads [OF 1(2) tree_stored_slot [OF 2(3) l(1,2)] assms] show ?thesis
        using 1 wf l by (subst prove_from.simps) (elim readsE,
          auto simp: load node_is_leaf_def Lone_Leaf intro!: exI [of _ "Some l"] reads_value reads_fault
            intro: same_store_trans)
    next
      case (Into c ss)
      with desc obtain us1 t where t: "ts ! ?slot = Some t" "c = pt_child ?H t" "ss = sibs @ us1"
        "\<And>leaf us'. smt_prove ?H (4 * (length prefix + 1)) (map leaf_entry (pt_leaves t)) path = (leaf, us') \<Longrightarrow>
          smt_prove ?H (4 * length prefix) (map leaf_entry (pt_leaves ?t)) path = (leaf, us1 @ us')" by auto
      obtain leaf' us' where p: "smt_prove ?H (4 * (length prefix + 1)) (map leaf_entry (pt_leaves t)) path = (leaf', us')"
        by fastforce
      from t(4) [OF p] 2(4) have res: "leaf = leaf'" "us = us1 @ us'" by auto
      have idx: "(?slot, Some t) \<in> set (zip [0..<16] ts)"
        using wf nibble_small t(1) by (auto simp: set_zip16 image_iff)
      have "tree_stored cr m (prefix @ [nibble path (length prefix)]) t"
        using tree_stored_slot [OF 2(3) nibble_small t(1)] by simp
      with 2(1) [OF idx refl, of t s' leaf' us' ss] 1 p
      obtain l where "map_option leaf_entry l = leaf'" "reads inv abs kv m s'
          (prove_from cr kv s' (pt_child ?H t) (prefix @ [nibble path (length prefix)]) path ss) (l, ss @ us')"
        by auto
      then show ?thesis
        using 1(3) t wf res by (subst prove_from.simps)
          (auto simp: load node_is_leaf_def Into intro!: exI [of _ l] intro: reads_trans)
    qed
  next
    case (2 e s')
    have "map_option leaf_entry (map_option (\<lambda>(p, vh). \<lparr>lf_path = p, lf_vh = vh, lf_value_version = 0\<rparr>) leaf) = leaf"
      by (cases leaf) (auto simp: leaf_entry_def)
    then obtain l where "map_option leaf_entry l = leaf" by blast
    with 2 show ?thesis by (subst prove_from.simps) (auto intro!: exI [of _ l] reads_fault)
  qed
qed

end

end
