(* ===== verification/Merkle_Write.thy ===== *)
theory Merkle_Write
  imports Merkle_Read
begin

text \<open>
  What a batch does to the tree. \<open>build_from_pairs\<close> builds the tree over its pairs;
  \<open>apply_subtree\<close> turns the tree below a prefix into the tree over the updated leaves. The
  accumulator gains exactly the records of the new version, and its stale list exactly the records
  of the old tree that the new one no longer uses.
\<close>

section \<open>Grouping by nibble\<close>

lemma takeWhile_sorted_key:
  assumes "sorted (map f (u # us))"
  shows "set (takeWhile (\<lambda>x. f x = f u) us) = {x \<in> set us. f x = f u}"
    and "set (dropWhile (\<lambda>x. f x = f u) us) = {x \<in> set us. f x \<noteq> f u}"
proof -
  have "set (takeWhile (\<lambda>x. f x = f u) us) = {x \<in> set us. f x = f u} \<and>
    set (dropWhile (\<lambda>x. f x = f u) us) = {x \<in> set us. f x \<noteq> f u}"
    using assms
  proof (induction us)
    case (Cons a us)
    show ?case
    proof (cases "f a = f u")
      case True
      then show ?thesis using Cons by auto
    next
      case False
      then have "f u < f a" using Cons.prems by (simp add: less_le)
      moreover have "\<forall>x \<in> set us. f a \<le> f x" using Cons.prems by simp
      ultimately have "\<forall>x \<in> set us. f u < f x" by (meson less_le_trans)
      then show ?thesis using False by auto
    qed
  qed simp
  then show "set (takeWhile (\<lambda>x. f x = f u) us) = {x \<in> set us. f x = f u}"
    and "set (dropWhile (\<lambda>x. f x = f u) us) = {x \<in> set us. f x \<noteq> f u}" by blast+
qed

text \<open>A sorted list of entries below a prefix.\<close>

definition sorted_under :: "bytes \<Rightarrow> (bytes \<times> 'a) list \<Rightarrow> bool" where
  "sorted_under prefix us \<longleftrightarrow> sorted_wrt (<) (map fst us) \<and>
     (\<forall>u \<in> set us. length (fst u) = HASH_SIZE \<and> under prefix (fst u))"

lemma sorted_under_nibbles:
  assumes "sorted_under prefix us" "length prefix < NIBBLES"
  shows "sorted (map (\<lambda>x. nibble (fst x) (length prefix)) us)"
  using assms
proof (induction us)
  case (Cons u us)
  then have "sorted_under prefix us" by (simp add: sorted_under_def)
  moreover have "nibble (fst u) (length prefix) \<le> nibble (fst x) (length prefix)" if "x \<in> set us" for x
    using Cons.prems that by (intro nibble_mono) (auto simp: sorted_under_def)
  ultimately show ?case using Cons by simp
qed simp

lemma group_split:
  assumes "sorted_under prefix (u # us)" "length prefix < NIBBLES"
    and nib: "nibble (fst u) (length prefix) = nib"
    and grp: "takeWhile (\<lambda>q. nibble (fst q) (length prefix) = nib) us = grp"
    and rest: "dropWhile (\<lambda>q. nibble (fst q) (length prefix) = nib) us = rest"
  shows "set (u # grp) = {x \<in> set (u # us). nibble (fst x) (length prefix) = nib}"
    and "set rest = {x \<in> set (u # us). nibble (fst x) (length prefix) \<noteq> nib}"
    and "sorted_under (prefix @ [nib]) (u # grp)" and "sorted_under prefix rest"
proof -
  have split: "set grp = {x \<in> set us. nibble (fst x) (length prefix) = nib}"
    "set rest = {x \<in> set us. nibble (fst x) (length prefix) \<noteq> nib}"
    using takeWhile_sorted_key [OF sorted_under_nibbles [OF assms(1,2)]] by (simp_all only: nib grp rest)
  show g: "set (u # grp) = {x \<in> set (u # us). nibble (fst x) (length prefix) = nib}"
    and r: "set rest = {x \<in> set (u # us). nibble (fst x) (length prefix) \<noteq> nib}"
    using split nib by auto
  have s: "sorted_wrt (<) (map fst us)" "\<And>x. x \<in> set us \<Longrightarrow> fst u < fst x"
    using assms(1) by (auto simp: sorted_under_def)
  have "sorted_wrt (<) (map fst (grp @ rest))"
    using s(1) unfolding grp [symmetric] rest [symmetric] by (simp only: takeWhile_dropWhile_id)
  then have sorted: "sorted_wrt (<) (map fst grp)" "sorted_wrt (<) (map fst rest)"
    by (simp_all add: sorted_wrt_append)
  have "set grp \<subseteq> set us" using split(1) by blast
  then have sg: "sorted_wrt (<) (map fst (u # grp))" using sorted s(2) by auto
  show "sorted_under (prefix @ [nib]) (u # grp)"
    unfolding sorted_under_def
  proof (intro conjI ballI)
    fix x
    assume "x \<in> set (u # grp)"
    then have "x \<in> set (u # us)" "nibble (fst x) (length prefix) = nib" unfolding g by auto
    then show "length (fst x) = HASH_SIZE" "under (prefix @ [nib]) (fst x)"
      using assms(1,2) by (auto simp: sorted_under_def under_snoc)
  qed (rule sg)
  show "sorted_under prefix rest"
    using assms(1) sorted(2) r by (auto simp: sorted_under_def)
qed

lemma under_full:
  assumes "under prefix p" "under prefix q" "NIBBLES \<le> length prefix" "length p = HASH_SIZE" "length q = HASH_SIZE"
  shows "p = q"
proof (rule nth_equalityI)
  show "length p = length q" using assms by simp
  fix j
  assume "j < length p"
  then have "2 * j < length prefix" "2 * j + 1 < length prefix"
    using assms by (auto simp: HASH_SIZE_def NIBBLES_def)
  then have "unat (p ! j) = unat (q ! j)"
    unfolding byte_of_nibbles using assms(1,2) by (simp add: under_def)
  then show "p ! j = q ! j" by (simp add: word_unat_eq_iff)
qed

section \<open>Records of a tree\<close>

definition ot_nodes :: "(bytes \<Rightarrow> bytes) \<Rightarrow> bytes \<Rightarrow> ptree option \<Rightarrow> (node_key \<times> node) set" where
  "ot_nodes H prefix t = \<Union>(pt_nodes H prefix ` set_option t)"

lemma ot_nodes_simps [simp]: "ot_nodes H prefix None = {}" "ot_nodes H prefix (Some t) = pt_nodes H prefix t"
  by (simp_all add: ot_nodes_def)

definition below :: "bytes \<Rightarrow> node_key \<Rightarrow> bool" where
  "below prefix nk \<longleftrightarrow> take (length prefix) (nk_prefix nk) = prefix"

lemma below_self [simp]: "below prefix (NodeKey v prefix)"
  by (simp add: below_def)

lemma below_snoc: "below (prefix @ [n]) nk \<Longrightarrow> below prefix nk \<and> length prefix < length (nk_prefix nk) \<and> nk_prefix nk ! length prefix = n"
proof -
  assume a: "below (prefix @ [n]) nk"
  then have len: "length prefix < length (nk_prefix nk)"
    by (cases "length prefix < length (nk_prefix nk)") (auto simp: below_def dest: arg_cong [where f = length])
  then have "take (Suc (length prefix)) (nk_prefix nk) = take (length prefix) (nk_prefix nk) @ [nk_prefix nk ! length prefix]"
    by (simp add: take_Suc_conv_app_nth)
  with a len show ?thesis by (simp add: below_def)
qed

lemma pt_nodes_below: "(nk, n) \<in> pt_nodes H prefix t \<Longrightarrow> below prefix nk"
proof (induction prefix t rule: pt_wf.induct)
  case (2 prefix v ts)
  from 2(2) consider "nk = NodeKey v prefix"
    | i t where "(i, Some t) \<in> set (zip [0..<16] ts)" "(nk, n) \<in> pt_nodes H (prefix @ [word_of_nat i]) t"
    by (auto simp: pt_nodes.simps(2))
  then show ?case
  proof cases
    case (2 i t)
    have "below (prefix @ [word_of_nat i]) nk"
      by (rule "2.IH" [OF 2(1) refl _ 2(2)]) simp
    then show ?thesis by (blast dest: below_snoc)
  qed simp
qed simp

lemma ot_nodes_below: "(nk, n) \<in> ot_nodes H prefix t \<Longrightarrow> below prefix nk"
  by (cases t) (auto dest: pt_nodes_below)

lemma slot_nodes_disjoint:
  assumes "(nk, n) \<in> ot_nodes H (prefix @ [word_of_nat i]) t" "below (prefix @ [word_of_nat j]) nk" "i < 16" "j < 16"
  shows "i = j"
proof -
  have "(word_of_nat i :: byte) = word_of_nat j"
    using ot_nodes_below [OF assms(1)] assms(2) by (auto dest!: below_snoc)
  from arg_cong [OF this, of unat] show ?thesis using assms(3,4) by (simp add: unat_byte_of_nat)
qed

lemma set_bt_insert: "bt_inv m \<Longrightarrow> bt_get m k = None \<Longrightarrow> set (bt_insert k v m) = insert (k, v) (set m)"
  using btree.entries_get [of "bt_insert k v m"] btree.entries_get [of m]
  by (auto simp: btree.get_insert btree.inv_insert split: if_splits)

lemma set_bt_remove: "set (bt_remove k m) = {e \<in> set m. fst e \<noteq> k}"
  by (simp add: bt_remove_def)

section \<open>The accumulator\<close>

definition mk_leaf :: "bytes \<times> bytes \<times> u64 \<Rightarrow> leaf_node" where
  "mk_leaf x = \<lparr>lf_path = fst x, lf_vh = fst (snd x), lf_value_version = snd (snd x)\<rparr>"

text \<open>
  \<open>upd\<close> is the whole batch, path to new commitment. Every stored value comes from it, and every
  value it inserts has its ciphertext at hand.
\<close>

definition acc_ok :: "(bytes \<rightharpoonup> bytes option) \<Rightarrow> commit_acc \<Rightarrow> bool" where
  "acc_ok upd acc \<longleftrightarrow> bt_inv (ac_pending acc) \<and> bt_inv (ac_values acc) \<and>
     (\<forall>vh ct. bt_get (ac_values acc) vh = Some ct \<longrightarrow>
        (\<exists>p. upd p = Some (Some vh) \<and> bt_get (ac_insert_cts acc) p = Some ct)) \<and>
     (\<forall>p vh. upd p = Some (Some vh) \<longrightarrow> bt_get (ac_insert_cts acc) p \<noteq> None)"

definition fresh_below :: "commit_acc \<Rightarrow> bytes \<Rightarrow> bool" where
  "fresh_below acc prefix \<longleftrightarrow> (\<forall>(nk, n) \<in> set (ac_pending acc). \<not> below prefix nk)"

text \<open>What changes between two accumulators: the records gained and the keys gone stale.\<close>

definition acc_step ::
    "(bytes \<rightharpoonup> bytes option) \<Rightarrow> (node_key \<times> node) set \<Rightarrow> bytes set \<Rightarrow> leaf_node set \<Rightarrow> commit_acc \<Rightarrow> commit_acc \<Rightarrow> bool" where
  "acc_step upd news stales leaves acc acc' \<longleftrightarrow> acc_ok upd acc' \<and>
     ac_new_version acc' = ac_new_version acc \<and> ac_insert_cts acc' = ac_insert_cts acc \<and>
     set (ac_pending acc') = set (ac_pending acc) \<union> news \<and> set (ac_stale acc') = set (ac_stale acc) \<union> stales \<and>
     (\<forall>vh. bt_get (ac_values acc) vh \<noteq> None \<longrightarrow> bt_get (ac_values acc') vh \<noteq> None) \<and>
     (\<forall>l \<in> leaves. lf_value_version l = ac_new_version acc \<longrightarrow> bt_get (ac_values acc') (lf_vh l) \<noteq> None)"

lemma acc_step_refl:
  "acc_ok upd acc \<Longrightarrow> (\<And>l. l \<in> leaves \<Longrightarrow> lf_value_version l \<noteq> ac_new_version acc) \<Longrightarrow> acc_step upd {} {} leaves acc acc"
  by (auto simp: acc_step_def)

lemma acc_step_trans:
  assumes "acc_step upd n1 s1 l1 a b" "acc_step upd n2 s2 l2 b c"
  shows "acc_step upd (n1 \<union> n2) (s1 \<union> s2) (l1 \<union> l2) a c"
  using assms by (auto simp: acc_step_def)

lemma acc_ok_get_None:
  "acc_ok upd acc \<Longrightarrow> fresh_below acc prefix \<Longrightarrow> below prefix nk \<Longrightarrow> bt_get (ac_pending acc) nk = None"
  using btree.entries_get [of "ac_pending acc" nk]
  by (cases "bt_get (ac_pending acc) nk") (auto simp: acc_ok_def fresh_below_def)

lemma add_pending_step:
  assumes "acc_ok upd acc" "bt_get (ac_pending acc) nk = None"
  shows "acc_step upd {(nk, n)} {} {} acc (add_pending nk n acc)"
  using assms by (auto simp: acc_step_def acc_ok_def add_pending_def set_bt_insert btree.inv_insert)

lemma add_stale_step: "acc_ok upd acc \<Longrightarrow> acc_step upd {} {key} {} acc (add_stale key acc)"
  by (auto simp: acc_step_def acc_ok_def add_stale_def)

lemma put_leaf_step:
  assumes ok: "acc_ok upd acc" and free: "bt_get (ac_pending acc) (NodeKey (ac_new_version acc) prefix) = None"
    and src: "lf_value_version l = ac_new_version acc \<Longrightarrow>
      upd (lf_path l) = Some (Some (lf_vh l)) \<or> bt_get (ac_values acc) (lf_vh l) \<noteq> None"
  defines "t \<equiv> PLeaf (ac_new_version acc) l"
  obtains acc' where "put_leaf cr acc prefix l = Inr (pt_child (sha256 cr) t, acc')"
    "acc_step upd (pt_nodes (sha256 cr) prefix t) {} {l} acc acc'"
proof -
  define acc1 where "acc1 = (if lf_value_version l = ac_new_version acc \<and> bt_get (ac_values acc) (lf_vh l) = None
    then acc\<lparr>ac_values := bt_insert (lf_vh l) (the (bt_get (ac_insert_cts acc) (lf_path l))) (ac_values acc)\<rparr> else acc)"
  have step1: "acc_step upd {} {} {l} acc acc1"
  proof (cases "lf_value_version l = ac_new_version acc \<and> bt_get (ac_values acc) (lf_vh l) = None")
    case True
    with src have "upd (lf_path l) = Some (Some (lf_vh l))" by auto
    with ok obtain ct where "bt_get (ac_insert_cts acc) (lf_path l) = Some ct" by (auto simp: acc_ok_def)
    with True ok \<open>upd (lf_path l) = Some (Some (lf_vh l))\<close> show ?thesis
      by (auto simp: acc1_def acc_step_def acc_ok_def btree.get_insert btree.inv_insert)
  qed (use ok in \<open>auto simp: acc1_def acc_step_def\<close>)
  have put: "put_leaf cr acc prefix l = Inr (pt_child (sha256 cr) t, add_pending (NodeKey (ac_new_version acc) prefix) (Leaf l) acc1)"
  proof (cases "lf_value_version l = ac_new_version acc \<and> bt_get (ac_values acc) (lf_vh l) = None")
    case True
    with src ok obtain ct where "bt_get (ac_insert_cts acc) (lf_path l) = Some ct" by (auto simp: acc_ok_def)
    with True show ?thesis
      by (simp add: put_leaf_def acc1_def t_def pt_child_def pt_hash_node Let_def)
  qed (auto simp: put_leaf_def acc1_def t_def pt_child_def pt_hash_node Let_def)
  have "acc_ok upd acc1" "bt_get (ac_pending acc1) (NodeKey (ac_new_version acc) prefix) = None"
    using step1 free by (auto simp: acc_step_def acc1_def)
  from acc_step_trans [OF step1 add_pending_step [OF this, of "Leaf l"]]
  have "acc_step upd (pt_nodes (sha256 cr) prefix t) {} {l} acc (add_pending (NodeKey (ac_new_version acc) prefix) (Leaf l) acc1)"
    by (simp add: t_def)
  with put show thesis by (rule that)
qed

lemma put_internal_step:
  assumes ok: "acc_ok upd acc" and free: "bt_get (ac_pending acc) (NodeKey (ac_new_version acc) prefix) = None"
  obtains acc' where "put_internal cr acc prefix (map (ot_child (sha256 cr)) ts) =
      (pt_child (sha256 cr) (PNode (ac_new_version acc) ts), acc')"
    "acc_step upd {(NodeKey (ac_new_version acc) prefix, Internal (map (ot_child (sha256 cr)) ts))} {} {} acc acc'"
  using add_pending_step [OF assms, of "Internal (map (ot_child (sha256 cr)) ts)"]
  by (auto simp: put_internal_def Let_def pt_child_def pt_hash_node)

section \<open>Building a tree over pairs\<close>

text \<open>The outcome of building over \<open>pairs\<close>: a tree of new nodes whose leaves are the pairs.\<close>

definition built ::
    "crypto \<Rightarrow> (bytes \<rightharpoonup> bytes option) \<Rightarrow> bytes \<Rightarrow> (bytes \<times> bytes \<times> u64) list \<Rightarrow> commit_acc \<Rightarrow> ptree option \<Rightarrow> commit_acc \<Rightarrow> bool" where
  "built cr upd prefix pairs acc t acc' \<longleftrightarrow> pred_option (pt_wf prefix) t \<and> set (ot_leaves t) = mk_leaf ` set pairs \<and>
     (\<forall>(nk, n) \<in> ot_nodes (sha256 cr) prefix t. nk_version nk = ac_new_version acc) \<and>
     acc_step upd (ot_nodes (sha256 cr) prefix t) {} (set (ot_leaves t)) acc acc'"

definition pairs_ok :: "(bytes \<rightharpoonup> bytes option) \<Rightarrow> u64 \<Rightarrow> bytes \<Rightarrow> (bytes \<times> bytes \<times> u64) list \<Rightarrow> bool" where
  "pairs_ok upd nv prefix pairs \<longleftrightarrow> sorted_under prefix pairs \<and>
     (\<forall>(p, vh, vv) \<in> set pairs. length vh = HASH_SIZE \<and> (vv = nv \<longrightarrow> upd p = Some (Some vh)))"

text \<open>The state of the loop over the groups: the slots built so far are in the accumulator.\<close>

definition slots_built :: "crypto \<Rightarrow> bytes \<Rightarrow> commit_acc \<Rightarrow> ptree option list \<Rightarrow> bool" where
  "slots_built cr prefix acc ts \<longleftrightarrow> length ts = 16 \<and>
     (\<forall>i < 16. pred_option (pt_wf (prefix @ [word_of_nat i])) (ts ! i) \<and>
        ot_nodes (sha256 cr) (prefix @ [word_of_nat i]) (ts ! i) \<subseteq> set (ac_pending acc) \<and>
        (\<forall>(nk, n) \<in> ot_nodes (sha256 cr) (prefix @ [word_of_nat i]) (ts ! i). nk_version nk = ac_new_version acc))"

definition slot_nodes :: "(bytes \<Rightarrow> bytes) \<Rightarrow> bytes \<Rightarrow> ptree option list \<Rightarrow> (node_key \<times> node) set" where
  "slot_nodes H prefix ts = (\<Union>i < 16. ot_nodes H (prefix @ [word_of_nat i]) (ts ! i))"

definition slot_leaves :: "ptree option list \<Rightarrow> leaf_node set" where
  "slot_leaves ts = (\<Union>i < 16. set (ot_leaves (ts ! i)))"

lemma fresh_below_step:
  assumes "fresh_below acc prefix" "acc_step upd news stales leaves acc acc'" "\<And>nk n. (nk, n) \<in> news \<Longrightarrow> \<not> below prefix nk"
  shows "fresh_below acc' prefix"
  using assms by (fastforce simp: fresh_below_def acc_step_def)

lemma acc_step_known:
  "acc_ok upd acc \<Longrightarrow> news \<subseteq> set (ac_pending acc) \<Longrightarrow> acc_step upd news {} {} acc acc"
  by (auto simp: acc_step_def)

lemma acc_step_eq: "acc_step upd n s l a b \<Longrightarrow> n = n' \<Longrightarrow> s = s' \<Longrightarrow> l = l' \<Longrightarrow> acc_step upd n' s' l' a b"
  by simp

lemma slots_built_free:
  assumes "slots_built cr prefix acc ts" "fresh_below acc (prefix @ [word_of_nat i])" "i < 16"
  shows "ts ! i = None"
proof (cases "ts ! i")
  case (Some t)
  have "(NodeKey (pt_version t) (prefix @ [word_of_nat i]), pt_node (sha256 cr) t) \<in> set (ac_pending acc)"
    using assms(1,3) pt_nodes_root [of t "prefix @ [word_of_nat i]" "sha256 cr"] Some by (force simp: slots_built_def)
  with assms(2) show ?thesis by (auto simp: fresh_below_def)
qed

lemma slots_built_update:
  assumes slots: "slots_built cr prefix acc ts" and b: "built cr upd (prefix @ [nib]) pairs acc t acc'" and "unat nib < 16"
  shows "slots_built cr prefix acc' (ts[unat nib := t])"
  unfolding slots_built_def
proof (intro conjI allI impI)
  fix i :: nat
  assume i: "i < 16"
  let ?x = "ts[unat nib := t] ! i"
  have "pred_option (pt_wf (prefix @ [word_of_nat i])) ?x \<and>
      ot_nodes (sha256 cr) (prefix @ [word_of_nat i]) ?x \<subseteq> set (ac_pending acc') \<and>
      (\<forall>(nk, n) \<in> ot_nodes (sha256 cr) (prefix @ [word_of_nat i]) ?x. nk_version nk = ac_new_version acc')"
  proof (cases "i = unat nib")
    case True
    then have "?x = t" "word_of_nat i = nib" using slots i by (simp_all add: slots_built_def)
    with b show ?thesis by (auto simp: built_def acc_step_def)
  next
    case False
    with slots b i show ?thesis by (force simp: slots_built_def built_def acc_step_def)
  qed
  then show "pred_option (pt_wf (prefix @ [word_of_nat i])) ?x"
    "ot_nodes (sha256 cr) (prefix @ [word_of_nat i]) ?x \<subseteq> set (ac_pending acc')"
    "\<forall>(nk, n) \<in> ot_nodes (sha256 cr) (prefix @ [word_of_nat i]) ?x. nk_version nk = ac_new_version acc'"
    by blast+
qed (use slots in \<open>simp add: slots_built_def\<close>)

lemma slot_leaves_update:
  assumes "length ts = 16" "i < 16"
  shows "slot_leaves (ts[i := t]) = (\<Union>j \<in> {..<16} - {i}. set (ot_leaves (ts ! j))) \<union> set (ot_leaves t)"
  using assms by (force simp: slot_leaves_def nth_list_update split: if_splits)

lemma build_groups_built:
  assumes IH: "\<And>n pairs acc. pairs_ok upd (ac_new_version acc) (prefix @ [n]) pairs \<Longrightarrow> acc_ok upd acc \<Longrightarrow>
      fresh_below acc (prefix @ [n]) \<Longrightarrow>
      \<exists>t acc'. build_from_pairs cr acc (prefix @ [n]) pairs = Inr (ot_child (sha256 cr) t, acc') \<and>
        built cr upd (prefix @ [n]) pairs acc t acc'"
    and d: "length prefix < NIBBLES"
  shows "pairs_ok upd (ac_new_version acc) prefix ps \<Longrightarrow> acc_ok upd acc \<Longrightarrow> slots_built cr prefix acc ts \<Longrightarrow>
    (\<And>x. x \<in> set ps \<Longrightarrow> fresh_below acc (prefix @ [nibble (fst x) (length prefix)])) \<Longrightarrow>
    \<exists>ts' acc'. build_groups cr acc prefix ps (map (ot_child (sha256 cr)) ts) = Inr (map (ot_child (sha256 cr)) ts', acc') \<and>
      slots_built cr prefix acc' ts' \<and> slot_leaves ts' = slot_leaves ts \<union> mk_leaf ` set ps \<and>
      (\<forall>i < 16. ts ! i \<noteq> None \<longrightarrow> ts' ! i = ts ! i) \<and>
      acc_step upd (slot_nodes (sha256 cr) prefix ts') {} (mk_leaf ` set ps) acc acc'"
proof (induction "length ps" arbitrary: ps acc ts rule: less_induct)
  case less
  show ?case
  proof (cases ps)
    case Nil
    have "slot_nodes (sha256 cr) prefix ts \<subseteq> set (ac_pending acc)"
      using less.prems(3) by (auto simp: slots_built_def slot_nodes_def)
    with Nil less.prems show ?thesis
      by (intro exI [of _ ts] exI [of _ acc]) (simp add: acc_step_known)
  next
    case (Cons p qs)
    define nib where "nib = nibble (fst p) (length prefix)"
    define grp where "grp = takeWhile (\<lambda>q. nibble (fst q) (length prefix) = nib) qs"
    define rest where "rest = dropWhile (\<lambda>q. nibble (fst q) (length prefix) = nib) qs"
    have su: "sorted_under prefix (p # qs)" using less.prems(1) by (simp add: pairs_ok_def Cons)
    note split = group_split [OF su d nib_def [symmetric] grp_def [symmetric] rest_def [symmetric]]
    have pg: "pairs_ok upd (ac_new_version acc) (prefix @ [nib]) (p # grp)"
      using less.prems(1) split(1,3) by (fastforce simp: pairs_ok_def Cons)
    have small: "unat nib < 16" by (simp add: nib_def nibble_small)
    have freshp: "fresh_below acc (prefix @ [nib])" using less.prems(4) [of p] by (simp add: Cons nib_def)
    from IH [OF pg less.prems(2) freshp]
    obtain t acc1 where b: "build_from_pairs cr acc (prefix @ [nib]) (p # grp) = Inr (ot_child (sha256 cr) t, acc1)"
      "built cr upd (prefix @ [nib]) (p # grp) acc t acc1" by blast
    let ?ts = "ts[unat nib := t]"
    have len: "length ts = 16" using less.prems(3) by (simp add: slots_built_def)
    have leaves: "set (ot_leaves t) = mk_leaf ` set (p # grp)"
      using b(2) by (simp add: built_def)
    have step1: "acc_step upd (ot_nodes (sha256 cr) (prefix @ [nib]) t) {} (mk_leaf ` set (p # grp)) acc acc1"
      using b(2) unfolding built_def leaves by blast
    have free: "ts ! unat nib = None"
      using slots_built_free [OF less.prems(3), of "unat nib"] freshp small by simp
    have slots1: "slots_built cr prefix acc1 ?ts" by (rule slots_built_update [OF less.prems(3) b(2) small])
    have pr: "pairs_ok upd (ac_new_version acc1) prefix rest"
      using less.prems(1) split(2,4) step1 by (fastforce simp: pairs_ok_def Cons acc_step_def)
    have fresh1: "fresh_below acc1 (prefix @ [nibble (fst x) (length prefix)])" if "x \<in> set rest" for x
    proof (rule fresh_below_step [OF _ step1])
      have x: "x \<in> set ps" "nibble (fst x) (length prefix) \<noteq> nib" using that split(2) by (auto simp: Cons)
      then show "fresh_below acc (prefix @ [nibble (fst x) (length prefix)])" by (intro less.prems(4))
      show "\<not> below (prefix @ [nibble (fst x) (length prefix)]) nk" if "(nk, n) \<in> ot_nodes (sha256 cr) (prefix @ [nib]) t" for nk n
        using x(2) ot_nodes_below [OF that] by (auto dest!: below_snoc)
    qed
    have "length rest < length ps" by (simp add: Cons rest_def length_dropWhile_le less_Suc_eq_le)
    from less.hyps [OF this pr _ slots1 fresh1] step1
    obtain ts' acc' where r: "build_groups cr acc1 prefix rest (map (ot_child (sha256 cr)) ?ts) = Inr (map (ot_child (sha256 cr)) ts', acc')"
      "slots_built cr prefix acc' ts'" "slot_leaves ts' = slot_leaves ?ts \<union> mk_leaf ` set rest"
      "\<forall>i < 16. ?ts ! i \<noteq> None \<longrightarrow> ts' ! i = ?ts ! i"
      "acc_step upd (slot_nodes (sha256 cr) prefix ts') {} (mk_leaf ` set rest) acc1 acc'"
      by (auto simp: acc_step_def)
    have run: "build_groups cr acc prefix ps (map (ot_child (sha256 cr)) ts) = Inr (map (ot_child (sha256 cr)) ts', acc')"
      using d b(1) r(1) by (simp add: Cons Let_def nib_def [symmetric] grp_def [symmetric] rest_def [symmetric] map_update)
    have parts: "set ps = set (p # grp) \<union> set rest" using split(1,2) by (auto simp: Cons)
    have sl: "slot_leaves ?ts = slot_leaves ts \<union> mk_leaf ` set (p # grp)"
      unfolding slot_leaves_update [OF len small] leaves using free by (force simp: slot_leaves_def)
    have sub: "ot_nodes (sha256 cr) (prefix @ [nib]) t \<subseteq> slot_nodes (sha256 cr) prefix ts'"
    proof (cases t)
      case (Some tt)
      then have "ts' ! unat nib = t" using r(4) small len by auto
      then show ?thesis using small by (auto simp: slot_nodes_def intro!: bexI [of _ "unat nib"])
    qed simp
    have "acc_step upd (slot_nodes (sha256 cr) prefix ts') {} (mk_leaf ` set ps) acc acc'"
      by (rule acc_step_eq [OF acc_step_trans [OF step1 r(5)]]) (use sub parts in auto)
    moreover have "\<forall>i < 16. ts ! i \<noteq> None \<longrightarrow> ts' ! i = ts ! i"
      using r(4) free len by (metis nth_list_update_neq)
    moreover have "slot_leaves ts' = slot_leaves ts \<union> mk_leaf ` set ps"
      unfolding r(3) sl parts by (simp add: image_Un Un_assoc)
    ultimately show ?thesis using run r(2) by blast
  qed
qed

lemma slot_leaves_concat: "length ts = 16 \<Longrightarrow> set (concat (map ot_leaves ts)) = slot_leaves ts"
  by (force simp: slot_leaves_def in_set_conv_nth [of _ ts])

lemma pt_nodes_slots:
  "length ts = 16 \<Longrightarrow> pt_nodes H prefix (PNode v ts) =
     insert (NodeKey v prefix, Internal (map (ot_child H) ts)) (slot_nodes H prefix ts)"
  by (simp add: pt_nodes_node slot_nodes_def ot_nodes_def)

lemma slot_nodes_not_here: "(nk, n) \<in> slot_nodes H prefix ts \<Longrightarrow> nk_prefix nk \<noteq> prefix"
  by (auto simp: slot_nodes_def dest!: ot_nodes_below below_snoc)

text \<open>Closing a node over built slots.\<close>

lemma close_node:
  assumes d: "length prefix < NIBBLES" and slots: "slots_built cr prefix acc ts" and ok: "acc_ok upd acc"
    and two: "2 \<le> card (slot_leaves ts)" and free: "bt_get (ac_pending acc) (NodeKey (ac_new_version acc) prefix) = None"
  obtains acc' where "put_internal cr acc prefix (map (ot_child (sha256 cr)) ts) =
      (pt_child (sha256 cr) (PNode (ac_new_version acc) ts), acc')"
    "acc_step upd {(NodeKey (ac_new_version acc) prefix, Internal (map (ot_child (sha256 cr)) ts))} {} {} acc acc'"
    "pt_wf prefix (PNode (ac_new_version acc) ts)"
proof -
  have len: "length ts = 16" using slots by (simp add: slots_built_def)
  have "2 \<le> length (concat (map ot_leaves ts))"
    using two card_length [of "concat (map ot_leaves ts)"] by (simp only: slot_leaves_concat [OF len])
  then have wf: "pt_wf prefix (PNode (ac_new_version acc) ts)"
    using d slots by (auto simp: pt_wf_node slots_built_def)
  show thesis
    by (rule put_internal_step [OF ok free, of cr ts]) (rule that [OF _ _ wf])
qed

lemma mk_leaf_inj: "inj mk_leaf"
  by (auto simp: inj_def mk_leaf_def)

lemma build_from_pairs_built:
  "pairs_ok upd (ac_new_version acc) prefix pairs \<Longrightarrow> acc_ok upd acc \<Longrightarrow> fresh_below acc prefix \<Longrightarrow> length prefix \<le> NIBBLES \<Longrightarrow>
    \<exists>t acc'. build_from_pairs cr acc prefix pairs = Inr (ot_child (sha256 cr) t, acc') \<and> built cr upd prefix pairs acc t acc'"
proof (induction "NIBBLES - length prefix" arbitrary: prefix pairs acc rule: less_induct)
  case less
  let ?H = "sha256 cr" and ?nv = "ac_new_version acc"
  have free: "bt_get (ac_pending acc) (NodeKey ?nv prefix) = None"
    by (rule acc_ok_get_None [OF less.prems(2,3)]) simp
  show ?case
  proof (cases pairs rule: remdups_adj.cases)
    case 1
    then show ?thesis
      using less.prems by (intro exI [of _ None] exI [of _ acc]) (simp add: built_def acc_step_def)
  next
    case (2 x)
    obtain p vh vv where x: "x = (p, vh, vv)" by (cases x) auto
    let ?l = "mk_leaf x"
    have ok: "length p = HASH_SIZE" "length vh = HASH_SIZE" "under prefix p" "vv = ?nv \<Longrightarrow> upd p = Some (Some vh)"
      using less.prems(1) by (auto simp: pairs_ok_def sorted_under_def 2 x)
    obtain acc' where "put_leaf cr acc prefix ?l = Inr (pt_child ?H (PLeaf ?nv ?l), acc')"
      "acc_step upd (pt_nodes ?H prefix (PLeaf ?nv ?l)) {} {?l} acc acc'"
      by (rule put_leaf_step [OF less.prems(2) free, of ?l cr]) (use ok in \<open>auto simp: mk_leaf_def x\<close>)
    then show ?thesis
      using ok by (intro exI [of _ "Some (PLeaf ?nv ?l)"] exI [of _ acc'])
        (simp add: 2 x built_def mk_leaf_def leaf_ok_def)
  next
    case (3 x y zs)
    have d: "length prefix < NIBBLES"
    proof (rule ccontr)
      assume "\<not> length prefix < NIBBLES"
      then have "fst x = fst y"
        using less.prems(1) by (intro under_full [of prefix]) (auto simp: pairs_ok_def sorted_under_def 3)
      then show False using less.prems(1) by (simp add: pairs_ok_def sorted_under_def 3)
    qed
    have IH: "\<exists>t acc'. build_from_pairs cr acc (prefix @ [n]) pairs = Inr (ot_child ?H t, acc') \<and>
        built cr upd (prefix @ [n]) pairs acc t acc'"
      if "pairs_ok upd (ac_new_version acc) (prefix @ [n]) pairs" "acc_ok upd acc" "fresh_below acc (prefix @ [n])" for n pairs acc
      by (rule less.hyps [OF _ that]) (use d in auto)
    have init: "slots_built cr prefix acc (replicate 16 None)"
      by (simp add: slots_built_def)
    have fresh: "fresh_below acc (prefix @ [n])" for n
      using less.prems(3) by (auto simp: fresh_below_def dest: below_snoc)
    from build_groups_built [OF IH d less.prems(1,2) init fresh]
    obtain ts acc1 where g: "build_groups cr acc prefix pairs (replicate 16 None) = Inr (map (ot_child ?H) ts, acc1)"
      "slots_built cr prefix acc1 ts" "slot_leaves ts = slot_leaves (replicate 16 None) \<union> mk_leaf ` set pairs"
      "acc_step upd (slot_nodes ?H prefix ts) {} (mk_leaf ` set pairs) acc acc1"
      by auto
    have leaves: "slot_leaves ts = mk_leaf ` set pairs" using g(3) by (simp add: slot_leaves_def)
    have nv: "ac_new_version acc1 = ?nv" and ok1: "acc_ok upd acc1" using g(4) by (auto simp: acc_step_def)
    have len: "length ts = 16" using g(2) by (simp add: slots_built_def)
    have "distinct (map fst pairs)"
      using less.prems(1) by (simp add: pairs_ok_def sorted_under_def strict_sorted_iff)
    then have "card (set pairs) = length pairs" by (simp add: distinct_map distinct_card)
    then have two: "2 \<le> card (slot_leaves ts)"
      unfolding leaves using card_image [OF inj_on_subset [OF mk_leaf_inj subset_UNIV], of "set pairs"] by (simp add: 3)
    have free1: "bt_get (ac_pending acc1) (NodeKey (ac_new_version acc1) prefix) = None"
    proof (rule ccontr)
      assume "bt_get (ac_pending acc1) (NodeKey (ac_new_version acc1) prefix) \<noteq> None"
      then obtain n where "(NodeKey ?nv prefix, n) \<in> set (ac_pending acc1)"
        using ok1 btree.entries_get [of "ac_pending acc1"] by (auto simp: acc_ok_def nv)
      moreover have "(NodeKey ?nv prefix, n) \<notin> set (ac_pending acc)"
        using less.prems(3) by (auto simp: fresh_below_def)
      ultimately have "(NodeKey ?nv prefix, n) \<in> slot_nodes ?H prefix ts"
        using g(4) by (auto simp: acc_step_def)
      then show False by (auto dest: slot_nodes_not_here)
    qed
    obtain acc2 where c: "put_internal cr acc1 prefix (map (ot_child ?H) ts) = (pt_child ?H (PNode ?nv ts), acc2)"
      "acc_step upd {(NodeKey ?nv prefix, Internal (map (ot_child ?H) ts))} {} {} acc1 acc2" "pt_wf prefix (PNode ?nv ts)"
      by (rule close_node [OF d g(2) ok1 two free1, unfolded nv])
    have "build_from_pairs cr acc prefix pairs = Inr (Some (pt_child ?H (PNode ?nv ts)), acc2)"
      using g(1) c(1) by (simp add: 3)
    moreover have "built cr upd prefix pairs acc (Some (PNode ?nv ts)) acc2"
    proof -
      have "acc_step upd (pt_nodes ?H prefix (PNode ?nv ts)) {} (mk_leaf ` set pairs) acc acc2"
        by (rule acc_step_eq [OF acc_step_trans [OF g(4) c(2)]]) (simp_all add: pt_nodes_slots [OF len])
      moreover have "nk_version nk = ?nv" if "(nk, n) \<in> pt_nodes ?H prefix (PNode ?nv ts)" for nk n
        using that g(2) nv unfolding pt_nodes_slots [OF len] by (fastforce simp: slots_built_def slot_nodes_def)
      moreover have "set (pt_leaves (PNode ?nv ts)) = mk_leaf ` set pairs"
        unfolding pt_leaves_node slot_leaves_concat [OF len] by (rule leaves)
      ultimately show ?thesis using c(3) by (auto simp: built_def)
    qed
    ultimately show ?thesis by (intro exI [of _ "Some (PNode ?nv ts)"]) auto
  qed
qed

section \<open>The effect of updates\<close>

text \<open>
  The leaves after the updates \<open>us\<close>: a path not mentioned keeps its leaf; a path set to the
  commitment it had keeps its value version; any other insertion carries the new version.
\<close>

definition updated :: "u64 \<Rightarrow> update set \<Rightarrow> leaf_node set \<Rightarrow> leaf_node set" where
  "updated nv us ls = {l. (lf_path l \<notin> fst ` us \<and> l \<in> ls) \<or>
     (lf_path l, Some (lf_vh l)) \<in> us \<and>
       (l \<in> ls \<or> lf_value_version l = nv \<and> (\<forall>l' \<in> ls. lf_path l' = lf_path l \<longrightarrow> lf_vh l' \<noteq> lf_vh l))}"

definition leaf_value_key :: "leaf_node \<Rightarrow> bytes" where
  "leaf_value_key l = value_record_key (lf_vh l) (lf_value_version l)"

text \<open>The record keys of the old tree that the new one does not use.\<close>

definition dead_nodes :: "(bytes \<Rightarrow> bytes) \<Rightarrow> bytes \<Rightarrow> ptree option \<Rightarrow> ptree option \<Rightarrow> bytes set" where
  "dead_nodes H prefix t t' = node_record_key ` (fst ` ot_nodes H prefix t - fst ` ot_nodes H prefix t')"

definition dead :: "(bytes \<Rightarrow> bytes) \<Rightarrow> bytes \<Rightarrow> ptree option \<Rightarrow> ptree option \<Rightarrow> bytes set" where
  "dead H prefix t t' = dead_nodes H prefix t t' \<union> leaf_value_key ` (set (ot_leaves t) - set (ot_leaves t'))"

definition fresh_nodes :: "(bytes \<Rightarrow> bytes) \<Rightarrow> u64 \<Rightarrow> bytes \<Rightarrow> ptree option \<Rightarrow> (node_key \<times> node) set" where
  "fresh_nodes H nv prefix t = {(nk, n) \<in> ot_nodes H prefix t. nk_version nk = nv}"

text \<open>The tree after the updates, apart from the accumulator.\<close>

definition retree :: "(bytes \<Rightarrow> bytes) \<Rightarrow> u64 \<Rightarrow> bytes \<Rightarrow> update set \<Rightarrow> ptree option \<Rightarrow> ptree option \<Rightarrow> bool" where
  "retree H nv prefix us t t' \<longleftrightarrow> pred_option (pt_wf prefix) t' \<and>
     set (ot_leaves t') = updated nv us (set (ot_leaves t)) \<and>
     ot_nodes H prefix t' \<subseteq> fresh_nodes H nv prefix t' \<union> ot_nodes H prefix t \<and>
     (t' = t \<or> t' = None \<or> (\<exists>x. t' = Some x \<and> pt_version x = nv)) \<and>
     (set (ot_leaves t') = set (ot_leaves t) \<longrightarrow> t' = t)"

definition applied ::
    "crypto \<Rightarrow> (bytes \<rightharpoonup> bytes option) \<Rightarrow> bytes \<Rightarrow> update set \<Rightarrow> commit_acc \<Rightarrow> ptree option \<Rightarrow> ptree option \<Rightarrow> commit_acc \<Rightarrow> bool" where
  "applied cr upd prefix us acc t t' acc' \<longleftrightarrow> retree (sha256 cr) (ac_new_version acc) prefix us t t' \<and>
     acc_step upd (fresh_nodes (sha256 cr) (ac_new_version acc) prefix t') (dead (sha256 cr) prefix t t') (set (ot_leaves t')) acc acc'"

definition old_tree :: "(bytes \<Rightarrow> bytes) \<Rightarrow> u64 \<Rightarrow> bytes \<Rightarrow> ptree option \<Rightarrow> bool" where
  "old_tree H nv prefix t \<longleftrightarrow> (\<forall>(nk, n) \<in> ot_nodes H prefix t. nk_version nk < nv) \<and>
     (\<forall>l \<in> set (ot_leaves t). lf_value_version l < nv)"

definition us_ok :: "(bytes \<rightharpoonup> bytes option) \<Rightarrow> bytes \<Rightarrow> update list \<Rightarrow> bool" where
  "us_ok upd prefix us \<longleftrightarrow> sorted_under prefix us \<and>
     (\<forall>(p, vh) \<in> set us. upd p = Some vh \<and> (\<forall>h. vh = Some h \<longrightarrow> length h = HASH_SIZE))"

lemma updated_empty [simp]: "updated nv {} ls = ls"
  by (auto simp: updated_def)

lemma dead_same [simp]: "dead H prefix t t = {}"
  by (simp add: dead_def dead_nodes_def)

lemma old_fresh: "old_tree H nv prefix t \<Longrightarrow> fresh_nodes H nv prefix t = {}"
  by (auto simp: old_tree_def fresh_nodes_def)

lemma built_root:
  assumes "built cr upd prefix pairs acc (Some t) acc'"
  shows "pt_version t = ac_new_version acc"
  using assms pt_nodes_root [of t prefix "sha256 cr"] by (auto simp: built_def)

lemma built_fresh:
  "built cr upd prefix pairs acc t acc' \<Longrightarrow> fresh_nodes (sha256 cr) (ac_new_version acc) prefix t = ot_nodes (sha256 cr) prefix t"
  by (auto simp: built_def fresh_nodes_def)

lemma built_step:
  "built cr upd prefix pairs acc t acc' \<Longrightarrow> acc_step upd (ot_nodes (sha256 cr) prefix t) {} (set (ot_leaves t)) acc acc'"
  unfolding built_def by blast

lemma built_retree:
  assumes b: "built cr upd prefix pairs acc t acc'"
    and leaves: "mk_leaf ` set pairs = updated (ac_new_version acc) us (set (ot_leaves t0))"
    and change: "set (ot_leaves t) = set (ot_leaves t0) \<Longrightarrow> t = t0"
  shows "retree (sha256 cr) (ac_new_version acc) prefix us t0 t"
proof (cases t)
  case (Some x)
  have "pt_version x = ac_new_version acc" using b Some by (auto intro: built_root)
  with b leaves change built_fresh [OF b] Some show ?thesis by (simp add: retree_def built_def)
qed (use b leaves change in \<open>simp add: retree_def built_def\<close>)

lemma unchanged_applied:
  assumes "acc_ok upd acc" "old_tree (sha256 cr) (ac_new_version acc) prefix t" "pred_option (pt_wf prefix) t"
    "updated (ac_new_version acc) us (set (ot_leaves t)) = set (ot_leaves t)"
  shows "applied cr upd prefix us acc t t acc"
  using assms by (auto simp: applied_def retree_def old_fresh old_tree_def intro!: acc_step_refl)

text \<open>Insertions below an empty slot.\<close>

lemma inserts_sorted: "sorted_under prefix us \<Longrightarrow> sorted_under prefix (inserts nv us)"
proof (induction us)
  case (Cons u us)
  have keys: "fst ` set (inserts nv us) \<subseteq> fst ` set us"
    by (force simp: inserts_def List.map_filter_def)
  from Cons show ?case
    using keys by (cases u; cases "snd u") (fastforce simp: sorted_under_def inserts_def List.map_filter_def)+
qed (simp add: inserts_def sorted_under_def)

lemma inserts_applied:
  assumes us: "us_ok upd prefix us" and ok: "acc_ok upd acc" and fresh: "fresh_below acc prefix" and d: "length prefix \<le> NIBBLES"
  shows "\<exists>t acc'. build_from_pairs cr acc prefix (inserts (ac_new_version acc) us) = Inr (ot_child (sha256 cr) t, acc') \<and>
    applied cr upd prefix (set us) acc None t acc'"
proof -
  let ?nv = "ac_new_version acc"
  have set: "set (inserts ?nv us) = {(p, h, ?nv) | p h. (p, Some h) \<in> set us}"
    by (force simp: inserts_def List.map_filter_def)
  have "pairs_ok upd ?nv prefix (inserts ?nv us)"
    using us inserts_sorted [of prefix us ?nv] by (auto simp: us_ok_def pairs_ok_def set)
  from build_from_pairs_built [OF this ok fresh d, of cr] obtain t acc' where
    b: "build_from_pairs cr acc prefix (inserts ?nv us) = Inr (ot_child (sha256 cr) t, acc')"
      "built cr upd prefix (inserts ?nv us) acc t acc'" by blast
  have "mk_leaf ` set (inserts ?nv us) = updated ?nv (set us) {}"
    by (force simp: set updated_def mk_leaf_def image_iff)
  moreover have "t = None" if "ot_leaves t = []"
    using that b(2) pt_leaves_nonempty [of prefix] by (cases t) (auto simp: built_def)
  ultimately have "retree (sha256 cr) ?nv prefix (set us) None t"
    by (intro built_retree [OF b(2)]) simp_all
  then have "applied cr upd prefix (set us) acc None t acc'"
    using built_step [OF b(2)] built_fresh [OF b(2)] by (simp add: applied_def dead_def dead_nodes_def)
  with b(1) show ?thesis by blast
qed

lemma mk_leaf_single: "mk_leaf ` S = {l} \<Longrightarrow> S = {(lf_path l, lf_vh l, lf_value_version l)}"
proof -
  assume "mk_leaf ` S = {l}"
  then have "S \<noteq> {}" and "\<forall>x \<in> S. mk_leaf x = l" by auto
  then have "S \<noteq> {}" "\<forall>x \<in> S. x = (lf_path l, lf_vh l, lf_value_version l)" by (auto simp: mk_leaf_def)
  then show "S = {(lf_path l, lf_vh l, lf_value_version l)}" by fast
qed

text \<open>Updates below a leaf.\<close>

lemma merge_fold:
  assumes "distinct (map fst us)" "bt_inv m"
    and f_def: "f = (\<lambda>merged (p, vh). case vh of Some h \<Rightarrow> bt_insert p (g p h) merged | None \<Rightarrow> bt_remove p merged)"
  shows "bt_inv (foldl f m us) \<and> bt_get (foldl f m us) p =
    (case map_of us p of None \<Rightarrow> bt_get m p | Some vh \<Rightarrow> map_option (g p) vh)"
  using assms(1,2)
proof (induction us arbitrary: m)
  case (Cons u us)
  obtain q vh where u: "u = (q, vh)" by fastforce
  have inv: "bt_inv (f m u)" using Cons.prems by (auto simp: f_def u btree.inv_insert btree.inv_remove split: option.split)
  have get: "bt_get (f m u) p = (if p = q then map_option (g q) vh else bt_get m p)"
    using Cons.prems by (auto simp: f_def u btree.get_insert btree.get_remove split: option.split)
  have "map_of us q = None" using Cons.prems by (simp add: u map_of_eq_None_iff)
  then show ?case
    using Cons.IH [OF _ inv] Cons.prems get by (auto simp: u split: option.split)
qed simp

lemma merge_leaf_get:
  assumes "distinct (map fst us)"
  shows "bt_inv (merge_leaf nv l us)"
    and "bt_get (merge_leaf nv l us) p =
      (case map_of us p of
         None \<Rightarrow> if p = lf_path l then Some (lf_vh l, lf_value_version l) else None
       | Some vh \<Rightarrow> map_option (\<lambda>h. (h, if p = lf_path l \<and> h = lf_vh l then lf_value_version l else nv)) vh)"
  using merge_fold [OF assms _ refl, of "bt_insert (lf_path l) (lf_vh l, lf_value_version l) bt_new"
      "\<lambda>p h. (h, if p = lf_path l \<and> h = lf_vh l then lf_value_version l else nv)" p]
  by (simp_all add: merge_leaf_def btree.inv_insert btree.inv_new btree.get_insert btree.get_new
      split: option.split)

lemma merge_leaf_updated:
  assumes "distinct (map fst us)"
  shows "mk_leaf ` set (map (\<lambda>(p, (vh, vv)). (p, vh, vv)) (merge_leaf nv l us)) = updated nv (set us) {l}"
proof (rule set_eqI)
  fix x :: leaf_node
  have paths: "p \<in> fst ` set us \<longleftrightarrow> map_of us p \<noteq> None" for p
    by (auto simp: map_of_eq_None_iff)
  have us: "(p, vh) \<in> set us \<longleftrightarrow> map_of us p = Some vh" for p vh
    using assms by simp
  have "x \<in> mk_leaf ` set (map (\<lambda>(p, (vh, vv)). (p, vh, vv)) (merge_leaf nv l us)) \<longleftrightarrow>
      (lf_path x, lf_vh x, lf_value_version x) \<in> set (merge_leaf nv l us)"
    by (force simp: mk_leaf_def image_iff)
  also have "\<dots> \<longleftrightarrow> bt_get (merge_leaf nv l us) (lf_path x) = Some (lf_vh x, lf_value_version x)"
    by (rule btree.entries_get) (rule merge_leaf_get(1) [OF assms])
  also have "\<dots> \<longleftrightarrow> x \<in> updated nv (set us) {l}"
    unfolding merge_leaf_get(2) [OF assms] updated_def mem_Collect_eq paths us
    by (cases "map_of us (lf_path x)") (auto split: if_splits option.splits intro!: leaf_node.equality)
  finally show "x \<in> mk_leaf ` set (map (\<lambda>(p, (vh, vv)). (p, vh, vv)) (merge_leaf nv l us)) \<longleftrightarrow> x \<in> updated nv (set us) {l}" .
qed

lemma apply_leaf_applied:
  assumes us: "us_ok upd prefix us" and ok: "acc_ok upd acc" and fresh: "fresh_below acc prefix"
    and wf: "pt_wf prefix (PLeaf v l)" and old: "old_tree (sha256 cr) (ac_new_version acc) prefix (Some (PLeaf v l))"
  shows "\<exists>t acc'. apply_leaf cr acc (pt_child (sha256 cr) (PLeaf v l)) l prefix us = Inr (ot_child (sha256 cr) t, acc') \<and>
    applied cr upd prefix (set us) acc (Some (PLeaf v l)) t acc'"
proof -
  let ?nv = "ac_new_version acc" and ?t = "PLeaf v l" and ?H = "sha256 cr"
  let ?merged = "merge_leaf ?nv l us" and ?pairs = "map (\<lambda>(p, (vh, vv)). (p, vh, vv)) (merge_leaf ?nv l us)"
  have dist: "distinct (map fst us)" using us by (auto simp: us_ok_def sorted_under_def strict_sorted_iff)
  note leaves = merge_leaf_updated [OF dist, of ?nv l]
  note inv = merge_leaf_get(1) [OF dist, of ?nv l]
  note get = merge_leaf_get(2) [OF dist, of ?nv l]
  have v: "v < ?nv" "lf_value_version l < ?nv" using old by (auto simp: old_tree_def)
  have kept: "bt_get ?merged (lf_path l) = Some (vh, vv) \<Longrightarrow> vh = lf_vh l \<Longrightarrow> vv = lf_value_version l" for vh vv
    unfolding get by (auto split: option.splits)
  have stays: "l \<in> updated ?nv (set us) {l} \<longleftrightarrow> bt_get ?merged (lf_path l) = Some (lf_vh l, lf_value_version l)"
    unfolding leaves [symmetric] btree.entries_get [OF inv, symmetric] by (force simp: mk_leaf_def image_iff)
  show ?thesis
  proof (cases "length ?merged = 1 \<and> bt_get ?merged (lf_path l) = Some (lf_vh l, lf_value_version l)")
    case True
    then obtain e where e: "?merged = [e]" by (cases ?merged) auto
    then have "e = (lf_path l, lf_vh l, lf_value_version l)"
      using True btree.entries_get [OF inv, of "lf_path l" "(lf_vh l, lf_value_version l)"] by auto
    then have "updated ?nv (set us) {l} = {l}"
      unfolding leaves [symmetric] e by (simp add: mk_leaf_def)
    with ok old wf have "applied cr upd prefix (set us) acc (Some ?t) (Some ?t) acc"
      by (intro unchanged_applied) simp_all
    moreover have "apply_leaf cr acc (pt_child ?H ?t) l prefix us = Inr (ot_child ?H (Some ?t), acc)"
      using True by (simp add: apply_leaf_def Let_def)
    ultimately show ?thesis by blast
  next
    case False
    define acc1 where "acc1 = add_stale (node_record_key (NodeKey v prefix)) acc"
    define acc2 where "acc2 = (if l \<in> updated ?nv (set us) {l} then acc1 else add_stale (leaf_value_key l) acc1)"
    have s1: "acc_step upd {} {node_record_key (NodeKey v prefix)} {} acc acc1"
      unfolding acc1_def by (rule add_stale_step [OF ok])
    then have ok1: "acc_ok upd acc1" by (simp add: acc_step_def)
    have s2: "acc_step upd {} (leaf_value_key ` ({l} - updated ?nv (set us) {l})) {} acc1 acc2"
      using add_stale_step [OF ok1] ok1 by (auto simp: acc2_def acc_step_def)
    from acc_step_trans [OF s1 s2]
    have s12: "acc_step upd {} (insert (node_record_key (NodeKey v prefix)) (leaf_value_key ` ({l} - updated ?nv (set us) {l}))) {} acc acc2"
      by simp
    then have ok2: "acc_ok upd acc2" "ac_new_version acc2 = ?nv" "set (ac_pending acc2) = set (ac_pending acc)"
      by (simp_all add: acc_step_def)
    have acc2: "acc2 = (case bt_get ?merged (lf_path l) of
        Some (vh, _) \<Rightarrow> if vh = lf_vh l then acc1 else add_stale (leaf_value_key l) acc1
      | None \<Rightarrow> add_stale (leaf_value_key l) acc1)"
    proof (cases "bt_get ?merged (lf_path l)")
      case None
      then show ?thesis by (simp only: acc2_def stays option.case option.distinct if_False)
    next
      case (Some x)
      obtain vh vv where x: "x = (vh, vv)" by fastforce
      have "vh = lf_vh l \<and> vv = lf_value_version l \<longleftrightarrow> vh = lf_vh l"
        using kept [of vh vv] Some x by blast
      then show ?thesis unfolding acc2_def stays Some x by (simp only: option.case option.inject prod.inject prod.case)
    qed
    have run: "apply_leaf cr acc (pt_child ?H ?t) l prefix us = build_from_pairs cr acc2 prefix ?pairs"
      unfolding apply_leaf_def Let_def acc2 acc1_def leaf_value_key_def
      by (simp only: False if_False pt_child_sel pt_version.simps)
    have fresh2: "fresh_below acc2 prefix" using fresh ok2(3) by (simp add: fresh_below_def)
    have pok: "pairs_ok upd ?nv prefix ?pairs"
    proof -
      have "length p = HASH_SIZE \<and> under prefix p \<and> length vh = HASH_SIZE \<and> (vv = ?nv \<longrightarrow> upd p = Some (Some vh))"
        if "(p, vh, vv) \<in> set ?pairs" for p vh vv
      proof -
        have "bt_get ?merged p = Some (vh, vv)" using that btree.entries_get [OF inv] by auto
        then show ?thesis
          using us wf v(2) unfolding get
          by (auto simp: us_ok_def sorted_under_def leaf_ok_def split: option.splits if_splits dest!: map_of_SomeD)
      qed
      moreover have "map fst ?pairs = map fst ?merged" by auto
      ultimately show ?thesis using inv by (fastforce simp: pairs_ok_def sorted_under_def bt_inv_def)
    qed
    have d: "length prefix \<le> NIBBLES" using wf by (simp add: under_def)
    from build_from_pairs_built [of upd acc2 prefix ?pairs cr] pok ok2 fresh2 d obtain t acc' where
      b: "build_from_pairs cr acc2 prefix ?pairs = Inr (ot_child ?H t, acc')" "built cr upd prefix ?pairs acc2 t acc'"
      by auto
    have change: "set (ot_leaves t) \<noteq> {l}"
    proof
      assume "set (ot_leaves t) = {l}"
      then have "mk_leaf ` set ?pairs = {l}" using b(2) by (simp add: built_def)
      from mk_leaf_single [OF this] have "set ?merged = {(lf_path l, (lf_vh l, lf_value_version l))}" by simp
      moreover have "distinct ?merged" using bt_inv_distinct [OF inv] by (simp add: distinct_map)
      ultimately have "length ?merged = 1" "bt_get ?merged (lf_path l) = Some (lf_vh l, lf_value_version l)"
        using distinct_card [of ?merged] btree.entries_get [OF inv] by force+
      with False show False by simp
    qed
    have re: "retree ?H ?nv prefix (set us) (Some ?t) t"
      using built_retree [OF b(2), of "set us" "Some ?t"] leaves ok2(2) change by simp
    have "NodeKey v prefix \<notin> fst ` ot_nodes ?H prefix t"
      using b(2) v(1) ok2(2) by (fastforce simp: built_def)
    then have dd: "dead ?H prefix (Some ?t) t =
        insert (node_record_key (NodeKey v prefix)) (leaf_value_key ` ({l} - updated ?nv (set us) {l}))"
      using re by (auto simp: dead_def dead_nodes_def retree_def)
    have "acc_step upd (ot_nodes ?H prefix t) (dead ?H prefix (Some ?t) t) (set (ot_leaves t)) acc acc'"
      by (rule acc_step_eq [OF acc_step_trans [OF s12 built_step [OF b(2)]]]) (simp_all add: dd)
    then have "applied cr upd prefix (set us) acc (Some ?t) t acc'"
      using re built_fresh [OF b(2)] ok2(2) by (simp add: applied_def)
    with run b(1) show ?thesis by auto
  qed
qed

end
