(* ===== verification/Merkle_Apply.thy ===== *)
theory Merkle_Apply
  imports Merkle_Write
begin

text \<open>
  \<open>apply_subtree\<close> on inner nodes: the loop over the groups of updates, the three shapes a changed
  node can take (gone, hoisted leaf, rewritten node), and the whole recursion. The result is the
  tree over the updated leaves; a host may only make it fail.
\<close>

section \<open>Updates below a node\<close>

definition slot_updates :: "nat \<Rightarrow> update set \<Rightarrow> nat \<Rightarrow> update set" where
  "slot_updates d us i = {u \<in> us. nibble (fst u) d = word_of_nat i}"

lemma updated_slots:
  assumes nib: "\<And>i l. i < 16 \<Longrightarrow> l \<in> L i \<Longrightarrow> nibble (lf_path l) d = word_of_nat i"
    and eq: "\<And>i. i < 16 \<Longrightarrow> L' i = updated nv (slot_updates d us i) (L i)"
  shows "(\<Union>i < 16. L' i) = updated nv us (\<Union>i < 16. L i)"
proof (rule set_eqI)
  fix l :: leaf_node
  define j where "j = unat (nibble (lf_path l) d)"
  have j: "j < 16" "nibble (lf_path l) d = word_of_nat j" by (simp_all add: j_def nibble_small)
  have inj: "i = j" if "i < 16" "(word_of_nat i :: byte) = word_of_nat j" for i
    using arg_cong [OF that(2), of unat] that(1) j(1) by (simp add: unat_byte_of_nat)
  have mem: "x \<in> (\<Union>i < 16. L i) \<longleftrightarrow> x \<in> L j" if "lf_path x = lf_path l" for x
    using nib inj j that by (metis UN_E UN_I lessThan_iff)
  have path: "lf_path l \<in> fst ` us \<longleftrightarrow> lf_path l \<in> fst ` slot_updates d us j"
    "(lf_path l, vh) \<in> us \<longleftrightarrow> (lf_path l, vh) \<in> slot_updates d us j" for vh
    using j(2) by (auto simp: slot_updates_def)
  have "l \<in> updated nv us (\<Union>i < 16. L i) \<longleftrightarrow> l \<in> updated nv (slot_updates d us j) (L j)"
  proof -
    have "(\<forall>l' \<in> \<Union>i < 16. L i. lf_path l' = lf_path l \<longrightarrow> lf_vh l' \<noteq> lf_vh l) \<longleftrightarrow>
        (\<forall>l' \<in> L j. lf_path l' = lf_path l \<longrightarrow> lf_vh l' \<noteq> lf_vh l)"
      using mem by blast
    with mem [OF refl] show ?thesis unfolding updated_def mem_Collect_eq path by (simp only:)
  qed
  moreover have "l \<in> L' i \<Longrightarrow> i < 16 \<Longrightarrow> i = j" for i
  proof -
    assume "l \<in> L' i" "i < 16"
    then have "l \<in> L i \<or> (lf_path l, Some (lf_vh l)) \<in> slot_updates d us i"
      using eq by (auto simp: updated_def)
    then have "nibble (lf_path l) d = word_of_nat i"
      using nib \<open>i < 16\<close> by (auto simp: slot_updates_def)
    then show "i = j" using inj \<open>i < 16\<close> j(2) by simp
  qed
  ultimately show "l \<in> (\<Union>i < 16. L' i) \<longleftrightarrow> l \<in> updated nv us (\<Union>i < 16. L i)"
    using eq [OF j(1)] j(1) by blast
qed

lemma retree_child:
  assumes "retree H nv prefix us t t'" "old_tree H nv prefix t"
  shows "ot_child H t' = ot_child H t \<longleftrightarrow> t' = t"
proof -
  have "pt_version x < nv" if "t = Some x" for x
    using assms(2) pt_nodes_root [of x prefix H] that by (auto simp: old_tree_def)
  then show ?thesis
    using assms(1) by (cases t; cases t') (auto simp: retree_def pt_child_def)
qed

text \<open>The keys of a node split over its slots.\<close>

definition slot_dead :: "(bytes \<Rightarrow> bytes) \<Rightarrow> bytes \<Rightarrow> ptree option list \<Rightarrow> ptree option list \<Rightarrow> bytes set" where
  "slot_dead H prefix ts ts' = (\<Union>i < 16. dead H (prefix @ [word_of_nat i]) (ts ! i) (ts' ! i))"

definition slots_wf :: "bytes \<Rightarrow> ptree option list \<Rightarrow> bool" where
  "slots_wf prefix ts \<longleftrightarrow> length ts = 16 \<and> (\<forall>i < 16. pred_option (pt_wf (prefix @ [word_of_nat i])) (ts ! i))"

lemma slots_wf_nibble:
  assumes "slots_wf prefix ts" "i < 16" "l \<in> set (ot_leaves (ts ! i))"
  shows "nibble (lf_path l) (length prefix) = word_of_nat i"
  using assms pt_wf_leaf [of "prefix @ [word_of_nat i]"] by (cases "ts ! i") (auto simp: slots_wf_def under_snoc)

lemma UN_diff_disjoint:
  "(\<And>i j x. i \<in> I \<Longrightarrow> j \<in> I \<Longrightarrow> x \<in> A i \<Longrightarrow> x \<in> B j \<Longrightarrow> i = j) \<Longrightarrow>
    (\<Union>i \<in> I. A i) - (\<Union>i \<in> I. B i) = (\<Union>i \<in> I. A i - B i)"
  by blast

lemma slot_leaves_diff:
  assumes "slots_wf prefix ts" "slots_wf prefix ts'"
  shows "slot_leaves ts - slot_leaves ts' = (\<Union>i < 16. set (ot_leaves (ts ! i)) - set (ot_leaves (ts' ! i)))"
proof -
  have "i = j" if "i < 16" "j < 16" "l \<in> set (ot_leaves (ts ! i))" "l \<in> set (ot_leaves (ts' ! j))" for i j l
  proof -
    have "(word_of_nat i :: byte) = word_of_nat j"
      using slots_wf_nibble [OF assms(1) that(1,3)] slots_wf_nibble [OF assms(2) that(2,4)] by simp
    from arg_cong [OF this, of unat] show ?thesis using that(1,2) by (simp add: unat_byte_of_nat)
  qed
  then show ?thesis unfolding slot_leaves_def by (intro UN_diff_disjoint) simp
qed

lemma slot_keys_diff:
  "fst ` slot_nodes H prefix ts - fst ` slot_nodes H prefix ts' =
    (\<Union>i < 16. fst ` ot_nodes H (prefix @ [word_of_nat i]) (ts ! i) - fst ` ot_nodes H (prefix @ [word_of_nat i]) (ts' ! i))"
proof -
  have "i = j" if "i < 16" "j < 16" "(nk, n) \<in> ot_nodes H (prefix @ [word_of_nat i]) (ts ! i)"
    "(nk, n') \<in> ot_nodes H (prefix @ [word_of_nat j]) (ts' ! j)" for i j nk n n'
    using slot_nodes_disjoint [OF that(3) ot_nodes_below [OF that(4)] that(1,2)] .
  then show ?thesis unfolding slot_nodes_def image_UN by (intro UN_diff_disjoint) fastforce
qed

lemma slot_dead_eq:
  assumes "slots_wf prefix ts" "slots_wf prefix ts'"
  shows "slot_dead H prefix ts ts' = node_record_key ` (fst ` slot_nodes H prefix ts - fst ` slot_nodes H prefix ts') \<union>
    leaf_value_key ` (slot_leaves ts - slot_leaves ts')"
  unfolding slot_leaves_diff [OF assms] slot_keys_diff slot_dead_def dead_def dead_nodes_def by auto

text \<open>The loop over the groups of updates, slot by slot.\<close>

definition slots_re :: "(bytes \<Rightarrow> bytes) \<Rightarrow> u64 \<Rightarrow> bytes \<Rightarrow> update set \<Rightarrow> ptree option list \<Rightarrow> ptree option list \<Rightarrow> bool" where
  "slots_re H nv prefix us ts ts' \<longleftrightarrow> length ts' = 16 \<and>
     (\<forall>i < 16. retree H nv (prefix @ [word_of_nat i]) (slot_updates (length prefix) us i) (ts ! i) (ts' ! i) \<and>
        (slot_updates (length prefix) us i = {} \<longrightarrow> ts' ! i = ts ! i))"

definition slot_fresh :: "(bytes \<Rightarrow> bytes) \<Rightarrow> u64 \<Rightarrow> bytes \<Rightarrow> ptree option list \<Rightarrow> (node_key \<times> node) set" where
  "slot_fresh H nv prefix ts = (\<Union>i < 16. fresh_nodes H nv (prefix @ [word_of_nat i]) (ts ! i))"

text \<open>Slots with pending updates are still those of the stored tree; the others are accounted for.\<close>

definition slots_pending :: "crypto \<Rightarrow> (bytes \<rightharpoonup> bytes) \<Rightarrow> bytes \<Rightarrow> commit_acc \<Rightarrow> update set \<Rightarrow> ptree option list \<Rightarrow> bool" where
  "slots_pending cr m prefix acc us ts \<longleftrightarrow> slots_wf prefix ts \<and>
     slot_fresh (sha256 cr) (ac_new_version acc) prefix ts \<subseteq> set (ac_pending acc) \<and>
     (\<forall>l \<in> slot_leaves ts. lf_value_version l = ac_new_version acc \<longrightarrow> bt_get (ac_values acc) (lf_vh l) \<noteq> None) \<and>
     (\<forall>i < 16. slot_updates (length prefix) us i \<noteq> {} \<longrightarrow>
        pred_option (tree_stored cr m (prefix @ [word_of_nat i])) (ts ! i) \<and>
        old_tree (sha256 cr) (ac_new_version acc) (prefix @ [word_of_nat i]) (ts ! i) \<and>
        fresh_below acc (prefix @ [word_of_nat i]))"

lemma slots_pending_Nil:
  assumes "slots_pending cr m prefix acc us ts" "acc_ok upd acc"
  shows "acc_step upd (slot_fresh (sha256 cr) (ac_new_version acc) prefix ts) (slot_dead (sha256 cr) prefix ts ts) (slot_leaves ts) acc acc"
  using assms by (auto simp: acc_step_def slots_pending_def slot_dead_def)

lemma retree_refl: "pred_option (pt_wf prefix) t \<Longrightarrow> retree H nv prefix {} t t"
  by (auto simp: retree_def)

lemma slots_pending_step:
  assumes pend: "slots_pending cr m prefix acc us ts"
    and app: "applied cr upd (prefix @ [nib]) (slot_updates (length prefix) us (unat nib)) acc (ts ! unat nib) t acc1"
    and small: "unat nib < 16"
    and rest: "rest = {u \<in> us. nibble (fst u) (length prefix) \<noteq> nib}"
  shows "slots_pending cr m prefix acc1 rest (ts[unat nib := t])"
proof -
  let ?H = "sha256 cr" and ?nv = "ac_new_version acc" and ?ts = "ts[unat nib := t]"
  have len: "length ts = 16" using pend by (simp add: slots_pending_def slots_wf_def)
  have step: "acc_step upd (fresh_nodes ?H ?nv (prefix @ [nib]) t) (dead ?H (prefix @ [nib]) (ts ! unat nib) t) (set (ot_leaves t)) acc acc1"
    and wf_t: "pred_option (pt_wf (prefix @ [nib])) t"
    using app unfolding applied_def retree_def by blast+
  have nv: "ac_new_version acc1 = ?nv" using step by (simp add: acc_step_def)
  have at: "?ts ! i = (if i = unat nib then t else ts ! i)" if "i < 16" for i
    using that len by (simp add: nth_list_update)
  have "slots_wf prefix ?ts"
    using pend wf_t at len by (auto simp: slots_pending_def slots_wf_def)
  moreover have "slot_fresh ?H ?nv prefix ?ts \<subseteq> set (ac_pending acc1)"
  proof -
    have "fresh_nodes ?H ?nv (prefix @ [word_of_nat i]) (?ts ! i) \<subseteq> set (ac_pending acc1)" if i: "i < 16" for i
    proof (cases "i = unat nib")
      case True
      then show ?thesis using step at [OF i] by (auto simp: acc_step_def)
    next
      case False
      then have "fresh_nodes ?H ?nv (prefix @ [word_of_nat i]) (?ts ! i) \<subseteq> set (ac_pending acc)"
        using pend i at [OF i] by (force simp: slots_pending_def slot_fresh_def)
      then show ?thesis using step by (auto simp: acc_step_def)
    qed
    then show ?thesis by (auto simp: slot_fresh_def)
  qed
  moreover have "bt_get (ac_values acc1) (lf_vh l) \<noteq> None" if l: "l \<in> slot_leaves ?ts" "lf_value_version l = ?nv" for l
  proof -
    from l(1) obtain i where i: "i < 16" "l \<in> set (ot_leaves (?ts ! i))" by (auto simp: slot_leaves_def)
    show ?thesis
    proof (cases "i = unat nib")
      case True
      then show ?thesis using step i at l(2) by (simp add: acc_step_def)
    next
      case False
      then have "l \<in> slot_leaves ts" using i at by (auto simp: slot_leaves_def)
      then show ?thesis using pend step l(2) by (simp add: slots_pending_def acc_step_def)
    qed
  qed
  moreover have "pred_option (tree_stored cr m (prefix @ [word_of_nat i])) (?ts ! i) \<and>
      old_tree ?H ?nv (prefix @ [word_of_nat i]) (?ts ! i) \<and> fresh_below acc1 (prefix @ [word_of_nat i])"
    if i: "i < 16" and touched: "slot_updates (length prefix) rest i \<noteq> {}" for i
  proof -
    have ne: "i \<noteq> unat nib" "(word_of_nat i :: byte) \<noteq> nib" "slot_updates (length prefix) us i \<noteq> {}"
      using touched by (auto simp: rest slot_updates_def)
    have old: "pred_option (tree_stored cr m (prefix @ [word_of_nat i])) (ts ! i)"
      "old_tree ?H ?nv (prefix @ [word_of_nat i]) (ts ! i)" "fresh_below acc (prefix @ [word_of_nat i])"
      using pend i ne(3) by (simp_all add: slots_pending_def)
    moreover have "fresh_below acc1 (prefix @ [word_of_nat i])"
    proof (rule fresh_below_step [OF old(3) step])
      fix nk n
      assume "(nk, n) \<in> fresh_nodes ?H ?nv (prefix @ [nib]) t"
      then have "below (prefix @ [nib]) nk" by (auto simp: fresh_nodes_def dest: ot_nodes_below)
      then show "\<not> below (prefix @ [word_of_nat i]) nk" using ne(2) by (auto dest!: below_snoc)
    qed
    ultimately show ?thesis using ne(1) i at by simp
  qed
  ultimately show ?thesis by (simp add: slots_pending_def nv)
qed

lemma slots_re_Cons:
  assumes pend: "slots_wf prefix ts" and small: "unat nib < 16"
    and first: "retree H nv (prefix @ [nib]) (slot_updates (length prefix) us (unat nib)) (ts ! unat nib) t"
    and rest: "rest = {u \<in> us. nibble (fst u) (length prefix) \<noteq> nib}"
    and re: "slots_re H nv prefix rest (ts[unat nib := t]) ts'"
    and touched: "slot_updates (length prefix) us (unat nib) \<noteq> {}"
  shows "slots_re H nv prefix us ts ts'" "ts' ! unat nib = t" "ts' = ts \<longleftrightarrow> t = ts ! unat nib \<and> ts' = ts[unat nib := t]"
proof -
  have len: "length ts = 16" "length ts' = 16" using pend re by (auto simp: slots_wf_def slots_re_def)
  have none: "slot_updates (length prefix) rest (unat nib) = {}" by (auto simp: rest slot_updates_def)
  have same: "slot_updates (length prefix) rest i = slot_updates (length prefix) us i" if "i < 16" "i \<noteq> unat nib" for i
  proof -
    have "unat (word_of_nat i :: byte) = i" using that(1) by (simp add: unat_byte_of_nat)
    then have "(word_of_nat i :: byte) \<noteq> nib" using that(2) by auto
    then show ?thesis by (auto simp: rest slot_updates_def)
  qed
  show t: "ts' ! unat nib = t" using re none small len by (auto simp: slots_re_def)
  show "slots_re H nv prefix us ts ts'"
    unfolding slots_re_def
  proof (intro conjI allI impI)
    fix i :: nat
    assume i: "i < 16"
    show "retree H nv (prefix @ [word_of_nat i]) (slot_updates (length prefix) us i) (ts ! i) (ts' ! i)"
    proof (cases "i = unat nib")
      case True
      then show ?thesis using first t by simp
    next
      case False
      have "retree H nv (prefix @ [word_of_nat i]) (slot_updates (length prefix) rest i) (ts[unat nib := t] ! i) (ts' ! i)"
        using re i by (simp add: slots_re_def)
      then show ?thesis using False same [OF i] by simp
    qed
    show "ts' ! i = ts ! i" if "slot_updates (length prefix) us i = {}"
      using re same [of i] i len touched that by (cases "i = unat nib") (auto simp: slots_re_def)
  qed (rule len)
  show "ts' = ts \<longleftrightarrow> t = ts ! unat nib \<and> ts' = ts[unat nib := t]"
    using t by (metis list_update_id)
qed

lemma slot_dead_Cons:
  assumes "length ts = 16" "unat nib < 16" "ts' ! unat nib = t"
  shows "dead H (prefix @ [nib]) (ts ! unat nib) t \<union> slot_dead H prefix (ts[unat nib := t]) ts' = slot_dead H prefix ts ts'"
proof -
  have split: "{..<16} = insert (unat nib) ({..<16} - {unat nib})" using assms(2) by auto
  have "slot_dead H prefix ts ts' = dead H (prefix @ [nib]) (ts ! unat nib) t \<union>
      (\<Union>i \<in> {..<16} - {unat nib}. dead H (prefix @ [word_of_nat i]) (ts ! i) (ts' ! i))"
    unfolding slot_dead_def by (subst split) (simp only: UN_insert assms(3) of_nat_unat ucast_id)
  moreover have "slot_dead H prefix (ts[unat nib := t]) ts' =
      (\<Union>i \<in> {..<16} - {unat nib}. dead H (prefix @ [word_of_nat i]) (ts ! i) (ts' ! i))"
    unfolding slot_dead_def by (subst split) (use assms in \<open>simp only: UN_insert nth_list_update_eq dead_same\<close>, simp)
  ultimately show ?thesis by auto
qed

lemma slot_fresh_slot: "i < 16 \<Longrightarrow> fresh_nodes H nv (prefix @ [word_of_nat i]) (ts ! i) \<subseteq> slot_fresh H nv prefix ts"
  by (auto simp: slot_fresh_def)

lemma slot_leaves_slot: "i < 16 \<Longrightarrow> set (ot_leaves (ts ! i)) \<subseteq> slot_leaves ts"
  by (auto simp: slot_leaves_def)

context kv_contract
begin

lemma apply_groups_applied:
  assumes IH: "\<And>n us acc t s. us_ok upd (prefix @ [n]) us \<Longrightarrow> acc_ok upd acc \<Longrightarrow> fresh_below acc (prefix @ [n]) \<Longrightarrow>
      pred_option (tree_stored cr m (prefix @ [n])) t \<Longrightarrow> old_tree (sha256 cr) (ac_new_version acc) (prefix @ [n]) t \<Longrightarrow>
      live inv abs m s \<Longrightarrow>
      yields inv abs kv m s (apply_subtree cr kv s acc (ot_child (sha256 cr) t) (prefix @ [n]) us)
        (\<lambda>(c, acc'). \<exists>t'. c = ot_child (sha256 cr) t' \<and> applied cr upd (prefix @ [n]) (set us) acc t t' acc')"
    and d: "length prefix < NIBBLES"
  shows "us_ok upd prefix us \<Longrightarrow> acc_ok upd acc \<Longrightarrow> slots_pending cr m prefix acc (set us) ts \<Longrightarrow> live inv abs m s \<Longrightarrow>
    yields inv abs kv m s (apply_groups cr kv s acc prefix us (map (ot_child (sha256 cr)) ts) changed)
      (\<lambda>(cs, changed', acc'). \<exists>ts'. cs = map (ot_child (sha256 cr)) ts' \<and> (changed' \<longleftrightarrow> changed \<or> ts' \<noteq> ts) \<and>
         slots_re (sha256 cr) (ac_new_version acc) prefix (set us) ts ts' \<and>
         acc_step upd (slot_fresh (sha256 cr) (ac_new_version acc) prefix ts') (slot_dead (sha256 cr) prefix ts ts') (slot_leaves ts') acc acc')"
proof (induction "length us" arbitrary: us acc ts s changed rule: less_induct)
  case less
  let ?H = "sha256 cr" and ?nv = "ac_new_version acc"
  have wf: "slots_wf prefix ts" and len: "length ts = 16" using less.prems(3) by (auto simp: slots_pending_def slots_wf_def)
  show ?case
  proof (cases us)
    case Nil
    have "slots_re ?H ?nv prefix {} ts ts"
      using wf by (auto simp: slots_re_def slots_wf_def slot_updates_def intro!: retree_refl)
    with Nil less.prems show ?thesis
      by (auto intro!: yields_value slots_pending_Nil)
  next
    case (Cons u qs)
    define nib where "nib = nibble (fst u) (length prefix)"
    define grp where "grp = takeWhile (\<lambda>q. nibble (fst q) (length prefix) = nib) qs"
    define rest where "rest = dropWhile (\<lambda>q. nibble (fst q) (length prefix) = nib) qs"
    have su: "sorted_under prefix (u # qs)" using less.prems(1) by (simp add: us_ok_def Cons)
    note split = group_split [OF su d nib_def [symmetric] grp_def [symmetric] rest_def [symmetric]]
    have small: "unat nib < 16" "word_of_nat (unat nib) = nib" by (simp_all add: nib_def nibble_small)
    have gset: "set (u # grp) = slot_updates (length prefix) (set us) (unat nib)"
      using split(1) by (simp add: slot_updates_def Cons)
    have ug: "us_ok upd (prefix @ [nib]) (u # grp)" and ur: "us_ok upd prefix rest"
      using less.prems(1) split by (fastforce simp: us_ok_def Cons)+
    have touched: "slot_updates (length prefix) (set us) (unat nib) \<noteq> {}" by (simp flip: gset)
    then have slot: "pred_option (tree_stored cr m (prefix @ [nib])) (ts ! unat nib)"
      "old_tree ?H ?nv (prefix @ [nib]) (ts ! unat nib)" "fresh_below acc (prefix @ [nib])"
      using less.prems(3) small by (auto simp: slots_pending_def)
    from IH [OF ug less.prems(2) slot(3,1,2) less.prems(4)] show ?thesis
    proof (cases rule: yieldsE)
      case (1 x s1)
      then obtain t acc1 where x: "x = (ot_child ?H t, acc1)"
        and app: "applied cr upd (prefix @ [nib]) (slot_updates (length prefix) (set us) (unat nib)) acc (ts ! unat nib) t acc1"
        unfolding gset by auto
      have step: "acc_step upd (fresh_nodes ?H ?nv (prefix @ [nib]) t) (dead ?H (prefix @ [nib]) (ts ! unat nib) t) (set (ot_leaves t)) acc acc1"
        and re: "retree ?H ?nv (prefix @ [nib]) (slot_updates (length prefix) (set us) (unat nib)) (ts ! unat nib) t"
        using app unfolding applied_def by blast+
      have nv: "ac_new_version acc1 = ?nv" and ok1: "acc_ok upd acc1" using step by (auto simp: acc_step_def)
      have rset: "set rest = {u \<in> set us. nibble (fst u) (length prefix) \<noteq> nib}" using split(2) by (simp add: Cons)
      have pend: "slots_pending cr m prefix acc1 (set rest) (ts[unat nib := t])"
        by (rule slots_pending_step [OF less.prems(3) app small(1) rset])
      have "length rest < length us" by (simp add: Cons rest_def length_dropWhile_le less_Suc_eq_le)
      note IH2 = less.hyps [OF this ur ok1 pend 1(3), of "changed \<or> t \<noteq> ts ! unat nib"]
      have run: "apply_groups cr kv s acc prefix us (map (ot_child ?H) ts) changed =
          apply_groups cr kv s1 acc1 prefix rest (map (ot_child ?H) (ts[unat nib := t])) (changed \<or> t \<noteq> ts ! unat nib)"
      proof -
        have "(map (ot_child ?H) ts)[unat nib := ot_child ?H (ts ! unat nib)] = map (ot_child ?H) ts"
          by (simp flip: map_update)
        then show ?thesis
          using d 1(1) x small(1) len retree_child [OF re slot(2)]
          by (auto simp: Cons Let_def map_update simp flip: nib_def grp_def rest_def)
      qed
      show ?thesis
        unfolding run
      proof (rule yields_trans [OF 1(4)], rule yields_mono [OF IH2], clarify)
        fix ts' acc'
        assume r: "slots_re ?H (ac_new_version acc1) prefix (set rest) (ts[unat nib := t]) ts'"
          "acc_step upd (slot_fresh ?H (ac_new_version acc1) prefix ts') (slot_dead ?H prefix (ts[unat nib := t]) ts') (slot_leaves ts') acc1 acc'"
        note c = slots_re_Cons [OF wf small(1) re rset r(1) [unfolded nv] touched]
        have "acc_step upd (slot_fresh ?H ?nv prefix ts') (slot_dead ?H prefix ts ts') (slot_leaves ts') acc acc'"
          by (rule acc_step_eq [OF acc_step_trans [OF step r(2) [unfolded nv]]])
            (use slot_fresh_slot [OF small(1), of ?H ?nv prefix ts'] slot_leaves_slot [OF small(1), of ts'] c(2) small
               slot_dead_Cons [OF len small(1) c(2), of ?H prefix] in auto)
        with c show "\<exists>ts''. map (ot_child ?H) ts' = map (ot_child ?H) ts'' \<and>
            ((changed \<or> t \<noteq> ts ! unat nib) \<or> ts' \<noteq> ts[unat nib := t] \<longleftrightarrow> changed \<or> ts'' \<noteq> ts) \<and>
            slots_re ?H ?nv prefix (set us) ts ts'' \<and>
            acc_step upd (slot_fresh ?H ?nv prefix ts'') (slot_dead ?H prefix ts ts'') (slot_leaves ts'') acc acc'"
          by blast
      qed
    next
      case (2 e s1)
      then have "apply_groups cr kv s acc prefix us (map (ot_child ?H) ts) changed = (Inl e, s1)"
        using d small(1) len by (simp add: Cons Let_def flip: nib_def grp_def rest_def)
      with 2 show ?thesis by (simp add: yields_fault)
    qed
  qed
qed

end

lemma flatten_single:
  "flatten cs = [c] \<Longrightarrow> \<exists>i < length cs. cs ! i = Some c \<and> (\<forall>j < length cs. j \<noteq> i \<longrightarrow> cs ! j = None) \<and>
     length (takeWhile (\<lambda>c. c = None) cs) = i"
proof (induction cs)
  case (Cons x cs)
  show ?case
  proof (cases x)
    case None
    with Cons obtain i where "i < length cs" "cs ! i = Some c" "\<forall>j < length cs. j \<noteq> i \<longrightarrow> cs ! j = None"
      "length (takeWhile (\<lambda>c. c = None) cs) = i" by auto
    then show ?thesis using None by (intro exI [of _ "Suc i"]) (auto simp: nth_Cons split: nat.splits)
  next
    case (Some y)
    with Cons.prems have "y = c" "flatten cs = []" by auto
    then show ?thesis using Some by (intro exI [of _ 0]) (auto simp: flatten_Nil_iff nth_Cons split: nat.splits)
  qed
qed simp

lemma slots_two_leaves:
  assumes wf: "slots_wf prefix ts" and d: "length prefix < NIBBLES"
    and "flatten (map (ot_child H) ts) \<noteq> []"
    and "\<And>c. flatten (map (ot_child H) ts) = [c] \<Longrightarrow> \<not> c_is_leaf c"
  shows "2 \<le> length (concat (map ot_leaves ts))"
proof -
  have "list_all2 (\<lambda>c es. case c of None \<Rightarrow> es = []
      | Some ch \<Rightarrow> es \<noteq> [] \<and> (c_is_leaf ch \<longleftrightarrow> length es = 1) \<and> c_hash ch = smt H (4 * length prefix + 4) (map leaf_entry es))
    (map (ot_child H) ts) (map ot_leaves ts)"
  proof (rule list_all2_all_nthI)
    fix i
    assume "i < length (map (ot_child H) ts)"
    then have i: "i < length ts" "pred_option (pt_wf (prefix @ [word_of_nat i])) (ts ! i)" using wf by (auto simp: slots_wf_def)
    then show "case map (ot_child H) ts ! i of None \<Rightarrow> map ot_leaves ts ! i = []
      | Some ch \<Rightarrow> map ot_leaves ts ! i \<noteq> [] \<and> (c_is_leaf ch \<longleftrightarrow> length (map ot_leaves ts ! i) = 1) \<and>
          c_hash ch = smt H (4 * length prefix + 4) (map leaf_entry (map ot_leaves ts ! i))"
      by (cases "ts ! i") (auto simp: pt_leaves_nonempty pt_is_leaf_leaves pt_hash_smt algebra_simps)
  qed simp
  note present = present_entries [OF this]
  show ?thesis
  proof (cases "flatten (map (ot_child H) ts)" rule: remdups_adj.cases)
    case (2 c)
    then show ?thesis using present(2) [OF 2] assms(4) [OF 2]
      by (cases "concat (map ot_leaves ts)" rule: remdups_adj.cases) (auto simp del: concat_eq_Nil_conv)
  next
    case (3 a b cs)
    then show ?thesis using present(3) by simp
  qed (use assms(3) in simp)
qed

lemma slots_re_wf: "slots_re H nv prefix us ts ts' \<Longrightarrow> slots_wf prefix ts'"
  by (auto simp: slots_re_def slots_wf_def retree_def)

lemma slots_re_leaves:
  assumes "slots_wf prefix ts" "slots_re H nv prefix us ts ts'"
  shows "slot_leaves ts' = updated nv us (slot_leaves ts)"
  unfolding slot_leaves_def
  by (rule updated_slots [of "\<lambda>i. set (ot_leaves (ts ! i))" "length prefix"])
    (use assms in \<open>auto simp: slots_re_def retree_def intro: slots_wf_nibble\<close>)

lemma node_leaves: "length ts = 16 \<Longrightarrow> set (pt_leaves (PNode v ts)) = slot_leaves ts"
  unfolding pt_leaves_node by (rule slot_leaves_concat)

lemma node_slots_wf: "pt_wf prefix (PNode v ts) \<Longrightarrow> slots_wf prefix ts \<and> length prefix < NIBBLES \<and> length ts = 16"
  by (auto simp: pt_wf_node slots_wf_def option.pred_set)

text \<open>The three shapes a changed node can take.\<close>

lemma dead_node_gone:
  assumes wf: "slots_wf prefix ts" "slots_wf prefix ts'" and keys: "fst ` ot_nodes H prefix t' \<inter> fst ` pt_nodes H prefix (PNode v ts) = {}"
    and leaves: "set (ot_leaves t') = slot_leaves ts'"
  shows "dead H prefix (Some (PNode v ts)) t' =
    insert (node_record_key (NodeKey v prefix)) (node_record_key ` fst ` slot_nodes H prefix ts \<union> slot_dead H prefix ts ts')"
proof -
  have len: "length ts = 16" using wf by (simp add: slots_wf_def)
  have "fst ` pt_nodes H prefix (PNode v ts) - fst ` ot_nodes H prefix t' = insert (NodeKey v prefix) (fst ` slot_nodes H prefix ts)"
    using keys unfolding pt_nodes_slots [OF len] by auto
  then show ?thesis
    unfolding dead_def dead_nodes_def slot_dead_eq [OF wf] leaves using node_leaves [OF len, of v] by auto
qed

lemma dead_node_kept:
  assumes wf: "slots_wf prefix ts" "slots_wf prefix ts'" and "v \<noteq> nv"
  shows "dead H prefix (Some (PNode v ts)) (Some (PNode nv ts')) =
    insert (node_record_key (NodeKey v prefix)) (slot_dead H prefix ts ts')"
proof -
  have len: "length ts = 16" "length ts' = 16" using wf by (simp_all add: slots_wf_def)
  have "NodeKey x prefix \<notin> fst ` slot_nodes H prefix us" for x us
    by (auto dest: slot_nodes_not_here)
  then have "fst ` pt_nodes H prefix (PNode v ts) - fst ` pt_nodes H prefix (PNode nv ts') =
      insert (NodeKey v prefix) (fst ` slot_nodes H prefix ts - fst ` slot_nodes H prefix ts')"
    using assms(3) unfolding pt_nodes_slots [OF len(1)] pt_nodes_slots [OF len(2)] by auto
  then show ?thesis
    unfolding dead_def dead_nodes_def slot_dead_eq [OF wf] using node_leaves [OF len(1), of v] node_leaves [OF len(2), of nv] by auto
qed

lemma slot_fresh_here: "NodeKey x prefix \<notin> fst ` slot_fresh H nv prefix ts"
  by (auto simp: slot_fresh_def fresh_nodes_def dest!: ot_nodes_below below_snoc)

lemma fresh_nodes_node:
  "length ts = 16 \<Longrightarrow> fresh_nodes H nv prefix (Some (PNode nv ts)) =
     insert (NodeKey nv prefix, Internal (map (ot_child H) ts)) (slot_fresh H nv prefix ts)"
  by (auto simp: fresh_nodes_def pt_nodes_slots slot_fresh_def slot_nodes_def)

lemma slots_re_nodes:
  assumes "slots_re H nv prefix us ts ts'"
  shows "slot_nodes H prefix ts' \<subseteq> slot_fresh H nv prefix ts' \<union> slot_nodes H prefix ts"
proof
  fix x
  assume "x \<in> slot_nodes H prefix ts'"
  then obtain i where i: "i < 16" "x \<in> ot_nodes H (prefix @ [word_of_nat i]) (ts' ! i)" by (auto simp: slot_nodes_def)
  then have "x \<in> fresh_nodes H nv (prefix @ [word_of_nat i]) (ts' ! i) \<union> ot_nodes H (prefix @ [word_of_nat i]) (ts ! i)"
    using assms by (auto simp: slots_re_def retree_def)
  then show "x \<in> slot_fresh H nv prefix ts' \<union> slot_nodes H prefix ts"
    using i(1) by (auto simp: slot_fresh_def slot_nodes_def)
qed

lemma old_slots:
  assumes "old_tree H nv prefix (Some (PNode v ts))" "length ts = 16"
  shows "v < nv" "i < 16 \<Longrightarrow> old_tree H nv (prefix @ [word_of_nat i]) (ts ! i)" "slot_fresh H nv prefix ts = {}"
proof -
  have nodes: "\<And>nk n. (nk, n) \<in> slot_nodes H prefix ts \<Longrightarrow> nk_version nk < nv" and "v < nv"
    and leaves: "\<And>l. l \<in> slot_leaves ts \<Longrightarrow> lf_value_version l < nv"
    using assms(1) unfolding old_tree_def ot_nodes_simps pt_nodes_slots [OF assms(2)] ot_leaves_simps node_leaves [OF assms(2)]
    by auto
  then show "v < nv" "i < 16 \<Longrightarrow> old_tree H nv (prefix @ [word_of_nat i]) (ts ! i)"
    using slot_leaves_slot [of i ts] by (auto simp: old_tree_def slot_nodes_def)
  show "slot_fresh H nv prefix ts = {}"
    using nodes by (fastforce simp: slot_fresh_def fresh_nodes_def slot_nodes_def)
qed

lemma slots_re_same:
  assumes "slots_re H nv prefix us ts ts'" "slots_wf prefix ts" "slot_leaves ts' = slot_leaves ts"
  shows "ts' = ts"
proof (rule nth_equalityI)
  fix i
  assume "i < length ts'"
  then have i: "i < 16" using assms(1) by (simp add: slots_re_def)
  have "set (ot_leaves (ts' ! i)) = set (ot_leaves (ts ! i))"
    using slot_leaves_diff [OF assms(2) slots_re_wf [OF assms(1)]] slot_leaves_diff [OF slots_re_wf [OF assms(1)] assms(2)] i
    unfolding assms(3) by auto
  then show "ts' ! i = ts ! i" using assms(1) i unfolding slots_re_def retree_def by blast
qed (use assms in \<open>simp add: slots_re_def slots_wf_def\<close>)

lemma retree_node:
  assumes "slots_re H nv prefix us ts ts'" "pt_wf prefix (PNode v ts)" "2 \<le> length (concat (map ot_leaves ts'))" "ts' \<noteq> ts"
  shows "retree H nv prefix us (Some (PNode v ts)) (Some (PNode nv ts'))"
proof -
  have len: "length ts' = 16" "length ts = 16" "slots_wf prefix ts" "length prefix < NIBBLES"
    using assms(1,2) node_slots_wf by (auto simp: slots_re_def)
  have change: "slot_leaves ts' \<noteq> slot_leaves ts" using slots_re_same [OF assms(1) len(3)] assms(4) by blast
  have "pt_wf prefix (PNode nv ts')"
    using slots_re_wf [OF assms(1)] len assms(3) by (auto simp: pt_wf_node slots_wf_def option.pred_set)
  moreover have "pt_nodes H prefix (PNode nv ts') \<subseteq> fresh_nodes H nv prefix (Some (PNode nv ts')) \<union> pt_nodes H prefix (PNode v ts)"
    using slots_re_nodes [OF assms(1)] unfolding fresh_nodes_node [OF len(1)] pt_nodes_slots [OF len(1)] pt_nodes_slots [OF len(2)] by auto
  ultimately show ?thesis
    using slots_re_leaves [OF len(3) assms(1)] change by (simp add: retree_def node_leaves len(1,2))
qed

text \<open>Hoisting a lone leaf.\<close>

lemma retree_hoist:
  assumes "slots_re H nv prefix us ts ts'" "pt_wf prefix (PNode v ts)" "slot_leaves ts' = {l}"
  shows "retree H nv prefix us (Some (PNode v ts)) (Some (PLeaf nv l))"
proof -
  note wf = node_slots_wf [OF assms(2)]
  have "distinct (pt_leaves (PNode v ts))" using pt_leaves_distinct [OF assms(2)] by (simp add: distinct_map)
  moreover have "2 \<le> length (pt_leaves (PNode v ts))" using assms(2) by (simp add: pt_wf_node pt_leaves_node)
  ultimately have "set (pt_leaves (PNode v ts)) \<noteq> {l}" using distinct_card [of "pt_leaves (PNode v ts)"] by force
  then have two: "slot_leaves ts \<noteq> {l}" using wf by (simp add: node_leaves)
  from assms(3) obtain i where i: "i < 16" "l \<in> set (ot_leaves (ts' ! i))" by (auto simp: slot_leaves_def)
  then have "leaf_ok l \<and> under prefix (lf_path l)"
    using slots_re_wf [OF assms(1)] pt_wf_leaf [of "prefix @ [word_of_nat i]" _ l]
    by (cases "ts' ! i") (auto simp: slots_wf_def under_snoc)
  then show ?thesis
    using slots_re_leaves [of prefix ts H nv us ts'] wf assms two by (auto simp: retree_def node_leaves fresh_nodes_def)
qed

context kv_contract
begin

lemma take_leaf_hoist:
  assumes live: "live inv abs m s" and cr: "crypto_ok cr"
    and only: "ts' ! i = Some (PLeaf cv l)" "i < 16" "\<forall>j < 16. j \<noteq> i \<longrightarrow> ts' ! j = None"
    and re: "slots_re (sha256 cr) (ac_new_version acc) prefix us ts ts'"
    and stored: "tree_stored cr m prefix (PNode v ts)" and old: "old_tree (sha256 cr) (ac_new_version acc) prefix (Some (PNode v ts))"
    and fresh: "fresh_below acc prefix"
    and step: "acc_step upd (slot_fresh (sha256 cr) (ac_new_version acc) prefix ts') stales (slot_leaves ts') acc acc1"
  shows "yields inv abs kv m s (take_leaf cr kv s acc1 (pt_child (sha256 cr) (PLeaf cv l)) (prefix @ [word_of_nat i]))
    (\<lambda>(l', acc'). l' = l \<and> acc_step upd {} (stales \<union> (if cv = ac_new_version acc then {} else {node_record_key (NodeKey cv (prefix @ [word_of_nat i]))})) {l} acc acc' \<and>
       (cv \<noteq> ac_new_version acc \<longrightarrow> ts ! i = Some (PLeaf cv l)))"
proof -
  let ?H = "sha256 cr" and ?nv = "ac_new_version acc" and ?key = "NodeKey cv (prefix @ [word_of_nat i])"
  have split: "{..<16} = insert i ({..<16} - {i})" using only(2) by auto
  have leaves: "slot_leaves ts' = {l}"
    unfolding slot_leaves_def by (subst split, simp only: UN_insert only(1)) (use only(3) in auto)
  have news: "slot_fresh ?H ?nv prefix ts' = (if cv = ?nv then {(?key, Leaf l)} else {})"
    unfolding slot_fresh_def
    by (subst split, simp only: UN_insert only(1)) (use only(3) in \<open>auto simp: fresh_nodes_def\<close>)
  have nv: "ac_new_version acc1 = ?nv" and ok1: "acc_ok upd acc1" using step by (auto simp: acc_step_def)
  show ?thesis
  proof (cases "cv = ?nv")
    case True
    have pend: "set (ac_pending acc1) = insert (?key, Leaf l) (set (ac_pending acc))"
      using step news True by (simp add: acc_step_def)
    have get: "bt_get (ac_pending acc1) ?key = Some (Leaf l)"
      using pend ok1 btree.entries_get [of "ac_pending acc1" ?key "Leaf l"] by (simp add: acc_ok_def)
    have "fst e \<noteq> ?key" if "e \<in> set (ac_pending acc)" for e
    proof
      assume "fst e = ?key"
      moreover have "below prefix ?key" by (simp add: below_def)
      ultimately show False using fresh that by (cases e) (auto simp: fresh_below_def)
    qed
    then have "set (bt_remove ?key (ac_pending acc1)) = set (ac_pending acc)"
      unfolding set_bt_remove pend by auto
    then have "acc_step upd {} stales {l} acc (acc1\<lparr>ac_pending := bt_remove ?key (ac_pending acc1)\<rparr>)"
      using step leaves by (auto simp: acc_step_def acc_ok_def btree.inv_remove)
    then show ?thesis
      using True get live by (simp add: take_leaf_def nv yields_value)
  next
    case False
    then have slot: "ts ! i = Some (PLeaf cv l)"
      using re only(1,2) by (force simp: slots_re_def retree_def)
    from load_tree_reads [OF live tree_stored_slot [OF stored only(2) slot] cr] show ?thesis
    proof (cases rule: readsE)
      case (1 s')
      have "acc_step upd {} (stales \<union> {node_record_key ?key}) {l} acc (add_stale (node_record_key ?key) acc1)"
        by (rule acc_step_eq [OF acc_step_trans [OF step add_stale_step [OF ok1]]]) (simp_all add: news False leaves)
      then show ?thesis
        using 1 False slot nv by (simp add: take_leaf_def yields_value)
    next
      case (2 e s')
      then show ?thesis using False nv by (simp add: take_leaf_def yields_fault)
    qed
  qed
qed

end

lemma fresh_nodes_leaf: "fresh_nodes H nv prefix (Some (PLeaf nv l)) = {(NodeKey nv prefix, Leaf l)}"
  by (auto simp: fresh_nodes_def)

lemma hoist_dead:
  assumes wf: "slots_wf prefix ts" "slots_wf prefix ts'" and old: "old_tree H nv prefix (Some (PNode v ts))"
    and only: "ts' ! i = Some (PLeaf cv l)" "i < 16" "\<forall>j < 16. j \<noteq> i \<longrightarrow> ts' ! j = None"
    and kept: "cv \<noteq> nv \<longrightarrow> ts ! i = Some (PLeaf cv l)"
  shows "dead H prefix (Some (PNode v ts)) (Some (PLeaf nv l)) =
    insert (node_record_key (NodeKey v prefix)) (slot_dead H prefix ts ts') \<union>
      (if cv = nv then {} else {node_record_key (NodeKey cv (prefix @ [word_of_nat i]))})"
proof -
  let ?key = "NodeKey cv (prefix @ [word_of_nat i])"
  have len: "length ts = 16" using wf by (simp add: slots_wf_def)
  have split: "{..<16} = insert i ({..<16} - {i})" using only(2) by auto
  have leaves: "slot_leaves ts' = {l}"
    unfolding slot_leaves_def by (subst split, simp only: UN_insert only(1)) (use only(3) in auto)
  have keys': "fst ` slot_nodes H prefix ts' = {?key}"
    unfolding slot_nodes_def by (subst split, simp only: UN_insert only(1)) (use only(3) in auto)
  have older: "nk_version nk < nv" if "nk \<in> fst ` pt_nodes H prefix (PNode v ts)" for nk
    using old that by (auto simp: old_tree_def)
  then have disj: "fst ` ot_nodes H prefix (Some (PLeaf nv l)) \<inter> fst ` pt_nodes H prefix (PNode v ts) = {}"
    by fastforce
  have sub: "fst ` slot_nodes H prefix ts \<subseteq> fst ` pt_nodes H prefix (PNode v ts)"
    unfolding pt_nodes_slots [OF len] by auto
  have gone: "node_record_key ` fst ` slot_nodes H prefix ts \<union> slot_dead H prefix ts ts' =
      slot_dead H prefix ts ts' \<union> (if cv = nv then {} else {node_record_key ?key})"
  proof (cases "cv = nv")
    case True
    then have "?key \<notin> fst ` slot_nodes H prefix ts" using older sub by fastforce
    then show ?thesis unfolding slot_dead_eq [OF wf] keys' using True by auto
  next
    case False
    then have "?key \<in> fst ` slot_nodes H prefix ts"
      using kept only(2) by (force simp: slot_nodes_def)
    then show ?thesis unfolding slot_dead_eq [OF wf] keys' using False by auto
  qed
  have "set (ot_leaves (Some (PLeaf nv l))) = slot_leaves ts'" by (simp add: leaves)
  from dead_node_gone [OF wf disj this] show ?thesis unfolding gone by simp
qed

context kv_contract
begin

lemma apply_internal_end_applied:
  assumes live: "live inv abs m s" and cr: "crypto_ok cr"
    and re: "slots_re (sha256 cr) (ac_new_version acc) prefix us ts ts'"
    and stored: "tree_stored cr m prefix (PNode v ts)" and old: "old_tree (sha256 cr) (ac_new_version acc) prefix (Some (PNode v ts))"
    and fresh: "fresh_below acc prefix" and ok: "acc_ok upd acc"
    and step: "acc_step upd (slot_fresh (sha256 cr) (ac_new_version acc) prefix ts') (slot_dead (sha256 cr) prefix ts ts') (slot_leaves ts') acc acc1"
  shows "yields inv abs kv m s
      (apply_internal_end cr kv s acc1 (pt_child (sha256 cr) (PNode v ts)) prefix (map (ot_child (sha256 cr)) ts') (ts' \<noteq> ts))
    (\<lambda>(c, acc'). \<exists>t'. c = ot_child (sha256 cr) t' \<and> applied cr upd prefix us acc (Some (PNode v ts)) t' acc')"
proof -
  let ?H = "sha256 cr" and ?nv = "ac_new_version acc" and ?t = "PNode v ts" and ?cs = "map (ot_child (sha256 cr)) ts'"
  have wf: "pt_wf prefix ?t" using stored by (simp add: tree_stored_def)
  have sw: "slots_wf prefix ts" "length prefix < NIBBLES" "length ts = 16" "slots_wf prefix ts'" "length ts' = 16"
    using node_slots_wf [OF wf] slots_re_wf [OF re] by (auto simp: slots_wf_def)
  note leaves = slots_re_leaves [OF sw(1) re]
  have lt: "set (ot_leaves (Some ?t)) = slot_leaves ts" by (simp add: node_leaves sw(3))
  have v: "v < ?nv" "slot_fresh ?H ?nv prefix ts = {}" using old_slots [OF old sw(3)] by auto
  define acc2 where "acc2 = add_stale (node_record_key (NodeKey v prefix)) acc1"
  have ok1: "acc_ok upd acc1" using step by (simp add: acc_step_def)
  have step2: "acc_step upd (slot_fresh ?H ?nv prefix ts') (insert (node_record_key (NodeKey v prefix)) (slot_dead ?H prefix ts ts')) (slot_leaves ts') acc acc2"
    unfolding acc2_def by (rule acc_step_eq [OF acc_step_trans [OF step add_stale_step [OF ok1]]]) auto
  have ok2: "acc_ok upd acc2" "ac_new_version acc2 = ?nv" using step2 by (auto simp: acc_step_def)
  have free: "bt_get (ac_pending acc') (NodeKey ?nv prefix) = None"
    if "acc_step upd news st ls acc acc'" "NodeKey ?nv prefix \<notin> fst ` news" for news st ls acc'
  proof (cases "bt_get (ac_pending acc') (NodeKey ?nv prefix)")
    case (Some n)
    then have "(NodeKey ?nv prefix, n) \<in> set (ac_pending acc) \<union> news"
      using that(1) btree.entries_get [of "ac_pending acc'"] by (auto simp: acc_step_def acc_ok_def)
    moreover have "(NodeKey ?nv prefix, n) \<notin> set (ac_pending acc)" using fresh by (auto simp: fresh_below_def)
    moreover have "(NodeKey ?nv prefix, n) \<notin> news" using that(2) by (force simp: image_iff)
    ultimately show ?thesis by blast
  qed
  consider "ts' = ts" | "ts' \<noteq> ts" "flatten ?cs = []" | c where "ts' \<noteq> ts" "flatten ?cs = [c]" "c_is_leaf c"
    | "ts' \<noteq> ts" "flatten ?cs \<noteq> []" "\<And>c. flatten ?cs = [c] \<Longrightarrow> \<not> c_is_leaf c"
    by blast
  then show ?thesis
  proof cases
    case 1
    have up: "updated ?nv us (slot_leaves ts) = slot_leaves ts" using leaves 1 by simp
    have "acc_step upd {} {} (slot_leaves ts) acc acc1"
      using step v(2) unfolding 1 slot_dead_def by simp
    then have "applied cr upd prefix us acc (Some ?t) (Some ?t) acc1"
      using wf up by (simp add: applied_def retree_def old_fresh [OF old] node_leaves sw(3))
    then show ?thesis
      using 1 live by (auto simp: apply_internal_end_def intro!: yields_value exI [of _ "Some ?t"])
  next
    case 2
    then have none: "ts' ! i = None" if "i < 16" for i
      using that sw(5) by (auto simp: flatten_Nil_iff)
    have e: "slot_leaves ts' = {}" "slot_fresh ?H ?nv prefix ts' = {}" "slot_nodes ?H prefix ts' = {}"
      using none by (auto simp: slot_leaves_def slot_fresh_def fresh_nodes_def slot_nodes_def)
    have "dead ?H prefix (Some ?t) None = insert (node_record_key (NodeKey v prefix)) (slot_dead ?H prefix ts ts')"
      using dead_node_gone [OF sw(1,4), of ?H None v] e unfolding slot_dead_eq [OF sw(1,4)] by auto
    moreover have "updated ?nv us (slot_leaves ts) = {}" using leaves e by simp
    moreover have "slot_leaves ts \<noteq> {}" using pt_leaves_nonempty [OF wf] sw(3) by (simp flip: node_leaves [where v = v])
    ultimately have "applied cr upd prefix us acc (Some ?t) None acc2"
      using step2 e by (simp add: applied_def retree_def node_leaves sw(3) fresh_nodes_def)
    then show ?thesis
      using 2 live by (auto simp: apply_internal_end_def Let_def acc2_def intro!: yields_value)
  next
    case 3
    from flatten_single [OF 3(2)] obtain i where i: "i < 16" "?cs ! i = Some c" "\<forall>j < 16. j \<noteq> i \<longrightarrow> ?cs ! j = None"
      "length (takeWhile (\<lambda>c. c = None) ?cs) = i" using sw(5) by auto
    then obtain t where t: "ts' ! i = Some t" "c = pt_child ?H t" using sw(5) by auto
    then obtain cv l where only: "ts' ! i = Some (PLeaf cv l)" "c = pt_child ?H (PLeaf cv l)" using 3(3) by (cases t) auto
    have others: "\<forall>j < 16. j \<noteq> i \<longrightarrow> ts' ! j = None" using i(3) sw(5) by auto
    have one: "slot_leaves ts' = {l}"
    proof -
      have split: "{..<16} = insert i ({..<16} - {i})" using i(1) by auto
      show ?thesis unfolding slot_leaves_def by (subst split, simp only: UN_insert only(1)) (use others in auto)
    qed
    from take_leaf_hoist [OF live cr only(1) i(1) others re stored old fresh step2] show ?thesis
    proof (cases rule: yieldsE)
      case (1 x s')
      then obtain acc3 where x: "x = (l, acc3)" and kept: "cv \<noteq> ?nv \<longrightarrow> ts ! i = Some (PLeaf cv l)"
        and step3: "acc_step upd {} (insert (node_record_key (NodeKey v prefix)) (slot_dead ?H prefix ts ts') \<union>
          (if cv = ?nv then {} else {node_record_key (NodeKey cv (prefix @ [word_of_nat i]))})) {l} acc acc3"
        by auto
      have ok3: "acc_ok upd acc3" "ac_new_version acc3 = ?nv" using step3 by (auto simp: acc_step_def)
      have src: "lf_value_version l = ac_new_version acc3 \<Longrightarrow> upd (lf_path l) = Some (Some (lf_vh l)) \<or> bt_get (ac_values acc3) (lf_vh l) \<noteq> None"
        using step3 ok3 by (simp add: acc_step_def)
      have fr: "bt_get (ac_pending acc3) (NodeKey (ac_new_version acc3) prefix) = None"
        unfolding ok3(2) by (rule free [OF step3]) simp
      obtain acc4 where put: "put_leaf cr acc3 prefix l = Inr (pt_child ?H (PLeaf ?nv l), acc4)"
        "acc_step upd (pt_nodes ?H prefix (PLeaf ?nv l)) {} {l} acc3 acc4"
        by (rule put_leaf_step [OF ok3(1) fr src, of cr]) (simp_all add: ok3(2))
      have "acc_step upd (pt_nodes ?H prefix (PLeaf ?nv l)) (dead ?H prefix (Some ?t) (Some (PLeaf ?nv l))) {l} acc acc4"
        unfolding hoist_dead [OF sw(1,4) old only(1) i(1) others kept]
        by (rule acc_step_eq [OF acc_step_trans [OF step3 put(2)]]) auto
      then have "applied cr upd prefix us acc (Some ?t) (Some (PLeaf ?nv l)) acc4"
        using retree_hoist [OF re wf one] by (simp add: applied_def fresh_nodes_leaf)
      then show ?thesis
        using 1 x 3 i only put(1)
        by (auto simp: apply_internal_end_def Let_def acc2_def intro!: yields_value exI [of _ "Some (PLeaf ?nv l)"])
    next
      case (2 e s')
      then show ?thesis
        using 3 i only by (auto simp: apply_internal_end_def Let_def acc2_def intro!: yields_fault)
    qed
  next
    case 4
    have two: "2 \<le> length (concat (map ot_leaves ts'))"
      by (rule slots_two_leaves [OF sw(4,2) 4(2,3)])
    have fr: "bt_get (ac_pending acc2) (NodeKey (ac_new_version acc2) prefix) = None"
      unfolding ok2(2) by (rule free [OF step2]) (rule slot_fresh_here)
    obtain acc3 where put: "put_internal cr acc2 prefix ?cs = (pt_child ?H (PNode ?nv ts'), acc3)"
      "acc_step upd {(NodeKey ?nv prefix, Internal ?cs)} {} {} acc2 acc3"
      by (rule put_internal_step [OF ok2(1) fr, of cr ts']) (simp_all add: ok2(2))
    have "acc_step upd (fresh_nodes ?H ?nv prefix (Some (PNode ?nv ts'))) (dead ?H prefix (Some ?t) (Some (PNode ?nv ts'))) (slot_leaves ts') acc acc3"
      unfolding fresh_nodes_node [OF sw(5)] dead_node_kept [OF sw(1,4) less_imp_neq [OF v(1)]]
      by (rule acc_step_eq [OF acc_step_trans [OF step2 put(2)]]) auto
    then have "applied cr upd prefix us acc (Some ?t) (Some (PNode ?nv ts')) acc3"
      using retree_node [OF re wf two 4(1)] by (simp add: applied_def node_leaves sw(5))
    moreover have "apply_internal_end cr kv s acc1 (pt_child ?H ?t) prefix ?cs (ts' \<noteq> ts) = (Inr (Some (pt_child ?H (PNode ?nv ts')), acc3), s)"
      using 4 put(1) by (cases "flatten ?cs" rule: remdups_adj.cases)
        (auto simp: apply_internal_end_def Let_def acc2_def)
    ultimately show ?thesis using live by (auto intro!: yields_value exI [of _ "Some (PNode ?nv ts')"])
  qed
qed

end

context kv_contract
begin

lemma apply_subtree_applied:
  assumes cr: "crypto_ok cr"
  shows "us_ok upd prefix us \<Longrightarrow> acc_ok upd acc \<Longrightarrow> fresh_below acc prefix \<Longrightarrow> length prefix \<le> NIBBLES \<Longrightarrow>
    pred_option (tree_stored cr m prefix) t \<Longrightarrow> old_tree (sha256 cr) (ac_new_version acc) prefix t \<Longrightarrow> live inv abs m s \<Longrightarrow>
    yields inv abs kv m s (apply_subtree cr kv s acc (ot_child (sha256 cr) t) prefix us)
      (\<lambda>(c, acc'). \<exists>t'. c = ot_child (sha256 cr) t' \<and> applied cr upd prefix (set us) acc t t' acc')"
proof (induction "NIBBLES - length prefix" arbitrary: prefix us acc t s rule: less_induct)
  case less
  let ?H = "sha256 cr" and ?nv = "ac_new_version acc"
  have wf: "pred_option (pt_wf prefix) t" using less.prems(5) by (auto simp: option.pred_set tree_stored_def)
  show ?case
  proof (cases us)
    case Nil
    with less.prems wf have "applied cr upd prefix (set us) acc t t acc"
      by (intro unchanged_applied) simp_all
    then show ?thesis using Nil less.prems(7) by (auto intro!: yields_value)
  next
    case (Cons u qs)
    show ?thesis
    proof (cases t)
      case None
      from inserts_applied [OF less.prems(1-4), of cr] show ?thesis
        using Cons None less.prems(7) by (auto intro!: yields_value)
    next
      case (Some tr)
      then have stored: "tree_stored cr m prefix tr" using less.prems(5) by simp
      from load_tree_reads [OF less.prems(7) stored cr] show ?thesis
      proof (cases rule: readsE)
        case (2 e s')
        then show ?thesis using Cons Some by (simp add: yields_fault)
      next
        case (1 s')
        show ?thesis
        proof (cases tr)
          case (PLeaf v l)
          have "pt_wf prefix (PLeaf v l)" "old_tree ?H ?nv prefix (Some (PLeaf v l))"
            using wf less.prems(6) Some PLeaf by auto
          from apply_leaf_applied [OF less.prems(1-3) this] show ?thesis
            using 1 Cons Some PLeaf by (auto simp: node_is_leaf_def intro!: yields_value)
        next
          case (PNode v ts)
          have wfn: "pt_wf prefix (PNode v ts)" using stored by (simp add: PNode tree_stored_def)
          note sw = node_slots_wf [OF wfn]
          have old: "old_tree ?H ?nv prefix (Some (PNode v ts))" using less.prems(6) Some PNode by simp
          note os = old_slots [OF old]
          have IH: "yields inv abs kv m s (apply_subtree cr kv s acc (ot_child ?H t) (prefix @ [n]) us)
              (\<lambda>(c, acc'). \<exists>t'. c = ot_child ?H t' \<and> applied cr upd (prefix @ [n]) (set us) acc t t' acc')"
            if "us_ok upd (prefix @ [n]) us" "acc_ok upd acc" "fresh_below acc (prefix @ [n])"
              "pred_option (tree_stored cr m (prefix @ [n])) t" "old_tree ?H (ac_new_version acc) (prefix @ [n]) t" "live inv abs m s"
            for n us acc t s
            by (rule less.hyps [OF _ that(1-3) _ that(4-6)]) (use sw in auto)
          have pend: "slots_pending cr m prefix acc (set us) ts"
          proof -
            have "lf_value_version l \<noteq> ?nv" if "l \<in> slot_leaves ts" for l
              using old that sw by (auto simp: old_tree_def node_leaves)
            moreover have "fresh_below acc (prefix @ [n])" for n
              using less.prems(3) by (auto simp: fresh_below_def dest: below_snoc)
            ultimately show ?thesis
              using sw os tree_stored_slot [OF stored [unfolded PNode]]
              by (auto simp: slots_pending_def option.pred_set)
          qed
          have load: "load_node cr kv s (NodeKey v prefix) (pt_hash ?H (PNode v ts)) = (Inr (Internal (map (ot_child ?H) ts)), s')"
            using 1(1) PNode by simp
          have d: "length prefix < NIBBLES" using sw by simp
          have "yields inv abs kv m s' (apply_groups cr kv s' acc prefix us (map (ot_child ?H) ts) False)
              (\<lambda>(cs, changed', acc'). \<exists>ts'. cs = map (ot_child ?H) ts' \<and> (changed' \<longleftrightarrow> False \<or> ts' \<noteq> ts) \<and>
                 slots_re ?H ?nv prefix (set us) ts ts' \<and>
                 acc_step upd (slot_fresh ?H ?nv prefix ts') (slot_dead ?H prefix ts ts') (slot_leaves ts') acc acc')"
            by (rule apply_groups_applied [OF _ d less.prems(1,2) pend 1(2)]) (rule IH)
          then show ?thesis
          proof (cases rule: yieldsE)
            case (1 x s2)
            then obtain ts' acc1 where x: "x = (map (ot_child ?H) ts', ts' \<noteq> ts, acc1)"
              and re: "slots_re ?H ?nv prefix (set us) ts ts'"
              and step: "acc_step upd (slot_fresh ?H ?nv prefix ts') (slot_dead ?H prefix ts ts') (slot_leaves ts') acc acc1"
              by auto
            have run: "apply_subtree cr kv s acc (ot_child ?H (Some (PNode v ts))) prefix us =
                apply_internal_end cr kv s2 acc1 (pt_child ?H (PNode v ts)) prefix (map (ot_child ?H) ts') (ts' \<noteq> ts)"
              using 1(1) x Cons Some PNode load by (simp add: node_is_leaf_def)
            have "same_store s s2" using \<open>same_store s s'\<close> 1(4) by (rule same_store_trans)
            then show ?thesis
              unfolding run Some PNode
              by (rule yields_trans)
                (rule apply_internal_end_applied [OF 1(3) cr re stored [unfolded PNode] old less.prems(3,2) step])
          next
            case (2 e s2)
            then show ?thesis
              using Cons Some PNode load \<open>same_store s s'\<close> by (auto simp: node_is_leaf_def intro: yields_fault same_store_trans)
          qed
        qed
      qed
    qed
  qed
qed

end

end
