(* ===== verification/Merkle_Commit.thy ===== *)
theory Merkle_Commit
  imports Merkle_Apply
begin

text \<open>
  A committed batch. The abstract store is a map from version to contents, contents being a map from
  path to plaintext. \<open>store_rep\<close> ties a store and its backend to the trees of the versions it
  keeps; \<open>put_batch\<close> adds one version with the updated contents and leaves the others readable.
\<close>

section \<open>Record keys\<close>

lemma record_tags [simp]:
  "REC_NODE \<noteq> REC_VALUE" "REC_NODE \<noteq> REC_STALE" "REC_NODE \<noteq> REC_ROOT" "REC_NODE \<noteq> REC_CHECKPOINT"
  "REC_VALUE \<noteq> REC_STALE" "REC_VALUE \<noteq> REC_ROOT" "REC_VALUE \<noteq> REC_CHECKPOINT" "REC_STALE \<noteq> REC_ROOT"
  "REC_STALE \<noteq> REC_CHECKPOINT" "REC_ROOT \<noteq> REC_CHECKPOINT"
  by (simp_all add: REC_NODE_def REC_VALUE_def REC_STALE_def REC_ROOT_def REC_CHECKPOINT_def)

lemmas record_key_defs = node_record_key_def value_record_key_def stale_record_key_def root_record_key_def
  checkpoint_record_key_def

lemma record_keys_differ [simp]:
  "node_record_key nk \<noteq> value_record_key vh vv" "value_record_key vh vv \<noteq> node_record_key nk"
  "node_record_key nk \<noteq> stale_record_key since target" "stale_record_key since target \<noteq> node_record_key nk"
  "node_record_key nk \<noteq> root_record_key v" "root_record_key v \<noteq> node_record_key nk"
  "node_record_key nk \<noteq> checkpoint_record_key" "checkpoint_record_key \<noteq> node_record_key nk"
  "value_record_key vh vv \<noteq> stale_record_key since target" "stale_record_key since target \<noteq> value_record_key vh vv"
  "value_record_key vh vv \<noteq> root_record_key v" "root_record_key v \<noteq> value_record_key vh vv"
  "value_record_key vh vv \<noteq> checkpoint_record_key" "checkpoint_record_key \<noteq> value_record_key vh vv"
  "stale_record_key since target \<noteq> root_record_key v" "root_record_key v \<noteq> stale_record_key since target"
  "stale_record_key since target \<noteq> checkpoint_record_key" "checkpoint_record_key \<noteq> stale_record_key since target"
  "root_record_key v \<noteq> checkpoint_record_key" "checkpoint_record_key \<noteq> root_record_key v"
  using record_tags record_tags [symmetric] by (auto simp: record_key_defs)

lemma root_record_key_inject [simp]: "root_record_key a = root_record_key b \<longleftrightarrow> a = b"
  by (simp add: root_record_key_def to_be_bytes_inject)

lemma stale_record_key_inject [simp]: "stale_record_key a x = stale_record_key b y \<longleftrightarrow> a = b \<and> x = y"
  by (auto simp: stale_record_key_def append_eq_append_conv to_be_bytes_inject)

lemma value_record_key_inject:
  "length vh = length vh' \<Longrightarrow> value_record_key vh vv = value_record_key vh' vv' \<longleftrightarrow> vh = vh' \<and> vv = vv'"
  by (auto simp: value_record_key_def append_eq_append_conv to_be_bytes_inject)

lemma node_record_key_version: "node_record_key a = node_record_key b \<Longrightarrow> nk_version a = nk_version b"
  by (auto simp: node_record_key_def node_key_encode_def append_eq_append_conv to_be_bytes_inject)

lemma node_record_key_inject: "node_key_ok a \<Longrightarrow> node_key_ok b \<Longrightarrow> node_record_key a = node_record_key b \<longleftrightarrow> a = b"
  by (simp add: node_record_key_def node_key_encode_inject)

text \<open>Every key of a well-formed tree encodes injectively.\<close>

lemma pt_nodes_key_ok:
  assumes "pt_wf prefix t" "\<forall>b \<in> set prefix. b < 16" "(nk, n) \<in> pt_nodes H prefix t"
  shows "node_key_ok nk"
  using assms
proof (induction prefix t rule: pt_wf.induct)
  case (1 prefix v l)
  then show ?case by (simp add: node_key_ok_def under_def)
next
  case (2 prefix v ts)
  have len: "length ts = 16" and d: "length prefix < NIBBLES" using 2(2) by (auto simp: pt_wf_node)
  from 2(4) consider "nk = NodeKey v prefix"
    | i t where "i < 16" "ts ! i = Some t" "(nk, n) \<in> pt_nodes H (prefix @ [word_of_nat i]) t"
    by (auto simp: pt_nodes_node len)
  then show ?case
  proof cases
    case 1
    then show ?thesis using d 2(3) by (simp add: node_key_ok_def)
  next
    case (2 i t)
    have "(i, Some t) \<in> set (zip [0..<16] ts)" using 2 len by (auto simp: set_zip16 image_iff)
    moreover have "pt_wf (prefix @ [word_of_nat i]) t" using "2.prems"(1) 2 by (auto simp: pt_wf_node)
    moreover have "\<forall>b \<in> set (prefix @ [word_of_nat i]). b < 16"
      using "2.prems"(2) 2(1) by (auto simp: word_less_nat_alt unat_byte_of_nat)
    ultimately show ?thesis using "2.IH" [of "(i, Some t)" i "Some t" t] 2(3) by simp
  qed
qed

lemma ot_nodes_key_ok:
  "pred_option (pt_wf []) t \<Longrightarrow> (nk, n) \<in> ot_nodes H [] t \<Longrightarrow> node_key_ok nk"
  by (cases t) (auto intro: pt_nodes_key_ok)

section \<open>Batches of puts\<close>

definition puts :: "(bytes \<times> bytes) list \<Rightarrow> kv_batch_op list" where
  "puts kvs = map (\<lambda>(k, v). Put k v) kvs"

lemma apply_puts: "apply_ops (puts kvs) m k = (case map_of (rev kvs) k of Some v \<Rightarrow> Some v | None \<Rightarrow> m k)"
  by (induction kvs arbitrary: m) (auto simp: puts_def map_add_def split: option.splits)

lemma apply_puts_out: "k \<notin> fst ` set kvs \<Longrightarrow> apply_ops (puts kvs) m k = m k"
proof -
  assume "k \<notin> fst ` set kvs"
  then have "map_of (rev kvs) k = None" by (simp add: map_of_eq_None_iff)
  then show ?thesis by (simp add: apply_puts)
qed

lemma apply_puts_in:
  assumes "(k, v) \<in> set kvs" "\<And>v'. (k, v') \<in> set kvs \<Longrightarrow> v' = v"
  shows "apply_ops (puts kvs) m k = Some v"
proof -
  have "k \<in> fst ` set (rev kvs)" using assms(1) by force
  then obtain v' where v': "map_of (rev kvs) k = Some v'" by (cases "map_of (rev kvs) k") (auto simp: map_of_eq_None_iff)
  then have "(k, v') \<in> set kvs" by (auto dest: map_of_SomeD)
  with assms(2) v' show ?thesis by (simp add: apply_puts)
qed

definition commit_kvs :: "commit_acc \<Rightarrow> bytes \<Rightarrow> bytes \<Rightarrow> (bytes \<times> bytes) list" where
  "commit_kvs acc root ckpt =
     map (\<lambda>(nk, node). (node_record_key nk, node_encode node)) (ac_pending acc) @
     map (\<lambda>(vh, ct). (value_record_key vh (ac_new_version acc), ct)) (ac_values acc) @
     map (\<lambda>target. (stale_record_key (ac_new_version acc) target, [])) (ac_stale acc) @
     [(root_record_key (ac_new_version acc), root), (checkpoint_record_key, ckpt)]"

lemma commit_ops_puts: "commit_ops acc root ckpt = puts (commit_kvs acc root ckpt)"
  by (simp add: commit_ops_def commit_kvs_def puts_def comp_def split_def)

lemma commit_kvs_mem:
  "(k, v) \<in> set (commit_kvs acc root ckpt) \<longleftrightarrow>
     (\<exists>nk n. (nk, n) \<in> set (ac_pending acc) \<and> k = node_record_key nk \<and> v = node_encode n) \<or>
     (\<exists>vh. (vh, v) \<in> set (ac_values acc) \<and> k = value_record_key vh (ac_new_version acc)) \<or>
     (\<exists>target \<in> set (ac_stale acc). k = stale_record_key (ac_new_version acc) target \<and> v = []) \<or>
     k = root_record_key (ac_new_version acc) \<and> v = root \<or> k = checkpoint_record_key \<and> v = ckpt"
  by (force simp: commit_kvs_def)

text \<open>The records after a commit, by kind of key.\<close>

lemma commit_root: "apply_ops (commit_ops acc root ckpt) m (root_record_key v) = (if v = ac_new_version acc then Some root else m (root_record_key v))"
  unfolding commit_ops_puts
  by (cases "v = ac_new_version acc") (auto intro!: apply_puts_in apply_puts_out simp: commit_kvs_mem)

lemma commit_checkpoint: "apply_ops (commit_ops acc root ckpt) m checkpoint_record_key = Some ckpt"
  unfolding commit_ops_puts by (rule apply_puts_in) (auto simp: commit_kvs_mem)

lemma commit_stale:
  "apply_ops (commit_ops acc root ckpt) m (stale_record_key since target) =
     (if since = ac_new_version acc \<and> target \<in> set (ac_stale acc) then Some [] else m (stale_record_key since target))"
  unfolding commit_ops_puts
  by (cases "since = ac_new_version acc \<and> target \<in> set (ac_stale acc)")
    (auto intro!: apply_puts_in apply_puts_out simp: commit_kvs_mem)

lemma commit_old_node:
  assumes "\<And>nk' n. (nk', n) \<in> set (ac_pending acc) \<Longrightarrow> nk_version nk' \<noteq> nk_version nk"
  shows "apply_ops (commit_ops acc root ckpt) m (node_record_key nk) = m (node_record_key nk)"
  unfolding commit_ops_puts
proof (rule apply_puts_out)
  show "node_record_key nk \<notin> fst ` set (commit_kvs acc root ckpt)"
  proof
    assume "node_record_key nk \<in> fst ` set (commit_kvs acc root ckpt)"
    then obtain nk' n where "(nk', n) \<in> set (ac_pending acc)" "node_record_key nk = node_record_key nk'"
      by (auto simp: commit_kvs_mem)
    then show False using assms [of nk' n] node_record_key_version by metis
  qed
qed

lemma commit_new_node:
  assumes "bt_inv (ac_pending acc)" "(nk, n) \<in> set (ac_pending acc)" "\<And>nk n. (nk, n) \<in> set (ac_pending acc) \<Longrightarrow> node_key_ok nk"
  shows "apply_ops (commit_ops acc root ckpt) m (node_record_key nk) = Some (node_encode n)"
  unfolding commit_ops_puts
proof (rule apply_puts_in)
  show "(node_record_key nk, node_encode n) \<in> set (commit_kvs acc root ckpt)" using assms(2) by (auto simp: commit_kvs_mem)
  fix v'
  assume "(node_record_key nk, v') \<in> set (commit_kvs acc root ckpt)"
  then obtain nk' n' where n': "(nk', n') \<in> set (ac_pending acc)" "node_record_key nk = node_record_key nk'" "v' = node_encode n'"
    by (auto simp: commit_kvs_mem)
  then have "nk' = nk" using assms(2,3) node_record_key_inject by blast
  then show "v' = node_encode n" using n' assms(1,2) btree.entries_get [of "ac_pending acc"] by simp
qed

lemma commit_value:
  assumes "bt_inv (ac_values acc)" "length vh = HASH_SIZE" "\<And>vh ct. (vh, ct) \<in> set (ac_values acc) \<Longrightarrow> length vh = HASH_SIZE"
  shows "apply_ops (commit_ops acc root ckpt) m (value_record_key vh vv) =
    (if vv = ac_new_version acc \<and> bt_get (ac_values acc) vh \<noteq> None then bt_get (ac_values acc) vh else m (value_record_key vh vv))"
proof (cases "vv = ac_new_version acc \<and> bt_get (ac_values acc) vh \<noteq> None")
  case True
  then obtain ct where ct: "bt_get (ac_values acc) vh = Some ct" by blast
  have "apply_ops (commit_ops acc root ckpt) m (value_record_key vh vv) = Some ct"
    unfolding commit_ops_puts
  proof (rule apply_puts_in)
    show "(value_record_key vh vv, ct) \<in> set (commit_kvs acc root ckpt)"
      using True ct btree.entries_get [OF assms(1)] by (auto simp: commit_kvs_mem)
    fix v'
    assume "(value_record_key vh vv, v') \<in> set (commit_kvs acc root ckpt)"
    then obtain vh' where "(vh', v') \<in> set (ac_values acc)" "value_record_key vh vv = value_record_key vh' (ac_new_version acc)"
      by (auto simp: commit_kvs_mem)
    moreover then have "vh' = vh" using assms(2,3) value_record_key_inject [of vh vh'] by auto
    ultimately show "v' = ct" using ct btree.entries_get [OF assms(1)] by simp
  qed
  with True ct show ?thesis by simp
next
  case False
  have "value_record_key vh vv \<notin> fst ` set (commit_kvs acc root ckpt)"
  proof
    assume "value_record_key vh vv \<in> fst ` set (commit_kvs acc root ckpt)"
    then obtain vh' v' where "(vh', v') \<in> set (ac_values acc)" "value_record_key vh vv = value_record_key vh' (ac_new_version acc)"
      by (auto simp: commit_kvs_mem)
    moreover then have "vh' = vh \<and> vv = ac_new_version acc" using assms(2,3) value_record_key_inject [of vh vh'] by auto
    ultimately show False using False btree.entries_get [OF assms(1)] by auto
  qed
  then have "apply_ops (commit_ops acc root ckpt) m (value_record_key vh vv) = m (value_record_key vh vv)"
    unfolding commit_ops_puts by (rule apply_puts_out)
  with False show ?thesis by auto
qed

section \<open>The representation\<close>

text \<open>The record keys a tree uses, and the keys a stale entry may name at version \<open>cur\<close>.\<close>

definition used_keys :: "(bytes \<Rightarrow> bytes) \<Rightarrow> ptree option \<Rightarrow> bytes set" where
  "used_keys H t = node_record_key ` fst ` ot_nodes H [] t \<union> leaf_value_key ` set (ot_leaves t)"

definition old_target :: "u64 \<Rightarrow> bytes \<Rightarrow> bool" where
  "old_target cur target \<longleftrightarrow> (\<exists>nk. target = node_record_key nk \<and> nk_version nk \<le> cur) \<or>
     (\<exists>vh vv. target = value_record_key vh vv \<and> length vh = HASH_SIZE \<and> vv \<le> cur)"

text \<open>Version \<open>v\<close> is readable: its root record, its nodes and its values are stored.\<close>

definition version_ok :: "crypto \<Rightarrow> 'b merkle_store \<Rightarrow> (bytes \<rightharpoonup> bytes) \<Rightarrow> u64 \<Rightarrow> ptree option \<Rightarrow> bool" where
  "version_ok cr s m v t \<longleftrightarrow> m (root_record_key v) = Some (root_of cr (ot_child (sha256 cr) t)) \<and>
     pred_option (tree_stored cr m []) t \<and> pred_option (\<lambda>x. pt_version x = v) t \<and> values_stored cr s m t \<and>
     (\<forall>(nk, n) \<in> ot_nodes (sha256 cr) [] t. nk_version nk \<le> v) \<and> (\<forall>l \<in> set (ot_leaves t). lf_value_version l \<le> v) \<and>
     inj_on leaf_value_key (set (ot_leaves t))"

text \<open>The stale index names only records that no version from its mark on uses.\<close>

definition stale_ok :: "(bytes \<Rightarrow> bytes) \<Rightarrow> (u64 \<rightharpoonup> ptree option) \<Rightarrow> u64 \<Rightarrow> (bytes \<rightharpoonup> bytes) \<Rightarrow> bool" where
  "stale_ok H hist cur m \<longleftrightarrow> (\<forall>k. m k \<noteq> None \<and> k \<noteq> [] \<and> hd k = REC_STALE \<longrightarrow>
     (\<exists>since target. k = stale_record_key since target \<and> since \<le> cur \<and> old_target cur target \<and>
        (\<forall>v t. hist v = Some t \<and> since \<le> v \<longrightarrow> target \<notin> used_keys H t)))"

definition store_rep ::
    "('b \<Rightarrow> bool) \<Rightarrow> ('b \<Rightarrow> bytes \<rightharpoonup> bytes) \<Rightarrow> crypto \<Rightarrow> (u64 \<rightharpoonup> ptree option) \<Rightarrow> 'b merkle_store \<Rightarrow> bool" where
  "store_rep ok view cr hist s \<longleftrightarrow> live ok view (view (st_backend s)) s \<and>
     (\<exists>t. hist (st_version s) = Some t \<and> st_root_child s = ot_child (sha256 cr) t) \<and>
     st_root s = root_of cr (st_root_child s) \<and>
     (\<forall>v t. hist v = Some t \<longrightarrow> v \<le> st_version s \<and> version_ok cr s (view (st_backend s)) v t) \<and>
     (\<forall>v. view (st_backend s) (root_record_key v) \<noteq> None \<longrightarrow> v \<le> st_version s) \<and>
     stale_ok (sha256 cr) hist (st_version s) (view (st_backend s)) \<and>
     (\<exists>ckpt. view (st_backend s) checkpoint_record_key = Some ckpt \<and>
        decrypt_checkpoint cr (st_cipher s) ckpt = Inr (st_root s, st_version s))"

text \<open>The contents of each version.\<close>

definition version_contents ::
    "('b \<Rightarrow> bytes \<rightharpoonup> bytes) \<Rightarrow> crypto \<Rightarrow> (u64 \<rightharpoonup> ptree option) \<Rightarrow> 'b merkle_store \<Rightarrow> u64 \<rightharpoonup> (bytes \<rightharpoonup> bytes)" where
  "version_contents view cr hist s v = map_option (tree_value cr s (view (st_backend s))) (hist v)"

lemma root_of_smt:
  assumes "pred_option (pt_wf []) t"
  shows "root_of cr (ot_child (sha256 cr) t) = smt (sha256 cr) 0 (map leaf_entry (ot_leaves t))"
proof (cases t)
  case (Some x)
  then show ?thesis using assms pt_hash_smt [of "[]" x "sha256 cr"] by (simp add: root_of_def)
qed (simp add: root_of_def)

lemma old_tree_of_version:
  assumes "version_ok cr s m v t" "v \<le> cur" "cur < cur + 1"
  shows "old_tree (sha256 cr) (cur + 1) [] t"
proof -
  have "v < cur + 1" using assms(2,3) by (rule le_less_trans)
  then show ?thesis
    using assms(1) unfolding version_ok_def old_tree_def by (blast intro: le_less_trans)
qed

section \<open>Preparing a batch\<close>

text \<open>Sealing can fail only when the cipher refuses the key or the generator gives out.\<close>

definition seals :: "crypto \<Rightarrow> bytes \<Rightarrow> bool" where
  "seals cr key \<longleftrightarrow> (\<forall>pt aad d e. fst (aead_encrypt cr key pt aad d) \<noteq> Inl e)"

definition seal_fault :: "crypto \<Rightarrow> bytes \<Rightarrow> fault \<Rightarrow> bool" where
  "seal_fault cr key e \<longleftrightarrow> (\<exists>w. e = Err (Corrupted w)) \<and> \<not> seals cr key"

lemma store_encrypt_cases:
  assumes "crypto_ok cr" "store_encrypt cr s pt aad what = (r, s')"
  shows "\<exists>d. s' = s\<lparr>st_draws := d\<rparr>"
    "case r of Inl e \<Rightarrow> seal_fault cr (st_cipher s) e | Inr ct \<Rightarrow> aead_decrypt cr (st_cipher s) ct aad = Inr pt"
proof -
  obtain x d where e: "aead_encrypt cr (st_cipher s) pt aad (st_draws s) = (x, d)" by fastforce
  have "\<not> seals cr (st_cipher s)" if "x = Inl y" for y
    unfolding seals_def using e that by (metis fst_conv)
  then show "\<exists>d. s' = s\<lparr>st_draws := d\<rparr>"
    "case r of Inl e \<Rightarrow> seal_fault cr (st_cipher s) e | Inr ct \<Rightarrow> aead_decrypt cr (st_cipher s) ct aad = Inr pt"
    using assms(2) aead_decrypt_encrypt [OF assms(1), of "st_cipher s" pt aad "st_draws s"] e
    by (cases x; auto simp: store_encrypt_def seal_fault_def)+
qed

definition batch_updates :: "crypto \<Rightarrow> 'b merkle_store \<Rightarrow> (bytes \<times> bytes option) list \<Rightarrow> update list" where
  "batch_updates cr s ds = map (\<lambda>(p, v). (p, map_option (vh_of cr s p) v)) ds"

lemma prepare_updates_spec:
  assumes cr: "crypto_ok cr"
  shows "distinct (map fst ds) \<Longrightarrow> bt_inv (ac_insert_cts acc) \<Longrightarrow> prepare_updates cr s acc ds = (r, s') \<Longrightarrow>
    (\<exists>d. s' = s\<lparr>st_draws := d\<rparr>) \<and>
    (case r of
       Inl e \<Rightarrow> seal_fault cr (st_cipher s) e
     | Inr (us, acc') \<Rightarrow> us = batch_updates cr s ds \<and>
         acc' = acc\<lparr>ac_insert_cts := ac_insert_cts acc'\<rparr> \<and> bt_inv (ac_insert_cts acc') \<and>
         (\<forall>p. p \<notin> fst ` set ds \<longrightarrow> bt_get (ac_insert_cts acc') p = bt_get (ac_insert_cts acc) p) \<and>
         (\<forall>p pt. (p, Some pt) \<in> set ds \<longrightarrow> (\<exists>ct. bt_get (ac_insert_cts acc') p = Some ct \<and>
            aead_decrypt cr (st_cipher s) ct (value_aad p) = Inr pt)))"
proof (induction ds arbitrary: s acc r s')
  case Nil
  then show ?case by (auto simp: batch_updates_def intro: exI [of _ "st_draws s"])
next
  case (Cons e rest)
  obtain path v where e: "e = (path, v)" by fastforce
  have dist: "distinct (map fst rest)" "path \<notin> fst ` set rest" using Cons.prems(1) by (auto simp: e)
  show ?case
  proof (cases v)
    case None
    obtain r1 s1 where p: "prepare_updates cr s acc rest = (r1, s1)" by fastforce
    from Cons.IH [OF dist(1) Cons.prems(2) p] Cons.prems(3) show ?thesis
      by (cases r1) (auto simp: e None p batch_updates_def)
  next
    case (Some pt)
    obtain r0 s0 where enc: "store_encrypt cr s pt (value_aad path) ''encrypt'' = (r0, s0)" by fastforce
    note sc = store_encrypt_cases [OF cr enc]
    then obtain d0 where s0: "s0 = s\<lparr>st_draws := d0\<rparr>" by blast
    show ?thesis
    proof (cases r0)
      case (Inl f)
      then show ?thesis using Cons.prems(3) sc by (auto simp: e Some enc s0)
    next
      case (Inr ct)
      let ?acc = "acc\<lparr>ac_insert_cts := bt_insert path ct (ac_insert_cts acc)\<rparr>"
      obtain r1 s1 where p: "prepare_updates cr s0 ?acc rest = (r1, s1)" by fastforce
      have "bt_inv (ac_insert_cts ?acc)" using Cons.prems(2) by (simp add: btree.inv_insert)
      note IH = Cons.IH [OF dist(1) this p]
      have "vh_of cr s0 = vh_of cr s" by (intro ext) (simp add: s0 vh_of_def)
      then have same: "batch_updates cr s0 rest = batch_updates cr s rest" "st_cipher s0 = st_cipher s"
        by (simp_all add: s0 batch_updates_def)
      show ?thesis
      proof (cases r1)
        case (Inl f)
        have "r = Inl f" "s' = s1" using Cons.prems(3) Inr Inl by (auto simp: e Some enc p Let_def)
        then show ?thesis using IH Inl by (auto simp: s0)
      next
        case r1: (Inr x)
        obtain us acc' where x: "x = (us, acc')" by fastforce
        have IH': "us = batch_updates cr s rest" "acc' = ?acc\<lparr>ac_insert_cts := ac_insert_cts acc'\<rparr>" "bt_inv (ac_insert_cts acc')"
          "\<forall>p. p \<notin> fst ` set rest \<longrightarrow> bt_get (ac_insert_cts acc') p = bt_get (ac_insert_cts ?acc) p"
          "\<forall>p pt. (p, Some pt) \<in> set rest \<longrightarrow> (\<exists>ct. bt_get (ac_insert_cts acc') p = Some ct \<and>
            aead_decrypt cr (st_cipher s) ct (value_aad p) = Inr pt)" "\<exists>d. s1 = s\<lparr>st_draws := d\<rparr>"
          using IH same unfolding s0 by (auto simp: r1 x)
        have out: "r = Inr ((path, Some (vh_of cr s path pt)) # us, acc')" "s' = s1"
          using Cons.prems(3) by (auto simp: e Some enc Inr p r1 x Let_def)
        have ctp: "bt_get (ac_insert_cts acc') path = Some ct"
          using IH'(4) dist(2) Cons.prems(2) by (simp add: btree.get_insert)
        have acc: "acc' = acc\<lparr>ac_insert_cts := ac_insert_cts acc'\<rparr>" using IH'(2) by (cases acc; cases acc') auto
        have dec: "aead_decrypt cr (st_cipher s) ct (value_aad path) = Inr pt" using sc(2) Inr by simp
        have old: "bt_get (ac_insert_cts acc') p = bt_get (ac_insert_cts acc) p" if "p \<notin> fst ` set (e # rest)" for p
          using IH'(4) that Cons.prems(2) by (auto simp: e btree.get_insert)
        have new: "\<exists>ct. bt_get (ac_insert_cts acc') p = Some ct \<and> aead_decrypt cr (st_cipher s) ct (value_aad p) = Inr q"
          if "(p, Some q) \<in> set (e # rest)" for p q
          using that IH'(5) ctp dec by (auto simp: e Some)
        have us: "(path, Some (vh_of cr s path pt)) # us = batch_updates cr s (e # rest)"
          using IH'(1) by (simp add: batch_updates_def e Some)
        show ?thesis
          unfolding out sum.case prod.case us using IH'(6) acc IH'(3) old new by blast
      qed
    qed
  qed
qed



text \<open>The accumulator a batch starts from.\<close>

definition prepared :: "crypto \<Rightarrow> 'b merkle_store \<Rightarrow> (bytes \<times> bytes option) list \<Rightarrow> commit_acc \<Rightarrow> bool" where
  "prepared cr s ds acc \<longleftrightarrow> ac_new_version acc = st_version s + 1 \<and> ac_pending acc = [] \<and> ac_stale acc = [] \<and> ac_values acc = [] \<and>
     (\<forall>p pt. (p, Some pt) \<in> set ds \<longrightarrow> (\<exists>ct. bt_get (ac_insert_cts acc) p = Some ct \<and>
        aead_decrypt cr (st_cipher s) ct (value_aad p) = Inr pt))"

lemma batch_updates_mem: "(p, x) \<in> set (batch_updates cr s ds) \<longleftrightarrow> (\<exists>v. (p, v) \<in> set ds \<and> map_option (vh_of cr s p) v = x)"
  by (force simp: batch_updates_def)

lemma fst_batch_updates: "map fst (batch_updates cr s ds) = map fst ds"
  by (simp add: batch_updates_def split_def)

lemma length_vh_of: "crypto_ok cr \<Longrightarrow> length (vh_of cr s p v) = HASH_SIZE"
  by (simp add: crypto_ok_def vh_of_def HASH_SIZE_def)

lemma length_path_of: "crypto_ok cr \<Longrightarrow> length (path_of cr s key) = HASH_SIZE"
  by (simp add: crypto_ok_def path_of_def HASH_SIZE_def)

lemma batch_us_ok:
  assumes "crypto_ok cr" "bt_inv ds" "\<forall>(p, v) \<in> set ds. length p = HASH_SIZE"
  shows "us_ok (map_of (batch_updates cr s ds)) [] (batch_updates cr s ds)"
proof -
  have dist: "distinct (map fst (batch_updates cr s ds))"
    using bt_inv_distinct [OF assms(2)] by (simp only: fst_batch_updates)
  have "sorted_under [] (batch_updates cr s ds)"
    using assms(2,3) unfolding sorted_under_def fst_batch_updates
    by (force simp: bt_inv_def under_def batch_updates_def)
  moreover have "map_of (batch_updates cr s ds) p = Some x" if "(p, x) \<in> set (batch_updates cr s ds)" for p x
    using that dist by simp
  ultimately show ?thesis
    using length_vh_of [OF assms(1)] by (auto simp: us_ok_def batch_updates_mem)
qed

lemma prepared_ok:
  assumes "prepared cr s ds acc"
  shows "acc_ok (map_of (batch_updates cr s ds)) acc" "fresh_below acc []"
proof -
  have "bt_get (ac_insert_cts acc) p \<noteq> None" if "map_of (batch_updates cr s ds) p = Some (Some vh)" for p vh
    using assms map_of_SomeD [OF that] by (auto simp: prepared_def batch_updates_mem)
  then show "acc_ok (map_of (batch_updates cr s ds)) acc" "fresh_below acc []"
    using assms by (auto simp: prepared_def acc_ok_def fresh_below_def bt_inv_def bt_get_def)
qed

lemma live_draws [simp]: "live ok view m (s\<lparr>st_draws := d\<rparr>) = live ok view m s"
  by (simp add: live_def)

context kv_contract
begin

lemma fold_deduped_spec:
  assumes rep: "store_rep inv abs cr hist s" and cr: "crypto_ok cr" and t: "hist (st_version s) = Some t"
    and ds: "bt_inv ds" "\<forall>(p, v) \<in> set ds. length p = HASH_SIZE" and room: "st_version s < st_version s + 1"
    and run: "fold_deduped cr kv s ds = (r, s')"
  shows "live inv abs (abs (st_backend s)) s' \<and> same_store s s' \<and>
    (case r of
       Inl e \<Rightarrow> host_fault kv e \<or> seal_fault cr (st_cipher s) e
     | Inr None \<Rightarrow> updated (st_version s + 1) (set (batch_updates cr s ds)) (set (ot_leaves t)) = set (ot_leaves t)
     | Inr (Some (acc', c, root)) \<Rightarrow> \<exists>t' acc. t' \<noteq> t \<and> prepared cr s ds acc \<and> c = ot_child (sha256 cr) t' \<and> root = root_of cr c \<and>
         applied cr (map_of (batch_updates cr s ds)) [] (set (batch_updates cr s ds)) acc t t' acc')"
proof -
  let ?m = "abs (st_backend s)" and ?H = "sha256 cr" and ?us = "batch_updates cr s ds"
  have live: "live inv abs ?m s" and rc: "st_root_child s = ot_child ?H t" and vok: "version_ok cr s ?m (st_version s) t"
    using rep t by (auto simp: store_rep_def)
  show ?thesis
  proof (cases "ds = []")
    case True
    then show ?thesis using run live by (auto simp: fold_deduped_def batch_updates_def)
  next
    case False
    obtain r0 s0 where p: "prepare_updates cr s (acc_new (st_version s + 1)) ds = (r0, s0)" by fastforce
    note ps = prepare_updates_spec [OF cr bt_inv_distinct [OF ds(1)] _ p]
    have "bt_inv (ac_insert_cts (acc_new (st_version s + 1)))" by (simp add: acc_new_def bt_new_def bt_inv_def)
    note ps = ps [OF this]
    then obtain d where s0: "s0 = s\<lparr>st_draws := d\<rparr>" by blast
    show ?thesis
    proof (cases r0)
      case (Inl e)
      then show ?thesis using ps run live False by (auto simp: fold_deduped_def p s0)
    next
      case (Inr x)
      then obtain us acc where x: "x = (us, acc)" by fastforce
      have us: "us = ?us" and acc: "prepared cr s ds acc"
        using ps by (auto simp: Inr x prepared_def acc_new_def bt_new_def) (metis commit_acc.select_convs commit_acc.update_convs)+
      have run': "fold_deduped cr kv s ds =
          (case apply_subtree cr kv s0 acc (st_root_child s0) [] ?us of
             (Inl e, s'') \<Rightarrow> (Inl e, s'')
           | (Inr (new_root_child, acc'), s'') \<Rightarrow>
               if new_root_child = st_root_child s'' then (Inr None, s'')
               else (Inr (Some (acc', new_root_child, root_of cr new_root_child)), s''))"
        using False by (simp add: fold_deduped_def p Inr x us)
      have nv: "ac_new_version acc = st_version s + 1" using acc by (simp add: prepared_def)
      have old: "old_tree ?H (ac_new_version acc) [] t"
        unfolding nv by (rule old_tree_of_version [OF vok order_refl room])
      have stored: "pred_option (tree_stored cr ?m []) t" using vok by (simp add: version_ok_def)
      have live0: "live inv abs ?m s0" using live by (simp add: s0)
      have rc0: "st_root_child s0 = ot_child ?H t" using rc by (simp add: s0)
      from apply_subtree_applied [OF cr batch_us_ok [OF cr ds] prepared_ok [OF acc] _ stored old live0]
      have "yields inv abs kv ?m s0 (apply_subtree cr kv s0 acc (ot_child ?H t) [] ?us)
          (\<lambda>(c, acc'). \<exists>t'. c = ot_child ?H t' \<and> applied cr (map_of ?us) [] (set ?us) acc t t' acc')"
        by simp
      then show ?thesis
      proof (cases rule: yieldsE)
        case (1 y s1)
        then obtain t' acc' where y: "y = (ot_child ?H t', acc')" and app: "applied cr (map_of ?us) [] (set ?us) acc t t' acc'"
          by auto
        have same: "same_store s s1" using 1(4) by (simp add: s0)
        have re: "retree ?H (st_version s + 1) [] (set ?us) t t'" using app by (simp add: applied_def nv)
        have eq: "ot_child ?H t' = ot_child ?H t \<longleftrightarrow> t' = t" using retree_child [OF re] old by (simp add: nv)
        have rc1: "st_root_child s1 = ot_child ?H t" using rc same_store_sel(5) [OF same] by simp
        show ?thesis
        proof (cases "t' = t")
          case True
          then have "r = Inr None" "s' = s1" using run 1(1) rc0 rc1 y by (auto simp: run')
          then show ?thesis using re True same 1(3) by (simp add: retree_def)
        next
          case False
          then have "r = Inr (Some (acc', ot_child ?H t', root_of cr (ot_child ?H t')))" "s' = s1"
            using run 1(1) rc0 rc1 y eq by (auto simp: run')
          then show ?thesis using acc app same 1(3) \<open>t' \<noteq> t\<close> by auto
        qed
      next
        case (2 e s1)
        then have "r = Inl e" "s' = s1" using run rc0 by (auto simp: run')
        then show ?thesis using 2 by (simp add: s0)
      qed
    qed
  qed
qed

end

end
