(* ===== verification/Merkle_Versions.thy ===== *)
theory Merkle_Versions
  imports Merkle_Commit
begin

text \<open>
  What a committed batch leaves behind. \<open>committed\<close> describes the records after the write of
  \<open>commit\<close>; from it follow the contents of the new version, that every older version reads as it
  did, that the new version is readable, and that the stale index still names no record in use.
\<close>

section \<open>The contents after a batch\<close>

definition apply_batch :: "(bytes \<rightharpoonup> bytes) \<Rightarrow> (bytes \<times> bytes option) list \<Rightarrow> bytes \<rightharpoonup> bytes" where
  "apply_batch c ds p = (case map_of ds p of None \<Rightarrow> c p | Some v \<Rightarrow> v)"

text \<open>The commitments of the values at stake do not collide.\<close>

definition vh_distinct :: "crypto \<Rightarrow> 'b merkle_store \<Rightarrow> (bytes \<rightharpoonup> bytes) \<Rightarrow> (bytes \<times> bytes option) list \<Rightarrow> bool" where
  "vh_distinct cr s c ds \<longleftrightarrow> inj_on (\<lambda>(p, v). vh_of cr s p v) ({(p, v). c p = Some v} \<union> {(p, v). (p, Some v) \<in> set ds})"

lemma vh_distinctD:
  assumes "vh_distinct cr s c ds" "vh_of cr s p v = vh_of cr s q w"
    "c p = Some v \<or> (p, Some v) \<in> set ds" "c q = Some w \<or> (q, Some w) \<in> set ds"
  shows "p = q \<and> v = w"
  using inj_onD [OF assms(1) [unfolded vh_distinct_def], of "(p, v)" "(q, w)"] assms(2-4) by auto

lemma tree_value_leaf:
  assumes "pred_option (pt_wf []) t"
  shows "tree_value cr s m t p = Some v \<longleftrightarrow> (\<exists>l \<in> set (ot_leaves t). lf_path l = p \<and> leaf_value cr s m l = Some v)"
proof -
  have "distinct (map lf_path (ot_leaves t))" using assms pt_leaves_distinct by (cases t) auto
  from leaf_at_Some [OF this, of p] show ?thesis
    by (auto simp: tree_value_def bind_eq_Some_conv)
qed

lemma leaf_value_vh: "leaf_value cr s m l = Some v \<Longrightarrow> vh_of cr s (lf_path l) v = lf_vh l"
  by (auto simp: leaf_value_def split: option.splits sum.splits if_splits)

text \<open>Facts about one batch: \<open>t\<close> the old tree, \<open>t'\<close> the new, \<open>m'\<close> the records after the commit.\<close>

definition committed ::
    "crypto \<Rightarrow> 'b merkle_store \<Rightarrow> (bytes \<rightharpoonup> bytes) \<Rightarrow> (bytes \<times> bytes option) list \<Rightarrow> ptree option \<Rightarrow> ptree option \<Rightarrow> bytes \<Rightarrow> (bytes \<rightharpoonup> bytes) \<Rightarrow> bool" where
  "committed cr s m ds t t' ckpt m' \<longleftrightarrow> (\<exists>acc acc'. prepared cr s ds acc \<and>
     applied cr (map_of (batch_updates cr s ds)) [] (set (batch_updates cr s ds)) acc t t' acc' \<and>
     m' = apply_ops (commit_ops acc' (root_of cr (ot_child (sha256 cr) t')) ckpt) m \<and> t' \<noteq> t)"

lemma committed_facts:
  assumes c: "committed cr s m ds t t' ckpt m'" and cr: "crypto_ok cr" and ds: "bt_inv ds"
  shows "retree (sha256 cr) (st_version s + 1) [] (set (batch_updates cr s ds)) t t'"
    "m' (root_record_key v) = (if v = st_version s + 1 then Some (root_of cr (ot_child (sha256 cr) t')) else m (root_record_key v))"
    "nk_version nk \<noteq> st_version s + 1 \<Longrightarrow> m' (node_record_key nk) = m (node_record_key nk)"
    "(nk, n) \<in> fresh_nodes (sha256 cr) (st_version s + 1) [] t' \<Longrightarrow> m' (node_record_key nk) = Some (node_encode n)"
    "length vh = HASH_SIZE \<Longrightarrow> vv \<noteq> st_version s + 1 \<Longrightarrow> m' (value_record_key vh vv) = m (value_record_key vh vv)"
    "l \<in> set (ot_leaves t') \<Longrightarrow> lf_value_version l = st_version s + 1 \<Longrightarrow> length (lf_vh l) = HASH_SIZE \<Longrightarrow>
       \<exists>q v ct. (q, Some v) \<in> set ds \<and> vh_of cr s q v = lf_vh l \<and> m' (leaf_value_key l) = Some ct \<and>
         aead_decrypt cr (st_cipher s) ct (value_aad q) = Inr v"
    "m' (stale_record_key since target) \<noteq> None \<Longrightarrow>
       since = st_version s + 1 \<and> target \<in> dead (sha256 cr) [] t t' \<or> m (stale_record_key since target) \<noteq> None"
    "m' checkpoint_record_key = Some ckpt"
    "m' k \<noteq> None \<Longrightarrow> k \<noteq> [] \<Longrightarrow> hd k = REC_STALE \<Longrightarrow> m k = None \<Longrightarrow> \<exists>since target. k = stale_record_key since target"
proof -
  let ?us = "batch_updates cr s ds" and ?H = "sha256 cr" and ?nv = "st_version s + 1"
  from c obtain acc acc' where prep: "prepared cr s ds acc"
    and app: "applied cr (map_of ?us) [] (set ?us) acc t t' acc'"
    and m': "m' = apply_ops (commit_ops acc' (root_of cr (ot_child ?H t')) ckpt) m"
    unfolding committed_def by blast
  have nv: "ac_new_version acc = ?nv" and empty: "set (ac_pending acc) = {}" "set (ac_stale acc) = {}"
    using prep by (simp_all add: prepared_def)
  have step: "acc_step (map_of ?us) (fresh_nodes ?H ?nv [] t') (dead ?H [] t t') (set (ot_leaves t')) acc acc'"
    and re: "retree ?H ?nv [] (set ?us) t t'"
    using app unfolding applied_def nv by blast+
  have acc': "ac_new_version acc' = ?nv" "set (ac_pending acc') = fresh_nodes ?H ?nv [] t'" "set (ac_stale acc') = dead ?H [] t t'"
    "acc_ok (map_of ?us) acc'" "ac_insert_cts acc' = ac_insert_cts acc"
    using step empty nv by (auto simp: acc_step_def)
  have wf: "pred_option (pt_wf []) t'" using re by (simp add: retree_def)
  have vals: "length vh = HASH_SIZE" if "(vh, ct) \<in> set (ac_values acc')" for vh ct
    using that acc'(4) btree.entries_get [of "ac_values acc'"] length_vh_of [OF cr]
    by (fastforce simp: acc_ok_def batch_updates_mem dest!: map_of_SomeD)
  show "retree ?H ?nv [] (set ?us) t t'" by (rule re)
  show "m' (root_record_key v) = (if v = ?nv then Some (root_of cr (ot_child ?H t')) else m (root_record_key v))"
    unfolding m' commit_root acc'(1) ..
  show "nk_version nk \<noteq> ?nv \<Longrightarrow> m' (node_record_key nk) = m (node_record_key nk)"
    unfolding m' by (rule commit_old_node) (auto simp: acc'(2) fresh_nodes_def)
  show "(nk, n) \<in> fresh_nodes ?H ?nv [] t' \<Longrightarrow> m' (node_record_key nk) = Some (node_encode n)"
    unfolding m' by (rule commit_new_node) (use acc'(2,4) ot_nodes_key_ok [OF wf] in \<open>auto simp: acc_ok_def fresh_nodes_def\<close>)
  show "length vh = HASH_SIZE \<Longrightarrow> vv \<noteq> ?nv \<Longrightarrow> m' (value_record_key vh vv) = m (value_record_key vh vv)"
    unfolding m' using acc'(1,4) vals by (subst commit_value) (auto simp: acc_ok_def)
  show "\<exists>q v ct. (q, Some v) \<in> set ds \<and> vh_of cr s q v = lf_vh l \<and> m' (leaf_value_key l) = Some ct \<and>
         aead_decrypt cr (st_cipher s) ct (value_aad q) = Inr v"
    if l: "l \<in> set (ot_leaves t')" "lf_value_version l = ?nv" "length (lf_vh l) = HASH_SIZE"
  proof -
    obtain ct where ct: "bt_get (ac_values acc') (lf_vh l) = Some ct"
      using step l(1,2) nv by (auto simp: acc_step_def)
    then obtain q where q: "map_of ?us q = Some (Some (lf_vh l))" "bt_get (ac_insert_cts acc) q = Some ct"
      using acc'(4) unfolding acc_ok_def acc'(5) by blast
    then obtain v where v: "(q, Some v) \<in> set ds" "vh_of cr s q v = lf_vh l"
      by (auto simp: batch_updates_mem dest!: map_of_SomeD)
    have "m' (leaf_value_key l) = Some ct"
      unfolding m' leaf_value_key_def using acc'(1,4) vals l ct by (subst commit_value) (auto simp: acc_ok_def)
    moreover have "aead_decrypt cr (st_cipher s) ct (value_aad q) = Inr v"
      using prep v(1) q(2) by (force simp: prepared_def)
    ultimately show ?thesis using v by blast
  qed
  show "m' (stale_record_key since target) \<noteq> None \<Longrightarrow>
       since = ?nv \<and> target \<in> dead ?H [] t t' \<or> m (stale_record_key since target) \<noteq> None"
    unfolding m' commit_stale acc'(1,3) by (auto split: if_splits)
  show "m' checkpoint_record_key = Some ckpt" unfolding m' by (rule commit_checkpoint)
  show "\<exists>since target. k = stale_record_key since target"
    if k: "m' k \<noteq> None" "k \<noteq> []" "hd k = REC_STALE" "m k = None"
  proof -
    have "k \<in> fst ` set (commit_kvs acc' (root_of cr (ot_child ?H t')) ckpt)"
      using k(1,4) apply_puts_out unfolding m' commit_ops_puts by metis
    then obtain w where "(k, w) \<in> set (commit_kvs acc' (root_of cr (ot_child ?H t')) ckpt)" by auto
    with k(3) record_tags record_tags [symmetric] show ?thesis by (auto simp: commit_kvs_mem record_key_defs)
  qed
qed

lemma committed_leaves:
  assumes c: "committed cr s m ds t t' ckpt m'" and cr: "crypto_ok cr" and ds: "bt_inv ds"
    and old: "version_ok cr s m (st_version s) t" and room: "st_version s < st_version s + 1"
    and vh: "vh_distinct cr s (tree_value cr s m t) ds"
  shows "l \<in> set (ot_leaves t') \<Longrightarrow> l \<in> set (ot_leaves t) \<Longrightarrow> leaf_value cr s m' l = leaf_value cr s m l"
    and "l \<in> set (ot_leaves t') \<Longrightarrow> l \<notin> set (ot_leaves t) \<Longrightarrow> lf_value_version l = st_version s + 1 \<and>
      (\<exists>v. (lf_path l, Some v) \<in> set ds \<and> vh_of cr s (lf_path l) v = lf_vh l \<and> leaf_value cr s m' l = Some v)"
    and "l \<in> set (ot_leaves t) \<Longrightarrow> lf_value_version l < st_version s + 1 \<and> leaf_ok l"
    and "l \<in> set (ot_leaves t') \<Longrightarrow> leaf_ok l"
proof -
  let ?us = "batch_updates cr s ds" and ?nv = "st_version s + 1"
  note f = committed_facts [OF c cr ds]
  have leaves: "set (ot_leaves t') = updated ?nv (set ?us) (set (ot_leaves t))" and wf': "pred_option (pt_wf []) t'"
    using f(1) by (auto simp: retree_def)
  have wf: "pred_option (pt_wf []) t" using old by (auto simp: version_ok_def tree_stored_def option.pred_set)
  show lt: "l \<in> set (ot_leaves t) \<Longrightarrow> lf_value_version l < ?nv \<and> leaf_ok l" for l
    using old room wf pt_wf_leaf [of "[]"] le_less_trans [OF _ room] by (cases t) (auto simp: version_ok_def)
  show lk: "l \<in> set (ot_leaves t') \<Longrightarrow> leaf_ok l" for l
    using wf' pt_wf_leaf [of "[]"] by (cases t') auto
  show "l \<in> set (ot_leaves t') \<Longrightarrow> l \<in> set (ot_leaves t) \<Longrightarrow> leaf_value cr s m' l = leaf_value cr s m l"
    using f(5) [of "lf_vh l" "lf_value_version l"] lt [of l] less_imp_neq [of "lf_value_version l" ?nv]
    by (simp add: leaf_value_def leaf_ok_def)
  show "lf_value_version l = ?nv \<and> (\<exists>v. (lf_path l, Some v) \<in> set ds \<and> vh_of cr s (lf_path l) v = lf_vh l \<and> leaf_value cr s m' l = Some v)"
    if l: "l \<in> set (ot_leaves t')" "l \<notin> set (ot_leaves t)"
  proof -
    from l leaves have new: "(lf_path l, Some (lf_vh l)) \<in> set ?us" "lf_value_version l = ?nv" by (auto simp: updated_def)
    then obtain v where v: "(lf_path l, Some v) \<in> set ds" "vh_of cr s (lf_path l) v = lf_vh l" by (auto simp: batch_updates_mem)
    from f(6) [OF l(1) new(2)] lk [OF l(1)] obtain q w ct where q: "(q, Some w) \<in> set ds" "vh_of cr s q w = lf_vh l"
      "m' (leaf_value_key l) = Some ct" "aead_decrypt cr (st_cipher s) ct (value_aad q) = Inr w" by (auto simp: leaf_ok_def)
    have "q = lf_path l \<and> w = v" by (rule vh_distinctD [OF vh]) (use q v in auto)
    then have "leaf_value cr s m' l = Some v"
      using q v by (simp add: leaf_value_def leaf_value_key_def)
    with new v show ?thesis by blast
  qed
qed

lemma committed_contents:
  assumes c: "committed cr s m ds t t' ckpt m'" and cr: "crypto_ok cr" and ds: "bt_inv ds"
    and old: "version_ok cr s m (st_version s) t" and room: "st_version s < st_version s + 1"
    and vh: "vh_distinct cr s (tree_value cr s m t) ds"
  shows "values_stored cr s m' t'" and "tree_value cr s m' t' = apply_batch (tree_value cr s m t) ds"
    and "inj_on leaf_value_key (set (ot_leaves t'))"
proof -
  let ?us = "batch_updates cr s ds" and ?nv = "st_version s + 1"
  note cl = committed_leaves [OF assms]
  have wf: "pred_option (pt_wf []) t" using old by (auto simp: version_ok_def tree_stored_def option.pred_set)
  have leaves: "set (ot_leaves t') = updated ?nv (set ?us) (set (ot_leaves t))" and wf': "pred_option (pt_wf []) t'"
    using committed_facts(1) [OF c cr ds] by (auto simp: retree_def)
  have vs: "\<And>l. l \<in> set (ot_leaves t) \<Longrightarrow> leaf_value cr s m l \<noteq> None" using old by (simp add: version_ok_def values_stored_def)
  show "values_stored cr s m' t'"
    unfolding values_stored_def
  proof
    fix l
    assume "l \<in> set (ot_leaves t')"
    then show "leaf_value cr s m' l \<noteq> None"
      using cl(1,2) [of l] vs [of l] by (cases "l \<in> set (ot_leaves t)") auto
  qed
  show "inj_on leaf_value_key (set (ot_leaves t'))"
  proof (rule inj_onI)
    fix a b
    assume ab: "a \<in> set (ot_leaves t')" "b \<in> set (ot_leaves t')" "leaf_value_key a = leaf_value_key b"
    have eq: "lf_vh a = lf_vh b" "lf_value_version a = lf_value_version b"
      using ab(3) cl(4) [OF ab(1)] cl(4) [OF ab(2)] by (auto simp: leaf_value_key_def value_record_key_inject leaf_ok_def)
    show "a = b"
    proof (cases "a \<in> set (ot_leaves t)")
      case True
      then have "b \<in> set (ot_leaves t)" using eq(2) cl(3) [OF True] cl(2) [OF ab(2)] by (metis less_irrefl)
      with True ab(3) old show ?thesis by (auto simp: version_ok_def dest: inj_onD)
    next
      case False
      then have "b \<notin> set (ot_leaves t)" using eq(2) cl(2) [OF ab(1)] cl(3) [of b] by (metis less_irrefl)
      then obtain v w where "(lf_path a, Some v) \<in> set ds" "vh_of cr s (lf_path a) v = lf_vh a"
        "(lf_path b, Some w) \<in> set ds" "vh_of cr s (lf_path b) w = lf_vh b"
        using cl(2) [OF ab(1) False] cl(2) [OF ab(2)] by auto
      then have "lf_path a = lf_path b" using vh_distinctD [OF vh, of "lf_path a" v "lf_path b" w] eq by simp
      with eq show ?thesis by (auto intro: leaf_node.equality)
    qed
  qed
  show "tree_value cr s m' t' = apply_batch (tree_value cr s m t) ds"
  proof
    fix p
    have us: "(q, x) \<in> set ?us \<longleftrightarrow> map_option (map_option (vh_of cr s q)) (map_of ds q) = Some x" for q x
      using bt_inv_distinct [OF ds] by (auto simp: batch_updates_mem)
    have paths: "q \<in> fst ` set ?us \<longleftrightarrow> map_of ds q \<noteq> None" for q
      using fst_batch_updates [of cr s ds] by (metis image_set map_of_eq_None_iff)
    have "tree_value cr s m' t' p = Some v \<longleftrightarrow> apply_batch (tree_value cr s m t) ds p = Some v" for v
    proof (cases "map_of ds p")
      case None
      then have "l \<in> set (ot_leaves t') \<longleftrightarrow> l \<in> set (ot_leaves t)" if "lf_path l = p" for l
        using that us paths by (auto simp: leaves updated_def)
      then show ?thesis
        unfolding tree_value_leaf [OF wf'] apply_batch_def None option.case tree_value_leaf [OF wf] using cl(1) by (metis)
    next
      case (Some x)
      show ?thesis
      proof (cases x)
        case None
        then have "lf_path l \<noteq> p" if "l \<in> set (ot_leaves t')" for l
          using that us paths Some by (auto simp: leaves updated_def)
        then show ?thesis using None Some by (auto simp: tree_value_leaf [OF wf'] apply_batch_def)
      next
        case x: (Some w)
        have w: "(p, Some w) \<in> set ds" using Some x by (auto dest: map_of_SomeD)
        have "\<exists>l \<in> set (ot_leaves t'). lf_path l = p \<and> leaf_value cr s m' l = Some w"
        proof (cases "\<exists>l \<in> set (ot_leaves t). lf_path l = p \<and> lf_vh l = vh_of cr s p w")
          case True
          then obtain l where l: "l \<in> set (ot_leaves t)" "lf_path l = p" "lf_vh l = vh_of cr s p w" by blast
          then have l': "l \<in> set (ot_leaves t')" using us Some x by (auto simp: leaves updated_def)
          obtain v0 where v0: "leaf_value cr s m l = Some v0" using vs [OF l(1)] by blast
          have "tree_value cr s m t p = Some v0" using l v0 by (auto simp: tree_value_leaf [OF wf])
          moreover have "vh_of cr s p v0 = vh_of cr s p w" using leaf_value_vh [OF v0] l by simp
          ultimately have "v0 = w" using vh_distinctD [OF vh, of p v0 p w] w by simp
          then show ?thesis using l l' v0 cl(1) [OF l' l(1)] by auto
        next
          case False
          let ?l = "mk_leaf (p, vh_of cr s p w, ?nv)"
          have "?l \<in> set (ot_leaves t')" "?l \<notin> set (ot_leaves t)"
            using False us Some x by (auto simp: leaves updated_def mk_leaf_def)
          with cl(2) [of ?l] obtain v where "(p, Some v) \<in> set ds" "leaf_value cr s m' ?l = Some v" by (auto simp: mk_leaf_def)
          moreover then have "v = w" using bt_inv_distinct [OF ds] Some x by auto
          ultimately show ?thesis using \<open>?l \<in> set (ot_leaves t')\<close> by (intro bexI [of _ ?l]) (simp_all add: mk_leaf_def)
        qed
        then have "tree_value cr s m' t' p = Some w" by (simp add: tree_value_leaf [OF wf'])
        then show ?thesis using Some x by (auto simp: apply_batch_def)
      qed
    qed
    then show "tree_value cr s m' t' p = apply_batch (tree_value cr s m t) ds p"
      by (metis option.exhaust)
  qed
qed

section \<open>The store after a commit\<close>

lemma pt_nodes_ok:
  assumes "pt_wf prefix t" "(nk, n) \<in> pt_nodes H prefix t" "\<And>x. length (H x) = 32"
  shows "node_ok n"
  using assms(1,2)
proof (induction prefix t rule: pt_wf.induct)
  case (1 prefix v l)
  then show ?case by (simp add: node_ok_def leaf_ok_def)
next
  case (2 prefix v ts)
  have len: "length ts = 16" using 2(2) by (simp add: pt_wf_node)
  from 2(3) consider "n = pt_node H (PNode v ts)"
    | i t where "i < 16" "ts ! i = Some t" "(nk, n) \<in> pt_nodes H (prefix @ [word_of_nat i]) t"
    by (auto simp: pt_nodes_node len)
  then show ?case
  proof cases
    case 1
    then show ?thesis using pt_node_ok [OF 2(2) assms(3)] by simp
  next
    case (2 i t)
    have "(i, Some t) \<in> set (zip [0..<16] ts)" using 2 len by (auto simp: set_zip16 image_iff)
    moreover have "pt_wf (prefix @ [word_of_nat i]) t" using "2.prems"(1) 2 by (auto simp: pt_wf_node)
    ultimately show ?thesis using "2.IH" [of "(i, Some t)" i "Some t" t] 2(3) by simp
  qed
qed

lemma committed_stored:
  assumes c: "committed cr s m ds t t' ckpt m'" and cr: "crypto_ok cr" and ds: "bt_inv ds"
    and top: "\<And>v. m (root_record_key v) \<noteq> None \<Longrightarrow> v \<le> st_version s" and room: "st_version s < st_version s + 1"
  shows "stored_node m nk n \<Longrightarrow> stored_node m' nk n"
    and "(nk, n) \<in> fresh_nodes (sha256 cr) (st_version s + 1) [] t' \<Longrightarrow> stored_node m' nk n"
    and "tree_stored cr m prefix x \<Longrightarrow> tree_stored cr m' prefix x"
proof -
  note f = committed_facts [OF c cr ds]
  have keep: "m' (node_record_key nk) = m (node_record_key nk) \<and> (\<exists>v. nk_version nk \<le> v \<and> m' (root_record_key v) \<noteq> None)"
    if "nk_version nk \<le> v" "m (root_record_key v) \<noteq> None" for nk v
  proof -
    have "v < st_version s + 1" using top [OF that(2)] room by (rule le_less_trans)
    then have "nk_version nk \<noteq> st_version s + 1" "v \<noteq> st_version s + 1" using that(1) by auto
    then have "m' (node_record_key nk) = m (node_record_key nk)" "m' (root_record_key v) = m (root_record_key v)"
      using f(3) [of nk] f(2) [of v] by auto
    with that show ?thesis by auto
  qed
  show "stored_node m nk n \<Longrightarrow> stored_node m' nk n"
    using keep unfolding stored_node_def by fastforce
  show "tree_stored cr m prefix x \<Longrightarrow> tree_stored cr m' prefix x"
    using keep unfolding tree_stored_def by fastforce
  show "stored_node m' nk n" if "(nk, n) \<in> fresh_nodes (sha256 cr) (st_version s + 1) [] t'"
  proof -
    have "(nk, n) \<in> ot_nodes (sha256 cr) [] t'" "nk_version nk = st_version s + 1" using that by (auto simp: fresh_nodes_def)
    moreover have "pred_option (pt_wf []) t'" using f(1) by (simp add: retree_def)
    ultimately have "node_ok n" using cr pt_nodes_ok [of "[]" _ nk n "sha256 cr"] by (cases t') (auto simp: crypto_ok_def)
    then show ?thesis using f(4) [OF that] f(2) [of "st_version s + 1"] \<open>nk_version nk = st_version s + 1\<close>
      by (auto simp: stored_node_def)
  qed
qed

lemma committed_old_version:
  assumes c: "committed cr s m ds t t' ckpt m'" and cr: "crypto_ok cr" and ds: "bt_inv ds"
    and top: "\<And>v. m (root_record_key v) \<noteq> None \<Longrightarrow> v \<le> st_version s" and room: "st_version s < st_version s + 1"
    and v: "v \<le> st_version s" and ok: "version_ok cr s m v x"
  shows "version_ok cr s m' v x" "tree_value cr s m' x = tree_value cr s m x"
proof -
  note f = committed_facts [OF c cr ds]
  have lt: "v < st_version s + 1" using v room by (rule le_less_trans)
  have val: "leaf_value cr s m' l = leaf_value cr s m l" if "l \<in> set (ot_leaves x)" for l
  proof -
    have "pred_option (pt_wf []) x" using ok by (auto simp: version_ok_def tree_stored_def option.pred_set)
    then have "leaf_ok l" using that pt_wf_leaf [of "[]"] by (cases x) auto
    moreover have "lf_value_version l \<le> v" using ok that by (simp add: version_ok_def)
    then have "lf_value_version l \<noteq> st_version s + 1" using lt by auto
    ultimately show ?thesis using f(5) [of "lf_vh l" "lf_value_version l"] by (simp add: leaf_value_def leaf_ok_def)
  qed
  have "m' (root_record_key v) = m (root_record_key v)" using f(2) [of v] lt by auto
  moreover have "pred_option (tree_stored cr m' []) x"
    using ok committed_stored(3) [OF c cr ds top room] by (auto simp: version_ok_def option.pred_set)
  ultimately show "version_ok cr s m' v x"
    using ok val by (simp add: version_ok_def values_stored_def)
  show "tree_value cr s m' x = tree_value cr s m x"
  proof
    fix p
    have "l \<in> set (ot_leaves x)" if "leaf_at (ot_leaves x) p = Some l" for l
      using that by (auto simp: leaf_at_def find_Some_iff)
    then show "tree_value cr s m' x p = tree_value cr s m x p"
      using val by (cases "leaf_at (ot_leaves x) p") (auto simp: tree_value_def)
  qed
qed

lemma committed_new_version:
  assumes c: "committed cr s m ds t t' ckpt m'" and cr: "crypto_ok cr" and ds: "bt_inv ds"
    and top: "\<And>v. m (root_record_key v) \<noteq> None \<Longrightarrow> v \<le> st_version s" and room: "st_version s < st_version s + 1"
    and old: "version_ok cr s m (st_version s) t" and vh: "vh_distinct cr s (tree_value cr s m t) ds"
  shows "version_ok cr s m' (st_version s + 1) t'"
proof -
  let ?nv = "st_version s + 1" and ?H = "sha256 cr"
  note f = committed_facts [OF c cr ds]
  note v = committed_contents [OF c cr ds old room vh]
  have ne: "t' \<noteq> t" using c by (auto simp: committed_def)
  have wf: "pred_option (pt_wf []) t'" and nodes: "ot_nodes ?H [] t' \<subseteq> fresh_nodes ?H ?nv [] t' \<union> ot_nodes ?H [] t"
    and ver: "pred_option (\<lambda>x. pt_version x = ?nv) t'"
    using f(1) ne by (auto simp: retree_def option.pred_set)
  have oldst: "stored_node m nk n" if mem: "(nk, n) \<in> ot_nodes ?H [] t" for nk n
  proof -
    obtain x where x: "t = Some x" "(nk, n) \<in> pt_nodes ?H [] x" using mem by (cases t) auto
    then have "tree_stored cr m [] x" using old by (simp add: version_ok_def)
    then show ?thesis
      using x(2) pt_nodes_ok [of "[]" x nk n ?H] cr by (fastforce simp: tree_stored_def stored_node_def crypto_ok_def)
  qed
  have st: "stored_node m' nk n" if "(nk, n) \<in> ot_nodes ?H [] t'" for nk n
    using nodes that oldst committed_stored(1,2) [OF c cr ds top room] by blast
  have "pred_option (tree_stored cr m' []) t'"
    using wf st by (cases t') (auto simp: tree_stored_def stored_node_def)
  moreover have "nk_version nk \<le> ?nv" if "(nk, n) \<in> ot_nodes ?H [] t'" for nk n
  proof -
    have "nk_version nk = ?nv \<or> nk_version nk \<le> st_version s"
      using nodes that old by (auto simp: fresh_nodes_def version_ok_def)
    then show ?thesis using room by (auto intro: less_imp_le le_less_trans)
  qed
  moreover have "lf_value_version l \<le> ?nv" if "l \<in> set (ot_leaves t')" for l
    using committed_leaves(2,3) [OF c cr ds old room vh, of l] that by (cases "l \<in> set (ot_leaves t)") (auto intro: less_imp_le)
  ultimately show ?thesis
    using f(2) [of ?nv] ver v(1,3) by (auto simp: version_ok_def)
qed

text \<open>A record a batch retires is not one of the new version's, and a record retired before stays out of it.\<close>

lemma committed_dead:
  assumes c: "committed cr s m ds t t' ckpt m'" and cr: "crypto_ok cr" and ds: "bt_inv ds" and room: "st_version s < st_version s + 1"
    and old: "version_ok cr s m (st_version s) t" and vh: "vh_distinct cr s (tree_value cr s m t) ds"
    and target: "target \<in> dead (sha256 cr) [] t t'"
  shows "target \<notin> used_keys (sha256 cr) t' \<and> old_target (st_version s) target"
proof (cases "target \<in> dead_nodes (sha256 cr) [] t t'")
  case True
  have wf: "pred_option (pt_wf []) t" "pred_option (pt_wf []) t'"
    using old committed_facts(1) [OF c cr ds] by (auto simp: version_ok_def tree_stored_def option.pred_set retree_def)
  from True obtain nk where nk: "target = node_record_key nk" "nk \<in> fst ` ot_nodes (sha256 cr) [] t"
      "nk \<notin> fst ` ot_nodes (sha256 cr) [] t'"
    by (auto simp: dead_nodes_def)
  have "node_record_key nk \<noteq> node_record_key nk'" if "nk' \<in> fst ` ot_nodes (sha256 cr) [] t'" for nk'
    using nk(2,3) that ot_nodes_key_ok [OF wf(1)] ot_nodes_key_ok [OF wf(2)] node_record_key_inject [of nk nk'] by force
  then have "target \<notin> used_keys (sha256 cr) t'" by (auto simp: used_keys_def nk(1) leaf_value_key_def)
  moreover have "old_target (st_version s) target" using nk(1,2) old by (auto simp: old_target_def version_ok_def)
  ultimately show ?thesis by blast
next
  case False
  note cl = committed_leaves [OF c cr ds old room vh]
  from False target obtain l where l: "target = leaf_value_key l" "l \<in> set (ot_leaves t)" "l \<notin> set (ot_leaves t')"
    by (auto simp: dead_def)
  have "leaf_value_key l \<noteq> leaf_value_key l'" if l': "l' \<in> set (ot_leaves t')" for l'
  proof
    assume eq: "leaf_value_key l = leaf_value_key l'"
    then have "lf_value_version l = lf_value_version l'"
      using cl(3) [OF l(2)] cl(4) [OF l'] by (simp add: leaf_value_key_def value_record_key_inject leaf_ok_def)
    then have "l' \<in> set (ot_leaves t)" using cl(2) [OF l'] cl(3) [OF l(2)] by (metis less_irrefl)
    then have "l = l'" using eq l(2) old by (auto simp: version_ok_def dest: inj_onD)
    then show False using l(3) l' by simp
  qed
  then have "target \<notin> used_keys (sha256 cr) t'" by (auto simp: used_keys_def l(1) leaf_value_key_def)
  moreover have "old_target (st_version s) target"
    using l(1,2) old cl(3) [OF l(2)] by (auto simp: old_target_def leaf_value_key_def leaf_ok_def version_ok_def)
  ultimately show ?thesis by blast
qed

lemma committed_still_unused:
  assumes c: "committed cr s m ds t t' ckpt m'" and cr: "crypto_ok cr" and ds: "bt_inv ds" and room: "st_version s < st_version s + 1"
    and old: "version_ok cr s m (st_version s) t" and vh: "vh_distinct cr s (tree_value cr s m t) ds"
    and target: "old_target (st_version s) target" "target \<notin> used_keys (sha256 cr) t"
  shows "target \<notin> used_keys (sha256 cr) t'"
proof
  note cl = committed_leaves [OF c cr ds old room vh]
  assume "target \<in> used_keys (sha256 cr) t'"
  then consider nk where "target = node_record_key nk" "nk \<in> fst ` ot_nodes (sha256 cr) [] t'"
    | l where "target = leaf_value_key l" "l \<in> set (ot_leaves t')" by (auto simp: used_keys_def)
  then show False
  proof cases
    case 1
    have "nk_version nk \<noteq> st_version s + 1"
      using target(1) 1(1) le_less_trans [OF _ room] by (fastforce simp: old_target_def dest!: node_record_key_version)
    then have "nk \<in> fst ` ot_nodes (sha256 cr) [] t"
      using committed_facts(1) [OF c cr ds] 1(2) by (auto simp: fresh_nodes_def retree_def)
    then show False using target(2) 1(1) by (auto simp: used_keys_def)
  next
    case 2
    have "lf_value_version l \<noteq> st_version s + 1"
      using target(1) room 2 cl(4) [OF 2(2)]
      by (auto simp: old_target_def leaf_value_key_def value_record_key_inject leaf_ok_def)
    then have "l \<in> set (ot_leaves t)" using cl(2) [OF 2(2)] by blast
    then show False using target(2) 2(1) by (auto simp: used_keys_def)
  qed
qed

lemma committed_stale:
  assumes c: "committed cr s m ds t t' ckpt m'" and cr: "crypto_ok cr" and ds: "bt_inv ds" and room: "st_version s < st_version s + 1"
    and old: "version_ok cr s m (st_version s) t" and vh: "vh_distinct cr s (tree_value cr s m t) ds"
    and hist: "hist (st_version s) = Some t" "\<And>v x. hist v = Some x \<Longrightarrow> v \<le> st_version s"
    and stale: "stale_ok (sha256 cr) hist (st_version s) m"
  shows "stale_ok (sha256 cr) (hist(st_version s + 1 \<mapsto> t')) (st_version s + 1) m'"
  unfolding stale_ok_def
proof (intro allI impI)
  let ?nv = "st_version s + 1" and ?H = "sha256 cr"
  note f = committed_facts [OF c cr ds]
  have up: "x \<le> ?nv" if "x \<le> st_version s" for x using le_less_trans [OF that room] by auto
  have old_up: "old_target (st_version s) target \<Longrightarrow> old_target ?nv target" for target
    using up by (fastforce simp: old_target_def)
  fix k
  assume k: "m' k \<noteq> None \<and> k \<noteq> [] \<and> hd k = REC_STALE"
  have "\<exists>since target. k = stale_record_key since target"
    using k f(9) [of k] stale unfolding stale_ok_def by (cases "m k = None") blast+
  then obtain since target where key: "k = stale_record_key since target" by blast
  from f(7) [of since target] k key
  consider "since = ?nv" "target \<in> dead ?H [] t t'" | "m (stale_record_key since target) \<noteq> None" by auto
  then show "\<exists>since target. k = stale_record_key since target \<and> since \<le> ?nv \<and> old_target ?nv target \<and>
      (\<forall>v x. (hist(?nv \<mapsto> t')) v = Some x \<and> since \<le> v \<longrightarrow> target \<notin> used_keys ?H x)"
  proof cases
    case 1
    have "(hist(?nv \<mapsto> t')) v = Some x \<Longrightarrow> since \<le> v \<Longrightarrow> x = t'" for v x
      using hist(2) [of v x] less_le_trans [OF room, of v] 1(1) by (auto split: if_splits)
    then show ?thesis using key 1(1) old_up committed_dead [OF c cr ds room old vh 1(2)] by blast
  next
    case 2
    have "stale_record_key since target \<noteq> []" "hd (stale_record_key since target) = REC_STALE" by (simp_all add: stale_record_key_def)
    with stale 2 have s: "since \<le> st_version s" "old_target (st_version s) target"
      "\<And>v x. hist v = Some x \<Longrightarrow> since \<le> v \<Longrightarrow> target \<notin> used_keys ?H x"
      unfolding stale_ok_def by (metis stale_record_key_inject)+
    then show ?thesis
      using key up old_up committed_still_unused [OF c cr ds room old vh s(2) s(3) [OF hist(1) s(1)]]
      by (intro exI [of _ since] exI [of _ target]) auto
  qed
qed


text \<open>A batch that is committed changes the contents.\<close>

lemma committed_changes:
  assumes c: "committed cr s m ds t t' ckpt m'" and cr: "crypto_ok cr" and ds: "bt_inv ds"
    and old: "version_ok cr s m (st_version s) t" and room: "st_version s < st_version s + 1"
    and vh: "vh_distinct cr s (tree_value cr s m t) ds"
  shows "apply_batch (tree_value cr s m t) ds \<noteq> tree_value cr s m t"
proof
  let ?c = "tree_value cr s m t"
  assume "apply_batch ?c ds = ?c"
  then have same: "tree_value cr s m' t' = ?c" using committed_contents(2) [OF assms] by simp
  note cl = committed_leaves [OF assms]
  have re: "retree (sha256 cr) (st_version s + 1) [] (set (batch_updates cr s ds)) t t'" by (rule committed_facts(1) [OF c cr ds])
  have wf: "pred_option (pt_wf []) t" "pred_option (pt_wf []) t'"
    using old re by (auto simp: version_ok_def tree_stored_def option.pred_set retree_def)
  have sub: "l \<in> set (ot_leaves t)" if l: "l \<in> set (ot_leaves t')" for l
  proof (rule ccontr)
    assume new: "l \<notin> set (ot_leaves t)"
    from cl(2) [OF l this] obtain v where v: "vh_of cr s (lf_path l) v = lf_vh l" "leaf_value cr s m' l = Some v" by blast
    then have "?c (lf_path l) = Some v" using tree_value_leaf [OF wf(2), of cr s m'] l same by auto
    then obtain l' where "l' \<in> set (ot_leaves t)" "lf_path l' = lf_path l" "leaf_value cr s m l' = Some v"
      using tree_value_leaf [OF wf(1), of cr s m] by blast
    moreover then have "lf_vh l' = lf_vh l" using leaf_value_vh v(1) by fastforce
    ultimately show False using re l new by (auto simp: retree_def updated_def)
  qed
  have "l \<in> set (ot_leaves t')" if l: "l \<in> set (ot_leaves t)" for l
  proof -
    obtain v where "leaf_value cr s m l = Some v" using old l by (auto simp: version_ok_def values_stored_def)
    then have "tree_value cr s m' t' (lf_path l) = Some v" using tree_value_leaf [OF wf(1), of cr s m] l same by auto
    then obtain l' where l': "l' \<in> set (ot_leaves t')" "lf_path l' = lf_path l"
      using tree_value_leaf [OF wf(2), of cr s m'] by blast
    have "distinct (map lf_path (ot_leaves t))" using wf(1) pt_leaves_distinct by (cases t) auto
    then have "l' = l" using sub [OF l'(1)] l l'(2) by (auto simp: distinct_map dest: inj_onD)
    with l' show ?thesis by simp
  qed
  with sub have "set (ot_leaves t') = set (ot_leaves t)" by blast
  then show False using re c by (auto simp: retree_def committed_def)
qed

end
