(* ===== verification/Merkle_Refinement.thy ===== *)
theory Merkle_Refinement
  imports Merkle_Versions
begin

text \<open>
  The store as a versioned map. \<open>represents\<close> says that a store over some backend holds, for every
  version it keeps, given contents by path. The root of a version is a function of its contents;
  reads of a represented store return what the contents say, and a batch adds the version with the
  updated contents, or no version when nothing changes.
\<close>

section \<open>Changes that leave the contents alone\<close>

lemma same_keys:
  assumes "st_ck s' = st_ck s" "st_cipher s' = st_cipher s"
  shows "tree_value cr s' m t = tree_value cr s m t" "version_ok cr s' m v t = version_ok cr s m v t"
  by (simp_all add: fun_eq_iff tree_value_def version_ok_def values_stored_def leaf_value_same [OF assms])

lemma store_rep_same:
  assumes "store_rep ok view cr hist s" "live ok view (view (st_backend s)) s'" "same_store s s'"
  shows "store_rep ok view cr hist s'" "version_contents view cr hist s' = version_contents view cr hist s"
proof -
  have b: "view (st_backend s') = view (st_backend s)" using assms(2) by (simp add: live_def)
  note k = same_keys [OF same_store_sel(1,2) [OF assms(3)], of cr "view (st_backend s)"]
  show "store_rep ok view cr hist s'"
    using assms(1,2) unfolding store_rep_def b k(2) same_store_sel [OF assms(3)] by blast
  show "version_contents view cr hist s' = version_contents view cr hist s"
    using b k(1) by (intro ext) (simp add: version_contents_def k(1) [abs_def])
qed

section \<open>Committing\<close>

lemma encrypt_checkpoint_spec:
  assumes cr: "crypto_ok cr" and root: "length root = HASH_SIZE" and run: "encrypt_checkpoint cr s root v = (r, s')"
  shows "\<exists>d. s' = s\<lparr>st_draws := d\<rparr>"
    "case r of Inl e \<Rightarrow> seal_fault cr (st_cipher s) e | Inr ckpt \<Rightarrow> decrypt_checkpoint cr (st_cipher s) ckpt = Inr (root, v)"
  using store_encrypt_cases [OF cr run [unfolded encrypt_checkpoint_def]] root
  by (auto simp: decrypt_checkpoint_def HASH_SIZE_def split: sum.splits)

lemma length_root_of:
  assumes "crypto_ok cr" "pred_option (pt_wf []) t"
  shows "length (root_of cr (ot_child (sha256 cr) t)) = HASH_SIZE"
  using assms length_pt_hash [of "[]" _ "sha256 cr"]
  by (cases t) (auto simp: root_of_def crypto_ok_def placeholder_def sha256_parts_def HASH_SIZE_def)

lemma coherent_puts:
  "node_lru.coherent P c \<Longrightarrow> (\<And>k v. (k, v) \<in> set xs \<Longrightarrow> P k v) \<Longrightarrow>
     node_lru.coherent P (foldl (\<lambda>c (k, v). cache_put c k v) c xs)"
  by (induction xs arbitrary: c) (auto intro!: node_lru.coherent_put)

lemma committed_rep:
  assumes c: "committed cr s (view (st_backend s)) ds t t' ckpt (view (st_backend s'))"
    and ckpt: "decrypt_checkpoint cr (st_cipher s) ckpt = Inr (root_of cr (ot_child (sha256 cr) t'), st_version s + 1)"
    and cr: "crypto_ok cr" and ds: "bt_inv ds" and room: "st_version s < st_version s + 1"
    and vh: "vh_distinct cr s (tree_value cr s (view (st_backend s)) t) ds"
    and rep: "store_rep ok view cr hist s" and t: "hist (st_version s) = Some t"
    and s': "st_ck s' = st_ck s" "st_cipher s' = st_cipher s" "st_root s' = root_of cr (ot_child (sha256 cr) t')"
      "st_version s' = st_version s + 1" "st_root_child s' = ot_child (sha256 cr) t'"
    and live: "live ok view (view (st_backend s')) s'"
  shows "store_rep ok view cr (hist(st_version s + 1 \<mapsto> t')) s'"
    "version_contents view cr (hist(st_version s + 1 \<mapsto> t')) s' =
       (version_contents view cr hist s)(st_version s + 1 \<mapsto> apply_batch (tree_value cr s (view (st_backend s)) t) ds)"
proof -
  let ?m = "view (st_backend s)" and ?m' = "view (st_backend s')" and ?nv = "st_version s + 1"
  have old: "\<And>v x. hist v = Some x \<Longrightarrow> v \<le> st_version s \<and> version_ok cr s ?m v x"
    and top: "\<And>v. ?m (root_record_key v) \<noteq> None \<Longrightarrow> v \<le> st_version s"
    and stale: "stale_ok (sha256 cr) hist (st_version s) ?m" using rep by (auto simp: store_rep_def)
  note vok = old [OF t, THEN conjunct2]
  note f = committed_facts [OF c cr ds]
  note k = same_keys [OF s'(1,2), of cr ?m']
  note o = committed_old_version [OF c cr ds top room]
  have up: "x \<le> ?nv" "x \<noteq> ?nv" if "x \<le> st_version s" for x using le_less_trans [OF that room] by auto
  have "v \<le> ?nv" if "?m' (root_record_key v) \<noteq> None" for v
    using that f(2) [of v] top [of v] up(1) by (auto split: if_splits)
  moreover have "v \<le> ?nv \<and> version_ok cr s ?m' v x" if "(hist(?nv \<mapsto> t')) v = Some x" for v x
    using that old [of v x] o(1) [of v x] up(1) committed_new_version [OF c cr ds top room vok vh] by (auto split: if_splits)
  ultimately show "store_rep ok view cr (hist(?nv \<mapsto> t')) s'"
    using live f(8) ckpt committed_stale [OF c cr ds room vok vh t _ stale] old unfolding store_rep_def by (simp add: s' k(2))
  show "version_contents view cr (hist(?nv \<mapsto> t')) s' =
      (version_contents view cr hist s)(?nv \<mapsto> apply_batch (tree_value cr s ?m t) ds)"
    using committed_contents(2) [OF c cr ds vok room vh] o(2) old up(2)
    by (intro ext) (auto simp: version_contents_def k(1) [abs_def] map_option_case split: option.splits)
qed

context kv_contract
begin

lemma commit_spec:
  assumes cr: "crypto_ok cr" and ds: "bt_inv ds" and room: "st_version s < st_version s + 1"
    and rep: "store_rep inv abs cr hist s" and t: "hist (st_version s) = Some t"
    and vh: "vh_distinct cr s (tree_value cr s (abs (st_backend s)) t) ds"
    and prep: "prepared cr s ds acc" and ne: "t' \<noteq> t"
    and app: "applied cr (map_of (batch_updates cr s ds)) [] (set (batch_updates cr s ds)) acc t t' acc'"
    and live: "live inv abs (abs (st_backend s)) s1" and same: "same_store s s1"
    and run: "commit cr kv s1 acc' (ot_child (sha256 cr) t') (root_of cr (ot_child (sha256 cr) t')) = (r, s')"
  shows "case r of
      Inl e \<Rightarrow> (host_fault kv e \<or> seal_fault cr (st_cipher s) e) \<and> live inv abs (abs (st_backend s)) s' \<and> same_store s s'
    | Inr (root, v) \<Rightarrow> root = st_root s' \<and> v = st_version s + 1 \<and> st_version s' = v \<and>
        apply_batch (tree_value cr s (abs (st_backend s)) t) ds \<noteq> tree_value cr s (abs (st_backend s)) t \<and>
        st_ck s' = st_ck s \<and> st_cipher s' = st_cipher s \<and> st_pin s' = st_pin s \<and>
        store_rep inv abs cr (hist(v \<mapsto> t')) s' \<and>
        version_contents abs cr (hist(v \<mapsto> t')) s' =
          (version_contents abs cr hist s)(v \<mapsto> apply_batch (tree_value cr s (abs (st_backend s)) t) ds)"
proof -
  let ?c = "ot_child (sha256 cr) t'" and ?nv = "st_version s + 1" and ?m = "abs (st_backend s)"
  have nv: "ac_new_version acc = ?nv" and empty: "set (ac_pending acc) = {}" using prep by (simp_all add: prepared_def)
  have nv': "ac_new_version acc' = ?nv" and pend: "set (ac_pending acc') = fresh_nodes (sha256 cr) ?nv [] t'"
    and wf: "pred_option (pt_wf []) t'"
    using app empty nv unfolding applied_def acc_step_def retree_def by auto
  have inv1: "inv (st_backend s1)" "abs (st_backend s1) = ?m" and coh: "node_lru.coherent (stored_node ?m) (st_cache s1)"
    using live by (simp_all add: live_def)
  have top: "\<And>v. ?m (root_record_key v) \<noteq> None \<Longrightarrow> v \<le> st_version s" and old: "version_ok cr s ?m (st_version s) t"
    using rep t by (simp_all add: store_rep_def)
  obtain x s2 where e: "encrypt_checkpoint cr s1 (root_of cr ?c) ?nv = (x, s2)" by fastforce
  note es = encrypt_checkpoint_spec [OF cr length_root_of [OF cr wf] e]
  then obtain d where s2: "s2 = s1\<lparr>st_draws := d\<rparr>" by blast
  note sel = same_store_sel [OF same]
  show ?thesis
  proof (cases x)
    case (Inl e')
    then show ?thesis using run e es(2) live same by (auto simp: commit_def s2 sel nv')
  next
    case (Inr ckpt)
    have ckpt: "decrypt_checkpoint cr (st_cipher s) ckpt = Inr (root_of cr ?c, ?nv)"
      using es(2) by (simp add: Inr sel nv')
    obtain w b where w: "kv_write_batch kv (st_backend s1) (commit_ops acc' (root_of cr ?c) ckpt) = (w, b)" by fastforce
    note law = kv_write_law [OF inv1(1) w]
    show ?thesis
    proof (cases w)
      case (Inl we)
      then have "\<not> reliable kv" using w unfolding reliable_def by (metis fst_conv)
      moreover have "inv b" "abs b = ?m" "\<exists>c. we = Backend c" using law inv1 by (simp_all add: Inl)
      moreover have "r = Inl (Err we)" "s' = s2\<lparr>st_backend := b\<rparr>" using run by (auto simp: commit_def e Inr s2 w Inl nv')
      ultimately show ?thesis using coh same by (auto simp: s2 host_fault_def live_def)
    next
      case (Inr u)
      have b: "inv b" "abs b = apply_ops (commit_ops acc' (root_of cr ?c) ckpt) ?m" using law inv1 by (simp_all add: Inr)
      have com: "committed cr s ?m ds t t' ckpt (abs b)"
        unfolding committed_def using prep app ne b(2) by blast
      let ?s' = "s2\<lparr>st_backend := b, st_cache := foldl (\<lambda>c (nk, node). cache_put c nk node) (st_cache s2) (ac_pending acc'),
          st_root := root_of cr ?c, st_version := ?nv, st_root_child := ?c\<rparr>"
      have r: "r = Inr (root_of cr ?c, ?nv)" and s': "s' = ?s'"
        using run by (auto simp: commit_def e \<open>x = Inr ckpt\<close> s2 w Inr nv')
      note cs = committed_stored [OF com cr ds top room]
      have "node_lru.coherent (stored_node (abs b)) (st_cache s')"
        using node_lru.coherent_mono [OF coh cs(1)] cs(2) pend by (auto simp: s' s2 intro: coherent_puts)
      then have "live inv abs (abs (st_backend s')) s'" using b by (simp add: live_def s')
      then show ?thesis
        using committed_rep [of cr s abs ds t t' ckpt s', OF _ ckpt cr ds room vh rep t] com committed_changes [OF com cr ds old room vh]
        by (auto simp: r s' s2 sel)
    qed
  qed
qed

end

section \<open>The abstract store\<close>

text \<open>
  Writing a list of updates, the later ones winning; \<open>None\<close> deletes. The entries of some
  contents, and the root they determine.
\<close>

definition write_all :: "(bytes \<rightharpoonup> bytes) \<Rightarrow> (bytes \<times> bytes option) list \<Rightarrow> bytes \<rightharpoonup> bytes" where
  "write_all c es = foldl (\<lambda>c (p, v). c(p := v)) c es"

definition by_path :: "crypto \<Rightarrow> 'b merkle_store \<Rightarrow> (bytes \<times> bytes option) list \<Rightarrow> (bytes \<times> bytes option) list" where
  "by_path cr s ops = map (\<lambda>(key, v). (path_of cr s key, v)) ops"

definition content_entries :: "crypto \<Rightarrow> 'b merkle_store \<Rightarrow> (bytes \<rightharpoonup> bytes) \<Rightarrow> (bytes \<times> bytes) list" where
  "content_entries cr s c = map (\<lambda>p. (p, vh_of cr s p (the (c p)))) (sorted_list_of_set (dom c))"

definition content_root :: "crypto \<Rightarrow> 'b merkle_store \<Rightarrow> (bytes \<rightharpoonup> bytes) \<Rightarrow> bytes" where
  "content_root cr s c = smt (sha256 cr) 0 (content_entries cr s c)"

text \<open>\<open>C\<close> gives the contents of every version that is kept.\<close>

definition represents ::
    "('b \<Rightarrow> bool) \<Rightarrow> ('b \<Rightarrow> bytes \<rightharpoonup> bytes) \<Rightarrow> crypto \<Rightarrow> (u64 \<rightharpoonup> (bytes \<rightharpoonup> bytes)) \<Rightarrow> 'b merkle_store \<Rightarrow> bool" where
  "represents ok view cr C s \<longleftrightarrow> (\<exists>hist. store_rep ok view cr hist s \<and> C = version_contents view cr hist s)"

text \<open>No two of the values at stake have the same commitment.\<close>

definition commitments_distinct ::
    "crypto \<Rightarrow> 'b merkle_store \<Rightarrow> (bytes \<rightharpoonup> bytes) \<Rightarrow> (bytes \<times> bytes option) list \<Rightarrow> bool" where
  "commitments_distinct cr s c es \<longleftrightarrow>
     inj_on (\<lambda>(p, v). vh_of cr s p v) ({(p, v). c p = Some v} \<union> {(p, v). (p, Some v) \<in> set es})"

lemma write_all_snoc: "write_all c (es @ [(p, v)]) = (write_all c es)(p := v)"
  by (simp add: write_all_def)

lemma apply_batch_collect: "apply_batch c (btree.collect es) = write_all c es"
proof
  fix p
  have "apply_batch c (btree.collect es) p = (case map_of (rev es) p of None \<Rightarrow> c p | Some v \<Rightarrow> v)"
    using btree.get_collect [of es p] by (simp add: apply_batch_def bt_get_def)
  also have "\<dots> = write_all c es p"
    by (induction es rule: rev_induct) (auto simp: write_all_def split: prod.splits)
  finally show "apply_batch c (btree.collect es) p = write_all c es p" .
qed

lemma collect_mem: "(p, v) \<in> set (btree.collect es) \<Longrightarrow> (p, v) \<in> set es"
  using btree.entries_get [OF btree.inv_collect, of p v es] btree.get_collect [of es p]
  by (auto dest!: map_of_SomeD)

lemma commitments_vh: "commitments_distinct cr s c es \<Longrightarrow> vh_distinct cr s c (btree.collect es)"
  unfolding commitments_distinct_def vh_distinct_def by (rule inj_on_subset) (auto dest: collect_mem)

lemma representsE:
  assumes "represents ok view cr C s"
  obtains hist t where "store_rep ok view cr hist s" "C = version_contents view cr hist s" "hist (st_version s) = Some t"
    "C (st_version s) = Some (tree_value cr s (view (st_backend s)) t)"
  using assms by (auto simp: represents_def store_rep_def version_contents_def)

lemma represents_same:
  assumes "represents ok view cr C s" "live ok view (view (st_backend s)) s'" "same_store s s'"
  shows "represents ok view cr C s'"
  using assms store_rep_same [OF _ assms(2,3)] unfolding represents_def by metis

section \<open>Roots and contents\<close>

lemma content_keys: "st_ck s' = st_ck s \<Longrightarrow> content_entries cr s' c = content_entries cr s c \<and> content_root cr s' c = content_root cr s c"
  by (simp add: content_root_def content_entries_def vh_of_def)

lemma content_same:
  assumes "same_store s s'"
  shows "content_entries cr s' c = content_entries cr s c" "content_root cr s' c = content_root cr s c"
  using content_keys [OF same_store_sel(1) [OF assms]] by simp_all

lemma leaves_content_entries:
  assumes wf: "pred_option (pt_wf []) t" and vals: "values_stored cr s m t"
  shows "map leaf_entry (ot_leaves t) = content_entries cr s (tree_value cr s m t)"
proof -
  let ?c = "tree_value cr s m t"
  have sorted: "sorted_wrt (<) (map lf_path (ot_leaves t))"
    using wf pt_leaves_sorted [of "[]"] by (cases t) (auto simp: sorted_wrt_map)
  have val: "\<exists>v. ?c (lf_path l) = Some v \<and> vh_of cr s (lf_path l) v = lf_vh l" if l: "l \<in> set (ot_leaves t)" for l
  proof -
    obtain v where v: "leaf_value cr s m l = Some v" using vals l by (auto simp: values_stored_def)
    then show ?thesis using l tree_value_leaf [OF wf, of cr s m "lf_path l" v] leaf_value_vh [OF v] by auto
  qed
  have "dom ?c = lf_path ` set (ot_leaves t)"
    using val tree_value_leaf [OF wf, of cr s m] by (auto simp: dom_def image_iff) fastforce
  then have "sorted_list_of_set (dom ?c) = map lf_path (ot_leaves t)"
    using sorted by (simp add: strict_sorted_iff sorted_list_of_set.idem_if_sorted_distinct flip: set_map)
  then show ?thesis using val by (fastforce simp: content_entries_def leaf_entry_def)
qed

lemma version_root:
  assumes "version_ok cr s m v t"
  shows "m (root_record_key v) = Some (content_root cr s (tree_value cr s m t))"
    "root_of cr (ot_child (sha256 cr) t) = content_root cr s (tree_value cr s m t)"
proof -
  have wf: "pred_option (pt_wf []) t" and vals: "values_stored cr s m t"
    using assms by (auto simp: version_ok_def tree_stored_def option.pred_set)
  show root: "root_of cr (ot_child (sha256 cr) t) = content_root cr s (tree_value cr s m t)"
    by (simp add: root_of_smt [OF wf] leaves_content_entries [OF wf vals] content_root_def)
  show "m (root_record_key v) = Some (content_root cr s (tree_value cr s m t))"
    using assms root by (simp add: version_ok_def)
qed

lemma represents_root:
  assumes "represents ok view cr C s"
  shows "\<exists>c. C (st_version s) = Some c \<and> st_root s = content_root cr s c"
proof -
  from assms obtain hist t where "store_rep ok view cr hist s" "hist (st_version s) = Some t"
    "C (st_version s) = Some (tree_value cr s (view (st_backend s)) t)" by (rule representsE)
  then show ?thesis
    using version_root(2) [of cr s "view (st_backend s)" "st_version s" t] by (auto simp: store_rep_def)
qed

section \<open>Reads\<close>

context kv_contract
begin

lemma walk_reads:
  assumes cr: "crypto_ok cr" and live: "live inv abs m s" and v: "version_ok cr s m v t" and path: "length path = HASH_SIZE"
  shows "reads inv abs kv m s (walk cr kv s (ot_child (sha256 cr) t) path) (tree_value cr s m t path)"
proof (cases t)
  case None
  then show ?thesis using live by (auto simp: walk_def tree_value_def leaf_at_def intro: reads_value)
next
  case (Some x)
  then show ?thesis
    using v walk_from_reads [OF cr path live, of "[]" x] by (simp add: walk_def version_ok_def under_def)
qed

lemma prove_path_reads:
  assumes cr: "crypto_ok cr" and live: "live inv abs m s" and v: "version_ok cr s m v t"
  shows "reads inv abs kv m s (prove_path cr kv s (ot_child (sha256 cr) t) path)
    (let xs = content_entries cr s (tree_value cr s m t) in
     \<lparr>pf_leaf = fst (smt_prove (sha256 cr) 0 xs path), pf_siblings = rev (snd (smt_prove (sha256 cr) 0 xs path))\<rparr>)"
proof -
  have wf: "pred_option (pt_wf []) t" and vals: "values_stored cr s m t"
    using v by (auto simp: version_ok_def tree_stored_def option.pred_set)
  note xs = leaves_content_entries [OF wf vals, symmetric]
  show ?thesis
  proof (cases t)
    case None
    have "content_entries cr s (tree_value cr s m None) = []" using xs by (simp add: None)
    then show ?thesis using live by (simp add: prove_path_def None reads_value)
  next
    case (Some x)
    obtain leaf us where p: "smt_prove (sha256 cr) 0 (map leaf_entry (pt_leaves x)) path = (leaf, us)" by fastforce
    have "tree_stored cr m [] x" using v by (simp add: version_ok_def Some)
    from prove_from_reads [OF cr live this, of path leaf us "[]"] p
    obtain l where l: "map_option leaf_entry l = leaf"
      and r: "reads inv abs kv m s (prove_from cr kv s (pt_child (sha256 cr) x) [] path []) (l, us)" by auto
    have l': "map_option (\<lambda>l. (lf_path l, lf_vh l)) l = leaf" using l by (simp add: leaf_entry_def [abs_def])
    have e: "content_entries cr s (tree_value cr s m (Some x)) = map leaf_entry (pt_leaves x)" using xs by (simp add: Some)
    from r show ?thesis
      by (cases rule: readsE) (auto simp: prove_path_def Some e p l' intro!: reads_value reads_fault)
  qed
qed

text \<open>The root child of a kept version, from its root and from its root record.\<close>

lemma load_root_child_reads:
  assumes cr: "crypto_ok cr" and live: "live inv abs m s" and v: "version_ok cr s m v t"
    and root: "t \<noteq> None \<Longrightarrow> content_root cr s (tree_value cr s m t) \<noteq> placeholder (sha256 cr)"
  shows "reads inv abs kv m s (load_root_child cr kv s (root_of cr (ot_child (sha256 cr) t)) v) (ot_child (sha256 cr) t)"
proof (cases t)
  case None
  then show ?thesis using live by (auto simp: load_root_child_def root_of_def intro: reads_value)
next
  case (Some x)
  have st: "tree_stored cr m [] x" and pv: "v = pt_version x" using v by (simp_all add: version_ok_def Some)
  have ne: "root_of cr (ot_child (sha256 cr) t) \<noteq> placeholder (sha256 cr)" using root version_root(2) [OF v] Some by simp
  have hash: "root_of cr (ot_child (sha256 cr) t) = pt_hash (sha256 cr) x" by (simp add: Some root_of_def)
  from load_tree_reads [OF live st cr] show ?thesis
    unfolding load_root_child_def hash pv
    by (cases rule: readsE)
      (use ne hash in \<open>auto simp: node_key_root_def Some pt_child_def pt_is_leaf_node intro!: reads_value reads_fault\<close>)
qed

lemma root_child_at_reads:
  assumes cr: "crypto_ok cr" and live: "live inv abs m s" and v: "version_ok cr s m v t"
    and root: "t \<noteq> None \<Longrightarrow> content_root cr s (tree_value cr s m t) \<noteq> placeholder (sha256 cr)"
  shows "reads inv abs kv m s (root_child_at cr kv s v) (ot_child (sha256 cr) t)"
proof -
  let ?root = "root_of cr (ot_child (sha256 cr) t)"
  have wf: "pred_option (pt_wf []) t" and rec: "m (root_record_key v) = Some ?root"
    using v by (auto simp: version_ok_def tree_stored_def option.pred_set)
  from backend_get_reads [OF live, of "root_record_key v"]
  show ?thesis
  proof (cases rule: readsE)
    case (1 s')
    note k = same_keys [OF same_store_sel(1,2) [OF 1(3)], of cr m] and cs = content_same [OF 1(3)]
    have "root_child_at cr kv s v = load_root_child cr kv s' ?root v"
      using rec length_root_of [OF cr wf] 1(1) by (simp add: root_child_at_def load_root_record_def)
    then show ?thesis
      using reads_trans [OF 1(3) load_root_child_reads [OF cr 1(2), of v t]] v root by (simp add: k cs)
  next
    case (2 e s')
    then show ?thesis by (auto simp: root_child_at_def load_root_record_def intro: reads_fault)
  qed
qed

end

section \<open>Writes\<close>

lemma unchanged_contents:
  assumes old: "version_ok cr s m (st_version s) t" and vh: "vh_distinct cr s (tree_value cr s m t) ds" and ds: "bt_inv ds"
    and room: "st_version s < st_version s + 1"
    and same: "updated (st_version s + 1) (set (batch_updates cr s ds)) (set (ot_leaves t)) = set (ot_leaves t)"
  shows "apply_batch (tree_value cr s m t) ds = tree_value cr s m t"
proof
  fix p
  let ?c = "tree_value cr s m t" and ?us = "batch_updates cr s ds"
  have wf: "pred_option (pt_wf []) t" and vals: "\<And>l. l \<in> set (ot_leaves t) \<Longrightarrow> leaf_value cr s m l \<noteq> None"
    using old by (auto simp: version_ok_def tree_stored_def option.pred_set values_stored_def)
  have us: "(p, map_option (vh_of cr s p) x) \<in> set ?us" if "map_of ds p = Some x" for x
    using map_of_SomeD [OF that] by (auto simp: batch_updates_mem)
  have only: "y = x" if "(p, x) \<in> set ?us" "(p, y) \<in> set ?us" for x y
    using that bt_inv_distinct [OF ds] fst_batch_updates [of cr s ds] by (metis eq_key_imp_eq_value)
  show "apply_batch ?c ds p = ?c p"
  proof (cases "map_of ds p")
    case None
    then show ?thesis by (simp add: apply_batch_def)
  next
    case (Some x)
    show ?thesis
    proof (cases x)
      case None
      have "(p, None) \<in> set ?us" using us [OF Some] None by simp
      then have "lf_path l \<noteq> p" if "l \<in> set (ot_leaves t)" for l
        using that same only [of None "Some (lf_vh l)"] unfolding updated_def by force
      then have "?c p = None" using tree_value_leaf [OF wf, of cr s m p] by (cases "?c p") auto
      then show ?thesis by (simp add: apply_batch_def Some None)
    next
      case (Some v)
      have u: "(p, Some (vh_of cr s p v)) \<in> set ?us" using us [OF \<open>map_of ds p = Some x\<close>] Some by simp
      have "\<exists>l \<in> set (ot_leaves t). lf_path l = p \<and> lf_vh l = vh_of cr s p v"
      proof (rule ccontr)
        assume none: "\<not> (\<exists>l \<in> set (ot_leaves t). lf_path l = p \<and> lf_vh l = vh_of cr s p v)"
        then have "\<lparr>lf_path = p, lf_vh = vh_of cr s p v, lf_value_version = st_version s + 1\<rparr> \<in> updated (st_version s + 1) (set ?us) (set (ot_leaves t))"
          using u by (auto simp: updated_def)
        then show False using none same by force
      qed
      then obtain l w where l: "l \<in> set (ot_leaves t)" "lf_path l = p" "lf_vh l = vh_of cr s p v" "leaf_value cr s m l = Some w"
        using vals by blast
      have w: "?c p = Some w" using tree_value_leaf [OF wf] l by blast
      have "p = p \<and> w = v"
        by (rule vh_distinctD [OF vh]) (use l w leaf_value_vh [OF l(4)] map_of_SomeD [OF \<open>map_of ds p = Some x\<close>] Some in auto)
      then show ?thesis using w by (simp add: apply_batch_def \<open>map_of ds p = Some x\<close> Some)
    qed
  qed
qed

context kv_contract
begin

lemma put_collected_spec:
  assumes rep: "represents inv abs cr C s" and cr: "crypto_ok cr" and room: "st_version s < st_version s + 1"
    and c: "C (st_version s) = Some c" and vh: "commitments_distinct cr s c es"
    and len: "\<forall>(p, v) \<in> set es. length p = HASH_SIZE"
    and run: "(case fold_deduped cr kv s (btree.collect es) of
        (Inl e, s') \<Rightarrow> (Inl e, s')
      | (Inr None, s') \<Rightarrow> (Inr (st_root s', st_version s'), s')
      | (Inr (Some (acc, new_root_child, new_root)), s') \<Rightarrow> commit cr kv s' acc new_root_child new_root) = (r, s')"
  shows "case r of
      Inl e \<Rightarrow> (host_fault kv e \<or> seal_fault cr (st_cipher s) e) \<and> represents inv abs cr C s' \<and> same_store s s'
    | Inr (root, v) \<Rightarrow> root = st_root s' \<and> v = st_version s' \<and>
        st_ck s' = st_ck s \<and> st_cipher s' = st_cipher s \<and> st_pin s' = st_pin s \<and>
        v = (if write_all c es = c then st_version s else st_version s + 1) \<and>
        represents inv abs cr (C(v \<mapsto> write_all c es)) s'"
proof -
  let ?ds = "btree.collect es" and ?m = "abs (st_backend s)"
  from rep obtain hist t where hist: "store_rep inv abs cr hist s" "C = version_contents abs cr hist s"
    "hist (st_version s) = Some t" "C (st_version s) = Some (tree_value cr s ?m t)" by (rule representsE)
  have ceq: "c = tree_value cr s ?m t" using c hist(4) by simp
  have ds: "bt_inv ?ds" by (rule btree.inv_collect)
  note vh' = commitments_vh [OF vh, unfolded ceq]
  have old: "version_ok cr s ?m (st_version s) t" using hist by (simp add: store_rep_def)
  obtain x s1 where f: "fold_deduped cr kv s ?ds = (x, s1)" by fastforce
  have "\<forall>(p, v) \<in> set ?ds. length p = HASH_SIZE" using len collect_mem by fast
  note fs = fold_deduped_spec [OF hist(1) cr hist(3) ds this room f]
  have rep1: "represents inv abs cr C s1" using represents_same [OF rep] fs by blast
  note sel = same_store_sel [OF conjunct1 [OF conjunct2 [OF fs]]]
  show ?thesis
  proof (cases x)
    case (Inl e)
    then show ?thesis using run fs rep1 by (auto simp: f)
  next
    case (Inr y)
    show ?thesis
    proof (cases y)
      case None
      have eq: "write_all c es = c"
        using fs unchanged_contents [OF old vh' ds room] by (simp add: ceq Inr None flip: apply_batch_collect)
      moreover have "C(st_version s \<mapsto> c) = C" using c by auto
      ultimately show ?thesis using run rep1 sel by (auto simp: f Inr None)
    next
      case (Some z)
      obtain acc' ch root where z: "z = (acc', ch, root)" by (cases z)
      from fs obtain t' acc where t': "t' \<noteq> t" "prepared cr s ?ds acc" "ch = ot_child (sha256 cr) t'" "root = root_of cr ch"
        "applied cr (map_of (batch_updates cr s ?ds)) [] (set (batch_updates cr s ?ds)) acc t t' acc'"
        by (auto simp: Inr Some z)
      have com: "commit cr kv s1 acc' (ot_child (sha256 cr) t') (root_of cr (ot_child (sha256 cr) t')) = (r, s')"
        using run by (simp add: f Inr Some z t'(3,4))
      note cs = commit_spec [OF cr ds room hist(1) hist(3) vh' t'(2,1,5) _ _ com]
      show ?thesis
      proof (cases r)
        case (Inl e)
        then show ?thesis using cs fs represents_same [OF rep] by auto
      next
        case (Inr rv)
        then obtain v where v: "rv = (st_root s', v)" "v = st_version s + 1" "st_version s' = v"
          "store_rep inv abs cr (hist(v \<mapsto> t')) s'"
          "version_contents abs cr (hist(v \<mapsto> t')) s' = C(v \<mapsto> write_all c es)"
          "st_ck s' = st_ck s \<and> st_cipher s' = st_cipher s \<and> st_pin s' = st_pin s" "write_all c es \<noteq> c"
          using cs fs by (auto simp: hist(2) ceq apply_batch_collect)
        then have "represents inv abs cr (C(v \<mapsto> write_all c es)) s'" unfolding represents_def by metis
        with v show ?thesis by (simp add: Inr)
      qed
    qed
  qed
qed

end

end
