(* ===== verification/Merkle_Lifecycle.thy ===== *)
theory Merkle_Lifecycle
  imports Merkle_Refinement
begin

text \<open>
  The life of a represented store: creation over an empty backend, reopening from the sealed
  checkpoint, previews and transaction forks.
\<close>

section \<open>Entries\<close>

lemma collect_by_path:
  "foldl (\<lambda>m (key, val). bt_insert (path_of cr s key) val m) bt_new ops = btree.collect (by_path cr s ops)"
  by (simp add: btree.collect_def by_path_def foldl_map split_def)

lemma content_entries_get:
  assumes "finite (dom c)"
  shows "map_of (content_entries cr s c) p = map_option (vh_of cr s p) (c p)"
  using assms by (cases "c p") (auto simp: content_entries_def map_of_map_restrict restrict_map_def)

lemma version_entries_ok:
  assumes "version_ok cr s m v t"
  shows "entries_ok (content_entries cr s (tree_value cr s m t))" "finite (dom (tree_value cr s m t))"
proof -
  have wf: "pred_option (pt_wf []) t" and vals: "values_stored cr s m t"
    using assms by (auto simp: version_ok_def tree_stored_def option.pred_set)
  have "distinct (map lf_path (ot_leaves t))" "\<And>l. l \<in> set (ot_leaves t) \<Longrightarrow> leaf_ok l"
    using wf pt_leaves_distinct pt_wf_leaf by (cases t; fastforce)+
  then show "entries_ok (content_entries cr s (tree_value cr s m t))"
    unfolding leaves_content_entries [OF wf vals, symmetric]
    by (auto simp: entries_ok_def leaf_entry_def leaf_ok_def comp_def)
  have "dom (tree_value cr s m t) \<subseteq> lf_path ` set (ot_leaves t)"
    using tree_value_leaf [OF wf, of cr s m] by (auto simp: dom_def)
  then show "finite (dom (tree_value cr s m t))" by (rule finite_subset) simp
qed

section \<open>Opening\<close>

lemma coherent_new: "node_lru.coherent P (cache_new capacity)"
  by (simp add: node_lru.coherent_def cache_new_def cache_inv_def cache_lookup_def)

context kv_contract
begin

lemma store_create_rep:
  assumes cr: "crypto_ok cr" and b: "inv backend" "abs backend = Map.empty"
    and run: "store_create cr kv backend ck key d = (r, s)"
  shows "case r of Inl e \<Rightarrow> host_fault kv e \<or> seal_fault cr key e
    | Inr _ \<Rightarrow> represents inv abs cr [0 \<mapsto> Map.empty] s \<and> st_ck s = ck \<and> st_cipher s = key \<and> st_version s = 0 \<and> st_pin s = None"
proof -
  let ?p = "placeholder (sha256 cr)"
  define s0 where "s0 = \<lparr>st_backend = backend, st_ck = ck, st_cipher = key, st_root = ?p, st_version = 0, st_root_child = None,
               st_cache = cache_new DEFAULT_CACHE_CAPACITY, st_pin = None, st_draws = d\<rparr>"
  have p: "?p = root_of cr (ot_child (sha256 cr) None)" by (simp add: root_of_def)
  have len: "length ?p = HASH_SIZE" unfolding p by (rule length_root_of [OF cr]) simp
  obtain x s1 where e: "encrypt_checkpoint cr s0 ?p 0 = (x, s1)" by fastforce
  note es = encrypt_checkpoint_spec [OF cr len e]
  then obtain d' where s1: "s1 = s0\<lparr>st_draws := d'\<rparr>" by blast
  show ?thesis
  proof (cases x)
    case (Inl y)
    then show ?thesis using run e es(2) by (auto simp: store_create_def Let_def s0_def [symmetric]) (simp add: s0_def)
  next
    case (Inr ckpt)
    let ?ops = "[Put (root_record_key 0) ?p, Put checkpoint_record_key ckpt]"
    obtain w b' where w: "kv_write_batch kv backend ?ops = (w, b')" by fastforce
    note law = kv_write_law [OF b(1) w]
    have "st_backend s1 = backend" by (simp add: s1 s0_def)
    then have run': "(case w of Inl e \<Rightarrow> (Inl (Err e), s1\<lparr>st_backend := b'\<rparr>) | Inr _ \<Rightarrow> (Inr (), s1\<lparr>st_backend := b'\<rparr>)) = (r, s)"
      using run e Inr w by (simp add: store_create_def Let_def s0_def [symmetric])
    show ?thesis
    proof (cases w)
      case (Inl we)
      then have "\<not> reliable kv" using w unfolding reliable_def by (metis fst_conv)
      then show ?thesis using run' law by (auto simp: Inl host_fault_def)
    next
      case (Inr u)
      have ckpt: "decrypt_checkpoint cr key ckpt = Inr (?p, 0)" using es(2) by (simp add: \<open>x = Inr ckpt\<close> s0_def)
      have m': "abs b' = [root_record_key 0 \<mapsto> ?p, checkpoint_record_key \<mapsto> ckpt]" and inv': "inv b'"
        using law b(2) by (simp_all add: Inr)
      have s: "s = s1\<lparr>st_backend := b'\<rparr>" "r = Inr ()" using run' by (simp_all add: Inr)
      have keys: "root_record_key v \<noteq> checkpoint_record_key" "hd (root_record_key v) \<noteq> REC_STALE" "hd checkpoint_record_key \<noteq> REC_STALE" for v
        by (simp_all add: record_key_defs record_tags record_tags [symmetric])
      have root: "abs b' (root_record_key v) = (if v = 0 then Some ?p else None)" for v
        using root_record_key_inject [of v 0] keys(1) by (auto simp: m')
      have v0: "version_ok cr s (abs b') 0 None"
        by (simp add: version_ok_def root p values_stored_def)
      have "store_rep inv abs cr [0 \<mapsto> None] s"
        using inv' root keys v0 ckpt
        by (auto simp: store_rep_def live_def s s1 s0_def coherent_new stale_ok_def m' root_of_def split: if_splits)
      moreover have "version_contents abs cr [0 \<mapsto> None] s = [0 \<mapsto> Map.empty]"
        by (auto simp: fun_eq_iff version_contents_def tree_value_def leaf_at_def)
      ultimately show ?thesis unfolding represents_def using s by (auto simp: s1 s0_def intro!: exI [of _ "[0 \<mapsto> None]"])
    qed
  qed
qed

end

context kv_contract
begin

text \<open>Reopening from the sealed checkpoint.\<close>

lemma open_latest_rep:
  assumes cr: "crypto_ok cr" and rep: "represents inv abs cr C s"
    and root: "\<And>c. C (st_version s) = Some c \<Longrightarrow> c \<noteq> Map.empty \<Longrightarrow> content_root cr s c \<noteq> placeholder (sha256 cr)"
    and run: "open_latest cr kv (st_backend s) (st_ck s) (st_cipher s) d = r"
  shows "case r of Inl (e, b) \<Rightarrow> host_fault kv e \<and> inv b \<and> abs b = abs (st_backend s)
    | Inr s' \<Rightarrow> represents inv abs cr C s' \<and> same_store (s\<lparr>st_pin := None\<rparr>) s'"
proof -
  from rep obtain hist t where hist: "store_rep inv abs cr hist s" "C = version_contents abs cr hist s"
    "hist (st_version s) = Some t" "C (st_version s) = Some (tree_value cr s (abs (st_backend s)) t)" by (rule representsE)
  let ?m = "abs (st_backend s)"
  have vok: "version_ok cr s ?m (st_version s) t" and rc: "st_root_child s = ot_child (sha256 cr) t"
    and rt: "st_root s = root_of cr (ot_child (sha256 cr) t)" and bi: "inv (st_backend s)"
    using hist by (auto simp: store_rep_def live_def)
  from hist(1) obtain ckpt where ckpt: "?m checkpoint_record_key = Some ckpt"
    "decrypt_checkpoint cr (st_cipher s) ckpt = Inr (st_root s, st_version s)" by (auto simp: store_rep_def)
  obtain x b where g: "kv_get kv (st_backend s) checkpoint_record_key = (x, b)" by fastforce
  note law = kv_get_law [OF bi g]
  show ?thesis
  proof (cases x)
    case (Inl e)
    then have "\<not> reliable kv" using g unfolding reliable_def by (metis fst_conv)
    then show ?thesis using run law by (auto simp: open_latest_def g Inl host_fault_def)
  next
    case (Inr y)
    have y: "y = Some ckpt" and b: "inv b" "abs b = ?m" using law ckpt by (auto simp: Inr)
    define s0 where "s0 = \<lparr>st_backend = b, st_ck = st_ck s, st_cipher = st_cipher s, st_root = st_root s, st_version = st_version s,
      st_root_child = None, st_cache = cache_new DEFAULT_CACHE_CAPACITY, st_pin = None, st_draws = d\<rparr>"
    have live0: "live inv abs ?m s0" using b by (simp add: live_def s0_def coherent_new)
    have keys: "st_ck s0 = st_ck s" "st_cipher s0 = st_cipher s" by (simp_all add: s0_def)
    have v0: "version_ok cr s0 ?m (st_version s) t" using vok by (simp add: same_keys [OF keys])
    have "t \<noteq> None \<Longrightarrow> tree_value cr s ?m t \<noteq> Map.empty"
      using vok pt_leaves_nonempty tree_value_leaf [of t cr s ?m]
      by (cases t) (fastforce simp: version_ok_def tree_stored_def values_stored_def dest: hd_in_set)+
    then have "t \<noteq> None \<Longrightarrow> content_root cr s0 (tree_value cr s0 ?m t) \<noteq> placeholder (sha256 cr)"
      using root [OF hist(4)] content_keys [OF keys(1), of cr] by (simp add: same_keys [OF keys])
    from load_root_child_reads [OF cr live0 v0 this] have
      "reads inv abs kv ?m s0 (load_root_child cr kv s0 (st_root s) (st_version s)) (st_root_child s)"
      by (simp add: rt rc)
    then show ?thesis
    proof (cases rule: readsE)
      case (1 s1)
      let ?s' = "s1\<lparr>st_root_child := st_root_child s\<rparr>"
      have r: "r = Inr ?s'" using run 1(1) ckpt(2)
        by (simp add: open_latest_def g Inr y store_open_def Let_def s0_def [symmetric])
      have same: "same_store (s\<lparr>st_pin := None\<rparr>) ?s'" using 1(3) by (simp add: same_store_def s0_def)
      have live: "live inv abs ?m ?s'" using 1(2) by (simp add: live_def)
      have "represents inv abs cr C (s\<lparr>st_pin := None\<rparr>)"
        using rep unfolding represents_def store_rep_def version_contents_def live_def
        by (simp add: same_keys [of "s\<lparr>st_pin := None\<rparr>" s] cong: map_option_cong)
      then have "represents inv abs cr C ?s'" by (rule represents_same) (use live same in simp_all)
      then show ?thesis using same by (simp add: r)
    next
      case (2 e s1)
      then have "r = Inl (e, st_backend s1)" using run ckpt(2)
        by (simp add: open_latest_def g Inr y store_open_def Let_def s0_def [symmetric])
      then show ?thesis using 2 by (simp add: live_def)
    qed
  qed
qed

end

section \<open>Previews and forks\<close>

lemma committed_root:
  assumes c: "committed cr s m ds t t' ckpt m'" and cr: "crypto_ok cr" and ds: "bt_inv ds"
    and top: "\<And>v. m (root_record_key v) \<noteq> None \<Longrightarrow> v \<le> st_version s" and room: "st_version s < st_version s + 1"
    and old: "version_ok cr s m (st_version s) t" and vh: "vh_distinct cr s (tree_value cr s m t) ds"
  shows "root_of cr (ot_child (sha256 cr) t') = content_root cr s (apply_batch (tree_value cr s m t) ds)"
  using version_root(2) [OF committed_new_version [OF assms]] committed_contents(2) [OF c cr ds old room vh] by simp

context kv_contract
begin

lemma compute_batch_spec:
  assumes rep: "represents inv abs cr C s" and cr: "crypto_ok cr" and room: "st_version s < st_version s + 1"
    and c: "C (st_version s) = Some c" and vh: "commitments_distinct cr s c (by_path cr s ops)"
    and run: "compute_batch cr kv s ops = (r, s')"
  shows "represents inv abs cr C s' \<and> same_store s s' \<and>
    (case r of
       Inl e \<Rightarrow> host_fault kv e \<or> seal_fault cr (st_cipher s) e
     | Inr None \<Rightarrow> write_all c (by_path cr s ops) = c
     | Inr (Some (acc, child, root)) \<Rightarrow> write_all c (by_path cr s ops) \<noteq> c \<and>
         root = content_root cr s (write_all c (by_path cr s ops)))"
proof -
  let ?ds = "btree.collect (by_path cr s ops)" and ?m = "abs (st_backend s)"
  from rep obtain hist t where hist: "store_rep inv abs cr hist s" "C = version_contents abs cr hist s"
    "hist (st_version s) = Some t" "C (st_version s) = Some (tree_value cr s ?m t)" by (rule representsE)
  have ceq: "c = tree_value cr s ?m t" using c hist(4) by simp
  have ds: "bt_inv ?ds" by (rule btree.inv_collect)
  note vh' = commitments_vh [OF vh, unfolded ceq]
  have old: "version_ok cr s ?m (st_version s) t" and top: "\<And>v. ?m (root_record_key v) \<noteq> None \<Longrightarrow> v \<le> st_version s"
    using hist by (simp_all add: store_rep_def)
  have f: "fold_deduped cr kv s ?ds = (r, s')"
    using run by (simp add: compute_batch_def collect_by_path)
  have "\<forall>(p, v) \<in> set ?ds. length p = HASH_SIZE"
    using length_path_of [OF cr] by (auto simp: by_path_def dest!: collect_mem)
  note fs = fold_deduped_spec [OF hist(1) cr hist(3) ds this room f]
  have rep': "represents inv abs cr C s'" using represents_same [OF rep] fs by blast
  show ?thesis
  proof (cases r)
    case (Inr y)
    show ?thesis
    proof (cases y)
      case None
      have "write_all c (by_path cr s ops) = c"
        using fs unchanged_contents [OF old vh' ds room] by (simp add: ceq Inr None flip: apply_batch_collect)
      then show ?thesis using rep' fs by (simp add: Inr None)
    next
      case (Some z)
      obtain acc' ch root where z: "z = (acc', ch, root)" by (cases z)
      from fs obtain t' acc where t': "t' \<noteq> t" "prepared cr s ?ds acc" "ch = ot_child (sha256 cr) t'" "root = root_of cr ch"
        "applied cr (map_of (batch_updates cr s ?ds)) [] (set (batch_updates cr s ?ds)) acc t t' acc'"
        by (auto simp: Inr Some z)
      then have com: "committed cr s ?m ?ds t t' [] (apply_ops (commit_ops acc' (root_of cr (ot_child (sha256 cr) t')) []) ?m)"
        unfolding committed_def by blast
      show ?thesis
        using rep' fs committed_changes [OF com cr ds old room vh'] committed_root [OF com cr ds top room old vh'] t'(3,4)
        by (simp add: Inr Some z ceq apply_batch_collect)
    qed
  qed (use rep' fs in simp)
qed

lemma preview_batch_spec:
  assumes rep: "represents inv abs cr C s" and cr: "crypto_ok cr" and room: "st_version s < st_version s + 1"
    and c: "C (st_version s) = Some c" and vh: "commitments_distinct cr s c (by_path cr s ops)"
    and run: "preview_batch cr kv s ops = (r, s')"
  shows "represents inv abs cr C s' \<and> same_store s s' \<and>
    (case r of
       Inl e \<Rightarrow> host_fault kv e \<or> seal_fault cr (st_cipher s) e
     | Inr (root, v) \<Rightarrow> root = content_root cr s (write_all c (by_path cr s ops)) \<and>
         v = (if write_all c (by_path cr s ops) = c then st_version s else st_version s + 1))"
proof -
  obtain x s1 where x: "compute_batch cr kv s ops = (x, s1)" by fastforce
  note cb = compute_batch_spec [OF rep cr room c vh x]
  have sel: "st_version s1 = st_version s" "st_root s1 = st_root s" using cb same_store_sel [of s s1] by auto
  have "st_root s = content_root cr s c" using represents_root [OF rep] c by auto
  then show ?thesis
    using run cb by (auto simp: preview_batch_def x sel split: sum.splits option.splits prod.splits)
qed

end

end
