(* ===== verification/Merkle_Prune.thy ===== *)
theory Merkle_Prune
  imports Merkle_Lifecycle
begin

text \<open>
  Pruning: both loops of \<open>prune\<close> scan a range of record keys in chunks and delete what they
  find. They end when the fuel exceeds the number of records, and they remove no record that a
  version from the horizon on uses.
\<close>

section \<open>Order of big-endian keys\<close>

lemma le_val_snoc: "le_val (bs @ [b]) = le_val bs + 256 ^ length bs * unat b"
  by (induction bs) (simp_all add: algebra_simps)

lemma be_less: "length xs = length ys \<Longrightarrow> xs < ys \<longleftrightarrow> le_val (rev xs) < le_val (rev ys)"
proof (induction xs ys rule: list_induct2)
  case (Cons x xs y ys)
  let ?a = "le_val (rev xs)" and ?b = "le_val (rev ys)" and ?n = "256 ^ length xs :: nat"
  have small: "?a < ?n" "?b < ?n" using le_val_less [of "rev xs"] le_val_less [of "rev ys"] Cons.hyps by simp_all
  have less: "?a + ?n * unat x < ?b + ?n * unat y" if "unat x < unat y"
  proof -
    have "?n * (unat x + 1) \<le> ?n * unat y" using that by (intro mult_le_mono2) simp
    then show ?thesis using small by (simp add: algebra_simps)
  qed
  have more: "?b + ?n * unat y < ?a + ?n * unat x" if "unat y < unat x"
  proof -
    have "?n * (unat y + 1) \<le> ?n * unat x" using that by (intro mult_le_mono2) simp
    then show ?thesis using small by (simp add: algebra_simps)
  qed
  consider "unat x < unat y" | "unat y < unat x" | "x = y" by (metis linorder_neqE_nat unsigned_word_eqI)
  then show ?case
    using Cons less more by cases (auto simp: le_val_snoc word_less_nat_alt)
qed simp

lemma to_be_bytes_less: "to_be_bytes (a :: u64) < to_be_bytes b \<longleftrightarrow> a < b"
proof -
  have "le_val (rev (to_be_bytes w)) = unat w" for w :: u64
    using unsigned_less [of w, where ?'a = nat] by (simp add: to_be_bytes_def to_le_bytes_def le_val_le_bytes)
  then show ?thesis by (subst be_less) (simp_all add: word_less_nat_alt)
qed

lemma append_less: "length xs = length ys \<Longrightarrow> xs < ys \<Longrightarrow> xs @ us < ys @ vs"
  for xs ys us vs :: bytes
  by (induction xs ys rule: list_induct2) auto

lemma append_not_less: "\<not> xs @ us < (xs :: bytes)"
  by (induction xs) auto

lemma be_key_less:
  assumes "to_be_bytes (a :: u64) @ us < to_be_bytes b"
  shows "a < b"
proof (rule ccontr)
  assume "\<not> a < b"
  then consider "a = b" | "to_be_bytes b < to_be_bytes a" by (metis to_be_bytes_less linorder_neqE)
  then show False
  proof cases
    case 1
    then show ?thesis using assms append_not_less by blast
  next
    case 2
    from append_less [OF _ this, of "[]" us] have "to_be_bytes b < to_be_bytes a @ us" by simp
    with assms show ?thesis by (simp add: not_less_iff_gr_or_eq order_less_imp_not_less)
  qed
qed

text \<open>The keys of a scan that starts at a tag.\<close>

lemma tag_range:
  assumes "in_range [tag] (tag # stop) (k :: bytes)"
  shows "k \<noteq> []" "hd k = tag" "tl k < stop"
  using assms by (cases k; force simp: in_range_def)+

lemma tag_range_all:
  assumes "in_range [tag] [tag + 1] (k :: bytes)" "tag + 1 \<noteq> 0"
  shows "k \<noteq> []" "hd k = tag"
proof -
  show ne: "k \<noteq> []" using assms by (cases k) (auto simp: in_range_def)
  have "tag \<le> hd k" "hd k < tag + 1" using assms(1) ne by (cases k; auto simp: in_range_def split: if_splits)+
  then show "hd k = tag" using assms(2) by (metis inc_le leD order_le_less)
qed

section \<open>Scanning and deleting\<close>

text \<open>
  Both pruning loops scan a key range in chunks and delete, for each scanned key \<open>k\<close>, the key and
  \<open>f k\<close>. \<open>sweep\<close> is their common shape.
\<close>

fun sweep ::
    "'b kv_ops \<Rightarrow> ((bytes \<times> bytes) list \<Rightarrow> fault + kv_batch_op list) \<Rightarrow> (nat \<Rightarrow> prune_stats \<Rightarrow> prune_stats) \<Rightarrow> nat \<Rightarrow>
       'b merkle_store \<Rightarrow> bytes \<Rightarrow> bytes \<Rightarrow> prune_stats \<Rightarrow> (prune_stats, 'b) outcome option" where
  "sweep kv batch_of count 0 s start stop stats = None"
| "sweep kv batch_of count (Suc fuel) s start stop stats =
     (case kv_scan kv (st_backend s) start stop PRUNE_CHUNK of
        (Inl e, b) \<Rightarrow> Some (Inl (Err e), s\<lparr>st_backend := b\<rparr>)
      | (Inr entries, b) \<Rightarrow>
          if entries = [] then Some (Inr stats, s\<lparr>st_backend := b\<rparr>)
          else case batch_of entries of
            Inl e \<Rightarrow> Some (Inl e, s\<lparr>st_backend := b\<rparr>)
          | Inr batch \<Rightarrow>
              (case kv_write_batch kv b batch of
                 (Inl e, b') \<Rightarrow> Some (Inl (Err e), s\<lparr>st_backend := b'\<rparr>)
               | (Inr _, b') \<Rightarrow>
                   if length entries = unat PRUNE_CHUNK
                   then sweep kv batch_of count fuel (s\<lparr>st_backend := b'\<rparr>) start stop (count (length entries) stats)
                   else Some (Inr (count (length entries) stats), s\<lparr>st_backend := b'\<rparr>)))"

definition count_stale :: "nat \<Rightarrow> prune_stats \<Rightarrow> prune_stats" where
  "count_stale n stats = stats\<lparr>ps_stale_entries := ps_stale_entries stats + n, ps_records_deleted := ps_records_deleted stats + n\<rparr>"

definition count_roots :: "nat \<Rightarrow> prune_stats \<Rightarrow> prune_stats" where
  "count_roots n stats = stats\<lparr>ps_root_records_deleted := ps_root_records_deleted stats + n\<rparr>"

lemma prune_stale_sweep: "prune_stale kv fuel s start stop stats = sweep kv stale_deletes count_stale fuel s start stop stats"
  by (induction fuel arbitrary: s stats)
    (auto simp: count_stale_def Let_def split: prod.splits sum.splits)

lemma prune_roots_sweep:
  "prune_roots kv fuel s start stop stats = sweep kv (\<lambda>es. Inr (map (\<lambda>(key, _). Delete key) es)) count_roots fuel s start stop stats"
  by (induction fuel arbitrary: s stats)
    (auto simp: count_roots_def Let_def split: prod.splits sum.splits)

declare sweep.simps(2) [simp del]

text \<open>The records left when the keys \<open>K\<close> have been swept.\<close>

definition swept :: "(bytes \<Rightarrow> bytes) \<Rightarrow> bytes set \<Rightarrow> (bytes \<rightharpoonup> bytes) \<Rightarrow> bytes \<rightharpoonup> bytes" where
  "swept f K m = m |` (- (K \<union> f ` K))"

lemma swept_empty [simp]: "swept f {} m = m"
  by (simp add: swept_def restrict_map_def)

lemma swept_Un: "swept f K (swept f L m) = swept f (L \<union> K) m"
  by (rule ext) (auto simp: swept_def restrict_map_def)

lemma dom_swept: "dom (swept f K m) \<subseteq> dom m - K"
  by (auto simp: swept_def)

text \<open>What the loop needs to know of the batch it builds.\<close>

definition deletes :: "((bytes \<times> bytes) list \<Rightarrow> fault + kv_batch_op list) \<Rightarrow> (bytes \<Rightarrow> bytes) \<Rightarrow> bytes set \<Rightarrow> bool" where
  "deletes batch_of f R \<longleftrightarrow> (\<forall>es. fst ` set es \<subseteq> R \<longrightarrow>
     (\<exists>ops. batch_of es = Inr ops \<and> (\<forall>m. apply_ops ops m = swept f (fst ` set es) m)))"

lemma deletes_mono: "deletes batch_of f R \<Longrightarrow> R' \<subseteq> R \<Longrightarrow> deletes batch_of f R'"
  unfolding deletes_def by (meson subset_trans)

lemma chunk_pos: "0 < unat PRUNE_CHUNK"
  by (simp add: PRUNE_CHUNK_def)

context kv_contract
begin

lemma sweep_cases:
  assumes del: "deletes batch_of f (dom m \<inter> Collect (in_range start stop))" and inv: "inv (st_backend s)" and m: "abs (st_backend s) = m"
  obtains (fault) e b where "sweep kv batch_of count (Suc fuel) s start stop stats = Some (Inl e, s\<lparr>st_backend := b\<rparr>)"
      "inv b" "abs b = m" "host_fault kv e"
    | (finish) K b where "sweep kv batch_of count (Suc fuel) s start stop stats = Some (Inr (if K = {} then stats else count (card K) stats), s\<lparr>st_backend := b\<rparr>)"
        "inv b" "abs b = swept f K m" "K = dom m \<inter> Collect (in_range start stop)"
    | (more) K b where "sweep kv batch_of count (Suc fuel) s start stop stats =
          sweep kv batch_of count fuel (s\<lparr>st_backend := b\<rparr>) start stop (count (card K) stats)"
        "inv b" "abs b = swept f K m" "finite K" "K \<noteq> {}" "K \<subseteq> dom m \<inter> Collect (in_range start stop)"
proof -
  let ?R = "Collect (in_range start stop)" and ?S = "sweep kv batch_of count (Suc fuel) s start stop stats"
  obtain x b where sc: "kv_scan kv (st_backend s) start stop PRUNE_CHUNK = (x, b)" by fastforce
  note law = kv_scan_law [OF inv sc, unfolded m]
  show thesis
  proof (cases x)
    case (Inl e)
    have "\<not> reliable kv" using sc unfolding reliable_def Inl by (metis fst_conv)
    then have "host_fault kv (Err e)" using law by (simp add: host_fault_def Inl)
    moreover have "?S = Some (Inl (Err e), s\<lparr>st_backend := b\<rparr>)" by (simp add: sweep.simps sc Inl)
    ultimately show thesis using law by (intro fault [of "Err e" b]) (simp_all add: Inl)
  next
    case (Inr es)
    let ?K = "fst ` set es"
    note law = law [unfolded Inr sum.case]
    have b: "inv b" "abs b = m" and sub: "?K \<subseteq> dom m \<inter> ?R" using law by auto
    have card: "card ?K = length es" using law distinct_card [of "map fst es"] by simp
    have all: "dom m \<inter> ?R \<subseteq> ?K" if "length es < unat PRUNE_CHUNK"
    proof
      fix k
      assume "k \<in> dom m \<inter> ?R"
      then obtain v where "m k = Some v \<and> in_range start stop k" by auto
      then have "(k, v) \<in> set es" using law that by blast
      then show "k \<in> ?K" by (rule rev_image_eqI) simp
    qed
    from del sub obtain ops where ops: "batch_of es = Inr ops" "apply_ops ops m = swept f ?K m"
      unfolding deletes_def by blast
    obtain w b' where w: "kv_write_batch kv b ops = (w, b')" by fastforce
    note wlaw = kv_write_law [OF b(1) w, unfolded b(2)]
    show thesis
    proof (cases "es = []")
      case True
      then have "?S = Some (Inr stats, s\<lparr>st_backend := b\<rparr>)" by (simp add: sweep.simps sc Inr)
      moreover have "dom m \<inter> ?R = {}" using all True chunk_pos by simp
      ultimately show thesis using b by (intro finish [of "{}" b]) simp_all
    next
      case False
      show thesis
      proof (cases w)
        case (Inl e)
        have "\<not> reliable kv" using w unfolding reliable_def Inl by (metis fst_conv)
        then have "host_fault kv (Err e)" using wlaw by (simp add: host_fault_def Inl)
        moreover have "?S = Some (Inl (Err e), s\<lparr>st_backend := b'\<rparr>)" using False ops w by (simp add: sweep.simps sc Inr Inl)
        ultimately show thesis using wlaw by (intro fault [of "Err e" b']) (simp_all add: Inl)
      next
        case w': (Inr u)
        have b': "inv b'" "abs b' = swept f ?K m" using wlaw ops by (simp_all add: w')
        show thesis
        proof (cases "length es = unat PRUNE_CHUNK")
          case True
          then have "?S = sweep kv batch_of count fuel (s\<lparr>st_backend := b'\<rparr>) start stop (count (card ?K) stats)"
            using False ops w by (simp add: sc Inr w' card sweep.simps)
          then show thesis using b' sub False by (intro more [of b' ?K]) simp_all
        next
          case part: False
          have "?S = Some (Inr (count (card ?K) stats), s\<lparr>st_backend := b'\<rparr>)"
            using False ops w part by (simp add: sc Inr w' card sweep.simps)
          moreover have "length es \<le> unat PRUNE_CHUNK" using law chunk_pos by auto
          then have "?K = dom m \<inter> ?R" using all sub part by (intro subset_antisym) simp_all
          moreover have "?K \<noteq> {}" using False by simp
          ultimately show thesis using b' by (intro finish [of ?K b']) (simp_all only: if_False)
        qed
      qed
    qed
  qed
qed

lemma sweep_spec:
  assumes del: "deletes batch_of f (dom m \<inter> Collect (in_range start stop))"
    and add: "\<And>a b st. count a (count b st) = count (b + a) st" "\<And>st. count 0 st = st"
    and inv: "inv (st_backend s)" and m: "abs (st_backend s) = m"
    and run: "sweep kv batch_of count fuel s start stop stats = Some (r, s')"
  shows "\<exists>K b. finite K \<and> K \<subseteq> dom m \<inter> Collect (in_range start stop) \<and> s' = s\<lparr>st_backend := b\<rparr> \<and> inv b \<and> abs b = swept f K m \<and>
        (case r of Inl e \<Rightarrow> host_fault kv e
         | Inr stats' \<Rightarrow> stats' = count (card K) stats \<and> dom m \<inter> Collect (in_range start stop) \<subseteq> K \<union> f ` K)"
  using del inv m run
proof (induction fuel arbitrary: s stats m)
  case (Suc fuel)
  let ?R = "Collect (in_range start stop)"
  have fin: "finite (dom m \<inter> ?R)" using kv_finite [OF Suc.prems(2)] Suc.prems(3) by simp
  show ?case
  proof (cases rule: sweep_cases [OF Suc.prems(1-3), of count fuel stats, case_names fault finish more])
    case (fault e b)
    then show ?thesis using Suc.prems(4) by (intro exI [of _ "{}"] exI [of _ b]) auto
  next
    case (finish K b)
    have "r = Inr (count (card K) stats)" "s' = s\<lparr>st_backend := b\<rparr>"
      using Suc.prems(4) finish(1) add(2) by (auto split: if_splits)
    then show ?thesis using finish(2-4) fin by (intro exI [of _ K] exI [of _ b]) simp
  next
    case (more K b)
    have "deletes batch_of f (dom (swept f K m) \<inter> ?R)"
      by (rule deletes_mono [OF Suc.prems(1)]) (use dom_swept [of f K m] in blast)
    from Suc.IH [OF this, of "s\<lparr>st_backend := b\<rparr>" "count (card K) stats"] more(1-3) Suc.prems(4)
    obtain L b' where L: "finite L" "L \<subseteq> dom (swept f K m) \<inter> ?R" "s' = s\<lparr>st_backend := b'\<rparr>" "inv b'" "abs b' = swept f L (swept f K m)"
      "case r of Inl e \<Rightarrow> host_fault kv e
        | Inr stats' \<Rightarrow> stats' = count (card L) (count (card K) stats) \<and> dom (swept f K m) \<inter> ?R \<subseteq> L \<union> f ` L"
      by auto
    have disj: "K \<inter> L = {}" "L \<subseteq> dom m" using L(2) dom_swept [of f K m] by blast+
    have "count (card L) (count (card K) stats) = count (card (K \<union> L)) stats"
      unfolding add card_Un_disjoint [OF more(4) L(1) disj(1)] ..
    moreover have "dom m \<subseteq> dom (swept f K m) \<union> (K \<union> f ` K)" by (auto simp: swept_def)
    then have "dom m \<inter> ?R \<subseteq> K \<union> L \<union> f ` (K \<union> L)" if "dom (swept f K m) \<inter> ?R \<subseteq> L \<union> f ` L"
      using that unfolding image_Un by blast
    ultimately have "case r of Inl e \<Rightarrow> host_fault kv e
        | Inr stats' \<Rightarrow> stats' = count (card (K \<union> L)) stats \<and> dom m \<inter> ?R \<subseteq> K \<union> L \<union> f ` (K \<union> L)"
      using L(6) by (cases r) simp_all
    moreover have "finite (K \<union> L)" "K \<union> L \<subseteq> dom m \<inter> ?R" using more(4,6) L(1,2) disj(2) by auto
    ultimately show ?thesis using L(3,4,5) unfolding swept_Un by blast
  qed
qed simp

lemma sweep_terminates:
  assumes "deletes batch_of f (dom m \<inter> Collect (in_range start stop))" "inv (st_backend s)" "abs (st_backend s) = m"
    "card (dom m \<inter> Collect (in_range start stop)) < fuel"
  shows "sweep kv batch_of count fuel s start stop stats \<noteq> None"
  using assms
proof (induction fuel arbitrary: s stats m)
  case (Suc fuel)
  let ?R = "Collect (in_range start stop)"
  show ?case
  proof (cases rule: sweep_cases [OF Suc.prems(1-3), of count fuel stats, case_names fault finish more])
    case (more K b)
    have fin: "finite (dom m \<inter> ?R)" using kv_finite [OF Suc.prems(2)] Suc.prems(3) by simp
    have "dom (swept f K m) \<inter> ?R \<subset> dom m \<inter> ?R" using more(5,6) dom_swept [of f K m] by blast
    from psubset_card_mono [OF fin this] have "card (dom (swept f K m) \<inter> ?R) < fuel" using Suc.prems(4) by linarith
    moreover have "deletes batch_of f (dom (swept f K m) \<inter> ?R)"
      by (rule deletes_mono [OF Suc.prems(1)]) (use dom_swept [of f K m] in blast)
    ultimately show ?thesis using Suc.IH [of "swept f K m" "s\<lparr>st_backend := b\<rparr>" "count (card K) stats"] more(1-3) by simp
  qed simp_all
qed simp

end

section \<open>Pruning\<close>

lemma stale_deletes_apply:
  "(\<And>k. k \<in> fst ` set es \<Longrightarrow> 10 \<le> length k) \<Longrightarrow>
     \<exists>ops. stale_deletes es = Inr ops \<and> (\<forall>m. apply_ops ops m = swept (drop 9) (fst ` set es) m)"
proof (induction es rule: stale_deletes.induct)
  case (2 key v es)
  have len: "10 \<le> length key" using 2(2) by simp
  with 2 obtain ops where ops: "stale_deletes es = Inr ops" "\<And>m. apply_ops ops m = swept (drop 9) (fst ` set es) m" by fastforce
  have one: "m(drop 9 key := None, key := None) = swept (drop 9) {key} m" for m :: "bytes \<rightharpoonup> bytes"
    by (auto simp: fun_eq_iff swept_def restrict_map_def)
  have "apply_ops (Delete (drop 9 key) # Delete key # ops) m = swept (drop 9) (fst ` set ((key, v) # es)) m" for m
    by (simp add: ops(2) one swept_Un)
  then show ?case using ops(1) len by auto
qed simp

lemma deletes_stale: "(\<And>k. k \<in> R \<Longrightarrow> 10 \<le> length k) \<Longrightarrow> deletes stale_deletes (drop 9) R"
  unfolding deletes_def by (intro allI impI stale_deletes_apply) blast

lemma deletes_roots: "deletes (\<lambda>es. Inr (map (\<lambda>(key, _). Delete key) es)) (\<lambda>k. k) R"
proof -
  have "apply_ops (map (\<lambda>(key, _). Delete key) es) m = swept (\<lambda>k. k) (fst ` set es) m" for es m
  proof (induction es arbitrary: m)
    case (Cons e es)
    have "m(fst e := None) = swept (\<lambda>k. k) {fst e} m" by (auto simp: fun_eq_iff swept_def restrict_map_def)
    with Cons show ?case by (cases e) (simp add: swept_Un)
  qed simp
  then show ?thesis unfolding deletes_def by blast
qed

lemma count_stale_add: "count_stale a (count_stale b st) = count_stale (b + a) st" "count_stale 0 st = st"
  by (simp_all add: count_stale_def)

lemma count_roots_add: "count_roots a (count_roots b st) = count_roots (b + a) st" "count_roots 0 st = st"
  by (simp_all add: count_roots_def)

text \<open>A version reads the same from any records that agree on the keys it uses.\<close>

lemma version_ok_agree:
  assumes ok: "version_ok cr s m v t" and used: "\<And>k. k \<in> used_keys (sha256 cr) t \<Longrightarrow> m' k = m k"
    and root: "m' (root_record_key v) = m (root_record_key v)"
  shows "version_ok cr s m' v t" "tree_value cr s m' t = tree_value cr s m t"
proof -
  have val: "leaf_value cr s m' l = leaf_value cr s m l" if "l \<in> set (ot_leaves t)" for l
    using that used [of "leaf_value_key l"] by (simp add: used_keys_def leaf_value_def leaf_value_key_def)
  have "tree_stored cr m' [] x" if t: "t = Some x" for x
  proof -
    have "m' (node_record_key nk) = Some (node_encode n) \<and> (\<exists>v. nk_version nk \<le> v \<and> m' (root_record_key v) \<noteq> None)"
      if "(nk, n) \<in> pt_nodes (sha256 cr) [] x" for nk n
    proof -
      have "m (node_record_key nk) = Some (node_encode n)" "nk_version nk \<le> v"
        using ok that by (auto simp: version_ok_def tree_stored_def t)
      moreover have "node_record_key nk \<in> used_keys (sha256 cr) t"
        using that by (force simp: used_keys_def t)
      ultimately show ?thesis using used [of "node_record_key nk"] ok root by (auto simp: version_ok_def)
    qed
    then show ?thesis using ok by (auto simp: version_ok_def tree_stored_def t)
  qed
  then show "version_ok cr s m' v t"
    using ok root val by (cases t) (auto simp: version_ok_def values_stored_def)
  show "tree_value cr s m' t = tree_value cr s m t"
  proof
    fix p
    have "l \<in> set (ot_leaves t)" if "leaf_at (ot_leaves t) p = Some l" for l
      using that by (auto simp: leaf_at_def find_Some_iff)
    then show "tree_value cr s m' t p = tree_value cr s m t p"
      using val by (cases "leaf_at (ot_leaves t) p") (auto simp: tree_value_def)
  qed
qed

lemma stale_ok_sub:
  assumes "stale_ok H hist cur m" "\<And>k. m' k \<noteq> None \<Longrightarrow> m k \<noteq> None" "\<And>v t. hist' v = Some t \<Longrightarrow> hist v = Some t"
  shows "stale_ok H hist' cur m'"
  unfolding stale_ok_def
proof (intro allI impI)
  fix k
  assume "m' k \<noteq> None \<and> k \<noteq> [] \<and> hd k = REC_STALE"
  with assms(2) have "m k \<noteq> None \<and> k \<noteq> [] \<and> hd k = REC_STALE" by blast
  then obtain since target where "k = stale_record_key since target" "since \<le> cur" "old_target cur target"
    "\<forall>v t. hist v = Some t \<and> since \<le> v \<longrightarrow> target \<notin> used_keys H t" using assms(1) unfolding stale_ok_def by metis
  then show "\<exists>since target. k = stale_record_key since target \<and> since \<le> cur \<and> old_target cur target \<and>
      (\<forall>v t. hist' v = Some t \<and> since \<le> v \<longrightarrow> target \<notin> used_keys H t)" using assms(3) by blast
qed

definition protected :: "(bytes \<Rightarrow> bytes) \<Rightarrow> (u64 \<rightharpoonup> ptree option) \<Rightarrow> u64 \<Rightarrow> bytes set" where
  "protected H hist h = insert checkpoint_record_key (root_record_key ` {v. h \<le> v}) \<union>
     (\<Union>(v, t) \<in> {(v, t). h \<le> v \<and> hist v = Some t}. used_keys H t)"

lemma pruned_rep:
  assumes rep: "store_rep ok view cr hist s" and h: "h \<le> st_version s"
    and D: "D \<inter> protected (sha256 cr) hist h = {}"
    and b: "ok b" "view b = view (st_backend s) |` (- D)" and empty: "ca_map c = []" "cache_inv c"
  shows "store_rep ok view cr (hist |` {v. h \<le> v}) (s\<lparr>st_cache := c, st_backend := b\<rparr>)"
    "version_contents view cr (hist |` {v. h \<le> v}) (s\<lparr>st_cache := c, st_backend := b\<rparr>) =
       version_contents view cr hist s |` {v. h \<le> v}"
proof -
  let ?m = "view (st_backend s)" and ?s' = "s\<lparr>st_cache := c, st_backend := b\<rparr>"
  have keep: "(?m |` (- D)) k = ?m k" if "k \<in> protected (sha256 cr) hist h" for k
    using D that by (auto simp: restrict_map_def)
  have old: "version_ok cr s (?m |` (- D)) v t" "tree_value cr s (?m |` (- D)) t = tree_value cr s ?m t"
    if "h \<le> v" "hist v = Some t" for v t
  proof -
    have "version_ok cr s ?m v t" using rep that by (simp add: store_rep_def)
    moreover have "\<And>k. k \<in> used_keys (sha256 cr) t \<Longrightarrow> (?m |` (- D)) k = ?m k"
      by (rule keep) (use that in \<open>auto simp: protected_def\<close>)
    moreover have "(?m |` (- D)) (root_record_key v) = ?m (root_record_key v)"
      by (rule keep) (use that in \<open>auto simp: protected_def\<close>)
    ultimately show "version_ok cr s (?m |` (- D)) v t" "tree_value cr s (?m |` (- D)) t = tree_value cr s ?m t"
      using version_ok_agree [of cr s ?m v t "?m |` (- D)"] by blast+
  qed
  have k: "tree_value cr ?s' m t = tree_value cr s m t" "version_ok cr ?s' m v t = version_ok cr s m v t" for m t v
    by (rule same_keys; simp)+
  have "live ok view (view b) ?s'"
    using b(1) empty by (simp add: live_def node_lru.coherent_def cache_lookup_def)
  moreover have "stale_ok (sha256 cr) hist (st_version s) ?m" using rep by (simp add: store_rep_def)
  then have "stale_ok (sha256 cr) (hist |` {v. h \<le> v}) (st_version s) (?m |` (- D))"
    by (rule stale_ok_sub) (auto simp: restrict_map_def split: if_splits)
  moreover have "(?m |` (- D)) checkpoint_record_key = ?m checkpoint_record_key" by (rule keep) (simp add: protected_def)
  ultimately show "store_rep ok view cr (hist |` {v. h \<le> v}) ?s'"
    using rep h old unfolding store_rep_def
    by (simp add: b(2) k) (auto simp: restrict_map_def split: if_splits)
  show "version_contents view cr (hist |` {v. h \<le> v}) ?s' = version_contents view cr hist s |` {v. h \<le> v}"
    using old by (intro ext) (auto simp: version_contents_def b(2) k restrict_map_def map_option_case split: option.split)
qed

lemma checked_succ: "checked_add (h :: u64) 1 = Some v \<longleftrightarrow> v = h + 1 \<and> h < h + 1"
proof -
  have "unat h + 1 < 2 ^ 64 \<longleftrightarrow> h < h + 1"
    using unsigned_less [of h, where ?'a = nat] by (auto simp: word_less_nat_alt unat_word_ariths)
  then show ?thesis by (auto simp: checked_add_def)
qed

lemma less_succ: "h < h + 1 \<Longrightarrow> since < h + 1 \<longleftrightarrow> since \<le> (h :: u64)"
proof -
  assume "h < h + 1"
  then have "checked_add h 1 = Some (h + 1)" by (simp add: checked_succ)
  then have "unat (h + 1) = unat h + 1" by (simp add: checked_add_def unat_word_ariths split: if_splits)
  then show ?thesis by (simp add: word_less_nat_alt word_le_nat_alt less_Suc_eq_le)
qed

lemma max_if_no_succ: "\<not> h < h + 1 \<Longrightarrow> since \<le> (h :: u64)"
proof -
  assume "\<not> h < h + 1"
  then have "checked_add h 1 = None" by (cases "checked_add h 1") (simp_all add: checked_succ)
  then have "2 ^ 64 \<le> unat h + 1" by (simp add: checked_add_def split: if_splits)
  then show ?thesis using unsigned_less [of since, where ?'a = nat] by (simp add: word_le_nat_alt)
qed

lemma stale_end_mem: "in_range [REC_STALE] (stale_end h) (stale_record_key since target) \<longleftrightarrow> since \<le> h"
proof (cases "h < h + 1")
  case True
  have "to_be_bytes since @ target < to_be_bytes (h + 1) \<longleftrightarrow> since < h + 1"
    using be_key_less [of since target "h + 1"] append_less [of "to_be_bytes since" "to_be_bytes (h + 1)" target "[]"]
    by (auto simp: to_be_bytes_less)
  moreover note less_succ [OF True, of since]
  moreover have "stale_end h = REC_STALE # to_be_bytes (h + 1)" using True by (simp add: stale_end_def checked_succ [THEN iffD2])
  ultimately show ?thesis by (simp add: in_range_def stale_record_key_def)
next
  case False
  then have "checked_add h 1 = None" by (cases "checked_add h 1") (simp_all add: checked_succ)
  moreover note max_if_no_succ [OF False, of since]
  ultimately show ?thesis by (simp add: in_range_def stale_record_key_def stale_end_def REC_STALE_def)
qed

lemma stale_end_tag: "in_range [REC_STALE] (stale_end h) k \<Longrightarrow> k \<noteq> [] \<and> hd k = REC_STALE"
  using tag_range [of REC_STALE _ k] tag_range_all [of REC_STALE k]
  by (auto simp: stale_end_def REC_STALE_def split: option.splits)

lemma stale_range:
  assumes stale: "stale_ok H hist cur m" and k: "k \<in> dom m \<inter> Collect (in_range [REC_STALE] (stale_end h))"
  shows "10 \<le> length k" "k \<notin> protected H hist h" "drop 9 k \<notin> protected H hist h"
proof -
  have "m k \<noteq> None \<and> k \<noteq> [] \<and> hd k = REC_STALE" using k stale_end_tag by blast
  with stale obtain since target where st: "k = stale_record_key since target" "old_target cur target"
    "\<forall>v t. hist v = Some t \<and> since \<le> v \<longrightarrow> target \<notin> used_keys H t" unfolding stale_ok_def by metis
  then have le: "since \<le> h" using k by (simp add: stale_end_mem)
  have "target \<noteq> []" "target \<noteq> checkpoint_record_key" "\<And>v. target \<noteq> root_record_key v"
    using st(2) by (auto simp: old_target_def) (simp_all add: node_record_key_def value_record_key_def)
  moreover have "drop 9 k = target" by (simp add: st(1) stale_record_key_def)
  ultimately show "10 \<le> length k" "drop 9 k \<notin> protected H hist h"
    using st(3) order_trans [OF le] by (auto simp: st(1) stale_record_key_def protected_def Suc_le_eq)
  show "k \<notin> protected H hist h"
    by (auto simp: st(1) protected_def used_keys_def leaf_value_key_def)
qed

lemma root_range:
  assumes k: "in_range [REC_ROOT] (REC_ROOT # to_be_bytes h) k"
  shows "k \<notin> protected H hist h"
proof -
  note t = tag_range [OF k]
  have "k \<noteq> root_record_key v" if "h \<le> v" for v
    using t(3) that to_be_bytes_less [of v h] by (auto simp: root_record_key_def)
  moreover have "hd k \<notin> {REC_NODE, REC_VALUE, REC_CHECKPOINT}" using t(2) record_tags [symmetric] by auto
  ultimately show ?thesis
    by (auto simp: protected_def used_keys_def leaf_value_key_def node_record_key_def value_record_key_def checkpoint_record_key_def)
qed

lemma root_range_mem: "v < h \<Longrightarrow> in_range [REC_ROOT] (REC_ROOT # to_be_bytes h) (root_record_key v)"
  by (simp add: in_range_def root_record_key_def to_be_bytes_less)

lemma cache_clear_empty: "cache_inv c \<Longrightarrow> ca_map (cache_clear c) = [] \<and> cache_inv (cache_clear c)"
  by (simp add: cache_clear_def cache_inv_def)

context kv_contract
begin

lemma prune_spec:
  assumes rep: "store_rep inv abs cr hist s" and h: "h = prune_horizon s before" "h \<le> st_version s"
    and run: "prune kv fuel s before = Some (r, s')"
  shows "store_rep inv abs cr (hist |` {v. h \<le> v}) s' \<and>
    version_contents abs cr (hist |` {v. h \<le> v}) s' = version_contents abs cr hist s |` {v. h \<le> v} \<and>
    st_ck s' = st_ck s \<and> st_cipher s' = st_cipher s \<and> st_root s' = st_root s \<and> st_version s' = st_version s \<and> st_pin s' = st_pin s \<and>
    (case r of Inl e \<Rightarrow> host_fault kv e
     | Inr stats \<Rightarrow> (\<forall>v < h. abs (st_backend s') (root_record_key v) = None) \<and>
         (\<forall>since target. since \<le> h \<longrightarrow> abs (st_backend s') (stale_record_key since target) = None))"
proof -
  let ?m = "abs (st_backend s)" and ?c = "cache_clear (st_cache s)"
  let ?R1 = "Collect (in_range [REC_STALE] (stale_end h))" and ?R2 = "Collect (in_range [REC_ROOT] (REC_ROOT # to_be_bytes h))"
  let ?st = "\<lparr>ps_stale_entries = 0, ps_records_deleted = 0, ps_root_records_deleted = 0\<rparr>"
  have bi: "inv (st_backend s)" and stale: "stale_ok (sha256 cr) hist (st_version s) ?m"
    and ci: "cache_inv (st_cache s)" using rep by (auto simp: store_rep_def live_def node_lru.coherent_def)
  have rep_at: "store_rep inv abs cr (hist |` {v. h \<le> v}) (s\<lparr>st_cache := ?c, st_backend := b\<rparr>) \<and>
      version_contents abs cr (hist |` {v. h \<le> v}) (s\<lparr>st_cache := ?c, st_backend := b\<rparr>) = version_contents abs cr hist s |` {v. h \<le> v}"
    if "inv b" "abs b = ?m |` (- D)" "D \<inter> protected (sha256 cr) hist h = {}" for b D
    using pruned_rep [OF rep h(2) that(3,1,2)] cache_clear_empty [OF ci] by blast
  have del: "deletes stale_deletes (drop 9) (dom ?m \<inter> ?R1)" by (rule deletes_stale) (rule stale_range(1) [OF stale])
  have run': "(case prune_stale kv fuel (s\<lparr>st_cache := ?c\<rparr>) [REC_STALE] (stale_end h) ?st of
        None \<Rightarrow> None
      | Some (Inl e, s'') \<Rightarrow> Some (Inl e, s'')
      | Some (Inr stats', s'') \<Rightarrow> prune_roots kv fuel s'' [REC_ROOT] (REC_ROOT # to_be_bytes h) stats') = Some (r, s')"
    using run unfolding prune_def Let_def h(1) [symmetric] by (simp only: leD [OF h(2)] if_False)
  then obtain r1 s1 where p1: "prune_stale kv fuel (s\<lparr>st_cache := ?c\<rparr>) [REC_STALE] (stale_end h) ?st = Some (r1, s1)"
    by (auto split: option.splits)
  from sweep_spec [OF del count_stale_add _ _ p1 [unfolded prune_stale_sweep]] bi
  obtain K b where K: "K \<subseteq> dom ?m \<inter> ?R1" "s1 = s\<lparr>st_cache := ?c, st_backend := b\<rparr>" "inv b" "abs b = swept (drop 9) K ?m"
    and r1: "case r1 of Inl e \<Rightarrow> host_fault kv e | Inr st' \<Rightarrow> st' = count_stale (card K) ?st \<and> dom ?m \<inter> ?R1 \<subseteq> K \<union> drop 9 ` K"
    by auto
  have D1: "(K \<union> drop 9 ` K) \<inter> protected (sha256 cr) hist h = {}"
    using K(1) stale_range(2,3) [OF stale] by blast
  show ?thesis
  proof (cases r1)
    case (Inl e)
    then have "r = Inl e" "s' = s1" using run' by (auto simp: p1)
    then show ?thesis using rep_at [OF K(3) K(4) [unfolded swept_def] D1] r1 K(2) by (simp add: Inl)
  next
    case (Inr st1)
    have p2: "prune_roots kv fuel s1 [REC_ROOT] (REC_ROOT # to_be_bytes h) st1 = Some (r, s')"
      using run' by (simp add: p1 Inr)
    from sweep_spec [OF deletes_roots count_roots_add _ _ p2 [unfolded prune_roots_sweep]] K(2,3)
    obtain L b' where L: "L \<subseteq> dom (abs b) \<inter> ?R2" "s' = s\<lparr>st_cache := ?c, st_backend := b'\<rparr>" "inv b'" "abs b' = swept (\<lambda>k. k) L (abs b)"
      and r2: "case r of Inl e \<Rightarrow> host_fault kv e | Inr st' \<Rightarrow> st' = count_roots (card L) st1 \<and> dom (abs b) \<inter> ?R2 \<subseteq> L \<union> (\<lambda>k. k) ` L"
      by auto
    let ?D = "K \<union> drop 9 ` K \<union> L"
    have m': "abs b' = ?m |` (- ?D)" unfolding L(4) K(4) swept_def by (auto simp: fun_eq_iff restrict_map_def)
    have "?D \<inter> protected (sha256 cr) hist h = {}" using D1 L(1) root_range by blast
    note rep' = rep_at [OF L(3) m' this]
    have gone: "abs b' (stale_record_key since target) = None" if "since \<le> h" for since target
    proof (rule ccontr)
      assume "\<not> ?thesis"
      then have "stale_record_key since target \<in> dom ?m \<inter> ?R1 - ?D" using that by (auto simp: m' stale_end_mem restrict_map_def split: if_splits)
      then show False using r1 by (auto simp: Inr)
    qed
    have "abs b' (root_record_key v) = None" if "v < h" "dom (abs b) \<inter> ?R2 \<subseteq> L" for v
    proof (rule ccontr)
      assume "\<not> ?thesis"
      then have "root_record_key v \<in> dom (abs b) \<inter> ?R2 - L"
        using root_range_mem [OF that(1)] by (auto simp: L(4) swept_def restrict_map_def split: if_splits)
      then show False using that(2) by blast
    qed
    then show ?thesis using rep' r2 gone L(2) by (simp split: sum.splits)
  qed
qed

lemma prune_terminates:
  assumes rep: "store_rep inv abs cr hist s" and fuel: "card (dom (abs (st_backend s))) < fuel"
  shows "prune kv fuel s before \<noteq> None"
proof (cases "st_version s < prune_horizon s before")
  case False
  define h where "h = prune_horizon s before"
  let ?m = "abs (st_backend s)" and ?s = "s\<lparr>st_cache := cache_clear (st_cache s)\<rparr>"
  let ?R1 = "Collect (in_range [REC_STALE] (stale_end h))" and ?R2 = "Collect (in_range [REC_ROOT] (REC_ROOT # to_be_bytes h))"
  let ?st = "\<lparr>ps_stale_entries = 0, ps_records_deleted = 0, ps_root_records_deleted = 0\<rparr>"
  have bi: "inv (st_backend s)" and stale: "stale_ok (sha256 cr) hist (st_version s) ?m"
    using rep by (auto simp: store_rep_def live_def)
  have fits: "card (dom m \<inter> R) < fuel" if "dom m \<subseteq> dom ?m" for m :: "bytes \<rightharpoonup> bytes" and R
    using card_mono [of "dom ?m" "dom m \<inter> R"] kv_finite [OF bi] that fuel by (meson le_infI1 order_le_less_trans)
  have del: "deletes stale_deletes (drop 9) (dom ?m \<inter> ?R1)" by (rule deletes_stale) (rule stale_range(1) [OF stale])
  have "prune_stale kv fuel ?s [REC_STALE] (stale_end h) ?st \<noteq> None"
    unfolding prune_stale_sweep by (rule sweep_terminates [OF del]) (use bi fits in simp_all)
  then obtain r1 s1 where p1: "prune_stale kv fuel ?s [REC_STALE] (stale_end h) ?st = Some (r1, s1)" by auto
  from sweep_spec [OF del count_stale_add _ _ p1 [unfolded prune_stale_sweep]] bi
  obtain K b where b: "st_backend s1 = b" "inv b" "abs b = swept (drop 9) K ?m" by auto
  have "dom (abs b) \<subseteq> dom ?m" using dom_swept [of "drop 9" K ?m] by (auto simp: b(3))
  then have "prune_roots kv fuel s1 [REC_ROOT] (REC_ROOT # to_be_bytes h) st1 \<noteq> None" for st1
    unfolding prune_roots_sweep by (intro sweep_terminates [OF deletes_roots]) (use b fits in simp_all)
  then show ?thesis
    using p1 unfolding prune_def Let_def h_def [symmetric] by (auto split: if_splits sum.splits)
qed (simp add: prune_def Let_def)

end

end
