(* ===== verification/Merkle_Snapshot.thy ===== *)
theory Merkle_Snapshot
  imports Merkle_Prune
begin

text \<open>
  Snapshots: a page of \<open>snapshot_leaves\<close> is a segment of the version's entries in path order, and
  \<open>finalize\<close> rebuilds the contents from such entries, checks the root and stamps the version.
\<close>

section \<open>One page of a snapshot\<close>

text \<open>The leaves behind the resume path, with their values, and a page cut at the limit.\<close>

definition after :: "bytes option \<Rightarrow> leaf_node list \<Rightarrow> leaf_node list" where
  "after sa ls = filter (\<lambda>l. case sa of None \<Rightarrow> True | Some p \<Rightarrow> p < lf_path l) ls"

definition leaf_pairs :: "crypto \<Rightarrow> 'b merkle_store \<Rightarrow> (bytes \<rightharpoonup> bytes) \<Rightarrow> leaf_node list \<Rightarrow> (bytes \<times> bytes) list" where
  "leaf_pairs cr s m ls = map (\<lambda>l. (lf_path l, the (leaf_value cr s m l))) ls"

definition page :: "nat \<Rightarrow> 'a list \<Rightarrow> 'a list \<Rightarrow> bool \<times> 'a list" where
  "page limit out es = (length out + length es \<le> limit, take limit (out @ es))"

lemma page_full: "length out = limit \<Longrightarrow> es \<noteq> [] \<Longrightarrow> page limit out es = (False, out)"
  by (simp add: page_def)

lemma page_Nil [simp]: "length out \<le> limit \<Longrightarrow> page limit out [] = (True, out)"
  by (simp add: page_def)

lemma page_stop: "page limit out es = (False, out') \<Longrightarrow> length out \<le> limit \<Longrightarrow> page limit out (es @ fs) = (False, out')"
  by (auto simp: page_def)

lemma page_go: "page limit out es = (True, out') \<Longrightarrow> out' = out @ es \<and> length out' \<le> limit \<and> page limit out (es @ fs) = page limit out' fs"
  by (auto simp: page_def)

lemma leaf_pairs_same: "same_store s s' \<Longrightarrow> leaf_pairs cr s' m ls = leaf_pairs cr s m ls"
  by (simp add: leaf_pairs_def leaf_value_same [of s' s] same_store_sel)

lemma leaf_pairs_append: "leaf_pairs cr s m (xs @ ys) = leaf_pairs cr s m xs @ leaf_pairs cr s m ys"
  by (simp add: leaf_pairs_def)

lemma leaf_pairs_Nil [simp]: "leaf_pairs cr s m [] = []" "leaf_pairs cr s m ls = [] \<longleftrightarrow> ls = []"
  by (simp_all add: leaf_pairs_def)

lemma after_None [simp]: "after None ls = ls"
  by (simp add: after_def)

lemma after_concat: "after sa (concat lss) = concat (map (after sa) lss)"
  by (simp add: after_def [abs_def] filter_concat)

text \<open>What the resume path means for one slot.\<close>

lemma after_slot:
  assumes wf: "pt_wf prefix (PNode v ts)" and i: "i < 16" and p: "length p = HASH_SIZE" "under prefix p"
  shows "(word_of_nat i :: byte) < nibble p (length prefix) \<Longrightarrow> after (Some p) (ot_leaves (ts ! i)) = []"
    "nibble p (length prefix) < (word_of_nat i :: byte) \<Longrightarrow> after (Some p) (ot_leaves (ts ! i)) = ot_leaves (ts ! i)"
proof -
  have d: "length prefix < NIBBLES" using wf by (simp add: pt_wf_node)
  have leaf: "length (lf_path l) = HASH_SIZE \<and> (\<forall>j < length prefix. nibble (lf_path l) j = nibble p j) \<and>
      nibble (lf_path l) (length prefix) = word_of_nat i" if mem: "l \<in> set (ot_leaves (ts ! i))" for l
  proof -
    obtain t where t: "ts ! i = Some t" "l \<in> set (pt_leaves t)" using mem by (cases "ts ! i") auto
    then have "leaf_ok l \<and> under (prefix @ [word_of_nat i]) (lf_path l)"
      using wf i pt_wf_leaf [of "prefix @ [word_of_nat i]" t l] by (auto simp: pt_wf_node)
    then show ?thesis using p(2) by (auto simp: leaf_ok_def under_def nth_append)
  qed
  show "after (Some p) (ot_leaves (ts ! i)) = []" if less: "(word_of_nat i :: byte) < nibble p (length prefix)"
  proof -
    have "lf_path l < p" if "l \<in> set (ot_leaves (ts ! i))" for l
      using nibble_less [of "lf_path l" p "length prefix"] leaf [OF that] p d less by simp
    then show ?thesis by (auto simp: after_def filter_empty_conv order_less_imp_not_less)
  qed
  show "after (Some p) (ot_leaves (ts ! i)) = ot_leaves (ts ! i)" if less: "nibble p (length prefix) < (word_of_nat i :: byte)"
  proof -
    have "p < lf_path l" if "l \<in> set (ot_leaves (ts ! i))" for l
      using nibble_less [of p "lf_path l" "length prefix"] leaf [OF that] p d less by simp
    then show ?thesis by (simp add: after_def filter_id_conv)
  qed
qed

text \<open>A resume path leads into the subtree and nothing has been emitted before it.\<close>

definition resumes :: "bytes \<Rightarrow> bytes option \<Rightarrow> 'a list \<Rightarrow> bool" where
  "resumes prefix sa out \<longleftrightarrow> (\<forall>p. sa = Some p \<longrightarrow> length p = HASH_SIZE \<and> under prefix p \<and> out = [])"

context kv_contract
begin

lemma collect_children_spec:
  assumes wf: "pt_wf prefix (PNode v ts)" and limit: "0 < limit"
    and IH: "\<And>i c s sa out. i < 16 \<Longrightarrow> ts ! i = Some c \<Longrightarrow> live inv abs m s \<Longrightarrow> values_stored cr s m (Some c) \<Longrightarrow>
      resumes (prefix @ [word_of_nat i]) sa out \<Longrightarrow> length out \<le> limit \<Longrightarrow>
      \<exists>x. collect_leaves cr kv fuel s (pt_child (sha256 cr) c) (prefix @ [word_of_nat i]) sa limit out = Some x \<and>
        reads inv abs kv m s x (page limit out (leaf_pairs cr s m (after sa (pt_leaves c))))"
  shows "live inv abs m s \<Longrightarrow> values_stored cr s m (Some (PNode v ts)) \<Longrightarrow> sorted_wrt (<) is \<Longrightarrow> set is \<subseteq> {..<16} \<Longrightarrow>
    (\<And>p. sa = Some p \<Longrightarrow> length p = HASH_SIZE \<and> under prefix p \<and>
       ((\<exists>i \<in> set is. word_of_nat i \<le> nibble p (length prefix)) \<longrightarrow> out = [])) \<Longrightarrow> length out \<le> limit \<Longrightarrow>
    \<exists>x. collect_children cr kv fuel s (map (ot_child (sha256 cr)) ts) is prefix sa
          (map_option (\<lambda>p. nibble p (length prefix)) sa) limit out = Some x \<and>
      reads inv abs kv m s x (page limit out (leaf_pairs cr s m (concat (map (\<lambda>i. after sa (ot_leaves (ts ! i))) is))))"
proof (induction "is" arbitrary: s out)
  case Nil
  then show ?case by (auto intro: reads_value)
next
  case (Cons i "is")
  have len: "length ts = 16" and i: "i < 16" using wf Cons.prems(4) by (auto simp: pt_wf_node)
  let ?nib = "word_of_nat i :: byte" and ?rn = "map_option (\<lambda>p. nibble p (length prefix)) sa"
  let ?here = "leaf_pairs cr s m (after sa (ot_leaves (ts ! i)))"
  let ?rest = "leaf_pairs cr s m (concat (map (\<lambda>i. after sa (ot_leaves (ts ! i))) is))"
  have split: "leaf_pairs cr s m (concat (map (\<lambda>i. after sa (ot_leaves (ts ! i))) (i # is))) = ?here @ ?rest"
    by (simp add: leaf_pairs_append)
  have resume: "length p = HASH_SIZE" "under prefix p" if "sa = Some p" for p using Cons.prems(5) [OF that] by auto
  consider (skip) p where "sa = Some p" "?nib < nibble p (length prefix)"
    | (none) "ts ! i = None" "\<not> (case ?rn of Some rn \<Rightarrow> ?nib < rn | None \<Rightarrow> False)"
    | (visit) c where "ts ! i = Some c" "\<not> (case ?rn of Some rn \<Rightarrow> ?nib < rn | None \<Rightarrow> False)"
    by (cases sa; cases "ts ! i") auto
  then show ?case
  proof cases
    case skip
    then have "?here = []" using after_slot(1) [OF wf i resume [OF skip(1)] skip(2)] by simp
    then show ?thesis using Cons.IH [of s out] Cons.prems skip unfolding split by auto
  next
    case none
    have "?here = []" by (simp add: none after_def)
    then show ?thesis using Cons.IH [of s out] Cons.prems none i len unfolding split by (auto simp: Let_def)
  next
    case (visit c)
    let ?sa = "if ?rn = Some ?nib then sa else None"
    have here: "after ?sa (pt_leaves c) = after sa (ot_leaves (ts ! i))"
      using visit after_slot(2) [OF wf i resume] by (cases sa) (auto simp: not_less_iff_gr_or_eq)
    have res: "resumes (prefix @ [?nib]) ?sa out"
      using Cons.prems(5) wf by (auto simp: resumes_def under_snoc pt_wf_node split: if_splits)
    have vals: "values_stored cr s m (Some c)" using values_stored_slot [OF Cons.prems(2), of i] visit(1) i len by simp
    from IH [OF i visit(1) Cons.prems(1) vals res Cons.prems(6)] obtain o1 where
      o1: "collect_leaves cr kv fuel s (pt_child (sha256 cr) c) (prefix @ [?nib]) ?sa limit out = Some o1"
        "reads inv abs kv m s o1 (page limit out ?here)" unfolding here by blast
    have run: "collect_children cr kv fuel s (map (ot_child (sha256 cr)) ts) (i # is) prefix sa ?rn limit out =
        (case o1 of (Inl e, s') \<Rightarrow> Some (Inl e, s')
         | (Inr (exhausted, out'), s') \<Rightarrow> if \<not> exhausted then Some (Inr (False, out'), s')
             else collect_children cr kv fuel s' (map (ot_child (sha256 cr)) ts) is prefix sa ?rn limit out')"
      using visit o1(1) i len by (auto simp: Let_def split: prod.splits sum.splits)
    from o1(2) show ?thesis
    proof (cases rule: readsE)
      case (1 s')
      obtain ex out' where pg: "page limit out ?here = (ex, out')" by fastforce
      show ?thesis
      proof (cases ex)
        case True
        have pg': "page limit out ?here = (True, out')" using pg True by simp
        have lim: "length out' \<le> limit" and cont: "\<And>fs. page limit out (?here @ fs) = page limit out' fs"
          using page_go [OF pg'] by blast+
        have "\<exists>x. collect_children cr kv fuel s' (map (ot_child (sha256 cr)) ts) is prefix sa ?rn limit out' = Some x \<and>
            reads inv abs kv m s' x (page limit out' (leaf_pairs cr s' m (concat (map (\<lambda>i. after sa (ot_leaves (ts ! i))) is))))"
        proof (rule Cons.IH)
          show "length p = HASH_SIZE \<and> under prefix p \<and> ((\<exists>j \<in> set is. word_of_nat j \<le> nibble p (length prefix)) \<longrightarrow> out' = [])"
            if p: "sa = Some p" for p
          proof -
            have "\<not> (word_of_nat j :: byte) \<le> nibble p (length prefix)" if "j \<in> set is" for j
            proof -
              have "i < j" "j < 16" using Cons.prems(3,4) that by auto
              then have "?nib < word_of_nat j" by (simp add: word_less_nat_alt unat_byte_of_nat)
              then show ?thesis using visit(2) p by auto
            qed
            then show ?thesis using resume [OF p] by blast
          qed
        qed (use 1 Cons.prems lim in \<open>simp_all add: values_stored_same\<close>)
        then show ?thesis
          using 1 pg True reads_trans [OF 1(3)] unfolding run split cont by (auto simp: leaf_pairs_same [OF 1(3)])
      next
        case False
        then show ?thesis using 1 pg page_stop [of limit out ?here out'] Cons.prems(6) unfolding run split by (auto intro: reads_value)
      qed
    next
      case (2 e s')
      then show ?thesis unfolding run by (auto intro: reads_fault)
    qed
  qed
qed

lemma collect_leaves_spec:
  assumes cr: "crypto_ok cr" and limit: "0 < limit"
  shows "live inv abs m s \<Longrightarrow> tree_stored cr m prefix t \<Longrightarrow> values_stored cr s m (Some t) \<Longrightarrow> resumes prefix sa out \<Longrightarrow>
    length out \<le> limit \<Longrightarrow> NIBBLES < fuel + length prefix \<Longrightarrow>
    \<exists>x. collect_leaves cr kv fuel s (pt_child (sha256 cr) t) prefix sa limit out = Some x \<and>
      reads inv abs kv m s x (page limit out (leaf_pairs cr s m (after sa (pt_leaves t))))"
proof (induction prefix t arbitrary: s sa out fuel rule: pt_wf.induct)
  case (1 prefix v l)
  let ?t = "PLeaf v l"
  have "length prefix \<le> NIBBLES" using 1(2) by (auto simp: tree_stored_def under_def)
  then obtain fuel' where fuel: "fuel = Suc fuel'" using 1(6) by (cases fuel) auto
  show ?case
  proof (cases "length out = limit")
    case True
    then have "sa = None" using 1(4) limit by (cases sa) (auto simp: resumes_def)
    then show ?thesis using True 1(1) by (auto simp: fuel page_full intro: reads_value)
  next
    case False
    then have room: "\<not> limit \<le> length out" using 1(5) by simp
    from load_tree_reads [OF 1(1,2) cr] show ?thesis
    proof (cases rule: readsE)
      case (1 s')
      then have load: "load_node cr kv s (NodeKey v prefix) (pt_hash (sha256 cr) ?t) = (Inr (Leaf l), s')" by simp
      have val: "leaf_value cr s' m l = leaf_value cr s m l"
        by (rule leaf_value_same [THEN fun_cong]) (simp_all add: same_store_sel [OF 1(3)])
      from \<open>values_stored cr s m (Some ?t)\<close> obtain pt where pt: "leaf_value cr s m l = Some pt" by (auto simp: values_stored_def)
      have pg: "page limit out [(lf_path l, pt)] = (True, out @ [(lf_path l, pt)])" using room by (simp add: page_def)
      show ?thesis
      proof (cases "case sa of Some p \<Rightarrow> lf_path l \<le> p | None \<Rightarrow> False")
        case True
        then have "after sa (pt_leaves ?t) = []" by (auto simp: after_def split: option.splits)
        then show ?thesis using 1 True room by (simp add: fuel load reads_value split: option.splits)
      next
        case False
        then have "after sa (pt_leaves ?t) = [l]" by (auto simp: after_def split: option.splits)
        moreover from read_value_reads [OF 1(2), of cr l pt] pt val
        have "reads inv abs kv m s' (read_value cr kv s' (lf_path l) (lf_vh l) (lf_value_version l)) pt" by simp
        ultimately show ?thesis
          using room False 1(3) pt pg by (cases rule: readsE [OF \<open>reads inv abs kv m s' _ pt\<close>])
            (auto simp: fuel load leaf_pairs_def intro!: reads_value reads_fault elim: same_store_trans)
      qed
    next
      case (2 e s')
      then show ?thesis using room by (simp add: fuel reads_fault)
    qed
  qed
next
  case (2 prefix v ts)
  let ?t = "PNode v ts" and ?H = "sha256 cr"
  have wf: "pt_wf prefix ?t" "length ts = 16" "length prefix < NIBBLES" using 2(3) by (auto simp: tree_stored_def pt_wf_node)
  then obtain fuel' where fuel: "fuel = Suc fuel'" using 2(7) by (cases fuel) auto
  have leaves: "after sa (pt_leaves ?t) = concat (map (\<lambda>i. after sa (ot_leaves (ts ! i))) [0..<16])"
  proof -
    have "ts = map ((!) ts) [0..<16]" using map_nth [of ts] wf(2) by simp
    from arg_cong [OF this, of "map ot_leaves"] have "map ot_leaves ts = map (\<lambda>i. ot_leaves (ts ! i)) [0..<16]"
      by (simp only: map_map comp_def)
    then show ?thesis unfolding pt_leaves_node after_concat by (simp add: comp_def del: upt.simps)
  qed
  show ?case
  proof (cases "length out = limit")
    case True
    then have "sa = None" using 2(5) limit by (cases sa) (auto simp: resumes_def)
    then show ?thesis using True 2(2) pt_leaves_nonempty [OF wf(1)] by (auto simp: fuel page_full intro: reads_value)
  next
    case False
    then have room: "\<not> limit \<le> length out" using 2(6) by simp
    from load_tree_reads [OF 2(2,3) cr] show ?thesis
    proof (cases rule: readsE)
      case (1 s')
      then have load: "load_node cr kv s (NodeKey v prefix) (pt_hash ?H ?t) = (Inr (Internal (map (ot_child ?H) ts)), s')" by simp
      have step: "\<exists>x. collect_leaves cr kv fuel' s2 (pt_child ?H c) (prefix @ [word_of_nat i]) sa2 limit out2 = Some x \<and>
          reads inv abs kv m s2 x (page limit out2 (leaf_pairs cr s2 m (after sa2 (pt_leaves c))))"
        if "i < 16" "ts ! i = Some c" "live inv abs m s2" "values_stored cr s2 m (Some c)"
          "resumes (prefix @ [word_of_nat i]) sa2 out2" "length out2 \<le> limit" for i c s2 sa2 out2
      proof -
        have idx: "(i, Some c) \<in> set (zip [0..<16] ts)" using wf that by (auto simp: set_zip16 image_iff)
        show ?thesis
          by (rule 2(1) [OF idx refl]) (use that tree_stored_slot [OF 2(3) that(1,2)] 2(7) in \<open>simp_all add: fuel\<close>)
      qed
      have "\<exists>x. collect_children cr kv fuel' s' (map (ot_child ?H) ts) [0..<16] prefix sa
            (map_option (\<lambda>p. nibble p (length prefix)) sa) limit out = Some x \<and>
          reads inv abs kv m s' x (page limit out (leaf_pairs cr s' m (concat (map (\<lambda>i. after sa (ot_leaves (ts ! i))) [0..<16]))))"
        by (rule collect_children_spec [OF wf(1) limit step])
          (use 1 2(4,5,6) in \<open>auto simp: values_stored_same resumes_def\<close>)
      then show ?thesis
        using reads_trans [OF 1(3)] room wf by (auto simp: fuel load leaves leaf_pairs_same [OF 1(3)] simp del: upt.simps)
    next
      case (2 e s')
      then show ?thesis using room by (simp add: fuel reads_fault)
    qed
  qed
qed

end

section \<open>Exporting a version\<close>

definition content_pairs :: "(bytes \<rightharpoonup> bytes) \<Rightarrow> (bytes \<times> bytes) list" where
  "content_pairs c = map (\<lambda>p. (p, the (c p))) (sorted_list_of_set (dom c))"

definition behind :: "bytes option \<Rightarrow> (bytes \<times> bytes) list \<Rightarrow> (bytes \<times> bytes) list" where
  "behind sa xs = filter (\<lambda>(p, v). case sa of None \<Rightarrow> True | Some q \<Rightarrow> q < p) xs"

lemma version_pairs:
  assumes "version_ok cr s m v t"
  shows "leaf_pairs cr s m (after sa (ot_leaves t)) = behind sa (content_pairs (tree_value cr s m t))"
proof -
  have wf: "pred_option (pt_wf []) t" and vals: "values_stored cr s m t"
    using assms by (auto simp: version_ok_def tree_stored_def option.pred_set)
  have "map fst (content_entries cr s (tree_value cr s m t)) = sorted_list_of_set (dom (tree_value cr s m t))"
    by (simp add: content_entries_def comp_def)
  then have paths: "sorted_list_of_set (dom (tree_value cr s m t)) = map lf_path (ot_leaves t)"
    unfolding leaves_content_entries [OF wf vals, symmetric] by (simp add: leaf_entry_def comp_def)
  have "tree_value cr s m t (lf_path l) = leaf_value cr s m l" if l: "l \<in> set (ot_leaves t)" for l
  proof -
    obtain x where "leaf_value cr s m l = Some x" using l vals by (auto simp: values_stored_def)
    then show ?thesis using l tree_value_leaf [OF wf, of cr s m "lf_path l" x] by auto
  qed
  then have "leaf_pairs cr s m (ot_leaves t) = content_pairs (tree_value cr s m t)"
    by (simp add: leaf_pairs_def content_pairs_def paths)
  moreover have "leaf_pairs cr s m (after sa ls) = behind sa (leaf_pairs cr s m ls)" for ls
    by (simp add: leaf_pairs_def after_def behind_def filter_map comp_def)
  ultimately show ?thesis by simp
qed

lemma version_nonempty:
  assumes "version_ok cr s m v t" "t \<noteq> None"
  shows "tree_value cr s m t \<noteq> Map.empty"
  using assms pt_leaves_nonempty tree_value_leaf [of t cr s m]
  by (cases t) (fastforce simp: version_ok_def tree_stored_def values_stored_def dest: hd_in_set)+

context kv_contract
begin

lemma snapshot_leaves_reads:
  assumes cr: "crypto_ok cr" and rep: "represents inv abs cr C s" and c: "C v = Some c"
    and root: "c \<noteq> Map.empty \<Longrightarrow> content_root cr s c \<noteq> placeholder (sha256 cr)"
    and sa: "\<And>p. start_after = Some p \<Longrightarrow> length p = HASH_SIZE" and limit: "0 < limit" and fuel: "NIBBLES < fuel"
  shows "\<exists>x. snapshot_leaves cr kv fuel s v start_after limit = Some x \<and>
    reads inv abs kv (abs (st_backend s)) s x
      (take limit (behind start_after (content_pairs c)), length (behind start_after (content_pairs c)) \<le> limit)"
proof -
  let ?m = "abs (st_backend s)" and ?xs = "behind start_after (content_pairs c)"
  from rep obtain hist where hist: "store_rep inv abs cr hist s" "C = version_contents abs cr hist s"
    by (auto simp: represents_def)
  from c obtain t where t: "hist v = Some t" "c = tree_value cr s ?m t" by (auto simp: hist(2) version_contents_def)
  have vok: "version_ok cr s ?m v t" and live: "live inv abs ?m s" using hist(1) t by (simp_all add: store_rep_def)
  have "reads inv abs kv ?m s (root_child_at cr kv s v) (ot_child (sha256 cr) t)"
    by (rule root_child_at_reads [OF cr live vok]) (use root version_nonempty [OF vok] t(2) in simp)
  then show ?thesis
  proof (cases rule: readsE)
    case (1 s')
    note k = same_keys [OF same_store_sel(1,2) [OF 1(3)], of cr ?m]
    show ?thesis
    proof (cases t)
      case None
      then have "?xs = []" using version_pairs [OF vok, of start_after] by (simp add: t(2) after_def)
      then show ?thesis using 1 None by (simp add: snapshot_leaves_def reads_value)
    next
      case (Some x)
      have st: "tree_stored cr ?m [] x" and vals: "values_stored cr s' ?m (Some x)"
        using vok values_stored_same [OF 1(3)] by (simp_all add: version_ok_def Some)
      have "resumes [] start_after ([] :: (bytes \<times> bytes) list)" using sa by (simp add: resumes_def under_def)
      from collect_leaves_spec [OF cr limit 1(2) st vals this, of fuel] fuel obtain y where
        y: "collect_leaves cr kv fuel s' (pt_child (sha256 cr) x) [] start_after limit [] = Some y"
          "reads inv abs kv ?m s' y (page limit [] (leaf_pairs cr s' ?m (after start_after (pt_leaves x))))" by auto
      have "leaf_pairs cr s' ?m (after start_after (pt_leaves x)) = ?xs"
        using version_pairs [OF vok, of start_after] by (simp add: leaf_pairs_same [OF 1(3)] t(2) Some)
      then have "reads inv abs kv ?m s y (length ?xs \<le> limit, take limit ?xs)"
        using reads_trans [OF 1(3) y(2)] by (simp add: page_def)
      then show ?thesis
        using 1(1) y(1) by (cases rule: readsE) (auto simp: snapshot_leaves_def Some intro: reads_value reads_fault)
    qed
  next
    case (2 e s')
    then show ?thesis by (simp add: snapshot_leaves_def reads_fault)
  qed
qed

end

section \<open>Stamping a version\<close>

fun restamp :: "u64 \<Rightarrow> ptree \<Rightarrow> ptree" where
  "restamp v (PLeaf _ l) = PLeaf v l"
| "restamp v (PNode _ ts) = PNode v ts"

lemma restamp_simps [simp]:
  "pt_version (restamp v t) = v" "pt_leaves (restamp v t) = pt_leaves t" "pt_node H (restamp v t) = pt_node H t"
  "pt_hash H (restamp v t) = pt_hash H t" "pt_wf prefix (restamp v t) = pt_wf prefix t" "pt_is_leaf (restamp v t) = pt_is_leaf t"
  "restamp (pt_version t) t = t"
  by (cases t; simp add: pt_leaves_node pt_hash.simps pt_wf_node)+

lemma pt_nodes_restamp:
  "pt_nodes H prefix (restamp v t) \<subseteq> insert (NodeKey v prefix, pt_node H t) (pt_nodes H prefix t)"
  by (cases t) (auto simp: pt_nodes.simps)

lemma restamp_child: "ot_child H (map_option (restamp v) t) = map_option (\<lambda>c. c\<lparr>c_version := v\<rparr>) (ot_child H t)"
  by (cases t) (simp_all add: pt_child_def)

lemma restamp_root: "root_of cr (ot_child (sha256 cr) (map_option (restamp v) t)) = root_of cr (ot_child (sha256 cr) t)"
  by (cases t) (simp_all add: root_of_def)

text \<open>The records after stamping version \<open>v\<close> on the tree \<open>t\<close>.\<close>

definition stamped :: "crypto \<Rightarrow> (bytes \<rightharpoonup> bytes) \<Rightarrow> u64 \<Rightarrow> ptree option \<Rightarrow> bytes \<Rightarrow> bytes \<rightharpoonup> bytes" where
  "stamped cr m v t ckpt = m(root_record_key v \<mapsto> root_of cr (ot_child (sha256 cr) t), checkpoint_record_key \<mapsto> ckpt) ++
     (case t of None \<Rightarrow> Map.empty | Some x \<Rightarrow> [node_record_key (NodeKey v []) \<mapsto> node_encode (pt_node (sha256 cr) x)])"

lemma stamped_simps [simp]:
  "stamped cr m v t ckpt (root_record_key w) = (if w = v then Some (root_of cr (ot_child (sha256 cr) t)) else m (root_record_key w))"
  "stamped cr m v t ckpt (value_record_key vh vv) = m (value_record_key vh vv)"
  "stamped cr m v t ckpt checkpoint_record_key = Some ckpt"
  by (cases t; simp add: stamped_def map_add_def)+

lemma stamped_stale_key: "k \<noteq> [] \<Longrightarrow> hd k = REC_STALE \<Longrightarrow> stamped cr m v t ckpt k = m k"
  using record_tags [symmetric] by (cases t) (auto simp: stamped_def record_key_defs map_add_def)

lemma stamped_node:
  assumes vok: "version_ok cr s m cur t" and cr: "crypto_ok cr" and v: "cur \<le> v" and nk: "nk_version nk \<le> cur"
  shows "stamped cr m v t ckpt (node_record_key nk) = m (node_record_key nk)"
proof (cases "node_record_key nk = node_record_key (NodeKey v [])")
  case True
  then have "v = cur" using node_record_key_version [of nk "NodeKey v []"] nk v by simp
  then have "m (node_record_key (NodeKey v [])) = Some (node_encode (pt_node (sha256 cr) x))" if "t = Some x" for x
    using vok tree_stored_root [OF _ cr, of m "[]" x] that by (auto simp: version_ok_def stored_node_def)
  then show ?thesis using True by (cases t) (auto simp: stamped_def)
qed (cases t; simp add: stamped_def map_add_def)

lemma stamped_keep:
  assumes vok: "version_ok cr s m cur t" and cr: "crypto_ok cr" and v: "cur \<le> v"
    and w: "version_ok cr s m w x" "w \<le> cur"
  shows "version_ok cr s (stamped cr m v t ckpt) w x" "tree_value cr s (stamped cr m v t ckpt) x = tree_value cr s m x"
proof -
  have "nk_version nk \<le> cur" if "nk \<in> fst ` ot_nodes (sha256 cr) [] x" for nk
    using that w(1) order_trans [OF _ w(2)] by (auto simp: version_ok_def)
  then have used: "stamped cr m v t ckpt k = m k" if "k \<in> used_keys (sha256 cr) x" for k
    using that stamped_node [OF vok cr v] by (auto simp: used_keys_def leaf_value_key_def)
  have "stamped cr m v t ckpt (root_record_key w) = m (root_record_key w)"
    using w v vok by (auto simp: version_ok_def)
  then show "version_ok cr s (stamped cr m v t ckpt) w x" "tree_value cr s (stamped cr m v t ckpt) x = tree_value cr s m x"
    using version_ok_agree [OF w(1) used] by blast+
qed

lemma stamped_new:
  assumes vok: "version_ok cr s m cur t" and cr: "crypto_ok cr" and v: "cur \<le> v"
  shows "version_ok cr s (stamped cr m v t ckpt) v (map_option (restamp v) t)"
    "tree_value cr s (stamped cr m v t ckpt) (map_option (restamp v) t) = tree_value cr s m t"
proof -
  let ?m' = "stamped cr m v t ckpt" and ?H = "sha256 cr" and ?t' = "map_option (restamp v) t"
  note keep = stamped_keep [OF vok cr v vok order_refl, of ckpt]
  have leaves: "ot_leaves ?t' = ot_leaves t" by (cases t) simp_all
  have "tree_stored cr ?m' [] (restamp v x)" if x: "t = Some x" for x
  proof -
    have "?m' (node_record_key nk) = Some (node_encode n) \<and> nk_version nk \<le> v" if "(nk, n) \<in> pt_nodes ?H [] (restamp v x)" for nk n
    proof (cases "(nk, n) = (NodeKey v [], pt_node ?H x)")
      case False
      then have "(nk, n) \<in> pt_nodes ?H [] x" using that pt_nodes_restamp by blast
      then have "m (node_record_key nk) = Some (node_encode n)" "nk_version nk \<le> cur"
        using vok by (auto simp: version_ok_def tree_stored_def x)
      then show ?thesis using stamped_node [OF vok cr v] v by auto
    qed (simp add: stamped_def x)
    then show ?thesis using vok by (auto simp: tree_stored_def version_ok_def x)
  qed
  moreover have "\<forall>(nk, n) \<in> ot_nodes ?H [] ?t'. nk_version nk \<le> v"
    using vok pt_nodes_restamp [of ?H "[]" v] order_trans [OF _ v] by (cases t) (fastforce simp: version_ok_def)+
  ultimately show "version_ok cr s ?m' v ?t'"
    using vok keep(1) order_trans [OF _ v] leaves restamp_root [of cr v t]
    by (cases t) (auto simp: version_ok_def values_stored_def)
  show "tree_value cr s ?m' ?t' = tree_value cr s m t"
    using keep(2) leaves by (simp add: tree_value_def [abs_def])
qed

lemma stamped_stale:
  assumes vok: "version_ok cr s m cur t" and v: "cur \<le> v" and t: "hist cur = Some t"
    and stale: "stale_ok (sha256 cr) hist cur m"
  shows "stale_ok (sha256 cr) (hist(v \<mapsto> map_option (restamp v) t)) v (stamped cr m v t ckpt)"
  unfolding stale_ok_def
proof (intro allI impI)
  let ?H = "sha256 cr" and ?t' = "map_option (restamp v) t" and ?key = "node_record_key (NodeKey v [])"
  fix k
  assume "stamped cr m v t ckpt k \<noteq> None \<and> k \<noteq> [] \<and> hd k = REC_STALE"
  with stale obtain since target where st: "k = stale_record_key since target" "since \<le> cur" "old_target cur target"
    "\<forall>w x. hist w = Some x \<and> since \<le> w \<longrightarrow> target \<notin> used_keys ?H x"
    unfolding stale_ok_def by (metis stamped_stale_key)
  have "target \<notin> used_keys ?H ?t'"
  proof
    assume "target \<in> used_keys ?H ?t'"
    then obtain x where x: "t = Some x" "target \<in> used_keys ?H (Some (restamp v x))" by (cases t) (auto simp: used_keys_def)
    then have "target = ?key \<or> target \<in> used_keys ?H (Some x)"
      using pt_nodes_restamp [of ?H "[]" v x] by (force simp: used_keys_def)
    moreover have "target \<notin> used_keys ?H (Some x)" using st(2,4) t x(1) by blast
    moreover have "v = cur" if "target = ?key"
      using st(3) that v by (auto simp: old_target_def dest!: node_record_key_version)
    ultimately show False
      using pt_nodes_root [of x "[]" ?H] vok x(1) by (force simp: used_keys_def version_ok_def)
  qed
  moreover have "old_target v target" using st(3) v order_trans by (fastforce simp: old_target_def)
  ultimately show "\<exists>since target. k = stale_record_key since target \<and> since \<le> v \<and> old_target v target \<and>
      (\<forall>w x. (hist(v \<mapsto> ?t')) w = Some x \<and> since \<le> w \<longrightarrow> target \<notin> used_keys ?H x)"
    using st order_trans [OF st(2) v] by (intro exI [of _ since] exI [of _ target]) (auto split: if_splits)
qed

lemma stamped_rep:
  assumes rep: "store_rep ok view cr hist s" and t: "hist (st_version s) = Some t" and v: "st_version s \<le> v"
    and cr: "crypto_ok cr" and ckpt: "decrypt_checkpoint cr (st_cipher s) ckpt = Inr (st_root s, v)"
    and live: "live ok view (view (st_backend s)) s1" and s1: "same_store s s1"
    and b: "ok b" "view b = stamped cr (view (st_backend s)) v t ckpt"
    and s': "s' = s1\<lparr>st_backend := b, st_version := v, st_root_child := ot_child (sha256 cr) (map_option (restamp v) t)\<rparr>"
  shows "store_rep ok view cr (hist(v \<mapsto> map_option (restamp v) t)) s'"
    "version_contents view cr (hist(v \<mapsto> map_option (restamp v) t)) s' =
       (version_contents view cr hist s)(v \<mapsto> tree_value cr s (view (st_backend s)) t)"
proof -
  let ?m = "view (st_backend s)" and ?t' = "map_option (restamp v) t"
  let ?m' = "stamped cr ?m v t ckpt"
  have old: "\<And>w x. hist w = Some x \<Longrightarrow> w \<le> st_version s \<and> version_ok cr s ?m w x"
    and top: "\<And>w. ?m (root_record_key w) \<noteq> None \<Longrightarrow> w \<le> st_version s"
    and stale: "stale_ok (sha256 cr) hist (st_version s) ?m" and rt: "st_root s = root_of cr (ot_child (sha256 cr) t)"
    using rep t by (auto simp: store_rep_def)
  note vok = old [OF t, THEN conjunct2] and sel = same_store_sel [OF s1]
  note keep = stamped_keep [OF vok cr v, of _ _ ckpt] and new = stamped_new [OF vok cr v, of ckpt]
  have k: "tree_value cr s' m x = tree_value cr s m x" "version_ok cr s' m w x = version_ok cr s m w x" for m w x
    by (rule same_keys; simp add: s' sel)+
  have "live ok view ?m' s'"
  proof -
    have "stored_node ?m' nk n" if "stored_node ?m nk n" for nk n
    proof -
      from that obtain w where w: "nk_version nk \<le> w" "?m (root_record_key w) \<noteq> None" by (auto simp: stored_node_def)
      then show ?thesis
        using that stamped_node [OF vok cr v order_trans [OF w(1) top [OF w(2)]], of ckpt] by (auto simp: stored_node_def)
    qed
    then show ?thesis using live b unfolding live_def s' by (auto intro: node_lru.coherent_mono)
  qed
  moreover have "w \<le> v" if "?m' (root_record_key w) \<noteq> None" for w
    using that top [of w] order_trans [OF _ v] by (auto split: if_splits)
  moreover have "w \<le> v \<and> version_ok cr s ?m' w x" if "(hist(v \<mapsto> ?t')) w = Some x" for w x
    using that old [of w x] keep(1) [of w x] new(1) order_trans [OF _ v] by (auto split: if_splits)
  moreover note stamped_stale [OF vok v t stale, of ckpt]
  ultimately show "store_rep ok view cr (hist(v \<mapsto> ?t')) s'"
    using ckpt rt unfolding store_rep_def k by (simp add: s' b(2) sel restamp_root)
  show "version_contents view cr (hist(v \<mapsto> ?t')) s' = (version_contents view cr hist s)(v \<mapsto> tree_value cr s ?m t)"
  proof
    fix w
    have "view (st_backend s') = ?m'" by (simp add: s' b(2))
    then show "version_contents view cr (hist(v \<mapsto> ?t')) s' w = ((version_contents view cr hist s)(v \<mapsto> tree_value cr s ?m t)) w"
      using new(2) keep(2) [of w] old [of w] by (cases "hist w") (simp_all add: version_contents_def k(1))
  qed
qed

context kv_contract
begin

lemma stamp_version_spec:
  assumes rep: "represents inv abs cr C s" and cr: "crypto_ok cr" and c: "C (st_version s) = Some c" and v: "st_version s \<le> v"
    and run: "stamp_version cr kv s v = (r, s')"
  shows "case r of Inl e \<Rightarrow> host_fault kv e \<or> seal_fault cr (st_cipher s) e
    | Inr _ \<Rightarrow> represents inv abs cr (C(v \<mapsto> c)) s' \<and> st_version s' = v \<and> st_root s' = st_root s \<and>
        st_ck s' = st_ck s \<and> st_cipher s' = st_cipher s \<and> st_pin s' = st_pin s"
proof -
  from rep obtain hist t where hist: "store_rep inv abs cr hist s" "C = version_contents abs cr hist s"
    "hist (st_version s) = Some t" "C (st_version s) = Some (tree_value cr s (abs (st_backend s)) t)" by (rule representsE)
  let ?m = "abs (st_backend s)" and ?H = "sha256 cr"
  have live: "live inv abs ?m s" and rc: "st_root_child s = ot_child ?H t" and rt: "st_root s = root_of cr (ot_child ?H t)"
    and vok: "version_ok cr s ?m (st_version s) t" using hist by (auto simp: store_rep_def)
  have nlt: "\<not> v < st_version s" using v by auto
  have wf: "pred_option (pt_wf []) t" using vok by (auto simp: version_ok_def tree_stored_def option.pred_set)
  obtain x s1 where e: "encrypt_checkpoint cr s (st_root s) v = (x, s1)" by fastforce
  note es = encrypt_checkpoint_spec [OF cr _ e]
  have "length (st_root s) = HASH_SIZE" unfolding rt by (rule length_root_of [OF cr wf])
  note es = es [OF this]
  then obtain d where s1: "s1 = s\<lparr>st_draws := d\<rparr>" by blast
  define ops where "ops ckpt = [Put (root_record_key v) (st_root s), Put checkpoint_record_key ckpt] @
      (case t of None \<Rightarrow> [] | Some y \<Rightarrow> [Put (node_record_key (NodeKey v [])) (node_encode (pt_node ?H y))])" for ckpt
  have ops: "apply_ops (ops ckpt) ?m = stamped cr ?m v t ckpt" for ckpt
    by (cases t) (simp_all add: ops_def stamped_def rt)
  have wr: "case r of Inl e \<Rightarrow> host_fault kv e \<or> seal_fault cr (st_cipher s) e
      | Inr _ \<Rightarrow> represents inv abs cr (C(v \<mapsto> c)) s' \<and> st_version s' = v \<and> st_root s' = st_root s \<and>
          st_ck s' = st_ck s \<and> st_cipher s' = st_cipher s \<and> st_pin s' = st_pin s"
    if run: "(case kv_write_batch kv (st_backend s2) (ops ckpt) of
          (Inl e, b) \<Rightarrow> (Inl (Err e), s2\<lparr>st_root_child := ot_child ?H (map_option (restamp v) t), st_backend := b\<rparr>)
        | (Inr _, b) \<Rightarrow> (Inr (), s2\<lparr>st_root_child := ot_child ?H (map_option (restamp v) t), st_backend := b, st_version := v\<rparr>)) = (r, s')"
      and live2: "live inv abs ?m s2" and same2: "same_store s s2" and x: "x = Inr ckpt" for s2 ckpt
  proof -
    obtain w b where w: "kv_write_batch kv (st_backend s2) (ops ckpt) = (w, b)" by fastforce
    have inv2: "inv (st_backend s2)" "abs (st_backend s2) = ?m" using live2 by (simp_all add: live_def)
    note law = kv_write_law [OF inv2(1) w, unfolded inv2(2)]
    show ?thesis
    proof (cases w)
      case (Inl e)
      have "\<not> reliable kv" using w unfolding reliable_def Inl by (metis fst_conv)
      then show ?thesis using run law by (auto simp: w Inl host_fault_def)
    next
      case (Inr u)
      have b: "inv b" "abs b = stamped cr ?m v t ckpt" using law by (simp_all add: Inr ops)
      have ckpt: "decrypt_checkpoint cr (st_cipher s) ckpt = Inr (st_root s, v)" using es(2) by (simp add: x)
      have s': "r = Inr ()" "s' = s2\<lparr>st_backend := b, st_version := v, st_root_child := ot_child ?H (map_option (restamp v) t)\<rparr>"
        using run by (auto simp: w Inr)
      note st = stamped_rep [OF hist(1,3) v cr ckpt live2 same2 b s'(2)]
      have "represents inv abs cr (C(v \<mapsto> c)) s'"
        unfolding represents_def using st c hist(2,4) by (metis option.inject)
      then show ?thesis using same_store_sel [OF same2] by (simp add: s')
    qed
  qed
  show ?thesis
  proof (cases x)
    case (Inl e')
    then show ?thesis using run e es(2) nlt by (auto simp: stamp_version_def)
  next
    case (Inr ckpt)
    show ?thesis
    proof (cases t)
      case None
      then show ?thesis
        using run nlt live rc by (intro wr [of s1 ckpt]) (auto simp: stamp_version_def e Inr s1 ops_def Let_def split: prod.splits sum.splits)
    next
      case (Some y)
      have "tree_stored cr ?m [] y" using vok by (simp add: version_ok_def Some)
      from load_tree_reads [OF _ this cr, of s1] live
      have "reads inv abs kv ?m s1 (load_node cr kv s1 (NodeKey (pt_version y) []) (pt_hash ?H y)) (pt_node ?H y)" by (simp add: s1)
      then show ?thesis
      proof (cases rule: readsE)
        case (1 s2)
        have same2: "same_store s s2" using 1(3) by (simp add: s1)
        show ?thesis
          using run nlt 1 rc same2
          by (intro wr [of s2 ckpt])
            (auto simp: stamp_version_def e Inr s1 ops_def Let_def Some pt_child_def split: prod.splits sum.splits)
      next
        case (2 e' s2)
        then show ?thesis using run nlt rc by (auto simp: stamp_version_def e Inr s1 Let_def Some)
      qed
    qed
  qed
qed

end

section \<open>Restoring\<close>

definition leaf_writes :: "(bytes \<times> bytes) list \<Rightarrow> (bytes \<times> bytes option) list" where
  "leaf_writes xs = map (\<lambda>(p, v). (p, Some v)) xs"

lemma collect_leaf_writes: "foldl (\<lambda>m (path, val). bt_insert path (Some val) m) bt_new xs = btree.collect (leaf_writes xs)"
  by (simp add: btree.collect_def leaf_writes_def foldl_map split_def)

lemma write_all_pairs:
  assumes "finite (dom c)"
  shows "write_all Map.empty (leaf_writes (content_pairs c)) = c"
proof
  fix p
  have step: "write_all d (map (\<lambda>p. (p, Some (the (c p)))) ps) p = (if p \<in> set ps then Some (the (c p)) else d p)" for ps d
    by (induction ps arbitrary: d) (auto simp: write_all_def)
  show "write_all Map.empty (leaf_writes (content_pairs c)) p = c p"
    using step [of Map.empty "sorted_list_of_set (dom c)"] assms
    by (auto simp: leaf_writes_def content_pairs_def comp_def dom_def)
qed

context kv_contract
begin

lemma put_batch_by_path_spec:
  assumes rep: "represents inv abs cr C s" and cr: "crypto_ok cr" and room: "st_version s < st_version s + 1"
    and c: "C (st_version s) = Some c" and vh: "commitments_distinct cr s c (leaf_writes xs)"
    and len: "\<forall>(p, v) \<in> set xs. length p = HASH_SIZE"
    and run: "put_batch_by_path cr kv s xs = (r, s')"
  shows "case r of
      Inl e \<Rightarrow> (host_fault kv e \<or> seal_fault cr (st_cipher s) e) \<and> represents inv abs cr C s' \<and> same_store s s'
    | Inr (root, v) \<Rightarrow> root = st_root s' \<and> v = st_version s' \<and>
        st_ck s' = st_ck s \<and> st_cipher s' = st_cipher s \<and> st_pin s' = st_pin s \<and>
        v = (if write_all c (leaf_writes xs) = c then st_version s else st_version s + 1) \<and>
        represents inv abs cr (C(v \<mapsto> write_all c (leaf_writes xs))) s'"
proof (rule put_collected_spec [OF rep cr room c vh])
  show "\<forall>(p, v) \<in> set (leaf_writes xs). length p = HASH_SIZE" using len by (auto simp: leaf_writes_def)
  show "(case fold_deduped cr kv s (btree.collect (leaf_writes xs)) of
        (Inl e, s') \<Rightarrow> (Inl e, s')
      | (Inr None, s') \<Rightarrow> (Inr (st_root s', st_version s'), s')
      | (Inr (Some (acc, new_root_child, new_root)), s') \<Rightarrow> commit cr kv s' acc new_root_child new_root) = (r, s')"
    using run by (simp add: put_batch_by_path_def collect_leaf_writes)
qed

lemma finalize_spec:
  assumes rep: "represents inv abs cr [0 \<mapsto> Map.empty] (sb_store sb)" and ver: "st_version (sb_store sb) = 0" and cr: "crypto_ok cr"
    and vh: "commitments_distinct cr (sb_store sb) Map.empty (leaf_writes (sb_leaves sb))"
    and len: "\<forall>(p, v) \<in> set (sb_leaves sb). length p = HASH_SIZE"
    and run: "finalize cr kv sb root v = (r, s')"
  shows "let s = sb_store sb; c = write_all Map.empty (leaf_writes (sb_leaves sb)) in
    case r of
      Inl e \<Rightarrow> host_fault kv e \<or> seal_fault cr (st_cipher s) e \<or> content_root cr s c \<noteq> root \<or> v < (if c = Map.empty then 0 else 1)
    | Inr _ \<Rightarrow> content_root cr s c = root \<and> st_root s' = root \<and> st_version s' = v \<and>
        st_ck s' = st_ck s \<and> st_cipher s' = st_cipher s \<and> (\<exists>C. represents inv abs cr C s' \<and> C v = Some c)"
proof -
  let ?s = "sb_store sb" and ?c = "write_all Map.empty (leaf_writes (sb_leaves sb))"
  obtain x s1 where p: "put_batch_by_path cr kv ?s (sb_leaves sb) = (x, s1)" by fastforce
  have room: "st_version ?s < st_version ?s + 1" using ver by simp
  have c0: "[0 \<mapsto> Map.empty] (st_version ?s) = Some Map.empty" using ver by simp
  note spec = put_batch_by_path_spec [OF rep cr room c0 vh len p]
  show ?thesis
  proof (cases x)
    case (Inl e)
    then show ?thesis using run spec by (auto simp: finalize_def p Let_def)
  next
    case (Inr rv)
    have s1: "rv = (st_root s1, st_version s1)" "st_ck s1 = st_ck ?s" "st_cipher s1 = st_cipher ?s"
      "st_version s1 = (if ?c = Map.empty then 0 else 1)" "represents inv abs cr ([0 \<mapsto> Map.empty](st_version s1 \<mapsto> ?c)) s1"
      using spec ver by (auto simp: Inr)
    have root: "st_root s1 = content_root cr ?s ?c" using represents_root [OF s1(5)] content_keys [OF s1(2)] by auto
    show ?thesis
    proof (cases "st_root s1 = root \<and> st_version s1 \<le> v")
      case True
      then have st: "stamp_version cr kv s1 v = (r, s')" using run by (auto simp: finalize_def p Inr s1(1) dest: leD split: if_splits)
      have "\<exists>C. represents inv abs cr C s' \<and> C v = Some ?c" if "r = Inr ()"
        using stamp_version_spec [OF s1(5) cr _ _ st] True that by (auto intro!: exI)
      then show ?thesis using stamp_version_spec [OF s1(5) cr _ _ st] True root s1(2,3)
        by (auto simp: Let_def split: sum.splits)
    next
      case False
      then consider "st_root s1 \<noteq> root" | "st_root s1 = root" "v < st_version s1" by force
      then show ?thesis
        by cases (use run root s1(4) in \<open>auto simp: finalize_def p Inr s1(1) Let_def\<close>)
    qed
  qed
qed

end

end
