(* ===== verification/Merkle_Answers.thy ===== *)
theory Merkle_Answers
  imports Merkle_Snapshot
begin

text \<open>
  What the read-only operations of a represented store return: reads and proofs at every version that
  is kept, transaction forks.
\<close>

section \<open>Answers\<close>

text \<open>
  A read-only operation on a represented store: it gives \<open>x\<close> unless the backend reports an error, and
  the store goes on representing the same versions.
\<close>

definition answers ::
    "('b \<Rightarrow> bool) \<Rightarrow> ('b \<Rightarrow> bytes \<rightharpoonup> bytes) \<Rightarrow> 'b kv_ops \<Rightarrow> crypto \<Rightarrow> (u64 \<rightharpoonup> (bytes \<rightharpoonup> bytes)) \<Rightarrow> 'b merkle_store \<Rightarrow>
       ('a, 'b) outcome \<Rightarrow> 'a \<Rightarrow> bool" where
  "answers ok view kv cr C s out x \<longleftrightarrow> represents ok view cr C (snd out) \<and> same_store s (snd out) \<and>
     (fst out = Inr x \<or> (\<exists>e. fst out = Inl e \<and> host_fault kv e))"

lemma reads_answers:
  assumes "represents ok view cr C s" "reads ok view kv (view (st_backend s)) s out x"
  shows "answers ok view kv cr C s out x"
  using assms represents_same [OF assms(1)] by (auto simp: reads_def answers_def)

text \<open>The contents \<open>c\<close> of a kept version, with a root that cannot be mistaken for the empty tree's.\<close>

definition kept :: "crypto \<Rightarrow> 'b merkle_store \<Rightarrow> (u64 \<rightharpoonup> (bytes \<rightharpoonup> bytes)) \<Rightarrow> u64 \<Rightarrow> (bytes \<rightharpoonup> bytes) \<Rightarrow> bool" where
  "kept cr s C v c \<longleftrightarrow> C v = Some c \<and> (c = Map.empty \<or> content_root cr s c \<noteq> placeholder (sha256 cr))"

lemma representsD:
  assumes "represents ok view cr C s" "C v = Some c"
  obtains t where "version_ok cr s (view (st_backend s)) v t" "c = tree_value cr s (view (st_backend s)) t"
    "live ok view (view (st_backend s)) s" "v \<le> st_version s" "v = st_version s \<Longrightarrow> st_root_child s = ot_child (sha256 cr) t"
proof -
  from assms obtain hist where hist: "store_rep ok view cr hist s" "C = version_contents view cr hist s"
    by (auto simp: represents_def)
  from assms(2) obtain t where t: "hist v = Some t" "c = tree_value cr s (view (st_backend s)) t"
    by (auto simp: hist(2) version_contents_def)
  then show thesis by (intro that [of t]) (use hist(1) in \<open>auto simp: store_rep_def\<close>)
qed

lemma contents_ok:
  assumes "represents ok view cr C s" "C v = Some c"
  shows "entries_ok (content_entries cr s c)" "finite (dom c)" "\<forall>p \<in> dom c. length p = HASH_SIZE"
proof -
  from assms obtain t where t: "version_ok cr s (view (st_backend s)) v t" "c = tree_value cr s (view (st_backend s)) t"
    by (rule representsD)
  show ok: "entries_ok (content_entries cr s c)" and fin: "finite (dom c)" using version_entries_ok [OF t(1)] t(2) by simp_all
  show "\<forall>p \<in> dom c. length p = HASH_SIZE" using ok fin by (auto simp: entries_ok_def content_entries_def)
qed

lemma same_paths: "same_store s s' \<Longrightarrow> path_of cr s' key = path_of cr s key"
  by (simp add: same_store_def path_of_def)

context kv_contract
begin

lemma store_get_answers:
  assumes "crypto_ok cr" "represents inv abs cr C s" "C (st_version s) = Some c"
  shows "answers inv abs kv cr C s (store_get cr kv s key) (c (path_of cr s key))"
proof (rule reads_answers [OF assms(2)])
  from assms(2,3) obtain t where "version_ok cr s (abs (st_backend s)) (st_version s) t" "c = tree_value cr s (abs (st_backend s)) t"
    "live inv abs (abs (st_backend s)) s" "st_root_child s = ot_child (sha256 cr) t" by (rule representsD) simp
  then show "reads inv abs kv (abs (st_backend s)) s (store_get cr kv s key) (c (path_of cr s key))"
    using walk_reads [OF assms(1) _ _ length_path_of [OF assms(1)]] by (simp add: store_get_def)
qed

lemma root_child_at_kept:
  assumes "crypto_ok cr" "represents inv abs cr C s" "kept cr s C v c"
  obtains t where "version_ok cr s (abs (st_backend s)) v t" "c = tree_value cr s (abs (st_backend s)) t" "\<not> st_version s < v"
    "reads inv abs kv (abs (st_backend s)) s (root_child_at cr kv s v) (ot_child (sha256 cr) t)"
proof -
  have "C v = Some c" using assms(3) by (simp add: kept_def)
  with assms(2) obtain t where t: "version_ok cr s (abs (st_backend s)) v t" "c = tree_value cr s (abs (st_backend s)) t"
    "live inv abs (abs (st_backend s)) s" "v \<le> st_version s" by (rule representsD)
  have "reads inv abs kv (abs (st_backend s)) s (root_child_at cr kv s v) (ot_child (sha256 cr) t)"
    by (rule root_child_at_reads [OF assms(1) t(3,1)]) (use assms(3) t(2) version_nonempty [OF t(1)] in \<open>simp add: kept_def\<close>)
  then show thesis using t by (intro that [of t]) auto
qed

lemma get_at_answers:
  assumes "crypto_ok cr" "represents inv abs cr C s" "kept cr s C v c"
  shows "answers inv abs kv cr C s (get_at cr kv s v key) (c (path_of cr s key))"
proof (rule reads_answers [OF assms(2)])
  let ?m = "abs (st_backend s)"
  from assms obtain t where t: "version_ok cr s ?m v t" "c = tree_value cr s ?m t" "\<not> st_version s < v"
    and r: "reads inv abs kv ?m s (root_child_at cr kv s v) (ot_child (sha256 cr) t)" by (rule root_child_at_kept)
  from r show "reads inv abs kv ?m s (get_at cr kv s v key) (c (path_of cr s key))"
  proof (cases rule: readsE)
    case (1 s')
    note k = same_keys [OF same_store_sel(1,2) [OF 1(3)], of cr ?m]
    have "reads inv abs kv ?m s' (walk cr kv s' (ot_child (sha256 cr) t) (path_of cr s' key)) (tree_value cr s' ?m t (path_of cr s' key))"
      by (rule walk_reads [OF assms(1) 1(2) _ length_path_of [OF assms(1)]]) (use t(1) k in simp)
    then show ?thesis
      using t(2,3) 1 k same_paths [OF 1(3), of cr key] by (auto simp: get_at_def reads_def intro: same_store_trans)
  next
    case (2 e s')
    then show ?thesis using t(3) by (auto simp: get_at_def intro: reads_fault)
  qed
qed

end


section \<open>Proofs\<close>

context kv_contract
begin

lemma prove_at_answers:
  assumes "crypto_ok cr" "represents inv abs cr C s" "kept cr s C v c"
  defines "xs \<equiv> content_entries cr s c"
  shows "answers inv abs kv cr C s (prove_at cr kv s v key)
    \<lparr>pf_leaf = fst (smt_prove (sha256 cr) 0 xs (path_of cr s key)), pf_siblings = rev (snd (smt_prove (sha256 cr) 0 xs (path_of cr s key)))\<rparr>"
    (is "answers _ _ _ _ _ _ _ ?pf")
proof (rule reads_answers [OF assms(2)])
  let ?m = "abs (st_backend s)"
  from assms(1-3) obtain t where t: "version_ok cr s ?m v t" "c = tree_value cr s ?m t" "\<not> st_version s < v"
    and r: "reads inv abs kv ?m s (root_child_at cr kv s v) (ot_child (sha256 cr) t)" by (rule root_child_at_kept)
  from r show "reads inv abs kv ?m s (prove_at cr kv s v key) ?pf"
  proof (cases rule: readsE)
    case (1 s')
    note k = same_keys [OF same_store_sel(1,2) [OF 1(3)], of cr ?m]
    have "version_ok cr s' ?m v t" using t(1) k by simp
    from prove_path_reads [OF assms(1) 1(2) this, of "path_of cr s' key"]
    have "reads inv abs kv ?m s' (prove_path cr kv s' (ot_child (sha256 cr) t) (path_of cr s' key)) ?pf"
      by (simp add: k(1) content_same [OF 1(3)] same_paths [OF 1(3)] xs_def t(2) Let_def)
    then show ?thesis using t(3) 1 by (auto simp: prove_at_def intro: reads_trans)
  next
    case (2 e s')
    then show ?thesis using t(3) by (auto simp: prove_at_def intro: reads_fault)
  qed
qed

lemma prove_answers:
  assumes "crypto_ok cr" "represents inv abs cr C s" "C (st_version s) = Some c"
  defines "xs \<equiv> content_entries cr s c"
  shows "answers inv abs kv cr C s (prove cr kv s key)
    \<lparr>pf_leaf = fst (smt_prove (sha256 cr) 0 xs (path_of cr s key)), pf_siblings = rev (snd (smt_prove (sha256 cr) 0 xs (path_of cr s key)))\<rparr>"
proof (rule reads_answers [OF assms(2)])
  from assms(2,3) obtain t where t: "version_ok cr s (abs (st_backend s)) (st_version s) t" "c = tree_value cr s (abs (st_backend s)) t"
    "live inv abs (abs (st_backend s)) s" "st_root_child s = ot_child (sha256 cr) t" by (rule representsD) simp
  from prove_path_reads [OF assms(1) t(3,1), of "path_of cr s key"]
  show "reads inv abs kv (abs (st_backend s)) s (prove cr kv s key)
    \<lparr>pf_leaf = fst (smt_prove (sha256 cr) 0 xs (path_of cr s key)), pf_siblings = rev (snd (smt_prove (sha256 cr) 0 xs (path_of cr s key)))\<rparr>"
    by (simp add: prove_def t(4) xs_def t(2) Let_def)
qed

end

lemma smt_prove_value:
  fixes key val :: bytes
  assumes "crypto_ok cr" "entries_ok (content_entries cr s c)" "finite (dom c)"
  defines "xs \<equiv> content_entries cr s c" and "p \<equiv> path_of cr s key"
  defines "pf \<equiv> \<lparr>pf_leaf = fst (smt_prove (sha256 cr) 0 xs p), pf_siblings = rev (snd (smt_prove (sha256 cr) 0 xs p))\<rparr>"
  shows "verify_value cr s (content_root cr s c) key val pf = Inr (\<exists>x. c p = Some x \<and> vh_of cr s p x = vh_of cr s p val)"
    "verify_absent cr s (content_root cr s c) key pf = Inr (c p = None)"
proof -
  have "verify (sha256 cr) (content_root cr s c) p pf = Inr (case c p of Some x \<Rightarrow> Present (vh_of cr s p x) | None \<Rightarrow> Absent)"
    using smt_prove_verifies [OF assms(2) length_path_of [OF assms(1)], of "sha256 cr" s key] content_entries_get [OF assms(3), of cr s p]
    by (cases "c p") (simp_all add: content_root_def xs_def p_def pf_def)
  then show "verify_value cr s (content_root cr s c) key val pf = Inr (\<exists>x. c p = Some x \<and> vh_of cr s p x = vh_of cr s p val)"
    "verify_absent cr s (content_root cr s c) key pf = Inr (c p = None)"
    by (auto simp: verify_value_def verify_absent_def p_def Let_def split: option.splits)
qed

section \<open>Forks\<close>

text \<open>A sequence of writes to a fork; \<open>None\<close> deletes.\<close>

definition fork_write :: "'b merkle_fork \<Rightarrow> (bytes \<times> bytes option) list \<Rightarrow> 'b merkle_fork" where
  "fork_write f ops = foldl (\<lambda>f (key, v). case v of Some x \<Rightarrow> fork_put f key x | None \<Rightarrow> fork_delete f key) f ops"

lemma fork_write_new:
  "fork_write (fork_new (s :: 'b merkle_store)) ops =
     \<lparr>fk_store = s, fk_root_before = st_root s, fk_version_before = st_version s, fk_overlay = btree.collect ops\<rparr>"
proof -
  have "fork_write f ops = f\<lparr>fk_overlay := foldl (\<lambda>m (key, v). bt_insert key v m) (fk_overlay f) ops\<rparr>" for f :: "'b merkle_fork"
    by (induction ops arbitrary: f) (auto simp: fork_write_def fork_put_def fork_delete_def split: option.splits)
  then show ?thesis by (simp add: btree.collect_def fork_new_def)
qed


section \<open>Writing\<close>

context kv_contract
begin

lemma put_batch_spec:
  assumes cr: "crypto_ok cr" and rep: "represents inv abs cr C s" and c: "C (st_version s) = Some c"
    and room: "st_version s < st_version s + 1" and vh: "commitments_distinct cr s c (by_path cr s ops)"
    and run: "put_batch cr kv s ops = (r, s')"
  shows "case r of
      Inl e \<Rightarrow> (host_fault kv e \<or> seal_fault cr (st_cipher s) e) \<and> represents inv abs cr C s' \<and> same_store s s'
    | Inr (root, v) \<Rightarrow>
        v = (if write_all c (by_path cr s ops) = c then st_version s else st_version s + 1) \<and>
        root = content_root cr s (write_all c (by_path cr s ops)) \<and> st_root s' = root \<and> st_version s' = v \<and>
        st_ck s' = st_ck s \<and> st_cipher s' = st_cipher s \<and> st_pin s' = st_pin s \<and>
        represents inv abs cr (C(v \<mapsto> write_all c (by_path cr s ops))) s'"
proof -
  have len: "\<forall>(p, v) \<in> set (by_path cr s ops). length p = HASH_SIZE"
    using length_path_of [OF cr] by (auto simp: by_path_def)
  have "put_batch cr kv s ops = (case fold_deduped cr kv s (btree.collect (by_path cr s ops)) of
        (Inl e, s') \<Rightarrow> (Inl e, s')
      | (Inr None, s') \<Rightarrow> (Inr (st_root s', st_version s'), s')
      | (Inr (Some (acc, new_root_child, new_root)), s') \<Rightarrow> commit cr kv s' acc new_root_child new_root)"
    by (simp add: put_batch_def compute_batch_def collect_by_path)
  with run have folded: "(case fold_deduped cr kv s (btree.collect (by_path cr s ops)) of
        (Inl e, s') \<Rightarrow> (Inl e, s')
      | (Inr None, s') \<Rightarrow> (Inr (st_root s', st_version s'), s')
      | (Inr (Some (acc, new_root_child, new_root)), s') \<Rightarrow> commit cr kv s' acc new_root_child new_root) = (r, s')" by simp
  note spec = put_collected_spec [OF rep cr room c vh len folded]
  show ?thesis
  proof (cases r)
    case (Inl e)
    then show ?thesis using spec by simp
  next
    case (Inr rv)
    obtain root v where rv: "rv = (root, v)" by fastforce
    note spec = spec [unfolded Inr rv sum.case prod.case]
    have v: "root = st_root s'" "v = st_version s'" "st_ck s' = st_ck s"
      "represents inv abs cr (C(v \<mapsto> write_all c (by_path cr s ops))) s'" using spec by blast+
    from represents_root [OF v(4)] v(2) have "st_root s' = content_root cr s (write_all c (by_path cr s ops))"
      using content_keys [OF v(3)] by simp
    then show ?thesis unfolding Inr rv sum.case prod.case using spec v by blast
  qed
qed

end


section \<open>Snapshots\<close>

lemma content_pairs_sorted: "sorted_wrt (\<lambda>a b. fst a < fst b) (content_pairs c)"
  by (simp add: content_pairs_def sorted_wrt_map)

lemma content_pairs_get: "finite (dom c) \<Longrightarrow> (p, x) \<in> set (content_pairs c) \<Longrightarrow> c p = Some x"
  by (auto simp: content_pairs_def)

text \<open>Resuming after the last entry of a page goes on with the entries the page left out.\<close>

lemma behind_page:
  assumes "sorted_wrt (\<lambda>a b. fst a < fst b) xs" "0 < n" "xs \<noteq> []"
  shows "behind (Some (fst (last (take n xs)))) xs = drop n xs"
proof -
  let ?q = "fst (last (take n xs))"
  have ne: "take n xs \<noteq> []" using assms by simp
  have split: "sorted_wrt (\<lambda>a b. fst a < fst b) (take n xs @ drop n xs)" using assms(1) by simp
  then have after: "fst a < fst b" if "a \<in> set (take n xs)" "b \<in> set (drop n xs)" for a b
    using that unfolding sorted_wrt_append by blast
  have "sorted_wrt (\<lambda>a b. fst a < fst b) (butlast (take n xs) @ [last (take n xs)])"
    unfolding append_butlast_last_id [OF ne] using split unfolding sorted_wrt_append by blast
  then have "fst a < ?q" if "a \<in> set (butlast (take n xs))" for a using that unfolding sorted_wrt_append by auto
  then have "fst a \<le> ?q" if "a \<in> insert (last (take n xs)) (set (butlast (take n xs)))" for a
    using that less_imp_le by blast
  moreover have "insert (last (take n xs)) (set (butlast (take n xs))) = set (take n xs)"
    using arg_cong [OF append_butlast_last_id [OF ne], of set] by simp
  ultimately have "fst a \<le> ?q" if "a \<in> set (take n xs)" for a using that by simp
  then have "behind (Some ?q) (take n xs) = []" by (fastforce simp: behind_def filter_empty_conv dest: leD)
  moreover have "behind (Some ?q) (drop n xs) = drop n xs"
    unfolding behind_def by (rule filter_True) (use after [OF last_in_set [OF ne]] in fastforce)
  moreover have "behind (Some ?q) xs = behind (Some ?q) (take n xs) @ behind (Some ?q) (drop n xs)"
    by (simp add: behind_def flip: filter_append)
  ultimately show ?thesis by simp
qed

text \<open>
  A client that streams a version page by page, resuming after the last path it received. The first
  argument bounds the number of pages.
\<close>

fun export_pages ::
    "nat \<Rightarrow> crypto \<Rightarrow> 'b kv_ops \<Rightarrow> 'b merkle_store \<Rightarrow> u64 \<Rightarrow> bytes option \<Rightarrow> nat \<Rightarrow> ((bytes \<times> bytes) list list, 'b) outcome option" where
  "export_pages 0 cr kv s v start_after limit = None"
| "export_pages (Suc n) cr kv s v start_after limit =
     (case snapshot_leaves cr kv (Suc NIBBLES) s v start_after limit of
        None \<Rightarrow> None
      | Some (Inl e, s') \<Rightarrow> Some (Inl e, s')
      | Some (Inr (out, done), s') \<Rightarrow>
          if done then Some (Inr [out], s')
          else (case export_pages n cr kv s' v (Some (fst (last out))) limit of
                  None \<Rightarrow> None
                | Some (Inl e, s'') \<Rightarrow> Some (Inl e, s'')
                | Some (Inr pages, s'') \<Rightarrow> Some (Inr (out # pages), s'')))"

lemma kept_same: "same_store s s' \<Longrightarrow> kept cr s' C v c = kept cr s C v c"
  by (simp add: kept_def content_same)

lemma behind_behind:
  assumes "sorted_wrt (\<lambda>a b. fst a < fst b) xs" "q \<in> fst ` set (behind sa xs)"
  shows "behind (Some q) (behind sa xs) = behind (Some q) xs"
proof -
  have "(case sa of None \<Rightarrow> True | Some p \<Rightarrow> p < q)" using assms(2) by (auto simp: behind_def split: option.splits)
  then have "(case sa of None \<Rightarrow> True | Some p \<Rightarrow> p < fst x) \<and> q < fst x \<longleftrightarrow> q < fst x" for x :: "bytes \<times> bytes"
    by (cases sa) (auto intro: less_trans)
  then show ?thesis by (simp add: behind_def split_def)
qed

context kv_contract
begin

lemma snapshot_answers:
  assumes "crypto_ok cr" "represents inv abs cr C s" "kept cr s C v c" "pred_option (\<lambda>p. length p = HASH_SIZE) sa" "0 < limit"
  obtains out where "snapshot_leaves cr kv (Suc NIBBLES) s v sa limit = Some out"
    "answers inv abs kv cr C s out (take limit (behind sa (content_pairs c)), length (behind sa (content_pairs c)) \<le> limit)"
proof -
  have c: "C v = Some c" and root: "c \<noteq> Map.empty \<Longrightarrow> content_root cr s c \<noteq> placeholder (sha256 cr)"
    using assms(3) by (auto simp: kept_def)
  have "\<exists>x. snapshot_leaves cr kv (Suc NIBBLES) s v sa limit = Some x \<and> reads inv abs kv (abs (st_backend s)) s x
      (take limit (behind sa (content_pairs c)), length (behind sa (content_pairs c)) \<le> limit)"
    by (rule snapshot_leaves_reads [OF assms(1,2) c]) (use root assms(4,5) in simp_all)
  then obtain out where "snapshot_leaves cr kv (Suc NIBBLES) s v sa limit = Some out" "reads inv abs kv (abs (st_backend s)) s out
      (take limit (behind sa (content_pairs c)), length (behind sa (content_pairs c)) \<le> limit)" by (elim exE conjE)
  then show thesis by (rule that [OF _ reads_answers [OF assms(2)]])
qed

lemma export_answers:
  assumes cr: "crypto_ok cr" and limit: "0 < limit"
  shows "represents inv abs cr C s \<Longrightarrow> kept cr s C v c \<Longrightarrow> pred_option (\<lambda>p. length p = HASH_SIZE) sa \<Longrightarrow>
    length (behind sa (content_pairs c)) < n \<Longrightarrow>
    \<exists>out pages. export_pages n cr kv s v sa limit = Some out \<and> answers inv abs kv cr C s out pages \<and>
      concat pages = behind sa (content_pairs c)"
proof (induction n arbitrary: s sa)
  case (Suc n)
  let ?xs = "behind sa (content_pairs c)"
  obtain out where out: "snapshot_leaves cr kv (Suc NIBBLES) s v sa limit = Some out"
    "answers inv abs kv cr C s out (take limit ?xs, length ?xs \<le> limit)"
    by (rule snapshot_answers [OF cr Suc.prems(1-3) limit])
  obtain r s' where rs: "out = (r, s')" by fastforce
  have s': "represents inv abs cr C s'" "same_store s s'" using out(2) by (auto simp: answers_def rs)
  have sorted: "sorted_wrt (\<lambda>a b. fst a < fst b) ?xs"
    unfolding behind_def by (rule sorted_wrt_filter [OF content_pairs_sorted])
  consider e where "r = Inl e" "host_fault kv e" | "r = Inr (?xs, True)" "length ?xs \<le> limit"
    | "r = Inr (take limit ?xs, False)" "limit < length ?xs"
    using out(2) by (cases "length ?xs \<le> limit") (auto simp: answers_def rs)
  then show ?case
  proof cases
    case 3
    let ?q = "fst (last (take limit ?xs))"
    have ne: "take limit ?xs \<noteq> []" "?xs \<noteq> []" using 3(2) limit by auto
    have q: "?q \<in> fst ` set ?xs" using last_in_set [OF ne(1)] set_take_subset [of limit ?xs] by blast
    have rest: "behind (Some ?q) (content_pairs c) = drop limit ?xs"
      using behind_page [OF sorted limit ne(2)] behind_behind [OF content_pairs_sorted q] by simp
    have "C v = Some c" using Suc.prems(2) by (simp add: kept_def)
    note cok = contents_ok [OF Suc.prems(1) this]
    have "?q \<in> dom c" using q cok(2) by (auto simp: behind_def content_pairs_def)
    then have len: "pred_option (\<lambda>p. length p = HASH_SIZE) (Some ?q)" using cok(3) by simp
    have "length (behind (Some ?q) (content_pairs c)) < n" using Suc.prems(4) 3(2) limit by (simp add: rest)
    from Suc.IH [OF s'(1) Suc.prems(2) [folded kept_same [OF s'(2)]] len this, unfolded rest]
    obtain out' pages where rec: "export_pages n cr kv s' v (Some ?q) limit = Some out'" "answers inv abs kv cr C s' out' pages"
      "concat pages = drop limit ?xs" by blast
    obtain r' s'' where rs': "out' = (r', s'')" by fastforce
    have tr: "same_store s s''" "represents inv abs cr C s''" using rec(2) same_store_trans [OF s'(2)] by (auto simp: answers_def rs')
    have "concat (take limit ?xs # pages) = ?xs" by (simp add: rec(3))
    moreover have "\<exists>out. export_pages (Suc n) cr kv s v sa limit = Some out \<and> answers inv abs kv cr C s out (take limit ?xs # pages)"
    proof (cases r')
      case (Inl e)
      then show ?thesis using rec(1,2) out(1) 3(1) tr by (simp add: rs rs' answers_def)
    next
      case (Inr y)
      then show ?thesis using rec(1,2) out(1) 3(1) tr by (simp add: rs rs' answers_def)
    qed
    ultimately show ?thesis by blast
  next
    case 1
    then have "export_pages (Suc n) cr kv s v sa limit = Some (Inl e, s') \<and> answers inv abs kv cr C s (Inl e, s') [?xs]"
      using out(1) s' by (simp add: rs answers_def)
    then show ?thesis by (intro exI [of _ "(Inl e, s')"] exI [of _ "[?xs]"]) simp
  next
    case 2
    then have "export_pages (Suc n) cr kv s v sa limit = Some (Inr [?xs], s') \<and> answers inv abs kv cr C s (Inr [?xs], s') [?xs]"
      using out(1) s' by (simp add: rs answers_def)
    then show ?thesis by (intro exI [of _ "(Inr [?xs], s')"] exI [of _ "[?xs]"]) simp
  qed
qed simp

end


lemma add_leaves_pages: "foldl add_leaves sb pages = sb\<lparr>sb_leaves := sb_leaves sb @ concat pages\<rparr>"
  by (induction pages arbitrary: sb) (simp_all add: add_leaves_def)

lemma inj_on_vh:
  assumes "inj_on (\<lambda>(p, v). vh_of cr s p v) A" "B \<subseteq> A" "\<And>p v. vh_of cr s' p v = vh_of cr s p v"
  shows "inj_on (\<lambda>(p, v). vh_of cr s' p v) B"
  using inj_on_subset [OF assms(1,2)] assms(3) by (simp add: inj_on_def split_def)

lemma commitments_distinct_single: "c = [p \<mapsto> v] \<Longrightarrow> commitments_distinct cr s c []"
  by (auto simp: commitments_distinct_def inj_on_def split: if_splits)

context kv_contract
begin

lemma builder_rep:
  assumes "crypto_ok cr" "inv b" "abs b = Map.empty" "builder_new cr kv b ck key d = Inr sb"
  shows "represents inv abs cr [0 \<mapsto> Map.empty] (sb_store sb)" "st_ck (sb_store sb) = ck" "st_cipher (sb_store sb) = key"
    "st_version (sb_store sb) = 0" "sb_leaves sb = []"
proof -
  obtain r s where run: "store_create cr kv b ck key d = (r, s)" by fastforce
  have "r = Inr ()" "sb = \<lparr>sb_store = s, sb_leaves = []\<rparr>"
    using assms(4) by (auto simp: builder_new_def run split: sum.splits)
  with store_create_rep [OF assms(1-3) run]
  show "represents inv abs cr [0 \<mapsto> Map.empty] (sb_store sb)" "st_ck (sb_store sb) = ck" "st_cipher (sb_store sb) = key"
    "st_version (sb_store sb) = 0" "sb_leaves sb = []" by simp_all
qed

lemma restore_spec:
  assumes cr: "crypto_ok cr" and b: "inv b" "abs b = Map.empty" and new: "builder_new cr kv b ck key d = Inr sb"
    and vh: "commitments_distinct cr (sb_store sb) Map.empty (leaf_writes (concat pages))"
    and len: "\<forall>(p, x) \<in> set (concat pages). length p = HASH_SIZE"
    and run: "finalize cr kv (foldl add_leaves sb pages) root v = (r, s')"
  shows "let c = write_all Map.empty (leaf_writes (concat pages)) in
    case r of
      Inl e \<Rightarrow> content_root cr (sb_store sb) c \<noteq> root \<or> v < (if c = Map.empty then 0 else 1) \<or> host_fault kv e \<or> seal_fault cr key e
    | Inr _ \<Rightarrow> content_root cr (sb_store sb) c = root \<and> st_root s' = root \<and> st_version s' = v \<and> st_ck s' = ck \<and>
        (\<exists>C. represents inv abs cr C s' \<and> C v = Some c)"
proof -
  note sb = builder_rep [OF cr b new]
  define sb' where "sb' = sb\<lparr>sb_leaves := concat pages\<rparr>"
  have fold: "foldl add_leaves sb pages = sb'" using sb(5) by (simp add: sb'_def add_leaves_pages)
  have sel: "sb_store sb' = sb_store sb" "sb_leaves sb' = concat pages" by (simp_all add: sb'_def)
  show ?thesis
    using finalize_spec [where sb = sb', unfolded sel, OF sb(1,4) cr vh len run [unfolded fold]] sb(2,3)
    by (auto simp: Let_def split: sum.splits)
qed

end


section \<open>What a node hash does not bind\<close>

text \<open>
  A leaf that is alone in a half of its node stands for the whole half: the hash of the node does not
  say which slot the leaf is in.
\<close>

definition two_leaves :: "nat \<Rightarrow> child \<Rightarrow> nat \<Rightarrow> child \<Rightarrow> child option list" where
  "two_leaves i a k b = (replicate 8 None)[i := Some a] @ (replicate 8 None)[k := Some b]"

lemma flatten_one: "i < n \<Longrightarrow> flatten ((replicate n None)[i := Some c]) = [c]"
  by (simp add: upd_conv_take_nth_drop flatten_def)

lemma two_leaves_hash:
  assumes "i < 8" "k < 8" "c_is_leaf a" "c_is_leaf b"
  shows "node_hash H (Internal (two_leaves i a k b)) = internal_hash H (c_hash a) (c_hash b)"
proof -
  have "subtree_hash H (two_leaves i a k b) 0 8 = c_hash a" "subtree_hash H (two_leaves i a k b) 8 8 = c_hash b"
    unfolding subtree_hash.simps [of _ _ _ 8] using assms by (simp_all add: two_leaves_def flatten_one)
  then show ?thesis
    unfolding node_hash_def node.case subtree_hash.simps [of _ _ _ 16] using assms
    by (simp add: two_leaves_def flatten_one)
qed

end
