(* ===== verification/Merkle_Spec.thy ===== *)
theory Merkle_Spec
  imports Merkle_Answers
begin

text \<open>
  What the authenticated store promises to its clients, over every backend that meets the contract
  \<open>kv_contract\<close>. A fault is always one of two kinds: the backend reported an error, or the
  cipher could not seal (no randomness). The witnesses run on the in-memory backend.
\<close>

section \<open>A concrete store\<close>

definition demo_key :: bytes where
  "demo_key = replicate 32 7"

definition demo_store :: "mem_backend merkle_store" where
  "demo_store = snd (store_create toy_crypto mem_ops mem_new demo_key demo_key 0)"

lemma mem_reliable: "reliable mem_ops"
  unfolding reliable_def by (auto simp: mem_ops_def mem_get_def mem_write_batch_def mem_scan_def Let_def)

lemma toy_seals: "seals toy_crypto demo_key"
  by (simp add: seals_def aead_encrypt_def toy_crypto_def demo_key_def AEAD_KEY_SIZE_def)

lemma demo_no_fault: "\<not> host_fault mem_ops e" "\<not> seal_fault toy_crypto demo_key e"
  using mem_reliable toy_seals by (simp_all add: host_fault_def seal_fault_def)

lemma demo_rep: "represents mem_inv mem_abs toy_crypto [0 \<mapsto> Map.empty] demo_store"
  and demo_sel: "st_cipher demo_store = demo_key" "st_version demo_store = 0" "st_ck demo_store = demo_key" "st_pin demo_store = None"
proof -
  obtain r s where run: "store_create toy_crypto mem_ops mem_new demo_key demo_key 0 = (r, s)" by fastforce
  have "mem_inv mem_new" "mem_abs mem_new = Map.empty"
    by (auto simp: mem_inv_def mem_new_def mem_abs_def bt_new_def bt_inv_def bt_get_def fun_eq_iff)
  from mem.store_create_rep [OF toy_crypto_ok this run] demo_no_fault
  have "represents mem_inv mem_abs toy_crypto [0 \<mapsto> Map.empty] s \<and> st_cipher s = demo_key \<and> st_version s = 0 \<and> st_ck s = demo_key \<and> st_pin s = None"
    by (cases r) auto
  then show "represents mem_inv mem_abs toy_crypto [0 \<mapsto> Map.empty] demo_store"
    "st_cipher demo_store = demo_key" "st_version demo_store = 0" "st_ck demo_store = demo_key" "st_pin demo_store = None"
    by (simp_all add: demo_store_def run)
qed

definition demo_builder :: "mem_backend snapshot_builder" where
  "demo_builder = \<lparr>sb_store = demo_store, sb_leaves = []\<rparr>"

lemma mem_new_empty: "mem_inv mem_new" "mem_abs mem_new = Map.empty"
  by (auto simp: mem_inv_def mem_new_def mem_abs_def bt_new_def bt_inv_def bt_get_def fun_eq_iff)

lemma demo_builder_new: "builder_new toy_crypto mem_ops mem_new demo_key demo_key 0 = Inr demo_builder"
proof -
  obtain r s where run: "store_create toy_crypto mem_ops mem_new demo_key demo_key 0 = (r, s)" by fastforce
  then show ?thesis
    using mem.store_create_rep [OF toy_crypto_ok mem_new_empty run] demo_no_fault
    by (cases r) (simp_all add: builder_new_def demo_builder_def demo_store_def)
qed

lemma demo_room: "st_version demo_store < st_version demo_store + 1"
  by (simp add: demo_sel)

lemma demo_at: "[0 \<mapsto> Map.empty] (st_version demo_store) = Some Map.empty"
  by (simp add: demo_sel)

lemma demo_distinct: "commitments_distinct toy_crypto demo_store Map.empty (by_path toy_crypto demo_store [(key, Some v)])"
  by (simp add: commitments_distinct_def by_path_def)

lemma demo_write: "write_all Map.empty (by_path toy_crypto demo_store [([1], Some [2])]) = [path_of toy_crypto demo_store [1] \<mapsto> [2]]"
  by (simp add: write_all_def by_path_def)

text \<open>The same store after one write: version 1 maps the path of the key \<open>[1]\<close> to \<open>[2]\<close>.\<close>

definition demo_written :: "mem_backend merkle_store" where
  "demo_written = snd (put_batch toy_crypto mem_ops demo_store [([1], Some [2])])"

definition demo_contents :: "bytes \<rightharpoonup> bytes" where
  "demo_contents = [112 # 1 # replicate 30 0 \<mapsto> [2]]"

definition demo_versions :: "u64 \<rightharpoonup> (bytes \<rightharpoonup> bytes)" where
  "demo_versions = [0 \<mapsto> Map.empty, 1 \<mapsto> demo_contents]"

lemma demo_path: "path_of toy_crypto s [1] = 112 # 1 # replicate 30 0"
  by (simp add: path_of_def toy_crypto_def HMAC_TAG_PATH_def str_bytes_def numeral_eq_Suc)

lemma demo_batch:
  assumes "commitments_distinct toy_crypto demo_store Map.empty (by_path toy_crypto demo_store ops)"
    "write_all Map.empty (by_path toy_crypto demo_store ops) = demo_contents"
  shows "let s = snd (put_batch toy_crypto mem_ops demo_store ops) in
    represents mem_inv mem_abs toy_crypto demo_versions s \<and> st_cipher s = demo_key \<and> st_version s = 1 \<and> st_ck s = demo_key \<and> st_pin s = None"
proof -
  obtain r s' where run: "put_batch toy_crypto mem_ops demo_store ops = (r, s')" by fastforce
  have ne: "demo_contents \<noteq> Map.empty" by (simp add: demo_contents_def)
  note spec = mem.put_batch_spec [OF toy_crypto_ok demo_rep demo_at demo_room assms(1) run, unfolded assms(2) demo_sel]
  then show ?thesis
    using demo_no_fault ne by (cases r) (auto simp: run demo_versions_def)
qed

lemma demo_written_rep: "represents mem_inv mem_abs toy_crypto demo_versions demo_written"
  and demo_written_sel: "st_cipher demo_written = demo_key" "st_version demo_written = 1" "st_ck demo_written = demo_key" "st_pin demo_written = None"
  using demo_batch [OF demo_distinct demo_write [folded demo_contents_def [folded demo_path [of demo_store]]]]
  by (simp_all add: demo_written_def Let_def)

text \<open>The same contents by another route: a second key is written and deleted again.\<close>

definition demo_detour :: "mem_backend merkle_store" where
  "demo_detour = snd (put_batch toy_crypto mem_ops demo_store [([3], Some [9]), ([3], None), ([1], Some [2])])"

lemma demo_detour_rep: "represents mem_inv mem_abs toy_crypto demo_versions demo_detour"
  and demo_detour_sel: "st_version demo_detour = 1" "st_ck demo_detour = demo_key"
proof -
  let ?ops = "[([3], Some [9]), ([3], None), ([1], Some [2])]"
  have ops: "by_path toy_crypto demo_store ?ops =
      [(112 # 3 # replicate 30 0, Some [9]), (112 # 3 # replicate 30 0, None), (112 # 1 # replicate 30 0, Some [2])]"
    by (simp add: by_path_def path_of_def toy_crypto_def HMAC_TAG_PATH_def str_bytes_def numeral_eq_Suc)
  have vh: "vh_of toy_crypto demo_store (112 # 3 # replicate 30 0) [9] \<noteq> vh_of toy_crypto demo_store (112 # 1 # replicate 30 0) [2]"
    by (simp add: vh_of_def toy_crypto_def HMAC_TAG_VALUE_def str_bytes_def)
  have set: "{(p, v). (p, Some v) \<in> set (by_path toy_crypto demo_store ?ops)} =
      {(112 # 3 # replicate 30 0, [9]), (112 # 1 # replicate 30 0, [2])}" unfolding ops by auto
  have w: "write_all Map.empty (by_path toy_crypto demo_store ?ops) = demo_contents"
    unfolding ops demo_contents_def by (auto simp: write_all_def)
  have "commitments_distinct toy_crypto demo_store Map.empty (by_path toy_crypto demo_store ?ops)"
    unfolding commitments_distinct_def set using vh by simp
  from demo_batch [OF this w] show "represents mem_inv mem_abs toy_crypto demo_versions demo_detour"
    "st_version demo_detour = 1" "st_ck demo_detour = demo_key" by (simp_all add: demo_detour_def Let_def)
qed

lemma demo_now: "demo_versions 1 = Some demo_contents"
  by (simp add: demo_versions_def)

lemma demo_kept: "kept toy_crypto s demo_versions 1 demo_contents"
proof -
  have "content_root toy_crypto s demo_contents \<noteq> placeholder (sha256 toy_crypto)"
    by (simp add: content_root_def content_entries_def demo_contents_def placeholder_def leaf_hash_def sha256_parts_def
          toy_crypto_def TAG_LEAF_def TAG_PLACEHOLDER_def str_bytes_def)
  then show ?thesis by (simp add: kept_def demo_versions_def)
qed

section \<open>Writing and reading\<close>

text \<open>
  C1 (A batch is one atomic step of a versioned map). From a store that holds contents \<open>C\<close>,
  \<open>put_batch\<close> either fails, with the store unchanged in every version, or returns the root and
  the version of contents in which all the updates are applied, later ones winning. The version
  advances by one exactly when the contents change, and all earlier versions stay as they were.
\<close>

theorem put_batch_refines:
  assumes "kv_contract kv ok view" "crypto_ok cr" "represents ok view cr C s" "C (st_version s) = Some c"
    "st_version s < st_version s + 1" "commitments_distinct cr s c (by_path cr s ops)"
    "put_batch cr kv s ops = (r, s')"
  shows "case r of
      Inl e \<Rightarrow> (host_fault kv e \<or> seal_fault cr (st_cipher s) e) \<and> represents ok view cr C s' \<and> same_store s s'
    | Inr (root, v) \<Rightarrow>
        v = (if write_all c (by_path cr s ops) = c then st_version s else st_version s + 1) \<and>
        root = content_root cr s (write_all c (by_path cr s ops)) \<and> st_root s' = root \<and> st_version s' = v \<and>
        st_ck s' = st_ck s \<and> st_cipher s' = st_cipher s \<and> st_pin s' = st_pin s \<and>
        represents ok view cr (C(v \<mapsto> write_all c (by_path cr s ops))) s'"
  by (rule kv_contract.put_batch_spec [OF assms])

theorem put_batch_refines_witness:
  "\<exists>s'. put_batch toy_crypto mem_ops demo_store [([1], Some [2])] =
     (Inr (content_root toy_crypto demo_store [path_of toy_crypto demo_store [1] \<mapsto> [2]], 1), s') \<and>
   represents mem_inv mem_abs toy_crypto [0 \<mapsto> Map.empty, 1 \<mapsto> [path_of toy_crypto demo_store [1] \<mapsto> [2]]] s'"
proof -
  obtain r s' where run: "put_batch toy_crypto mem_ops demo_store [([1], Some [2])] = (r, s')" by fastforce
  note spec = put_batch_refines [OF mem.kv_contract_axioms toy_crypto_ok demo_rep demo_at demo_room demo_distinct run, unfolded demo_write demo_sel]
  show ?thesis
  proof (cases r)
    case (Inl e)
    then show ?thesis using spec demo_no_fault by simp
  next
    case (Inr rv)
    then show ?thesis using spec run by (cases rv) (simp add: demo_sel)
  qed
qed


text \<open>
  C11 (Every kept version stays readable). While the backend answers, a read at a kept version gives
  what that version holds for the key, whatever was committed after it; a read without a version
  gives what the current version holds. Reading changes nothing that is represented.
\<close>

theorem reads_return_contents:
  assumes "kv_contract kv ok view" "crypto_ok cr" "represents ok view cr C s" "kept cr s C v c"
  shows "answers ok view kv cr C s (get_at cr kv s v key) (c (path_of cr s key)) \<and>
    (v = st_version s \<longrightarrow> answers ok view kv cr C s (store_get cr kv s key) (c (path_of cr s key)))"
  using kv_contract.get_at_answers [OF assms] kv_contract.store_get_answers [OF assms(1-3)] assms(4)
  by (auto simp: kept_def)

theorem reads_return_contents_witness:
  "fst (get_at toy_crypto mem_ops demo_written 1 [1]) = Inr (Some [2]) \<and>
   fst (store_get toy_crypto mem_ops demo_written [1]) = Inr (Some [2])"
  using reads_return_contents [OF mem.kv_contract_axioms toy_crypto_ok demo_written_rep demo_kept, of "[1]"]
  by (auto simp: answers_def demo_no_fault demo_written_sel demo_path demo_contents_def)

section \<open>Roots and proofs\<close>

text \<open>
  C13 (The root depends on the contents only). Two stores with the same commitment key and the same
  current contents have the same root, whatever backends hold them, whatever versions they are at and
  in whatever order and batches the contents were written.
\<close>

theorem root_of_contents:
  assumes "represents ok view cr C s" "represents ok' view' cr C' s'"
    "C (st_version s) = C' (st_version s')" "st_ck s' = st_ck s"
  shows "st_root s' = st_root s"
  using represents_root [OF assms(1)] represents_root [OF assms(2)] assms(3) content_keys [OF assms(4)] by auto

theorem root_of_contents_witness:
  "st_root demo_detour = st_root demo_written"
  by (rule root_of_contents [OF demo_written_rep demo_detour_rep]) (simp_all add: demo_written_sel demo_detour_sel)

text \<open>
  C12 (Proofs are complete). For every key and every kept version, \<open>prove_at\<close> makes a proof that the
  verifier accepts against the root of that version: as a proof of the value if and only if the key
  has that value (up to a collision of the value commitment), as a proof of absence if and only if the
  key is absent. \<open>prove\<close> does so for the current root.
\<close>

theorem proofs_verify:
  assumes "kv_contract kv ok view" "crypto_ok cr" "represents ok view cr C s" "kept cr s C v c"
  shows "\<exists>pf. answers ok view kv cr C s (prove_at cr kv s v key) pf \<and>
    (v = st_version s \<longrightarrow> answers ok view kv cr C s (prove cr kv s key) pf \<and> st_root s = content_root cr s c) \<and>
    (\<forall>val. verify_value cr s (content_root cr s c) key val pf =
       Inr (\<exists>x. c (path_of cr s key) = Some x \<and> vh_of cr s (path_of cr s key) x = vh_of cr s (path_of cr s key) val)) \<and>
    verify_absent cr s (content_root cr s c) key pf = Inr (c (path_of cr s key) = None)"
proof -
  have c: "C v = Some c" using assms(4) by (simp add: kept_def)
  note ok = contents_ok [OF assms(3) c]
  show ?thesis
    using kv_contract.prove_at_answers [OF assms, of key] kv_contract.prove_answers [OF assms(1-3), of c key] c
      smt_prove_value [OF assms(2) ok(1,2), of key] represents_root [OF assms(3)] by (intro exI) auto
qed

theorem proofs_verify_witness:
  "\<exists>pf. fst (prove toy_crypto mem_ops demo_written [1]) = Inr pf \<and>
     verify_value toy_crypto demo_written (st_root demo_written) [1] [2] pf = Inr True \<and>
     verify_absent toy_crypto demo_written (st_root demo_written) [1] pf = Inr False"
proof -
  have "path_of toy_crypto demo_written [1] \<in> dom demo_contents" "demo_contents (path_of toy_crypto demo_written [1]) = Some [2]"
    by (simp_all add: demo_path demo_contents_def)
  with proofs_verify [OF mem.kv_contract_axioms toy_crypto_ok demo_written_rep demo_kept, of "[1]"]
  show ?thesis unfolding demo_written_sel by (auto simp: answers_def demo_no_fault)
qed


section \<open>Reopening\<close>

text \<open>
  C16 (A store survives its process). Opening the backend of a store with the same two keys, from
  nothing but the sealed checkpoint, gives a store with the same root and version that represents the
  same contents in every version, or an error the backend reported; the pin is not persistent.
\<close>

theorem reopen_restores:
  assumes "kv_contract kv ok view" "crypto_ok cr" "represents ok view cr C s" "kept cr s C (st_version s) c"
    "open_latest cr kv (st_backend s) (st_ck s) (st_cipher s) d = r"
  shows "case r of
      Inl (e, b) \<Rightarrow> host_fault kv e \<and> ok b \<and> view b = view (st_backend s)
    | Inr s' \<Rightarrow> represents ok view cr C s' \<and> same_store (s\<lparr>st_pin := None\<rparr>) s'"
  by (rule kv_contract.open_latest_rep [OF assms(1-3) _ assms(5)]) (use assms(4) in \<open>auto simp: kept_def\<close>)

theorem reopen_restores_witness:
  "\<exists>s'. open_latest toy_crypto mem_ops (st_backend demo_written) demo_key demo_key 7 = Inr s' \<and>
     st_version s' = 1 \<and> st_root s' = st_root demo_written \<and> represents mem_inv mem_abs toy_crypto demo_versions s'"
proof -
  have kept: "kept toy_crypto demo_written demo_versions (st_version demo_written) demo_contents"
    using demo_kept by (simp add: demo_written_sel)
  from reopen_restores [OF mem.kv_contract_axioms toy_crypto_ok demo_written_rep kept refl, of 7]
  show ?thesis by (auto simp: demo_no_fault demo_written_sel same_store_def split: sum.splits)
qed

section \<open>Forks\<close>

text \<open>
  After any sequence of writes to a fresh fork, a read gives the last
  write to that key if there is one, and otherwise what the store holds. The store is not written.
\<close>

theorem fork_reads_own_writes:
  assumes "kv_contract kv ok view" "crypto_ok cr" "represents ok view cr C s" "C (st_version s) = Some c"
    "fork_get cr kv (fork_write (fork_new s) ops) key = (r, f)"
  shows "fk_overlay f = fk_overlay (fork_write (fork_new s) ops) \<and>
    (case map_of (rev ops) key of
       Some v \<Rightarrow> r = Inr v \<and> fk_store f = s
     | None \<Rightarrow> answers ok view kv cr C s (r, fk_store f) (c (path_of cr s key)))"
proof -
  have get: "bt_get (btree.collect ops) key = map_of (rev ops) key" by (rule btree.get_collect)
  note ans = kv_contract.store_get_answers [OF assms(1-4), of key]
  show ?thesis
    using assms(5) ans by (auto simp: fork_get_def fork_write_new get split: option.splits prod.splits)
qed

theorem fork_reads_own_writes_witness:
  "fst (fork_get toy_crypto mem_ops (fork_write (fork_new demo_written) [([5], Some [6]), ([5], None)]) [5]) = Inr None \<and>
   fst (fork_get toy_crypto mem_ops (fork_write (fork_new demo_written) [([5], Some [6]), ([5], None)]) [1]) = Inr (Some [2])"
proof -
  note own = fork_reads_own_writes [OF mem.kv_contract_axioms toy_crypto_ok demo_written_rep demo_now [folded demo_written_sel(2)] prod.collapse [symmetric]]
  show ?thesis
    using own [of "[([5], Some [6]), ([5], None)]" "[5]"] own [of "[([5], Some [6]), ([5], None)]" "[1]"]
    by (auto simp: answers_def demo_no_fault demo_path demo_contents_def)
qed




section \<open>Retention\<close>

text \<open>
  C14 (Pruning keeps what it promises). Pruning at a horizon not above the current version leaves
  every version from the horizon on, and the current one, exactly as it was, whether it succeeds or
  the backend fails half way; a pinned version lowers the horizon. When it succeeds no root record
  below the horizon is left, and no stale entry up to it.
\<close>

theorem prune_keeps_horizon:
  assumes "kv_contract kv ok view" "represents ok view cr C s" "prune_horizon s before \<le> st_version s"
    "prune kv fuel s before = Some (r, s')"
  shows "represents ok view cr (C |` {v. prune_horizon s before \<le> v}) s' \<and>
    st_root s' = st_root s \<and> st_version s' = st_version s \<and> st_pin s' = st_pin s \<and>
    prune_horizon s before \<le> before \<and> (\<forall>pin. st_pin s = Some pin \<longrightarrow> prune_horizon s before \<le> pin) \<and>
    (case r of
       Inl e \<Rightarrow> host_fault kv e
     | Inr stats \<Rightarrow> (\<forall>v < prune_horizon s before. view (st_backend s') (root_record_key v) = None) \<and>
         (\<forall>since target. since \<le> prune_horizon s before \<longrightarrow> view (st_backend s') (stale_record_key since target) = None))"
proof -
  from assms(2) obtain hist where hist: "store_rep ok view cr hist s" "C = version_contents view cr hist s"
    by (auto simp: represents_def)
  have "prune_horizon s before \<le> before" "\<forall>pin. st_pin s = Some pin \<longrightarrow> prune_horizon s before \<le> pin"
    by (simp_all add: prune_horizon_def split: option.splits)
  then show ?thesis
    using kv_contract.prune_spec [OF assms(1) hist(1) refl assms(3,4)] unfolding represents_def hist(2) by metis
qed

theorem prune_keeps_horizon_witness:
  "\<exists>fuel stats s'. prune mem_ops fuel demo_written 1 = Some (Inr stats, s') \<and>
     represents mem_inv mem_abs toy_crypto (demo_versions |` {v. 1 \<le> v}) s' \<and> mem_abs (st_backend s') (root_record_key 0) = None"
proof -
  obtain hist where hist: "store_rep mem_inv mem_abs toy_crypto hist demo_written"
    using demo_written_rep by (auto simp: represents_def)
  from mem.prune_terminates [OF hist lessI, of 1] obtain fuel r s' where run: "prune mem_ops fuel demo_written 1 = Some (r, s')" by auto
  have h: "prune_horizon demo_written 1 = 1" by (simp add: prune_horizon_def demo_written_sel)
  have "prune_horizon demo_written 1 \<le> st_version demo_written" by (simp add: h demo_written_sel)
  from prune_keeps_horizon [OF mem.kv_contract_axioms demo_written_rep this run, unfolded h] run
  show ?thesis by (cases r) (auto simp: demo_no_fault)
qed

text \<open>
  C22 (Pruning terminates). The two deletion loops end, whatever the horizon: every round deletes the
  keys it scanned, so one more round than the backend has records is enough.
\<close>

theorem prune_returns:
  assumes "kv_contract kv ok view" "represents ok view cr C s" "card (dom (view (st_backend s))) < fuel"
  shows "\<exists>r s'. prune kv fuel s before = Some (r, s')"
proof -
  from assms(2) obtain hist where "store_rep ok view cr hist s" by (auto simp: represents_def)
  from kv_contract.prune_terminates [OF assms(1) this assms(3), of before] show ?thesis by auto
qed

theorem prune_returns_witness:
  "\<exists>r s'. prune mem_ops (Suc (card (dom (mem_abs (st_backend demo_written))))) demo_written 1 = Some (r, s')"
  using prune_returns [OF mem.kv_contract_axioms demo_written_rep, of _ 1] by simp

section \<open>Snapshots\<close>

text \<open>
  C23 (A restore is checked against the advertised root). Whatever leaves were streamed into a builder
  over an empty backend, \<open>finalize\<close> succeeds only if their contents have the advertised root; the
  store it gives then holds exactly these contents at the advertised version, under that root. Any
  other outcome is a mismatch of the root, a version that is too low, or a fault.
\<close>

theorem restore_checked:
  assumes "kv_contract kv ok view" "crypto_ok cr" "ok b" "view b = Map.empty" "builder_new cr kv b ck key d = Inr sb"
    "commitments_distinct cr (sb_store sb) Map.empty (leaf_writes (concat pages))" "\<forall>(p, x) \<in> set (concat pages). length p = HASH_SIZE"
    "finalize cr kv (foldl add_leaves sb pages) root v = (r, s')"
  shows "let c = write_all Map.empty (leaf_writes (concat pages)) in
    case r of
      Inl e \<Rightarrow> content_root cr (sb_store sb) c \<noteq> root \<or> v < (if c = Map.empty then 0 else 1) \<or> host_fault kv e \<or> seal_fault cr key e
    | Inr _ \<Rightarrow> content_root cr (sb_store sb) c = root \<and> st_root s' = root \<and> st_version s' = v \<and> st_ck s' = ck \<and>
        (\<exists>C. represents ok view cr C s' \<and> C v = Some c)"
  using kv_contract.restore_spec [OF assms] by (auto simp: Let_def split: sum.splits)

theorem restore_checked_witness:
  "\<exists>s'. finalize toy_crypto mem_ops (add_leaves demo_builder (content_pairs demo_contents)) (st_root demo_written) 5 = (Inr (), s') \<and>
     st_version s' = 5 \<and> st_root s' = st_root demo_written"
proof -
  obtain r s' where run: "finalize toy_crypto mem_ops (foldl add_leaves demo_builder [content_pairs demo_contents]) (st_root demo_written) 5 = (r, s')"
    by fastforce
  have c: "write_all Map.empty (leaf_writes (concat [content_pairs demo_contents])) = demo_contents"
    using write_all_pairs [of demo_contents] by (simp add: demo_contents_def)
  have root: "content_root toy_crypto (sb_store demo_builder) demo_contents = st_root demo_written"
    using represents_root [OF demo_written_rep] content_keys [of demo_written demo_store toy_crypto demo_contents]
    by (simp add: demo_written_sel demo_sel demo_now demo_builder_def)
  have distinct: "commitments_distinct toy_crypto (sb_store demo_builder) Map.empty (leaf_writes (concat [content_pairs demo_contents]))"
    and len: "\<forall>(p, x) \<in> set (concat [content_pairs demo_contents]). length p = HASH_SIZE"
    by (simp_all add: commitments_distinct_def leaf_writes_def content_pairs_def demo_contents_def HASH_SIZE_def)
  from restore_checked [OF mem.kv_contract_axioms toy_crypto_ok mem_new_empty demo_builder_new distinct len run, unfolded c]
  show ?thesis using run root by (cases r) (auto simp: demo_no_fault Let_def split: if_splits)
qed

text \<open>
  C15 (Snapshots round-trip). Streaming a kept version page by page and feeding the pages to a builder
  over another, empty backend with the same commitment key rebuilds the version: same contents, same
  root, same version number, unless a backend or the cipher reports an error.
\<close>

theorem snapshot_round_trip:
  assumes "kv_contract kv ok view" "kv_contract kv' ok' view'" "crypto_ok cr" "represents ok view cr C s" "kept cr s C v c"
    "c \<noteq> Map.empty \<longrightarrow> 1 \<le> v" "commitments_distinct cr s c []" "0 < limit" "card (dom c) < n"
    "ok' b" "view' b = Map.empty" "builder_new cr kv' b (st_ck s) key d = Inr sb"
  shows "\<exists>r s1. export_pages n cr kv s v None limit = Some (r, s1) \<and> represents ok view cr C s1 \<and>
    (case r of
       Inl e \<Rightarrow> host_fault kv e
     | Inr pages \<Rightarrow>
         (case finalize cr kv' (foldl add_leaves sb pages) (content_root cr s c) v of
            (Inl e, _) \<Rightarrow> host_fault kv' e \<or> seal_fault cr key e
          | (Inr _, s2) \<Rightarrow> st_root s2 = content_root cr s c \<and> st_version s2 = v \<and>
              (\<exists>C'. represents ok' view' cr C' s2 \<and> C' v = Some c)))"
proof -
  let ?xs = "content_pairs c" and ?root = "content_root cr s c"
  have c: "C v = Some c" using assms(5) by (simp add: kept_def)
  note cok = contents_ok [OF assms(4) c]
  have len: "length ?xs = card (dom c)" by (simp add: content_pairs_def)
  have none: "behind None xs = xs" for xs by (simp add: behind_def)
  from kv_contract.export_answers [OF assms(1,3,8,4,5), of None n] assms(9)
  obtain r s1 pages where out: "export_pages n cr kv s v None limit = Some (r, s1)"
    "answers ok view kv cr C s (r, s1) pages" "concat pages = ?xs" by (auto simp: none len)
  note sb = kv_contract.builder_rep [OF assms(2,3,10-12)]
  have w: "write_all Map.empty (leaf_writes (concat pages)) = c" using write_all_pairs [OF cok(2)] out(3) by simp
  have root: "content_root cr (sb_store sb) c = ?root" using content_keys [of "sb_store sb" s] sb(2) by simp
  have vh: "commitments_distinct cr (sb_store sb) Map.empty (leaf_writes (concat pages))"
    using assms(7) unfolding out(3) commitments_distinct_def
    by (rule inj_on_vh) (use content_pairs_get [OF cok(2)] sb(2) in \<open>auto simp: leaf_writes_def vh_of_def\<close>)
  have paths: "\<forall>(p, x) \<in> set (concat pages). length p = HASH_SIZE"
    unfolding out(3) using content_pairs_get [OF cok(2)] cok(3) by auto
  obtain r2 s2 where fin: "finalize cr kv' (foldl add_leaves sb pages) ?root v = (r2, s2)" by fastforce
  note spec = kv_contract.restore_spec [OF assms(2,3,10-12) vh paths fin, unfolded w root Let_def]
  have "\<not> v < (if c = Map.empty then 0 else 1)" using assms(6) by (auto dest: leD)
  then have "case (r2, s2) of (Inl e, _) \<Rightarrow> host_fault kv' e \<or> seal_fault cr key e
      | (Inr _, s2) \<Rightarrow> st_root s2 = ?root \<and> st_version s2 = v \<and> (\<exists>C'. represents ok' view' cr C' s2 \<and> C' v = Some c)"
    using spec by (cases r2) auto
  then show ?thesis using out(1,2) fin by (cases r) (auto simp: answers_def)
qed

theorem snapshot_round_trip_witness:
  "\<exists>pages s1 s2. export_pages 2 toy_crypto mem_ops demo_written 1 None 10 = Some (Inr pages, s1) \<and>
     finalize toy_crypto mem_ops (foldl add_leaves demo_builder pages) (content_root toy_crypto demo_written demo_contents) 1 = (Inr (), s2) \<and>
     st_root s2 = content_root toy_crypto demo_written demo_contents"
proof -
  have distinct: "commitments_distinct toy_crypto demo_written demo_contents []"
    by (rule commitments_distinct_single [of _ "112 # 1 # replicate 30 0" "[2]"]) (simp add: demo_contents_def)
  have "card (dom demo_contents) < 2" by (simp add: demo_contents_def)
  from snapshot_round_trip [OF mem.kv_contract_axioms mem.kv_contract_axioms toy_crypto_ok demo_written_rep demo_kept _ distinct _ this
      mem_new_empty, of 10 demo_key 0 demo_builder] demo_builder_new
  obtain r s1 where out: "export_pages 2 toy_crypto mem_ops demo_written 1 None 10 = Some (r, s1)"
    and spec: "case r of
       Inl e \<Rightarrow> host_fault mem_ops e
     | Inr pages \<Rightarrow>
         (case finalize toy_crypto mem_ops (foldl add_leaves demo_builder pages) (content_root toy_crypto demo_written demo_contents) 1 of
            (Inl e, _) \<Rightarrow> host_fault mem_ops e \<or> seal_fault toy_crypto demo_key e
          | (Inr _, s2) \<Rightarrow> st_root s2 = content_root toy_crypto demo_written demo_contents \<and> st_version s2 = 1 \<and>
              (\<exists>C'. represents mem_inv mem_abs toy_crypto C' s2 \<and> C' 1 = Some demo_contents))"
    by (auto simp: demo_written_sel)
  then obtain pages where pages: "r = Inr pages" using demo_no_fault by (cases r) auto
  obtain x s2 where "finalize toy_crypto mem_ops (foldl add_leaves demo_builder pages) (content_root toy_crypto demo_written demo_contents) 1 = (x, s2)"
    by fastforce
  then show ?thesis using out spec demo_no_fault by (cases x) (auto simp: pages)
qed

section \<open>What a lying backend can do\<close>

text \<open>
  C38 (A moved leaf hides its key). The promises above are about backends that meet the contract. One
  lie is not caught: a leaf that is alone in a half of its node may be served in another slot of that
  half. The record passes the hash check against the trusted parent, and a read of the leaf's key
  then reports the key absent instead of failing.
\<close>

theorem moved_leaf_hides_key:
  assumes "i < 8" "j < 8" "j \<noteq> i" "k < 8" "c_is_leaf a" "c_is_leaf b" "length (c_hash a) = HASH_SIZE" "length (c_hash b) = HASH_SIZE"
    and c: "\<not> c_is_leaf c" "c_hash c = node_hash (sha256 cr) (Internal (two_leaves i a k b))"
    and path: "length prefix < NIBBLES" "unat (nibble path (length prefix)) = i"
    and miss: "fst (cache_get (st_cache s) (NodeKey (c_version c) prefix)) = None"
    and served: "fst (kv_get kv (st_backend s) (node_record_key (NodeKey (c_version c) prefix))) =
      Inr (Some (node_encode (Internal (two_leaves j a k b))))"
  shows "fst (walk_from cr kv s c prefix path) = Inr None"
proof -
  let ?n = "Internal (two_leaves j a k b)"
  have "node_ok ?n" using assms(2,4,7,8)
    by (auto simp: node_ok_def children_ok_def two_leaves_def flatten_one child_ok_def dest!: subsetD [OF set_update_subset_insert])
  then have dec: "node_decode (node_encode ?n) = Inr ?n" by (rule node_decode_encode)
  have hash: "node_hash (sha256 cr) ?n = c_hash c" unfolding c(2) using assms(1-6) by (simp add: two_leaves_hash)
  have slot: "two_leaves j a k b ! i = None" using assms(1-3) by (simp add: two_leaves_def nth_append)
  obtain ca where ca: "cache_get (st_cache s) (NodeKey (c_version c) prefix) = (None, ca)" using miss by (metis prod.collapse)
  obtain b' where b': "kv_get kv (st_backend s) (node_record_key (NodeKey (c_version c) prefix)) = (Inr (Some (node_encode ?n)), b')"
    using served by (metis prod.collapse)
  show ?thesis
    unfolding walk_from.simps [of cr kv s c prefix path]
    using c(1) path by (simp add: load_node_def ca backend_get_def b' dec hash node_is_leaf_def slot Let_def)
qed

definition lone_leaf :: "byte \<Rightarrow> child" where
  "lone_leaf x = \<lparr>c_version = 1, c_hash = replicate 32 x, c_is_leaf = True\<rparr>"

definition moved_backend :: mem_backend where
  "moved_backend = snd (mem_write_batch mem_new [Put (node_record_key (NodeKey 1 [])) (node_encode (Internal (two_leaves 3 (lone_leaf 5) 0 (lone_leaf 6))))])"

definition moved_store :: "mem_backend merkle_store" where
  "moved_store = demo_store\<lparr>st_backend := moved_backend, st_cache := cache_new 0\<rparr>"

theorem moved_leaf_hides_key_witness:
  "fst (walk_from toy_crypto mem_ops moved_store
     \<lparr>c_version = 1, c_hash = node_hash (sha256 toy_crypto) (Internal (two_leaves 0 (lone_leaf 5) 0 (lone_leaf 6))), c_is_leaf = False\<rparr>
     [] (replicate 32 0)) = Inr None"
  by (rule moved_leaf_hides_key [where i = 0 and j = 3 and k = 0 and a = "lone_leaf 5" and b = "lone_leaf 6"])
    (simp_all add: lone_leaf_def HASH_SIZE_def NIBBLES_def nibble_def moved_store_def moved_backend_def cache_new_def cache_get_def
      mem_ops_def mem_get_def mem_write_batch_def mem_new_def bt_new_def bt_get_def)

end
