(* ===== verification/Hex_Quote.thy ===== *)
theory Hex_Quote
  imports Enclave_Prelude
begin

text \<open>
  Text helpers and two small modules of \<open>common/src\<close>: the hexadecimal codec of \<open>hex.rs\<close> and the
  parser of SGX and TDX quotes of \<open>quote.rs\<close>. Text is a \<open>string\<close> whose characters are the bytes of
  its UTF-8 encoding; error messages are kept up to the values formatted into them.
\<close>

section \<open>Hexadecimal text\<close>

definition hex_nibble :: "char \<Rightarrow> byte option" where
  "hex_nibble c =
     (let b = of_char c :: byte in
      if 48 \<le> b \<and> b \<le> 57 then Some (b - 48)
      else if 97 \<le> b \<and> b \<le> 102 then Some (b - 97 + 10)
      else if 65 \<le> b \<and> b \<le> 70 then Some (b - 65 + 10)
      else None)"

fun hex_pairs :: "string \<Rightarrow> bytes option" where
  "hex_pairs [] = Some []"
| "hex_pairs [_] = Some []"
| "hex_pairs (a # b # cs) =
     (case hex_nibble a of
        None \<Rightarrow> None
      | Some hi \<Rightarrow>
          (case hex_nibble b of
             None \<Rightarrow> None
           | Some lo \<Rightarrow> map_option (\<lambda>out. (push_bit 4 hi OR lo) # out) (hex_pairs cs)))"

definition hex_decode :: "string \<Rightarrow> bytes option" where
  "hex_decode hex = (if length hex mod 2 \<noteq> 0 then None else hex_pairs hex)"

definition HEX :: string where
  "HEX = ''0123456789abcdef''"

definition hex_encode :: "bytes \<Rightarrow> string" where
  "hex_encode bs = concat (map (\<lambda>b. [HEX ! unat (drop_bit 4 b), HEX ! unat (b AND 0x0f)]) bs)"

text \<open>The formatter \<open>{b:02x}\<close> of \<open>quote.rs\<close>: the digits of the byte, padded to two.\<close>

definition hex_digit :: "nat \<Rightarrow> char" where
  "hex_digit n = (if n < 10 then char_of (48 + n) else char_of (87 + n))"

definition quote_hex_encode :: "bytes \<Rightarrow> string" where
  "quote_hex_encode bs = concat (map (\<lambda>b. [hex_digit (unat b div 16), hex_digit (unat b mod 16)]) bs)"

section \<open>Quotes\<close>

definition SGX_QUOTE_MIN_SIZE :: nat where "SGX_QUOTE_MIN_SIZE = 436"
definition TDX_QUOTE_MIN_SIZE :: nat where "TDX_QUOTE_MIN_SIZE = 584"
definition SGX_MRENCLAVE_OFFSET :: nat where "SGX_MRENCLAVE_OFFSET = 112"
definition SGX_MRENCLAVE_SIZE :: nat where "SGX_MRENCLAVE_SIZE = 32"
definition SGX_MRSIGNER_OFFSET :: nat where "SGX_MRSIGNER_OFFSET = 176"
definition SGX_MRSIGNER_SIZE :: nat where "SGX_MRSIGNER_SIZE = 32"
definition SGX_REPORT_DATA_OFFSET :: nat where "SGX_REPORT_DATA_OFFSET = 368"
definition TDX_MRTD_OFFSET :: nat where "TDX_MRTD_OFFSET = 184"
definition TDX_MRTD_SIZE :: nat where "TDX_MRTD_SIZE = 48"
definition TDX_RTMR_SIZE :: nat where "TDX_RTMR_SIZE = 48"
definition TDX_RTMR1_OFFSET :: nat where "TDX_RTMR1_OFFSET = 424"
definition TDX_RTMR2_OFFSET :: nat where "TDX_RTMR2_OFFSET = 472"
definition TDX_REPORT_DATA_OFFSET :: nat where "TDX_REPORT_DATA_OFFSET = 568"
definition REPORT_DATA_SIZE :: nat where "REPORT_DATA_SIZE = 64"
definition TDX_REPORT_DATA_MIN_SIZE :: nat where
  "TDX_REPORT_DATA_MIN_SIZE = TDX_REPORT_DATA_OFFSET + REPORT_DATA_SIZE"

lemmas quote_layout =
  SGX_QUOTE_MIN_SIZE_def TDX_QUOTE_MIN_SIZE_def SGX_MRENCLAVE_OFFSET_def SGX_MRENCLAVE_SIZE_def
  SGX_MRSIGNER_OFFSET_def SGX_MRSIGNER_SIZE_def SGX_REPORT_DATA_OFFSET_def TDX_MRTD_OFFSET_def
  TDX_MRTD_SIZE_def TDX_RTMR_SIZE_def TDX_RTMR1_OFFSET_def TDX_RTMR2_OFFSET_def
  TDX_REPORT_DATA_OFFSET_def REPORT_DATA_SIZE_def TDX_REPORT_DATA_MIN_SIZE_def

datatype tee_type = Sgx | Tdx

record quote_identity =
  qi_tee :: tee_type
  qi_measurement :: string
  qi_mrsigner :: "string option"
  qi_rtmr1 :: "string option"
  qi_rtmr2 :: "string option"

datatype tee_measurement = Sgx_Measurement bytes | Tdx_Measurement bytes bytes bytes

text \<open>
  An index range of a slice; \<open>None\<close> if it does not lie inside the slice, where the source would panic.
\<close>

definition slice :: "nat \<Rightarrow> nat \<Rightarrow> 'a list \<Rightarrow> 'a list option" where
  "slice from n xs = (if from + n \<le> length xs then Some (take n (drop from xs)) else None)"

datatype quote_fault = Quote_Error string | Out_Of_Range

definition parse_sgx_quote :: "bytes \<Rightarrow> quote_fault + quote_identity" where
  "parse_sgx_quote evidence =
     (if length evidence < SGX_QUOTE_MIN_SIZE then Inl (Quote_Error ''SGX quote too short'')
      else case slice SGX_MRENCLAVE_OFFSET SGX_MRENCLAVE_SIZE evidence of
             None \<Rightarrow> Inl Out_Of_Range
           | Some mrenclave \<Rightarrow>
               (case slice SGX_MRSIGNER_OFFSET SGX_MRSIGNER_SIZE evidence of
                  None \<Rightarrow> Inl Out_Of_Range
                | Some mrsigner \<Rightarrow>
                    Inr \<lparr>qi_tee = Sgx, qi_measurement = quote_hex_encode mrenclave,
                         qi_mrsigner = Some (quote_hex_encode mrsigner), qi_rtmr1 = None, qi_rtmr2 = None\<rparr>))"

definition parse_tdx_quote :: "bytes \<Rightarrow> quote_fault + quote_identity" where
  "parse_tdx_quote evidence =
     (if length evidence < TDX_QUOTE_MIN_SIZE then Inl (Quote_Error ''TDX quote too short'')
      else case slice TDX_MRTD_OFFSET TDX_MRTD_SIZE evidence of
             None \<Rightarrow> Inl Out_Of_Range
           | Some mrtd \<Rightarrow>
               (case slice TDX_RTMR1_OFFSET TDX_RTMR_SIZE evidence of
                  None \<Rightarrow> Inl Out_Of_Range
                | Some rtmr1 \<Rightarrow>
                    (case slice TDX_RTMR2_OFFSET TDX_RTMR_SIZE evidence of
                       None \<Rightarrow> Inl Out_Of_Range
                     | Some rtmr2 \<Rightarrow>
                         Inr \<lparr>qi_tee = Tdx, qi_measurement = quote_hex_encode mrtd, qi_mrsigner = None,
                              qi_rtmr1 = Some (quote_hex_encode rtmr1), qi_rtmr2 = Some (quote_hex_encode rtmr2)\<rparr>)))"

definition quote_version :: "bytes \<Rightarrow> u16" where
  "quote_version evidence = from_le_bytes (take 2 evidence)"

definition parse_quote :: "bytes \<Rightarrow> quote_fault + quote_identity" where
  "parse_quote evidence =
     (if length evidence < 2 then Inl (Quote_Error ''attestation evidence too short'')
      else let version = quote_version evidence in
        if version = 3 then parse_sgx_quote evidence
        else if version = 4 then parse_tdx_quote evidence
        else Inl (Quote_Error ''unsupported quote version''))"

definition extract_report_data :: "bytes \<Rightarrow> quote_fault + bytes" where
  "extract_report_data evidence =
     (if length evidence < 2 then Inl (Quote_Error ''attestation evidence too short'')
      else let version = quote_version evidence;
               offset =
                 (if version = 3 then
                    (if length evidence < SGX_QUOTE_MIN_SIZE then Inl (Quote_Error ''SGX quote too short for report_data'')
                     else Inr SGX_REPORT_DATA_OFFSET)
                  else if version = 4 then
                    (if length evidence < TDX_REPORT_DATA_MIN_SIZE then Inl (Quote_Error ''TDX quote too short for report_data'')
                     else Inr TDX_REPORT_DATA_OFFSET)
                  else Inl (Quote_Error ''unsupported quote version''))
           in case offset of
                Inl e \<Rightarrow> Inl e
              | Inr at \<Rightarrow>
                  (case slice at REPORT_DATA_SIZE evidence of None \<Rightarrow> Inl Out_Of_Range | Some rd \<Rightarrow> Inr rd))"

definition quote_matches :: "quote_identity \<Rightarrow> tee_measurement \<Rightarrow> bool" where
  "quote_matches q m =
     (case (qi_tee q, m) of
        (Sgx, Sgx_Measurement mr) \<Rightarrow> qi_measurement q = quote_hex_encode mr
      | (Tdx, Tdx_Measurement mrtd rtmr1 rtmr2) \<Rightarrow>
          qi_measurement q = quote_hex_encode mrtd \<and> qi_rtmr1 q = Some (quote_hex_encode rtmr1) \<and>
          qi_rtmr2 q = Some (quote_hex_encode rtmr2)
      | _ \<Rightarrow> False)"

section \<open>The codec\<close>

lemma hex_table: "n < 16 \<Longrightarrow> HEX ! n = hex_digit n"
proof -
  have "\<forall>n \<in> set [0..<16]. HEX ! n = hex_digit n" by code_simp
  then show "n < 16 \<Longrightarrow> HEX ! n = hex_digit n" by simp
qed

lemma nibble_digit: "n < 16 \<Longrightarrow> hex_nibble (hex_digit n) = Some (word_of_nat n)"
proof -
  assume n: "n < 16"
  have code: "(of_char (char_of k) :: byte) = word_of_nat k" if "k < 256" for k :: nat
    using that of_nat_of_char [of "char_of k", where ?'a = byte] by simp
  show ?thesis
  proof (cases "n < 10")
    case True
    have "unat (word_of_nat (48 + n) :: byte) = 48 + n" using True by (simp add: unat_of_nat del: of_nat_add)
    then show ?thesis using True code [of "48 + n"] by (simp add: hex_nibble_def hex_digit_def Let_def word_le_nat_alt)
  next
    case False
    have "unat (word_of_nat (87 + n) :: byte) = 87 + n" using n by (simp add: unat_of_nat del: of_nat_add)
    then show ?thesis using n False code [of "87 + n"] by (simp add: hex_nibble_def hex_digit_def Let_def word_le_nat_alt)
  qed
qed

lemma high_nibble: "unat (drop_bit 4 (b :: byte)) = unat b div 16"
  by (simp add: drop_bit_eq_div unat_div)

lemma low_nibble: "unat ((b :: byte) AND 0x0f) = unat b mod 16"
proof -
  have "b AND 0x0f = b mod 16" using take_bit_eq_mask [of 4 b] take_bit_eq_mod [of 4 b] by (simp add: mask_eq_exp_minus_1)
  then show ?thesis by (simp add: unat_mod)
qed

lemma quote_hex_encode_eq: "quote_hex_encode bs = hex_encode bs"
proof -
  have "unat b div 16 < 16" for b :: byte using unat_byte_less [of b] by simp
  then show ?thesis by (simp add: quote_hex_encode_def hex_encode_def high_nibble low_nibble hex_table)
qed

lemma nibbles_join: "push_bit 4 (word_of_nat (unat b div 16)) OR word_of_nat (unat b mod 16) = (b :: byte)"
proof -
  have "word_of_nat (unat b div 16) = drop_bit 4 b" "word_of_nat (unat b mod 16) = take_bit 4 b"
    using take_bit_eq_mod [of 4 b] by (simp_all add: high_nibble [symmetric] word_unat_eq_iff unat_mod unat_of_nat)
  moreover have "push_bit 4 (drop_bit 4 b) OR take_bit 4 b = b"
    by (rule bit_eqI) (auto simp: bit_simps)
  ultimately show ?thesis by simp
qed

lemma length_hex_encode [simp]: "length (hex_encode bs) = 2 * length bs"
  by (induction bs) (simp_all add: hex_encode_def)

lemma hex_pairs_encode: "hex_pairs (hex_encode bs) = Some bs"
proof (induction bs)
  case (Cons b bs)
  have "unat b div 16 < 16" "unat b mod 16 < 16" using unat_byte_less [of b] by simp_all
  then show ?case
    using Cons nibbles_join [of b]
    by (simp add: hex_encode_def high_nibble low_nibble hex_table nibble_digit)
qed (simp add: hex_encode_def)

lemma hex_decode_encode: "hex_decode (hex_encode bs) = Some bs"
  by (simp add: hex_decode_def hex_pairs_encode)

lemma hex_pairs_length: "hex_pairs cs = Some bs \<Longrightarrow> length bs = length cs div 2"
  by (induction cs arbitrary: bs rule: hex_pairs.induct) (auto split: option.splits)

lemma hex_encode_inj: "hex_encode xs = hex_encode ys \<longleftrightarrow> xs = ys"
  using hex_decode_encode by (metis option.inject)

section \<open>The quote parser\<close>

lemma parse_sgx_quote_eq:
  "parse_sgx_quote e =
     (if length e < 436 then Inl (Quote_Error ''SGX quote too short'')
      else Inr \<lparr>qi_tee = Sgx, qi_measurement = hex_encode (take 32 (drop 112 e)),
                qi_mrsigner = Some (hex_encode (take 32 (drop 176 e))), qi_rtmr1 = None, qi_rtmr2 = None\<rparr>)"
  by (simp add: parse_sgx_quote_def slice_def quote_layout quote_hex_encode_eq)

lemma parse_tdx_quote_eq:
  "parse_tdx_quote e =
     (if length e < 584 then Inl (Quote_Error ''TDX quote too short'')
      else Inr \<lparr>qi_tee = Tdx, qi_measurement = hex_encode (take 48 (drop 184 e)), qi_mrsigner = None,
                qi_rtmr1 = Some (hex_encode (take 48 (drop 424 e))), qi_rtmr2 = Some (hex_encode (take 48 (drop 472 e)))\<rparr>)"
  by (simp add: parse_tdx_quote_def slice_def quote_layout quote_hex_encode_eq)

lemma parse_quote_in_range: "parse_quote e \<noteq> Inl Out_Of_Range"
  by (simp add: parse_quote_def parse_sgx_quote_eq parse_tdx_quote_eq Let_def)

lemma extract_report_data_in_range: "extract_report_data e \<noteq> Inl Out_Of_Range"
  by (simp add: extract_report_data_def slice_def quote_layout Let_def)

text \<open>
  A parsed identity matches a pinned measurement exactly when the registers of the quote are the
  pinned bytes, for both kinds of quote.
\<close>

lemma parse_quote_cases:
  assumes "parse_quote e = Inr q"
  obtains "quote_version e = 3" "436 \<le> length e" "parse_sgx_quote e = Inr q"
    | "quote_version e = 4" "584 \<le> length e" "parse_tdx_quote e = Inr q"
  using assms by (auto simp: parse_quote_def parse_sgx_quote_eq parse_tdx_quote_eq Let_def split: if_splits)

lemma parse_quote_matches:
  assumes "parse_quote e = Inr q"
  shows "quote_matches q (Sgx_Measurement m) \<longleftrightarrow> quote_version e = 3 \<and> take 32 (drop 112 e) = m"
    and "quote_matches q (Tdx_Measurement m r1 r2) \<longleftrightarrow> quote_version e = 4 \<and>
      take 48 (drop 184 e) = m \<and> take 48 (drop 424 e) = r1 \<and> take 48 (drop 472 e) = r2"
  using assms
  by (cases rule: parse_quote_cases;
      auto simp: parse_sgx_quote_eq parse_tdx_quote_eq quote_matches_def quote_hex_encode_eq hex_encode_inj)+

end
