(* ===== verification/Vault_Types.thy ===== *)
theory Vault_Types
  imports Hex_Quote
begin

text \<open>
  The schema of the vault: the wire protocol, key policies and persisted records of
  \<open>crates/enclave-os-vault/src/types.rs\<close>, the verified claims of \<open>common/src/oidc.rs\<close>, the fields of the
  request context the vault reads (\<open>common/src/modules.rs\<close>), the grants of \<open>grant.rs\<close> and the answer of
  an attestation server (\<open>crates/enclave-os-egress/src/attestation.rs\<close>). Enumerations that share
  variant names in the source are told apart by a prefix here. The allocation pool a request carries
  is a resource handle without influence on what the vault answers and is left out.
\<close>

section \<open>Constants\<close>

definition MAX_KEY_TTL_SECONDS :: u64 where "MAX_KEY_TTL_SECONDS = 90 * 24 * 60 * 60"
definition DEFAULT_KEY_TTL_SECONDS :: u64 where "DEFAULT_KEY_TTL_SECONDS = 30 * 24 * 60 * 60"
definition MAX_APPROVAL_TOKEN_TTL_SECONDS :: u64 where "MAX_APPROVAL_TOKEN_TTL_SECONDS = 60 * 60"
definition DEFAULT_APPROVAL_TOKEN_TTL_SECONDS :: u64 where "DEFAULT_APPROVAL_TOKEN_TTL_SECONDS = 5 * 60"
definition MAX_PENDING_PROFILES :: nat where "MAX_PENDING_PROFILES = 16"

lemmas vault_limits =
  MAX_KEY_TTL_SECONDS_def DEFAULT_KEY_TTL_SECONDS_def MAX_APPROVAL_TOKEN_TTL_SECONDS_def
  DEFAULT_APPROVAL_TOKEN_TTL_SECONDS_def MAX_PENDING_PROFILES_def

section \<open>Keys, operations and principals\<close>

datatype key_type = RawShare | Aes256GcmKey | P256SigningKey | HmacSha256Key

datatype operation =
  OpExportKey | OpDeleteKey | OpUpdatePolicy | OpWrap | OpUnwrap | OpSign | OpMac | OpPromoteProfile

datatype measurement = Mrenclave string | TdxMeasurement (mrtd: string) (rtmr1: string) (rtmr2: string)

record attestation_server =
  as_url :: string
  as_pinned_spki :: "string option"

record oid_requirement =
  or_oid :: string
  or_value :: string

record attestation_profile =
  ap_name :: string
  ap_measurements :: "measurement list"
  ap_attestation_servers :: "attestation_server list"
  ap_required_oids :: "oid_requirement list"
  ap_acceptable_tcb_statuses :: "string list"

datatype principal =
    Oidc (pr_issuer: string) (pr_sub: string) (pr_required_roles: "string list")
  | Fido2 (pr_rp_id: string) (pr_credential_id: string)
  | TeePrincipal (pr_profile: attestation_profile)

datatype principal_ref = RefOwner | RefManager u32 | RefAuditor u32 | RefTee u32 | RefAnyTee

record principal_set =
  ps_owner :: principal
  ps_managers :: "principal list"
  ps_auditors :: "principal list"
  ps_tees :: "principal list"

section \<open>Policies\<close>

datatype condition =
    AttestationMatches attestation_profile
  | ManagerApproval (mc_manager: u32) (mc_fresh_for: u64)
  | TimeWindow (tw_not_before: u64) (tw_not_after: u64)
  | OidcStepUp (su_required_amr: "string list") (su_operation_bound: bool) (su_fresh_for: u64)

record operation_rule =
  ru_ops :: "operation list"
  ru_principals :: "principal_ref list"
  ru_requires :: "condition list"

record lifecycle =
  lc_ttl_seconds :: u64
  lc_auto_migrate :: bool

datatype policy_field =
  FieldOwner | FieldManagers | FieldAuditors | FieldTees | FieldOperations | FieldLifecycle |
  FieldMutability | FieldPendingProfiles

record mutability =
  mu_owner_can :: "policy_field list"
  mu_manager_can :: "policy_field list"
  mu_immutable :: "policy_field list"

definition lifecycle_default :: lifecycle where
  "lifecycle_default = \<lparr>lc_ttl_seconds = DEFAULT_KEY_TTL_SECONDS, lc_auto_migrate = False\<rparr>"

definition mutability_default :: mutability where
  "mutability_default =
     \<lparr>mu_owner_can = [FieldManagers, FieldAuditors, FieldTees, FieldOperations, FieldLifecycle, FieldPendingProfiles],
      mu_manager_can = [], mu_immutable = [FieldOwner, FieldMutability]\<rparr>"

record key_policy =
  kp_version :: u32
  kp_principals :: principal_set
  kp_operations :: "operation_rule list"
  kp_mutability :: mutability
  kp_lifecycle :: lifecycle

section \<open>Records\<close>

record approval_token =
  at_jwt :: string

record approval_claims =
  ac_iss :: string
  ac_handle :: string
  ac_op :: operation
  ac_manager :: u32
  ac_approver_sub :: string
  ac_iat :: u64
  ac_exp :: u64

datatype pending_profile_source = PlatformBuild | ManualImport

record pending_profile =
  pp_id :: u32
  pp_profile :: attestation_profile
  pp_source :: pending_profile_source
  pp_staged_at :: u64
  pp_staged_by_sub :: string
  pp_staged_by_platform :: bool

datatype audit_decision = Allowed | Denied

record audit_entry =
  ae_seq :: u64
  ae_ts :: u64
  ae_op :: string
  ae_caller :: string
  ae_decision :: audit_decision
  ae_reason :: string

record key_record =
  kr_handle :: string
  kr_key_type :: key_type
  kr_exportable :: bool
  kr_material :: bytes
  kr_public_key :: "bytes option"
  kr_policy :: key_policy
  kr_policy_version :: u32
  kr_created_at :: u64
  kr_expires_at :: u64
  kr_pending_profiles :: "pending_profile list"
  kr_audit_next_seq :: u64
  kr_next_pending_id :: u32

record key_info =
  ki_handle :: string
  ki_key_type :: key_type
  ki_exportable :: bool
  ki_created_at :: u64
  ki_expires_at :: u64
  ki_policy_version :: u32
  ki_public_key :: "bytes option"

record key_list_entry =
  kl_handle :: string
  kl_key_type :: key_type
  kl_expires_at :: u64

section \<open>Requests and responses\<close>

datatype vault_request =
    ReqCreateKey string string string
  | ReqExportKey string "approval_token list"
  | ReqDeleteKey string "approval_token list"
  | ReqUpdatePolicy string key_policy "approval_token list"
  | ReqGetPolicy string
  | ReqGetKeyInfo string
  | ReqListKeys
  | ReqWrap string string "string option" "string option" "approval_token list"
  | ReqUnwrap string string string "string option" "approval_token list"
  | ReqSign string string bool "approval_token list"
  | ReqMac string string "approval_token list"
  | ReqIssueApprovalToken string operation u64
  | ReqReadAuditLog string u64 u32
  | ReqStagePendingProfile string attestation_profile pending_profile_source
  | ReqListPendingProfiles string
  | ReqPromotePendingProfile string u32 "approval_token list"
  | ReqRevokePendingProfile string u32

datatype vault_response =
    KeyCreated string u64
  | KeyMaterial bytes u64
  | KeyDeleted
  | PolicyUpdated u32
  | Policy key_policy u32
  | KeyInfo key_info
  | KeyList "key_list_entry list"
  | Wrapped bytes bytes
  | Unwrapped bytes
  | Signature bytes string
  | MacTag bytes string
  | ApprovalTokenIssued approval_token
  | AuditLog "audit_entry list" u64
  | PendingProfileStaged u32 bool u32
  | PendingProfileList "pending_profile list"
  | PendingProfilePromoted u32
  | PendingProfileRevoked
  | VaultError string

text \<open>The key a request is about, if it names one.\<close>

fun req_handle :: "vault_request \<Rightarrow> string option" where
  "req_handle (ReqCreateKey h _ _) = Some h"
| "req_handle (ReqExportKey h _) = Some h"
| "req_handle (ReqDeleteKey h _) = Some h"
| "req_handle (ReqUpdatePolicy h _ _) = Some h"
| "req_handle (ReqGetPolicy h) = Some h"
| "req_handle (ReqGetKeyInfo h) = Some h"
| "req_handle ReqListKeys = None"
| "req_handle (ReqWrap h _ _ _ _) = Some h"
| "req_handle (ReqUnwrap h _ _ _ _) = Some h"
| "req_handle (ReqSign h _ _ _) = Some h"
| "req_handle (ReqMac h _ _) = Some h"
| "req_handle (ReqIssueApprovalToken h _ _) = Some h"
| "req_handle (ReqReadAuditLog h _ _) = Some h"
| "req_handle (ReqStagePendingProfile h _ _) = Some h"
| "req_handle (ReqListPendingProfiles h) = Some h"
| "req_handle (ReqPromotePendingProfile h _ _) = Some h"
| "req_handle (ReqRevokePendingProfile h _) = Some h"

section \<open>Callers\<close>

record oidc_claims =
  oc_sub :: string
  oc_roles :: "string list"
  oc_is_manager :: bool
  oc_is_monitoring :: bool
  oc_amr :: "string list"
  oc_acr :: "string option"
  oc_iat :: u64
  oc_exp :: u64
  oc_vault_op :: "string option"
  oc_nonce :: "string option"

record oidc_config =
  cf_issuer :: string
  cf_audience :: string
  cf_jwks_uri :: string
  cf_role_claim :: string
  cf_manager_role :: string
  cf_monitoring_role :: string

definition claims_from_raw :: "string \<Rightarrow> string list \<Rightarrow> oidc_config \<Rightarrow> oidc_claims" where
  "claims_from_raw sub roles config =
     (let is_manager = list_ex (\<lambda>r. r = cf_manager_role config) roles;
          is_monitoring = is_manager \<or> list_ex (\<lambda>r. r = cf_monitoring_role config) roles
      in \<lparr>oc_sub = sub, oc_roles = roles, oc_is_manager = is_manager, oc_is_monitoring = is_monitoring,
          oc_amr = [], oc_acr = None, oc_iat = 0, oc_exp = 0, oc_vault_op = None, oc_nonce = None\<rparr>)"

definition with_step_up :: "oidc_claims \<Rightarrow> string list \<Rightarrow> string option \<Rightarrow> u64 \<Rightarrow> oidc_claims" where
  "with_step_up c amr acr iat = c\<lparr>oc_amr := amr, oc_acr := acr, oc_iat := iat\<rparr>"

record peer_evidence =
  pe_tee :: string
  pe_quote :: bytes
  pe_gpu_evidence :: "bytes option"
  pe_quote_time :: string
  pe_context :: "bytes option"
  pe_hctx :: "bytes option"

record request_context =
  rc_oidc_claims :: "oidc_claims option"
  rc_peer_cert_der :: "bytes option"
  rc_peer_evidence :: "peer_evidence option"

text \<open>What \<open>dissect_peer_cert\<close> finds.\<close>

record tee_evidence =
  te_evidence :: bytes
  te_oid_claims :: "(string \<times> string) list"
  te_pubkey_raw :: bytes

record key_creation_grant =
  kg_iss :: string
  kg_aud :: string
  kg_sub :: string
  kg_scope :: string
  kg_key_type :: key_type
  kg_exportable :: bool
  kg_policy :: key_policy
  kg_exp :: u64
  kg_cnf :: "string option"

record verify_response =
  vr_success :: bool
  vr_status :: string
  vr_tee_type :: string
  vr_mrenclave :: string
  vr_mrsigner :: string
  vr_tcb_status :: string
  vr_error :: string

section \<open>Text\<close>

text \<open>ASCII case, as \<open>make_ascii_lowercase\<close> and \<open>eq_ignore_ascii_case\<close> treat it.\<close>

definition ascii_lower_char :: "char \<Rightarrow> char" where
  "ascii_lower_char c = (let n = (of_char c :: nat) in if 65 \<le> n \<and> n \<le> 90 then char_of (n + 32) else c)"

definition make_ascii_lowercase :: "string \<Rightarrow> string" where
  "make_ascii_lowercase s = map ascii_lower_char s"

definition eq_ignore_ascii_case :: "string \<Rightarrow> string \<Rightarrow> bool" where
  "eq_ignore_ascii_case a b \<longleftrightarrow> make_ascii_lowercase a = make_ascii_lowercase b"

definition is_ascii :: "string \<Rightarrow> bool" where
  "is_ascii s = list_all (\<lambda>c. (of_char c :: nat) < 128) s"

definition has_amr :: "oidc_claims \<Rightarrow> string list \<Rightarrow> bool" where
  "has_amr claims required = list_all (\<lambda>r. list_ex (\<lambda>m. eq_ignore_ascii_case m r) (oc_amr claims)) required"

text \<open>Bytes read as text; the inverse of \<open>as_bytes\<close>.\<close>

definition bytes_str :: "bytes \<Rightarrow> string" where
  "bytes_str bs = map (\<lambda>b. char_of (unat b)) bs"

lemma unat_of_char: "unat (of_char c :: byte) = of_char c"
  using of_nat_of_char [of c, where ?'a = byte] unat_of_nat [of "of_char c", where ?'a = 8] by simp

lemma bytes_str_bytes [simp]: "bytes_str (str_bytes s) = s"
  by (induction s) (simp_all add: bytes_str_def str_bytes_def unat_of_char)

text \<open>Decimal digits, as the formatter prints an unsigned integer, and zero-padded to twenty places.\<close>

fun show_nat :: "nat \<Rightarrow> string" where
  "show_nat n = (if n < 10 then [char_of (48 + n)] else show_nat (n div 10) @ [char_of (48 + n mod 10)])"

declare show_nat.simps [simp del]

definition show_word :: "'a::len word \<Rightarrow> string" where
  "show_word w = show_nat (unat w)"

definition pad20 :: "string \<Rightarrow> string" where
  "pad20 s = replicate (20 - length s) (CHR ''0'') @ s"

definition saturating_add :: "'a::len word \<Rightarrow> 'a word \<Rightarrow> 'a word" where
  "saturating_add a b = (case checked_add a b of Some c \<Rightarrow> c | None \<Rightarrow> - 1)"

end
