(* ===== verification/Sealed_Kv.thy ===== *)
theory Sealed_Kv
  imports Aead_Cipher Kv_Backend
begin

text \<open>
  The sealed key-value store of \<open>crates/enclave-os-kvstore/src/sealed.rs\<close>: keys are replaced by
  their HMAC, values are AEAD records, and both go to a table of the host. The locale \<open>kv_map\<close> is the
  contract a client of the store relies on, on a set of keys; the locale \<open>host_map\<close> is what a host
  that works promises. A sealed store over such a host meets the contract on every set of keys whose
  HMACs do not collide.
\<close>

section \<open>The contract\<close>

text \<open>
  An operation that reports an error may or may not have taken effect: the host's answer can be lost
  after the write.
\<close>

locale kv_map =
  fixes keys :: "bytes set"
    and get :: "bytes \<Rightarrow> 'w \<Rightarrow> (string + bytes option) \<times> 'w"
    and put :: "bytes \<Rightarrow> bytes \<Rightarrow> 'w \<Rightarrow> (string + unit) \<times> 'w"
    and del :: "bytes \<Rightarrow> 'w \<Rightarrow> (string + bool) \<times> 'w"
    and inv :: "'w \<Rightarrow> bool" and view :: "'w \<Rightarrow> bytes \<rightharpoonup> bytes"
  assumes get_law: "inv w \<Longrightarrow> k \<in> keys \<Longrightarrow> get k w = (r, w') \<Longrightarrow>
      inv w' \<and> view w' |` keys = view w |` keys \<and> (\<forall>x. r = Inr x \<longrightarrow> x = view w k)"
    and put_law: "inv w \<Longrightarrow> k \<in> keys \<Longrightarrow> put k v w = (r', w') \<Longrightarrow>
      inv w' \<and> (view w' |` keys = (view w)(k \<mapsto> v) |` keys \<or> (\<exists>e. r' = Inl e) \<and> view w' |` keys = view w |` keys)"
    and del_law: "inv w \<Longrightarrow> k \<in> keys \<Longrightarrow> del k w = (r'', w') \<Longrightarrow>
      inv w' \<and> (view w' |` keys = (view w)(k := None) |` keys \<or> (\<exists>e. r'' = Inl e) \<and> view w' |` keys = view w |` keys)"
begin

lemma get_after_put:
  assumes "inv w" "k \<in> keys" "k' \<in> keys" "put k v w = (Inr (), w')" "get k' w' = (Inr x, w'')"
  shows "x = (if k' = k then Some v else view w k')"
proof -
  have "inv w'" "view w' |` keys = (view w)(k \<mapsto> v) |` keys" using put_law [OF assms(1,2,4)] by auto
  then show ?thesis
    using get_law [OF _ assms(3,5)] assms(3) by (metis fun_upd_apply restrict_in)
qed

lemma get_after_delete:
  assumes "inv w" "k \<in> keys" "k' \<in> keys" "del k w = (Inr b, w')" "get k' w' = (Inr x, w'')"
  shows "x = (if k' = k then None else view w k')"
proof -
  have "inv w'" "view w' |` keys = (view w)(k := None) |` keys" using del_law [OF assms(1,2,4)] by auto
  then show ?thesis
    using get_law [OF _ assms(3,5)] assms(3) by (metis fun_upd_apply restrict_in)
qed

end

section \<open>The sealed store\<close>

text \<open>The calls into the host: table, key, value.\<close>

record 'h host_kv =
  hk_put :: "bytes \<Rightarrow> bytes \<Rightarrow> bytes \<Rightarrow> 'h \<Rightarrow> (string + unit) \<times> 'h"
  hk_get :: "bytes \<Rightarrow> bytes \<Rightarrow> 'h \<Rightarrow> (string + bytes option) \<times> 'h"
  hk_delete :: "bytes \<Rightarrow> bytes \<Rightarrow> 'h \<Rightarrow> (string + bool) \<times> 'h"

definition AAD_VALUE :: bytes where
  "AAD_VALUE = str_bytes ''enclave_os_kv_val''"

definition KVSTORE_TABLE :: bytes where
  "KVSTORE_TABLE = str_bytes ''kvstore''"

text \<open>The store, with the host's state and the number of random draws made so far.\<close>

record 'h sealed_kv =
  sk_cipher :: bytes
  sk_table :: bytes
  sk_host :: 'h
  sk_draws :: nat

definition from_master_key :: "bytes \<Rightarrow> 'h \<Rightarrow> nat \<Rightarrow> 'h sealed_kv" where
  "from_master_key key host draws = \<lparr>sk_cipher = key, sk_table = KVSTORE_TABLE, sk_host = host, sk_draws = draws\<rparr>"

definition from_master_key_with_table :: "bytes \<Rightarrow> bytes \<Rightarrow> 'h \<Rightarrow> nat \<Rightarrow> 'h sealed_kv" where
  "from_master_key_with_table key table host draws = \<lparr>sk_cipher = key, sk_table = table, sk_host = host, sk_draws = draws\<rparr>"

definition encrypt_key :: "crypto \<Rightarrow> 'h sealed_kv \<Rightarrow> bytes \<Rightarrow> bytes" where
  "encrypt_key cr s key = hmac_sha256 cr (sk_cipher s) key"

definition sealed_put :: "crypto \<Rightarrow> 'h host_kv \<Rightarrow> bytes \<Rightarrow> bytes \<Rightarrow> 'h sealed_kv \<Rightarrow> (string + unit) \<times> 'h sealed_kv" where
  "sealed_put cr hk key val s =
     (let enc_key = encrypt_key cr s key in
      case aead_encrypt cr (sk_cipher s) val AAD_VALUE (sk_draws s) of
        (Inl _, d) \<Rightarrow> (Inl ''Value encryption failed'', s\<lparr>sk_draws := d\<rparr>)
      | (Inr enc_val, d) \<Rightarrow>
          (case hk_put hk (sk_table s) enc_key enc_val (sk_host s) of
             (Inl _, h) \<Rightarrow> (Inl ''Host KV put failed'', s\<lparr>sk_draws := d, sk_host := h\<rparr>)
           | (Inr _, h) \<Rightarrow> (Inr (), s\<lparr>sk_draws := d, sk_host := h\<rparr>)))"

definition sealed_get :: "crypto \<Rightarrow> 'h host_kv \<Rightarrow> bytes \<Rightarrow> 'h sealed_kv \<Rightarrow> (string + bytes option) \<times> 'h sealed_kv" where
  "sealed_get cr hk key s =
     (case hk_get hk (sk_table s) (encrypt_key cr s key) (sk_host s) of
        (Inl _, h) \<Rightarrow> (Inl ''Host KV get failed'', s\<lparr>sk_host := h\<rparr>)
      | (Inr None, h) \<Rightarrow> (Inr None, s\<lparr>sk_host := h\<rparr>)
      | (Inr (Some enc_val), h) \<Rightarrow>
          (case aead_decrypt cr (sk_cipher s) enc_val AAD_VALUE of
             Inl _ \<Rightarrow> (Inl ''Value decryption failed'', s\<lparr>sk_host := h\<rparr>)
           | Inr plaintext \<Rightarrow> (Inr (Some plaintext), s\<lparr>sk_host := h\<rparr>)))"

definition sealed_delete :: "crypto \<Rightarrow> 'h host_kv \<Rightarrow> bytes \<Rightarrow> 'h sealed_kv \<Rightarrow> (string + bool) \<times> 'h sealed_kv" where
  "sealed_delete cr hk key s =
     (case hk_delete hk (sk_table s) (encrypt_key cr s key) (sk_host s) of
        (Inl _, h) \<Rightarrow> (Inl ''Host KV delete failed'', s\<lparr>sk_host := h\<rparr>)
      | (Inr existed, h) \<Rightarrow> (Inr existed, s\<lparr>sk_host := h\<rparr>))"

section \<open>A working host\<close>

locale host_map =
  fixes hk :: "'h host_kv" and hinv :: "'h \<Rightarrow> bool" and hview :: "'h \<Rightarrow> bytes \<Rightarrow> bytes \<rightharpoonup> bytes"
  assumes host_get: "hinv h \<Longrightarrow> hk_get hk t k h = (r, h') \<Longrightarrow> hinv h' \<and> hview h' = hview h \<and> (\<forall>x. r = Inr x \<longrightarrow> x = hview h t k)"
    and host_put: "hinv h \<Longrightarrow> hk_put hk t k v h = (r', h') \<Longrightarrow>
      hinv h' \<and> (hview h' t = (hview h t)(k \<mapsto> v) \<or> (\<exists>e. r' = Inl e) \<and> hview h' t = hview h t)"
    and host_delete: "hinv h \<Longrightarrow> hk_delete hk t k h = (r'', h') \<Longrightarrow>
      hinv h' \<and> (hview h' t = (hview h t)(k := None) \<or> (\<exists>e. r'' = Inl e) \<and> hview h' t = hview h t)"

locale sealed_host = host_map +
  fixes cr :: crypto and cipher :: bytes and keys :: "bytes set"
  assumes opens: "aead_encrypt cr cipher v AAD_VALUE d = (Inr ct, d') \<Longrightarrow> aead_decrypt cr cipher ct AAD_VALUE = Inr v"
    and no_collision: "inj_on (hmac_sha256 cr cipher) keys"

text \<open>What the store holds for a plain key: the decryption of what the host has under its HMAC.\<close>

definition open_value :: "crypto \<Rightarrow> bytes \<Rightarrow> bytes \<Rightarrow> bytes option" where
  "open_value cr cipher ct = (case aead_decrypt cr cipher ct AAD_VALUE of Inl _ \<Rightarrow> None | Inr pt \<Rightarrow> Some pt)"

definition sealed_view :: "crypto \<Rightarrow> ('h \<Rightarrow> bytes \<Rightarrow> bytes \<rightharpoonup> bytes) \<Rightarrow> 'h sealed_kv \<Rightarrow> bytes \<rightharpoonup> bytes" where
  "sealed_view cr hview s k =
     Option.bind (hview (sk_host s) (sk_table s) (encrypt_key cr s k)) (open_value cr (sk_cipher s))"

lemma encrypt_key_sel [simp]:
  "encrypt_key cr (s\<lparr>sk_draws := d\<rparr>) = encrypt_key cr s"
  "encrypt_key cr (s\<lparr>sk_host := h\<rparr>) = encrypt_key cr s"
  by (simp_all add: encrypt_key_def fun_eq_iff)

lemma sealed_view_sel [simp]: "sealed_view cr hview (s\<lparr>sk_draws := d\<rparr>) = sealed_view cr hview s"
  by (simp add: sealed_view_def fun_eq_iff)

lemma sealed_view_same: "hview h (sk_table s) = hview (sk_host s) (sk_table s) \<Longrightarrow> sealed_view cr hview (s\<lparr>sk_host := h\<rparr>) = sealed_view cr hview s"
  by (simp add: sealed_view_def fun_eq_iff)

lemma sealed_view_update:
  assumes "inj_on (hmac_sha256 cr (sk_cipher s)) keys" "k \<in> keys"
    and "hview h (sk_table s) = (hview (sk_host s) (sk_table s))(encrypt_key cr s k := val)"
  shows "sealed_view cr hview (s\<lparr>sk_host := h\<rparr>) |` keys =
    (sealed_view cr hview s)(k := Option.bind val (open_value cr (sk_cipher s))) |` keys"
proof
  fix k'
  have "encrypt_key cr s k' = encrypt_key cr s k \<longleftrightarrow> k' = k" if "k' \<in> keys"
    using assms(1,2) that by (simp add: encrypt_key_def inj_on_eq_iff)
  then show "(sealed_view cr hview (s\<lparr>sk_host := h\<rparr>) |` keys) k' =
    ((sealed_view cr hview s)(k := Option.bind val (open_value cr (sk_cipher s))) |` keys) k'"
    using assms(3) by (simp add: restrict_map_def sealed_view_def)
qed

definition sealed_inv :: "('h \<Rightarrow> bool) \<Rightarrow> bytes \<Rightarrow> 'h sealed_kv \<Rightarrow> bool" where
  "sealed_inv hinv cipher s \<longleftrightarrow> hinv (sk_host s) \<and> sk_cipher s = cipher"


context sealed_host
begin

lemma sealed_get_law:
  assumes "sealed_inv hinv cipher s" "sealed_get cr hk k s = (r, s')"
  shows "sealed_inv hinv cipher s' \<and> sealed_view cr hview s' = sealed_view cr hview s \<and> (\<forall>x. r = Inr x \<longrightarrow> x = sealed_view cr hview s k)"
proof -
  obtain y h where y: "hk_get hk (sk_table s) (encrypt_key cr s k) (sk_host s) = (y, h)" by fastforce
  have h: "hinv h" "hview h = hview (sk_host s)" "\<forall>x. y = Inr x \<longrightarrow> x = hview (sk_host s) (sk_table s) (encrypt_key cr s k)"
    using host_get [OF _ y] assms(1) by (simp_all add: sealed_inv_def)
  have s': "s' = s\<lparr>sk_host := h\<rparr>" using assms(2) by (auto simp: sealed_get_def y split: sum.splits option.splits)
  moreover have "\<forall>x. r = Inr x \<longrightarrow> x = sealed_view cr hview s k"
    using assms(2) h(3) by (auto simp: sealed_get_def y sealed_view_def open_value_def split: sum.splits option.splits)
  ultimately show ?thesis using h assms(1) sealed_view_same [of hview h s cr] by (simp add: sealed_inv_def)
qed

lemma sealed_put_law:
  assumes "sealed_inv hinv cipher s" "k \<in> keys" "sealed_put cr hk k v s = (r, s')"
  shows "sealed_inv hinv cipher s' \<and>
    (sealed_view cr hview s' |` keys = (sealed_view cr hview s)(k \<mapsto> v) |` keys \<or>
     (\<exists>e. r = Inl e) \<and> sealed_view cr hview s' |` keys = sealed_view cr hview s |` keys)"
proof -
  have inj: "inj_on (hmac_sha256 cr (sk_cipher s)) keys" and hi: "hinv (sk_host s)"
    using no_collision assms(1) by (auto simp: sealed_inv_def)
  obtain x d where x: "aead_encrypt cr (sk_cipher s) v AAD_VALUE (sk_draws s) = (x, d)" by fastforce
  show ?thesis
  proof (cases x)
    case (Inl e)
    then have "r = Inl ''Value encryption failed''" "s' = s\<lparr>sk_draws := d\<rparr>" using assms(3) by (auto simp: sealed_put_def x Let_def)
    then show ?thesis using assms(1) by (simp add: sealed_inv_def)
  next
    case (Inr ct)
    have dec: "aead_decrypt cr (sk_cipher s) ct AAD_VALUE = Inr v" using opens x Inr assms(1) by (auto simp: sealed_inv_def)
    obtain y h where y: "hk_put hk (sk_table s) (encrypt_key cr s k) ct (sk_host s) = (y, h)" by fastforce
    have s': "s' = s\<lparr>sk_draws := d, sk_host := h\<rparr>" and r: "\<And>e. y = Inl e \<Longrightarrow> \<exists>e. r = Inl e"
      using assms(3) by (auto simp: sealed_put_def x Inr y Let_def split: sum.splits)
    have sh: "s' = s\<lparr>sk_host := h\<rparr>\<lparr>sk_draws := d\<rparr>" using s' by simp
    have view: "sealed_view cr hview s' = sealed_view cr hview (s\<lparr>sk_host := h\<rparr>)" unfolding sh by (rule sealed_view_sel)
    from host_put [OF hi y] show ?thesis
    proof (elim conjE disjE exE)
      assume "hinv h" and up: "hview h (sk_table s) = (hview (sk_host s) (sk_table s))(encrypt_key cr s k \<mapsto> ct)"
      then show ?thesis
        using sealed_view_update [where hview = hview, OF inj assms(2) up] assms(1) s' view by (simp add: sealed_inv_def open_value_def dec)
    next
      fix e assume "hinv h" "y = Inl e" and same: "hview h (sk_table s) = hview (sk_host s) (sk_table s)"
      then show ?thesis
        using sealed_view_same [where hview = hview, OF same] r assms(1) s' view by (simp add: sealed_inv_def)
    qed
  qed
qed

lemma sealed_delete_law:
  assumes "sealed_inv hinv cipher s" "k \<in> keys" "sealed_delete cr hk k s = (r, s')"
  shows "sealed_inv hinv cipher s' \<and>
    (sealed_view cr hview s' |` keys = (sealed_view cr hview s)(k := None) |` keys \<or>
     (\<exists>e. r = Inl e) \<and> sealed_view cr hview s' |` keys = sealed_view cr hview s |` keys)"
proof -
  have inj: "inj_on (hmac_sha256 cr (sk_cipher s)) keys" and hi: "hinv (sk_host s)"
    using no_collision assms(1) by (auto simp: sealed_inv_def)
  obtain y h where y: "hk_delete hk (sk_table s) (encrypt_key cr s k) (sk_host s) = (y, h)" by fastforce
  have s': "s' = s\<lparr>sk_host := h\<rparr>" and r: "\<And>e. y = Inl e \<Longrightarrow> \<exists>e. r = Inl e"
    using assms(3) by (auto simp: sealed_delete_def y split: sum.splits)
  from host_delete [OF hi y] show ?thesis
  proof (elim conjE disjE exE)
    assume "hinv h" and up: "hview h (sk_table s) = (hview (sk_host s) (sk_table s))(encrypt_key cr s k := None)"
    then show ?thesis
      using sealed_view_update [where hview = hview, OF inj assms(2) up] assms(1) s' by (simp add: sealed_inv_def)
  next
    fix e assume "hinv h" "y = Inl e" and same: "hview h (sk_table s) = hview (sk_host s) (sk_table s)"
    then show ?thesis
      using sealed_view_same [where hview = hview, OF same] r assms(1) s' by (simp add: sealed_inv_def)
  qed
qed

end

sublocale sealed_host \<subseteq> kv_map keys "sealed_get cr hk" "sealed_put cr hk" "sealed_delete cr hk" "sealed_inv hinv cipher" "sealed_view cr hview"
proof (unfold_locales, goal_cases)
  case (1 w k r w')
  then show ?case using sealed_get_law [of w k r w'] by simp
next
  case (2 w k v r w')
  then show ?case by (rule sealed_put_law)
next
  case (3 w k r w')
  then show ?case by (rule sealed_delete_law)
qed

context sealed_host
begin

lemma is_kv_map: "kv_map keys (sealed_get cr hk) (sealed_put cr hk) (sealed_delete cr hk) (sealed_inv hinv cipher) (sealed_view cr hview)"
  by unfold_locales

end

section \<open>The memory backend as a host\<close>

definition mem_host :: "mem_backend host_kv" where
  "mem_host =
     \<lparr>hk_put = (\<lambda>t k v b. (Inr (), snd (mem_write_batch b [Put k v]))),
      hk_get = (\<lambda>t k b. case mem_get b k of (Inl _, b') \<Rightarrow> (Inl ''get'', b') | (Inr v, b') \<Rightarrow> (Inr v, b')),
      hk_delete = (\<lambda>t k b. (Inr (mem_abs b k \<noteq> None), snd (mem_write_batch b [Delete k])))\<rparr>"

interpretation mem_kv: host_map mem_host mem_inv "\<lambda>b t. mem_abs b"
proof
  fix h :: mem_backend and t k r h'
  assume "mem_inv h" "hk_get mem_host t k h = (r, h')"
  then show "mem_inv h' \<and> (\<lambda>t. mem_abs h') = (\<lambda>t. mem_abs h) \<and> (\<forall>x. r = Inr x \<longrightarrow> x = mem_abs h k)"
    by (auto simp: mem_host_def mem_get_def mem_inv_def mem_abs_def)
next
  fix h :: mem_backend and t k v r' h'
  assume "mem_inv h" "hk_put mem_host t k v h = (r', h')"
  then show "mem_inv h' \<and> (mem_abs h' = (mem_abs h)(k \<mapsto> v) \<or> (\<exists>e. r' = Inl e) \<and> mem_abs h' = mem_abs h)"
    by (auto simp: mem_host_def mem_write_batch_def mem_inv_def mem_abs_def fun_eq_iff bt_insert_inv bt_get_insert bt_remove_inv bt_get_remove)
next
  fix h :: mem_backend and t k r'' h'
  assume "mem_inv h" "hk_delete mem_host t k h = (r'', h')"
  then show "mem_inv h' \<and> (mem_abs h' = (mem_abs h)(k := None) \<or> (\<exists>e. r'' = Inl e) \<and> mem_abs h' = mem_abs h)"
    by (auto simp: mem_host_def mem_write_batch_def mem_inv_def mem_abs_def fun_eq_iff bt_insert_inv bt_get_insert bt_remove_inv bt_get_remove)
qed

interpretation mem_sealed: sealed_host mem_host mem_inv "\<lambda>b t. mem_abs b" toy_crypto "replicate 32 7" "{k. length k = 32}"
  by unfold_locales (erule aead_decrypt_encrypt [OF toy_crypto_ok], auto simp: inj_on_def toy_crypto_def)


section \<open>A sequence of operations\<close>

datatype kv_cmd = Kv_Get bytes | Kv_Put bytes bytes | Kv_Delete bytes

primrec cmd_key :: "kv_cmd \<Rightarrow> bytes" where
  "cmd_key (Kv_Get k) = k"
| "cmd_key (Kv_Put k v) = k"
| "cmd_key (Kv_Delete k) = k"

text \<open>Runs the commands until one fails; the answers of the reads.\<close>

fun sealed_exec :: "crypto \<Rightarrow> 'h host_kv \<Rightarrow> kv_cmd list \<Rightarrow> 'h sealed_kv \<Rightarrow> (string + bytes option list) \<times> 'h sealed_kv" where
  "sealed_exec cr hk [] s = (Inr [], s)"
| "sealed_exec cr hk (Kv_Get k # cs) s =
     (case sealed_get cr hk k s of (Inl e, s') \<Rightarrow> (Inl e, s')
      | (Inr x, s') \<Rightarrow> (case sealed_exec cr hk cs s' of (Inl e, s'') \<Rightarrow> (Inl e, s'') | (Inr xs, s'') \<Rightarrow> (Inr (x # xs), s'')))"
| "sealed_exec cr hk (Kv_Put k v # cs) s =
     (case sealed_put cr hk k v s of (Inl e, s') \<Rightarrow> (Inl e, s') | (Inr _, s') \<Rightarrow> sealed_exec cr hk cs s')"
| "sealed_exec cr hk (Kv_Delete k # cs) s =
     (case sealed_delete cr hk k s of (Inl e, s') \<Rightarrow> (Inl e, s') | (Inr _, s') \<Rightarrow> sealed_exec cr hk cs s')"

text \<open>The same commands on a finite map.\<close>

fun map_exec :: "kv_cmd list \<Rightarrow> (bytes \<rightharpoonup> bytes) \<Rightarrow> bytes option list" where
  "map_exec [] m = []"
| "map_exec (Kv_Get k # cs) m = m k # map_exec cs m"
| "map_exec (Kv_Put k v # cs) m = map_exec cs (m(k \<mapsto> v))"
| "map_exec (Kv_Delete k # cs) m = map_exec cs (m(k := None))"

lemma restrict_update: "m |` K = m' |` K \<Longrightarrow> (m(k := v)) |` K = (m'(k := v)) |` K"
  by (rule ext) (metis fun_upd_apply restrict_map_def)

lemma map_exec_restrict:
  "cmd_key ` set cs \<subseteq> keys \<Longrightarrow> m |` keys = m' |` keys \<Longrightarrow> map_exec cs m = map_exec cs m'"
proof (induction cs m arbitrary: m' rule: map_exec.induct)
  case (2 k cs m)
  have "m k = m' k" using fun_cong [OF 2(3), of k] 2(2) by simp
  then show ?case using 2 by simp
next
  case (3 k v cs m)
  show ?case using 3(1) [OF _ restrict_update [OF 3(3)]] 3(2) by (simp add: fun_upd_def)
next
  case (4 k cs m)
  show ?case using 4(1) [OF _ restrict_update [OF 4(3)]] 4(2) by (simp add: fun_upd_def)
qed simp

context sealed_host
begin

lemma exec_refines:
  assumes "sealed_inv hinv cipher s" "cmd_key ` set cs \<subseteq> keys" "sealed_exec cr hk cs s = (Inr xs, s')"
  shows "xs = map_exec cs (sealed_view cr hview s)"
  using assms
proof (induction cs arbitrary: s xs)
  case (Cons c cs)
  have k: "cmd_key c \<in> keys" "cmd_key ` set cs \<subseteq> keys" using Cons.prems by auto
  show ?case
  proof (cases c)
    case (Kv_Get key)
    obtain y s1 ys where y: "sealed_get cr hk key s = (Inr y, s1)" "sealed_exec cr hk cs s1 = (Inr ys, s')" "xs = y # ys"
      using Cons.prems(3) by (auto simp: Kv_Get split: prod.splits sum.splits)
    from sealed_get_law [OF Cons.prems(1) y(1)] Cons.IH [OF _ k(2) y(2)] show ?thesis by (simp add: Kv_Get y(3))
  next
    case (Kv_Put key v)
    obtain y s1 where y: "sealed_put cr hk key v s = (Inr y, s1)" "sealed_exec cr hk cs s1 = (Inr xs, s')"
      using Cons.prems(3) by (auto simp: Kv_Put split: prod.splits sum.splits)
    have "sealed_inv hinv cipher s1" "sealed_view cr hview s1 |` keys = (sealed_view cr hview s)(key \<mapsto> v) |` keys"
      using sealed_put_law [OF Cons.prems(1) _ y(1)] k(1) by (auto simp: Kv_Put)
    then show ?thesis using Cons.IH [OF _ k(2) y(2)] map_exec_restrict [OF k(2)] by (simp add: Kv_Put)
  next
    case (Kv_Delete key)
    obtain y s1 where y: "sealed_delete cr hk key s = (Inr y, s1)" "sealed_exec cr hk cs s1 = (Inr xs, s')"
      using Cons.prems(3) by (auto simp: Kv_Delete split: prod.splits sum.splits)
    have "sealed_inv hinv cipher s1" "sealed_view cr hview s1 |` keys = (sealed_view cr hview s)(key := None) |` keys"
      using sealed_delete_law [OF Cons.prems(1) _ y(1)] k(1) by (auto simp: Kv_Delete)
    then show ?thesis using Cons.IH [OF _ k(2) y(2)] map_exec_restrict [OF k(2)] by (simp add: Kv_Delete)
  qed
qed simp

end

text \<open>
  C17 (sealed store refines a map): on a host whose table works and keys whose HMACs do not collide, a
  sequence of puts, gets and deletes on a sealed store answers what the same sequence answers on a
  finite map, whatever was stored before.
\<close>

theorem sealed_store_refines_map:
  assumes "host_map hk hinv hview" "hinv (sk_host s)" "crypto_ok cr"
    and "inj_on (hmac_sha256 cr (sk_cipher s)) (cmd_key ` set cs)"
    and "sealed_exec cr hk cs s = (Inr xs, s')"
  shows "xs = map_exec cs (sealed_view cr hview s)"
proof -
  have "sealed_host hk hinv hview cr (sk_cipher s) (cmd_key ` set cs)"
    using assms aead_decrypt_encrypt [OF assms(3)] by (auto simp: sealed_host_def sealed_host_axioms_def)
  from sealed_host.exec_refines [OF this _ _ assms(5)] show ?thesis using assms(2) by (simp add: sealed_inv_def)
qed

definition demo_cmds :: "kv_cmd list" where
  "demo_cmds = [Kv_Put [1] [10], Kv_Put [2] [20], Kv_Put [1] [11], Kv_Delete [2], Kv_Get [1], Kv_Get [2]]"

lemmas demo_evals = sealed_get_def sealed_put_def sealed_delete_def mem_host_def mem_get_def mem_write_batch_def
  encrypt_key_def aead_encrypt_def aead_decrypt_def toy_crypto_def AEAD_NONCE_SIZE_def AEAD_KEY_SIZE_def AEAD_TAG_SIZE_def
  bt_get_def bt_remove_def

theorem sealed_store_refines_map_witness:
  "\<exists>s'. sealed_exec toy_crypto mem_host demo_cmds (from_master_key (replicate 32 7) mem_new 0) = (Inr [Some [11], None], s')"
proof -
  let ?s = "from_master_key (replicate 32 7) mem_new 0"
  have run: "\<exists>xs s'. sealed_exec toy_crypto mem_host demo_cmds ?s = (Inr xs, s')"
    by (simp add: demo_cmds_def from_master_key_def mem_new_def bt_new_def demo_evals eval_nat_numeral numeral_eq_Suc)
  then obtain xs s' where r: "sealed_exec toy_crypto mem_host demo_cmds ?s = (Inr xs, s')" by blast
  have "xs = map_exec demo_cmds (sealed_view toy_crypto (\<lambda>b t. mem_abs b) ?s)"
    by (rule sealed_store_refines_map [OF mem_kv.host_map_axioms _ toy_crypto_ok _ r])
      (auto simp: mem_inv_def from_master_key_def mem_new_def bt_new_def bt_inv_def demo_cmds_def toy_crypto_def inj_on_def)
  then show ?thesis using r by (simp add: demo_cmds_def)
qed

text \<open>
  C40 (a value is not bound to its key): the additional data of a value names neither the key nor the
  table, so a host that moves the stored bytes of one key under another makes the store answer the other
  key's read with the first key's value, and no check fails.
\<close>

theorem moved_value_accepted:
  assumes "crypto_ok cr" "sealed_put cr hk key val s = (Inr (), s1)"
    and "hk_get hk' (sk_table s1) (encrypt_key cr s1 other) h = (Inr (Some ct), h')"
    and "ct = (case aead_encrypt cr (sk_cipher s) val AAD_VALUE (sk_draws s) of (Inr c, d) \<Rightarrow> c)"
  shows "fst (sealed_get cr hk' other (s1\<lparr>sk_host := h\<rparr>)) = Inr (Some val)"
proof -
  obtain c d h1 where e: "aead_encrypt cr (sk_cipher s) val AAD_VALUE (sk_draws s) = (Inr c, d)"
    and s1: "s1 = s\<lparr>sk_draws := d, sk_host := h1\<rparr>"
    using assms(2) by (auto simp: sealed_put_def Let_def split: prod.splits sum.splits)
  have "aead_decrypt cr (sk_cipher s) c AAD_VALUE = Inr val" using aead_decrypt_encrypt [OF assms(1)] e by blast
  then show ?thesis using assms(3,4) e by (simp add: sealed_get_def s1)
qed

theorem moved_value_accepted_witness:
  "fst (sealed_get toy_crypto mem_host [2]
     (from_master_key (replicate 32 7) (mem_new\<lparr>mem_map := [(hmac_sha256 toy_crypto (replicate 32 7) [2], replicate 12 0 @ [10] @ replicate 16 0)]\<rparr>) 1))
   = Inr (Some [10])"
proof -
  let ?s = "from_master_key (replicate 32 7) mem_new 0"
  obtain s1 where p: "sealed_put toy_crypto mem_host [1] [10] ?s = (Inr (), s1)"
    and t: "sk_table s1 = KVSTORE_TABLE" "sk_cipher s1 = replicate 32 7" "sk_draws s1 = 1"
    by (simp add: from_master_key_def demo_evals numeral_eq_Suc)
  let ?h = "(mem_new\<lparr>mem_map := [(hmac_sha256 toy_crypto (replicate 32 7) [2], replicate 12 0 @ [10] @ replicate 16 0)]\<rparr>)"
  have "fst (sealed_get toy_crypto mem_host [2] (s1\<lparr>sk_host := ?h\<rparr>)) = Inr (Some [10])"
    by (rule moved_value_accepted [OF toy_crypto_ok p, where h' = "snd (mem_get ?h (hmac_sha256 toy_crypto (replicate 32 7) [2]))" and ct = "replicate 12 0 @ [10] @ replicate 16 0"])
      (simp_all add: from_master_key_def demo_evals numeral_eq_Suc t)
  moreover have "s1\<lparr>sk_host := ?h\<rparr> = from_master_key (replicate 32 7) ?h 1"
    using t by (cases s1) (simp add: from_master_key_def)
  ultimately show ?thesis by simp
qed

end
