(* ===== verification/Vault_Env.thy ===== *)
theory Vault_Env
  imports Vault_Types Sealed_Kv "HOL-Library.State_Monad"
begin

text \<open>
  What the vault runs in. A request acts on a world with two parts: the sealed store behind the global
  of \<open>crates/enclave-os-kvstore/src/lib.rs\<close>, absent until it is initialised, and everything else the
  enclave reaches through calls to the host. The vault's code is written in the state monad over this
  world. Third-party code is a parameter: \<open>vault_lib\<close> holds the pure functions (ring, base64, the X.509
  parser, serde), \<open>host_ops\<close> the ones with effects (clock, random numbers, signatures, HTTPS).
  The second half has weakest preconditions for such actions.
\<close>

section \<open>Parameters\<close>

record 's store_ops =
  st_get :: "bytes \<Rightarrow> 's \<Rightarrow> (string + bytes option) \<times> 's"
  st_put :: "bytes \<Rightarrow> bytes \<Rightarrow> 's \<Rightarrow> (string + unit) \<times> 's"
  st_delete :: "bytes \<Rightarrow> 's \<Rightarrow> (string + bool) \<times> 's"

record 'x host_ops =
  ho_time :: "'x \<Rightarrow> u64 option \<times> 'x"
  ho_random :: "nat \<Rightarrow> 'x \<Rightarrow> bytes option \<times> 'x"
  ho_generate_pkcs8 :: "'x \<Rightarrow> bytes option \<times> 'x"
  ho_ec_sign :: "bytes \<Rightarrow> bytes \<Rightarrow> 'x \<Rightarrow> bytes option \<times> 'x"
  ho_https_post :: "string \<Rightarrow> (string \<times> string) list \<Rightarrow> bytes \<Rightarrow> 'x \<Rightarrow> (string + bytes) \<times> 'x"
  ho_verify_jwt_with_jwks :: "string \<Rightarrow> string \<Rightarrow> string \<Rightarrow> 'x \<Rightarrow> (string + bytes) \<times> 'x"
  ho_root_store :: "'x \<Rightarrow> bool"
  ho_token_for :: "string \<Rightarrow> 'x \<Rightarrow> string option"
  ho_oidc_config :: "'x \<Rightarrow> oidc_config option"

record x509_cert =
  xc_extensions :: "(string \<times> bytes) list"
  xc_public_key :: bytes

record vault_lib =
  vl_crypto :: crypto
  vl_b64_encode :: "bytes \<Rightarrow> string"
  vl_b64_decode :: "string \<Rightarrow> bytes option"
  vl_b64_standard :: "bytes \<Rightarrow> string"
  vl_x509 :: "bytes \<Rightarrow> x509_cert option"
  vl_ec_public :: "bytes \<Rightarrow> bytes option"
  vl_ec_verify :: "bytes \<Rightarrow> bytes \<Rightarrow> bytes \<Rightarrow> bool"
  vl_rsa_verify :: "bytes \<Rightarrow> bytes \<Rightarrow> bytes \<Rightarrow> bool"
  vl_p256_parse :: "bytes \<Rightarrow> bool"
  vl_p256_prehash :: "bytes \<Rightarrow> bytes \<Rightarrow> bytes option"
  vl_unicode_lower :: "string \<Rightarrow> string"
  vl_request_of :: "bytes \<Rightarrow> vault_request option"
  vl_response_to :: "vault_response \<Rightarrow> bytes option"
  vl_record_to :: "key_record \<Rightarrow> bytes option"
  vl_record_of :: "bytes \<Rightarrow> key_record option"
  vl_index_to :: "string list \<Rightarrow> bytes option"
  vl_index_of :: "bytes \<Rightarrow> string list option"
  vl_audit_to :: "audit_entry \<Rightarrow> bytes option"
  vl_audit_of :: "bytes \<Rightarrow> audit_entry option"
  vl_claims_to :: "approval_claims \<Rightarrow> bytes option"
  vl_claims_of :: "bytes \<Rightarrow> approval_claims option"
  vl_grant_of :: "bytes \<Rightarrow> key_creation_grant option"
  vl_header_alg :: "bytes \<Rightarrow> string option"
  vl_verdict_of :: "bytes \<Rightarrow> verify_response option"

record ('s, 'x) vault_env =
  ve_store :: "'s store_ops"
  ve_host :: "'x host_ops"
  ve_lib :: vault_lib

text \<open>\<open>str::to_lowercase\<close>: on ASCII text it is ASCII lower case, elsewhere Unicode decides.\<close>

definition to_lowercase :: "vault_lib \<Rightarrow> string \<Rightarrow> string" where
  "to_lowercase L s = (if is_ascii s then make_ascii_lowercase s else vl_unicode_lower L s)"

section \<open>The world and its actions\<close>

record ('s, 'x) vault_world =
  vw_store :: "'s option"
  vw_ext :: 'x

type_synonym ('s, 'x, 'a) act = "(('s, 'x) vault_world, 'a) state"

definition host :: "('x \<Rightarrow> 'a \<times> 'x) \<Rightarrow> ('s, 'x, 'a) act" where
  "host f = State (\<lambda>w. case f (vw_ext w) of (r, x) \<Rightarrow> (r, w\<lparr>vw_ext := x\<rparr>))"

definition peek :: "('x \<Rightarrow> 'a) \<Rightarrow> ('s, 'x, 'a) act" where
  "peek f = State (\<lambda>w. (f (vw_ext w), w))"

text \<open>\<open>kv_store()\<close>: whether the global store has been set.\<close>

definition kv_ready :: "('s, 'x, bool) act" where
  "kv_ready = State (\<lambda>w. (vw_store w \<noteq> None, w))"

definition on_store :: "('s \<Rightarrow> (string + 'a) \<times> 's) \<Rightarrow> ('s, 'x, string + 'a) act" where
  "on_store f = State (\<lambda>w. case vw_store w of
       None \<Rightarrow> (Inl ''kv store not initialised'', w)
     | Some s \<Rightarrow> (case f s of (r, s') \<Rightarrow> (r, w\<lparr>vw_store := Some s'\<rparr>)))"

definition kv_get :: "('s, 'x) vault_env \<Rightarrow> bytes \<Rightarrow> ('s, 'x, string + bytes option) act" where
  "kv_get E k = on_store (st_get (ve_store E) k)"

definition kv_put :: "('s, 'x) vault_env \<Rightarrow> bytes \<Rightarrow> bytes \<Rightarrow> ('s, 'x, string + unit) act" where
  "kv_put E k v = on_store (st_put (ve_store E) k v)"

definition kv_delete :: "('s, 'x) vault_env \<Rightarrow> bytes \<Rightarrow> ('s, 'x, string + bool) act" where
  "kv_delete E k = on_store (st_delete (ve_store E) k)"

text \<open>\<open>get_current_time().unwrap_or(0)\<close>.\<close>

definition now_secs :: "('s, 'x) vault_env \<Rightarrow> ('s, 'x, u64) act" where
  "now_secs E = do { t \<leftarrow> host (ho_time (ve_host E)); State_Monad.return (case t of Some n \<Rightarrow> n | None \<Rightarrow> 0) }"

section \<open>Weakest preconditions\<close>

definition wp :: "('w, 'a) state \<Rightarrow> ('a \<Rightarrow> 'w \<Rightarrow> bool) \<Rightarrow> 'w \<Rightarrow> bool" where
  "wp m Q w = (case run_state m w of (r, w') \<Rightarrow> Q r w')"

text \<open>Some run of the action answers \<open>r\<close>.\<close>

definition answers :: "('w, 'a) state \<Rightarrow> 'a \<Rightarrow> bool" where
  "answers m r \<longleftrightarrow> (\<exists>w w'. run_state m w = (r, w'))"

named_theorems wp_simps

lemma wp_return [wp_simps]: "wp (State_Monad.return x) Q w = Q x w"
  by (simp add: wp_def State_Monad.return_def)

lemma wp_bind [wp_simps]: "wp (State_Monad.bind m f) Q w = wp m (\<lambda>x. wp (f x) Q) w"
  by (simp add: wp_def State_Monad.bind_def split: prod.split)

lemma wp_mono: "wp m P w \<Longrightarrow> (\<And>r w'. P r w' \<Longrightarrow> Q r w') \<Longrightarrow> wp m Q w"
  by (auto simp: wp_def)

lemma wp_conj: "wp m P w \<Longrightarrow> wp m Q w \<Longrightarrow> wp m (\<lambda>r w'. P r w' \<and> Q r w') w"
  by (auto simp: wp_def)

lemma wp_answers: "wp m (\<lambda>r w'. answers m r) w"
  by (auto simp: wp_def answers_def)

lemma wp_run: "run_state m w = (r, w') \<Longrightarrow> wp m Q w \<Longrightarrow> Q r w'"
  by (simp add: wp_def)

lemma wp_peek [wp_simps]: "wp (peek f) Q w = Q (f (vw_ext w)) w"
  by (simp add: wp_def peek_def)

lemma wp_kv_ready [wp_simps]: "wp kv_ready Q w = Q (vw_store w \<noteq> None) w"
  by (simp add: wp_def kv_ready_def)

lemma answers_return [simp]: "answers (State_Monad.return x) r \<longleftrightarrow> r = x"
  by (auto simp: answers_def State_Monad.return_def)

lemma answers_bind: "answers (State_Monad.bind m f) r \<Longrightarrow> \<exists>x. answers m x \<and> answers (f x) r"
  unfolding answers_def State_Monad.bind_def by (auto split: prod.splits) (metis surj_pair)

section \<open>Contract\<close>

lemma restrict_UNIV: "m |` UNIV = m"
  by (simp add: restrict_map_def)

text \<open>
  The store behind the vault, as a map. \<open>vault_view\<close> is what it holds, \<open>vault_inv\<close> its invariant; a
  store that is not initialised holds nothing.
\<close>

definition vault_view :: "('s \<Rightarrow> bytes \<rightharpoonup> bytes) \<Rightarrow> ('s, 'x) vault_world \<Rightarrow> bytes \<rightharpoonup> bytes" where
  "vault_view view w = (case vw_store w of None \<Rightarrow> Map.empty | Some s \<Rightarrow> view s)"

definition vault_inv :: "('s \<Rightarrow> bool) \<Rightarrow> ('s, 'x) vault_world \<Rightarrow> bool" where
  "vault_inv ok w = (case vw_store w of None \<Rightarrow> True | Some s \<Rightarrow> ok s)"

text \<open>The invariant holds and the store holds \<open>V\<close>.\<close>

definition store_holds :: "('s \<Rightarrow> bool) \<Rightarrow> ('s \<Rightarrow> bytes \<rightharpoonup> bytes) \<Rightarrow> (bytes \<rightharpoonup> bytes) \<Rightarrow> ('s, 'x) vault_world \<Rightarrow> bool" where
  "store_holds ok view V w \<longleftrightarrow> vault_inv ok w \<and> vault_view view w = V"

locale vault_store = kv_map UNIV "st_get (ve_store E)" "st_put (ve_store E)" "st_delete (ve_store E)" inv view
  for E :: "('s, 'x) vault_env" and inv :: "'s \<Rightarrow> bool" and view :: "'s \<Rightarrow> bytes \<rightharpoonup> bytes"
begin

abbreviation holds :: "(bytes \<rightharpoonup> bytes) \<Rightarrow> ('s, 'x) vault_world \<Rightarrow> bool" where
  "holds \<equiv> store_holds inv view"

lemma wp_host: "holds V w \<Longrightarrow> (\<And>r w'. holds V w' \<Longrightarrow> answers (host f :: ('s, 'x, 'a) act) r \<Longrightarrow> Q r w') \<Longrightarrow> wp (host f) Q w"
  by (rule wp_mono [OF wp_conj [OF _ wp_answers], of _ "\<lambda>r. holds V"])
    (auto simp: wp_def host_def store_holds_def vault_inv_def vault_view_def split: prod.split)

lemma wp_now_secs: "holds V w \<Longrightarrow> (\<And>t w'. holds V w' \<Longrightarrow> Q t w') \<Longrightarrow> wp (now_secs E) Q w"
  by (simp add: now_secs_def wp_simps) (erule wp_host, simp add: wp_simps)

lemma wp_kv_get:
  assumes "holds V w" "\<And>r w'. holds V w' \<Longrightarrow> (\<And>x. r = Inr x \<Longrightarrow> x = V k) \<Longrightarrow> Q r w'"
  shows "wp (kv_get E k) Q w"
proof (cases "vw_store w")
  case None
  have "Q (Inl ''kv store not initialised'') w" by (rule assms(2) [OF assms(1)]) simp
  then show ?thesis using None by (simp add: wp_def kv_get_def on_store_def)
next
  case (Some s)
  obtain r s' where r: "st_get (ve_store E) k s = (r, s')" by fastforce
  have "inv s" "view s = V" using assms(1) Some by (simp_all add: store_holds_def vault_inv_def vault_view_def)
  then show ?thesis using get_law [OF _ _ r, unfolded restrict_UNIV] Some r
    by (auto simp: wp_def kv_get_def on_store_def store_holds_def vault_inv_def vault_view_def intro!: assms(2))
qed

lemma wp_kv_put:
  assumes "holds V w" "\<And>r w'. holds (V(k \<mapsto> v)) w' \<Longrightarrow> Q r w'" "\<And>e w'. holds V w' \<Longrightarrow> Q (Inl e) w'"
  shows "wp (kv_put E k v) Q w"
proof (cases "vw_store w")
  case None
  then show ?thesis using assms by (simp add: wp_def kv_put_def on_store_def)
next
  case (Some s)
  obtain r s' where r: "st_put (ve_store E) k v s = (r, s')" by fastforce
  have s: "inv s" "view s = V" using assms(1) Some by (simp_all add: store_holds_def vault_inv_def vault_view_def)
  have w: "holds (view s') (w\<lparr>vw_store := Some s'\<rparr>)" using put_law [OF s(1) _ r] by (simp add: store_holds_def vault_inv_def vault_view_def)
  from put_law [OF s(1) _ r] have "view s' = V(k \<mapsto> v) \<or> (\<exists>e. r = Inl e) \<and> view s' = V"
    unfolding restrict_UNIV by (simp add: s(2))
  then show ?thesis using w Some r assms(2,3) by (auto simp: wp_def kv_put_def on_store_def)
qed

lemma wp_kv_delete:
  assumes "holds V w" "\<And>r w'. holds (V(k := None)) w' \<Longrightarrow> Q r w'" "\<And>e w'. holds V w' \<Longrightarrow> Q (Inl e) w'"
  shows "wp (kv_delete E k) Q w"
proof (cases "vw_store w")
  case None
  then show ?thesis using assms by (simp add: wp_def kv_delete_def on_store_def)
next
  case (Some s)
  obtain r s' where r: "st_delete (ve_store E) k s = (r, s')" by fastforce
  have s: "inv s" "view s = V" using assms(1) Some by (simp_all add: store_holds_def vault_inv_def vault_view_def)
  have w: "holds (view s') (w\<lparr>vw_store := Some s'\<rparr>)" using del_law [OF s(1) _ r] by (simp add: store_holds_def vault_inv_def vault_view_def)
  from del_law [OF s(1) _ r] have "view s' = V(k := None) \<or> (\<exists>e. r = Inl e) \<and> view s' = V"
    unfolding restrict_UNIV by (simp add: s(2))
  then show ?thesis using w Some r assms(2,3) by (auto simp: wp_def kv_delete_def on_store_def)
qed

end

end
