(* ===== verification/Vault_Tokens.thy ===== *)
theory Vault_Tokens
  imports Vault_Env
begin

text \<open>
  The parts the vault builds on: signed tokens (\<open>common/src/jwt.rs\<close>), the certificate reader of
  \<open>crates/enclave-os-vault/src/quote.rs\<close>, the key operations of \<open>crypto.rs\<close>, approval tokens and the
  vault's own key (\<open>signing.rs\<close>), the per-key audit log (\<open>audit.rs\<close>) and key-creation grants
  (\<open>grant.rs\<close>). Error messages are kept up to the values formatted into them.
\<close>

section \<open>Signed tokens\<close>

definition ALG_ES256 :: string where "ALG_ES256 = ''ES256''"
definition ALG_RS256 :: string where "ALG_RS256 = ''RS256''"

datatype jwt_verifier = Es256 bytes | Rs256 bytes

definition from_public_key_bytes :: "bytes \<Rightarrow> string + jwt_verifier" where
  "from_public_key_bytes raw =
     (if length raw \<noteq> 65 \<or> raw ! 0 \<noteq> 4 then Inl ''expected 65-byte uncompressed P-256 point (04 || x || y)''
      else Inr (Es256 raw))"

definition from_rsa_der :: "bytes \<Rightarrow> string + jwt_verifier" where
  "from_rsa_der der = (if length der < 64 then Inl ''RSA public key DER too short'' else Inr (Rs256 der))"

definition from_hex :: "string \<Rightarrow> string + jwt_verifier" where
  "from_hex hex = (case hex_decode hex of None \<Rightarrow> Inl ''invalid hex in public key'' | Some bs \<Rightarrow> from_public_key_bytes bs)"

text \<open>One step of \<open>splitn\<close>: the text before the first separator, and the text after it.\<close>

definition split_once :: "char \<Rightarrow> string \<Rightarrow> string \<times> string option" where
  "split_once c s =
     (takeWhile (\<lambda>x. x \<noteq> c) s,
      case dropWhile (\<lambda>x. x \<noteq> c) s of [] \<Rightarrow> None | _ # rest \<Rightarrow> Some rest)"

definition signature_valid :: "vault_lib \<Rightarrow> jwt_verifier \<Rightarrow> bytes \<Rightarrow> bytes \<Rightarrow> bool" where
  "signature_valid L v msg sig = (case v of Es256 k \<Rightarrow> vl_ec_verify L k msg sig | Rs256 k \<Rightarrow> vl_rsa_verify L k msg sig)"

definition jwt_verify :: "vault_lib \<Rightarrow> jwt_verifier \<Rightarrow> bytes \<Rightarrow> string + bytes \<times> bytes" where
  "jwt_verify L v jwt =
     (if \<not> utf8_valid jwt then Inl ''jwt not utf8'' else
      let jwt_str = bytes_str jwt in
      case split_once (CHR ''.'') jwt_str of
        (header_b64, None) \<Rightarrow> Inl ''missing payload''
      | (header_b64, Some rest) \<Rightarrow>
          (case split_once (CHR ''.'') rest of
             (payload_b64, None) \<Rightarrow> Inl ''missing signature''
           | (payload_b64, Some sig_b64) \<Rightarrow>
               (case vl_b64_decode L header_b64 of
                  None \<Rightarrow> Inl ''jwt header base64''
                | Some header_bytes \<Rightarrow>
                    (case vl_header_alg L header_bytes of
                       None \<Rightarrow> Inl ''jwt header json''
                     | Some alg \<Rightarrow>
                         if (case v of Es256 _ \<Rightarrow> alg \<noteq> ALG_ES256 | Rs256 _ \<Rightarrow> False) then Inl ''alg does not match ES256 key''
                         else if (case v of Rs256 _ \<Rightarrow> alg \<noteq> ALG_RS256 | Es256 _ \<Rightarrow> False) then Inl ''alg does not match RS256 key''
                         else case vl_b64_decode L sig_b64 of
                                None \<Rightarrow> Inl ''jwt signature base64''
                              | Some sig_bytes \<Rightarrow>
                                  let signed_data = take (length header_b64 + 1 + length payload_b64) jwt_str in
                                  if \<not> signature_valid L v (str_bytes signed_data) sig_bytes
                                  then Inl ''jwt signature verification failed''
                                  else case vl_b64_decode L payload_b64 of
                                         None \<Rightarrow> Inl ''jwt payload base64''
                                       | Some payload_bytes \<Rightarrow> Inr (payload_bytes, header_bytes)))))"

definition verify_and_decode :: "vault_lib \<Rightarrow> (bytes \<Rightarrow> 'c option) \<Rightarrow> jwt_verifier \<Rightarrow> bytes \<Rightarrow> string + 'c" where
  "verify_and_decode L decode v jwt =
     (case jwt_verify L v jwt of
        Inl e \<Rightarrow> Inl e
      | Inr (payload_bytes, _) \<Rightarrow> (case decode payload_bytes of None \<Rightarrow> Inl ''jwt payload json'' | Some c \<Rightarrow> Inr c))"

text \<open>
  A token signed with the vault's key. The key pair is given by its PKCS#8 bytes; the payload by its
  JSON, absent when it cannot be serialised.
\<close>

definition quoted :: "string \<Rightarrow> string" where
  "quoted s = [char_of (34 :: nat)] @ s @ [char_of (34 :: nat)]"

definition jwt_header :: "string option \<Rightarrow> string" where
  "jwt_header kid =
     (case kid of
        Some k \<Rightarrow> ''{'' @ quoted ''alg'' @ '':'' @ quoted ''ES256'' @ '','' @ quoted ''typ'' @ '':'' @ quoted ''JWT'' @ '','' @
          quoted ''kid'' @ '':'' @ quoted k @ ''}''
      | None \<Rightarrow> ''{'' @ quoted ''alg'' @ '':'' @ quoted ''ES256'' @ '','' @ quoted ''typ'' @ '':'' @ quoted ''JWT'' @ ''}'')"

definition encode_jwt :: "('s, 'x) vault_env \<Rightarrow> bytes option \<Rightarrow> bytes \<Rightarrow> string option \<Rightarrow> ('s, 'x, string + bytes) act" where
  "encode_jwt E payload key_pair kid =
     (let L = ve_lib E in
      case payload of
        None \<Rightarrow> State_Monad.return (Inl ''payload serialisation'')
      | Some payload_json \<Rightarrow>
          (let header_b64 = vl_b64_encode L (str_bytes (jwt_header kid));
               payload_b64 = vl_b64_encode L payload_json;
               message = header_b64 @ ''.'' @ payload_b64
           in do {
             sig \<leftarrow> host (ho_ec_sign (ve_host E) key_pair (str_bytes message));
             case sig of
               None \<Rightarrow> State_Monad.return (Inl ''signing failed'')
             | Some sig \<Rightarrow> State_Monad.return (Inr (str_bytes (message @ ''.'' @ vl_b64_encode L sig)))
           }))"

section \<open>Peer certificates\<close>

definition SGX_QUOTE_OID_STR :: string where "SGX_QUOTE_OID_STR = ''1.2.840.113741.1.13.1.0''"
definition TDX_QUOTE_OID_STR :: string where "TDX_QUOTE_OID_STR = ''1.2.840.113741.1.5.5.1.6''"
definition APP_ID_OID_STR :: string where "APP_ID_OID_STR = ''1.3.6.1.4.1.65230.4.1''"

definition CLAIM_OIDS :: "string list" where
  "CLAIM_OIDS =
     [''1.3.6.1.4.1.65230.2.1'', ''1.3.6.1.4.1.65230.2.2'', ''1.3.6.1.4.1.65230.2.4'', ''1.3.6.1.4.1.65230.2.3'',
      ''1.3.6.1.4.1.65230.5.1'', ''1.3.6.1.4.1.65230.4.2'', APP_ID_OID_STR]"

fun collect_oid_claims :: "(string \<times> bytes) list \<Rightarrow> string + (string \<times> string) list" where
  "collect_oid_claims [] = Inr []"
| "collect_oid_claims ((oid, val) # exts) =
     (if oid = SGX_QUOTE_OID_STR \<or> oid = TDX_QUOTE_OID_STR
      then Inl ''v1 RA-TLS certificate (evidence inside the certificate) is not accepted''
      else case collect_oid_claims exts of
             Inl e \<Rightarrow> Inl e
           | Inr claims \<Rightarrow> Inr (if oid \<in> set CLAIM_OIDS then (oid, quote_hex_encode val) # claims else claims))"

definition dissect_peer_cert :: "vault_lib \<Rightarrow> bytes \<Rightarrow> bytes \<Rightarrow> string + tee_evidence" where
  "dissect_peer_cert L der quote_bytes =
     (case vl_x509 L der of
        None \<Rightarrow> Inl ''invalid X.509 DER''
      | Some cert \<Rightarrow>
          (case collect_oid_claims (xc_extensions cert) of
             Inl e \<Rightarrow> Inl e
           | Inr claims \<Rightarrow>
               if xc_public_key cert = [] then Inl ''empty subject public key in certificate''
               else Inr \<lparr>te_evidence = quote_bytes, te_oid_claims = claims, te_pubkey_raw = xc_public_key cert\<rparr>))"

section \<open>Key operations\<close>

definition NONCE_LEN :: nat where "NONCE_LEN = 12"

definition validate_material :: "vault_lib \<Rightarrow> key_type \<Rightarrow> bytes \<Rightarrow> string + bytes option" where
  "validate_material L kt material =
     (case kt of
        RawShare \<Rightarrow> Inr None
      | Aes256GcmKey \<Rightarrow> if length material \<noteq> 32 then Inl ''Aes256GcmKey requires 32 bytes of material'' else Inr None
      | HmacSha256Key \<Rightarrow>
          if \<not> (32 \<le> length material \<and> length material \<le> 64) then Inl ''HmacSha256Key requires 32..=64 bytes of material''
          else Inr None
      | P256SigningKey \<Rightarrow>
          (case vl_ec_public L material of
             None \<Rightarrow> Inl ''P256SigningKey material is not a valid PKCS#8 P-256 key''
           | Some pk \<Rightarrow> Inr (Some pk)))"

definition seal_with_nonce :: "vault_lib \<Rightarrow> bytes \<Rightarrow> bytes \<Rightarrow> bytes \<Rightarrow> bytes \<Rightarrow> string + bytes \<times> bytes" where
  "seal_with_nonce L key_bytes plaintext aad nonce =
     (if length key_bytes \<noteq> 32 then Inl ''invalid AES-256 key''
      else case gcm_seal (vl_crypto L) key_bytes nonce aad plaintext of
             None \<Rightarrow> Inl ''AES-GCM seal failed''
           | Some ct \<Rightarrow> Inr (ct, nonce))"

definition aes_gcm_seal :: "('s, 'x) vault_env \<Rightarrow> bytes \<Rightarrow> bytes \<Rightarrow> bytes \<Rightarrow> bytes option \<Rightarrow> ('s, 'x, string + bytes \<times> bytes) act" where
  "aes_gcm_seal E key_bytes plaintext aad iv =
     (case iv of
        Some b \<Rightarrow>
          if length b = NONCE_LEN then State_Monad.return (seal_with_nonce (ve_lib E) key_bytes plaintext aad b)
          else State_Monad.return (Inl ''AES-GCM nonce must be 12 bytes'')
      | None \<Rightarrow> do {
          a \<leftarrow> host (ho_random (ve_host E) NONCE_LEN);
          case a of
            None \<Rightarrow> State_Monad.return (Inl ''rng failed'')
          | Some nonce \<Rightarrow> State_Monad.return (seal_with_nonce (ve_lib E) key_bytes plaintext aad nonce)
        })"

definition aes_gcm_open :: "vault_lib \<Rightarrow> bytes \<Rightarrow> bytes \<Rightarrow> bytes \<Rightarrow> bytes \<Rightarrow> string + bytes" where
  "aes_gcm_open L key_bytes ciphertext iv aad =
     (if length iv \<noteq> NONCE_LEN then Inl ''AES-GCM nonce must be 12 bytes''
      else if length key_bytes \<noteq> 32 then Inl ''invalid AES-256 key''
      else case gcm_open (vl_crypto L) key_bytes iv aad ciphertext of
             None \<Rightarrow> Inl ''AES-GCM open failed (auth tag mismatch)''
           | Some pt \<Rightarrow> Inr pt)"

definition p256_sign :: "('s, 'x) vault_env \<Rightarrow> bytes \<Rightarrow> bytes \<Rightarrow> ('s, 'x, string + bytes) act" where
  "p256_sign E pkcs8 message =
     (if vl_ec_public (ve_lib E) pkcs8 = None then State_Monad.return (Inl ''parse signing key failed'')
      else do {
        sig \<leftarrow> host (ho_ec_sign (ve_host E) pkcs8 message);
        State_Monad.return (case sig of None \<Rightarrow> Inl ''ECDSA sign failed'' | Some sig \<Rightarrow> Inr sig)
      })"

definition p256_sign_prehash :: "vault_lib \<Rightarrow> bytes \<Rightarrow> bytes \<Rightarrow> string + bytes" where
  "p256_sign_prehash L pkcs8 digest =
     (if length digest \<noteq> 32 then Inl ''prehash sign requires a 32-byte SHA-256 digest''
      else if \<not> vl_p256_parse L pkcs8 then Inl ''parse signing key (pkcs8) failed''
      else case vl_p256_prehash L pkcs8 digest of None \<Rightarrow> Inl ''ECDSA prehash sign failed'' | Some sig \<Rightarrow> Inr sig)"

section \<open>The vault's key and approval tokens\<close>

definition SIGNING_KEY_KV :: bytes where "SIGNING_KEY_KV = str_bytes ''__vault_signing_key_pkcs8__''"
definition ISSUER :: string where "ISSUER = ''enclave-os-vault''"

text \<open>The key pair is given by its PKCS#8 bytes, which \<open>vl_ec_public\<close> accepts, and its public key.\<close>

definition load_or_init_keypair :: "('s, 'x) vault_env \<Rightarrow> ('s, 'x, string + bytes \<times> bytes) act" where
  "load_or_init_keypair E =
     (let parse = (\<lambda>pkcs8. State_Monad.return
        (case vl_ec_public (ve_lib E) pkcs8 of None \<Rightarrow> Inl ''parse vault signing key failed'' | Some pk \<Rightarrow> Inr (pkcs8, pk)))
      in do {
        stored \<leftarrow> kv_get E SIGNING_KEY_KV;
        case stored of
          Inl _ \<Rightarrow> State_Monad.return (Inl ''kv get signing key'')
        | Inr (Some b) \<Rightarrow> parse b
        | Inr None \<Rightarrow> do {
            doc \<leftarrow> host (ho_generate_pkcs8 (ve_host E));
            case doc of
              None \<Rightarrow> State_Monad.return (Inl ''generate vault signing key failed'')
            | Some pkcs8 \<Rightarrow> do {
                saved \<leftarrow> kv_put E SIGNING_KEY_KV pkcs8;
                case saved of
                  Inl _ \<Rightarrow> State_Monad.return (Inl ''kv put signing key'')
                | Inr _ \<Rightarrow> parse pkcs8
              }
          }
      })"

definition load_or_init_public_key :: "('s, 'x) vault_env \<Rightarrow> ('s, 'x, string + bytes) act" where
  "load_or_init_public_key E = do { kp \<leftarrow> load_or_init_keypair E; State_Monad.return (map_sum id snd kp) }"

definition issue_approval_token ::
  "('s, 'x) vault_env \<Rightarrow> string \<Rightarrow> operation \<Rightarrow> u32 \<Rightarrow> string \<Rightarrow> u64 \<Rightarrow> u64 \<Rightarrow> ('s, 'x, string + approval_token) act" where
  "issue_approval_token E handle op manager approver_sub iat ttl_seconds = do {
     kp \<leftarrow> load_or_init_keypair E;
     case kp of
       Inl e \<Rightarrow> State_Monad.return (Inl e)
     | Inr (pkcs8, _) \<Rightarrow>
         (let claims = \<lparr>ac_iss = ISSUER, ac_handle = handle, ac_op = op, ac_manager = manager, ac_approver_sub = approver_sub,
                        ac_iat = iat, ac_exp = saturating_add iat ttl_seconds\<rparr>
          in do {
            jwt_bytes \<leftarrow> encode_jwt E (vl_claims_to (ve_lib E) claims) pkcs8 None;
            State_Monad.return
              (case jwt_bytes of
                 Inl e \<Rightarrow> Inl e
               | Inr bs \<Rightarrow> if utf8_valid bs then Inr \<lparr>at_jwt = bytes_str bs\<rparr> else Inl ''jwt utf8'')
          })
   }"

definition check_approval_claims ::
  "approval_claims \<Rightarrow> string \<Rightarrow> operation \<Rightarrow> u32 \<Rightarrow> string option \<Rightarrow> u64 \<Rightarrow> u64 \<Rightarrow> string + unit" where
  "check_approval_claims claims handle op manager distinct_from fresh_for_seconds now =
     (if ac_iss claims \<noteq> ISSUER then Inl ''issuer mismatch''
      else if ac_handle claims \<noteq> handle then Inl ''handle mismatch''
      else if ac_op claims \<noteq> op then Inl ''op mismatch''
      else if ac_manager claims \<noteq> manager then Inl ''manager mismatch''
      else if distinct_from \<noteq> None \<and> ac_approver_sub claims = [] then Inl ''co-sign required but token carries no approver_sub''
      else if distinct_from = Some (ac_approver_sub claims) then Inl ''co-sign requires a second approver''
      else if ac_exp claims < now then Inl ''expired''
      else if 0 < fresh_for_seconds \<and> fresh_for_seconds < saturating_sub now (ac_iat claims) then Inl ''stale''
      else Inr ())"

definition verify_approval_token ::
  "('s, 'x) vault_env \<Rightarrow> approval_token \<Rightarrow> string \<Rightarrow> operation \<Rightarrow> u32 \<Rightarrow> string option \<Rightarrow> u64 \<Rightarrow> u64 \<Rightarrow> ('s, 'x, string + unit) act" where
  "verify_approval_token E token handle op manager distinct_from fresh_for_seconds now = do {
     ready \<leftarrow> kv_ready;
     if \<not> ready then State_Monad.return (Inl ''kv store not initialised'')
     else do {
       pk \<leftarrow> load_or_init_public_key E;
       State_Monad.return
         (case pk of
            Inl e \<Rightarrow> Inl e
          | Inr public_key \<Rightarrow>
              (case from_public_key_bytes public_key of
                 Inl e \<Rightarrow> Inl e
               | Inr verifier \<Rightarrow>
                   (case verify_and_decode (ve_lib E) (vl_claims_of (ve_lib E)) verifier (str_bytes (at_jwt token)) of
                      Inl e \<Rightarrow> Inl e
                    | Inr claims \<Rightarrow> check_approval_claims claims handle op manager distinct_from fresh_for_seconds now)))
     }
   }"

section \<open>The audit log\<close>

definition audit_key :: "string \<Rightarrow> u64 \<Rightarrow> bytes" where
  "audit_key handle seq = str_bytes (''audit:'' @ handle @ '':'' @ pad20 (show_word seq))"

definition audit_append ::
  "('s, 'x) vault_env \<Rightarrow> key_record \<Rightarrow> string \<Rightarrow> string \<Rightarrow> audit_decision \<Rightarrow> string \<Rightarrow> ('s, 'x, (string + unit) \<times> key_record) act" where
  "audit_append E r op caller decision reason = do {
     now \<leftarrow> now_secs E;
     let entry = \<lparr>ae_seq = kr_audit_next_seq r, ae_ts = now, ae_op = op, ae_caller = caller, ae_decision = decision, ae_reason = reason\<rparr>;
     case vl_audit_to (ve_lib E) entry of
       None \<Rightarrow> State_Monad.return (Inl ''audit serialise'', r)
     | Some bs \<Rightarrow> do {
         saved \<leftarrow> kv_put E (audit_key (kr_handle r) (kr_audit_next_seq r)) bs;
         State_Monad.return
           (case saved of
              Inl _ \<Rightarrow> (Inl ''audit put'', r)
            | Inr _ \<Rightarrow> (Inr (), r\<lparr>kr_audit_next_seq := saturating_add (kr_audit_next_seq r) 1\<rparr>))
       }
   }"

text \<open>
  The loop of \<open>read\<close>: \<open>seq\<close> runs from \<open>since_seq\<close> to the next free number, at most \<open>limit\<close> entries are
  kept. The first argument bounds the rounds; the distance to the next free number is enough.
\<close>

fun audit_walk ::
  "nat \<Rightarrow> ('s, 'x) vault_env \<Rightarrow> string \<Rightarrow> u64 \<Rightarrow> u64 \<Rightarrow> audit_entry list \<Rightarrow> u64 \<Rightarrow> ('s, 'x, string + audit_entry list \<times> u64) act" where
  "audit_walk 0 E handle next_seq limit out seq = State_Monad.return (Inr (out, seq))"
| "audit_walk (Suc n) E handle next_seq limit out seq =
     (if seq < next_seq \<and> (word_of_nat (length out) :: u64) < limit then do {
        got \<leftarrow> kv_get E (audit_key handle seq);
        case got of
          Inl _ \<Rightarrow> State_Monad.return (Inl ''audit get'')
        | Inr None \<Rightarrow> audit_walk n E handle next_seq limit out (seq + 1)
        | Inr (Some bs) \<Rightarrow>
            (case vl_audit_of (ve_lib E) bs of
               None \<Rightarrow> audit_walk n E handle next_seq limit out (seq + 1)
             | Some entry \<Rightarrow> audit_walk n E handle next_seq limit (out @ [entry]) (seq + 1))
      }
      else State_Monad.return (Inr (out, seq)))"

definition audit_read ::
  "('s, 'x) vault_env \<Rightarrow> string \<Rightarrow> u64 \<Rightarrow> u64 \<Rightarrow> u32 \<Rightarrow> ('s, 'x, string + audit_entry list \<times> u64) act" where
  "audit_read E handle next_seq since_seq limit =
     audit_walk (unat next_seq - unat since_seq) E handle next_seq (ucast limit) [] since_seq"

section \<open>Key-creation grants\<close>

definition GRANT_AUDIENCE :: string where "GRANT_AUDIENCE = ''privasys-vault-keycreate''"
definition APP_SCOPE_PREFIX :: string where "APP_SCOPE_PREFIX = ''apps.privasys.org/''"

definition starts_with :: "string \<Rightarrow> string \<Rightarrow> bool" where
  "starts_with s p \<longleftrightarrow> take (length p) s = p"

definition scope_app_id :: "string \<Rightarrow> string option" where
  "scope_app_id scope = (if starts_with scope APP_SCOPE_PREFIX then Some (drop (length APP_SCOPE_PREFIX) scope) else None)"

definition bind_caller :: "vault_lib \<Rightarrow> key_creation_grant \<Rightarrow> bytes \<Rightarrow> string + unit" where
  "bind_caller L grant peer_der =
     (case kg_cnf grant of
        Some x5t \<Rightarrow>
          if vl_b64_encode L (sha256 (vl_crypto L) peer_der) = x5t then Inr ()
          else Inl ''grant cnf (holder-of-key) does not match the caller RA-TLS certificate''
      | None \<Rightarrow>
          (case dissect_peer_cert L peer_der [] of
             Inl e \<Rightarrow> Inl e
           | Inr evidence \<Rightarrow>
               (case find (\<lambda>(oid, _). oid = APP_ID_OID_STR) (te_oid_claims evidence) of
                  None \<Rightarrow> Inl ''caller RA-TLS certificate has no app-id (OID 3.6) and the grant has no cnf binding''
                | Some (_, caller_app_id) \<Rightarrow>
                    (case scope_app_id (kg_scope grant) of
                       None \<Rightarrow> Inl ''grant scope carries no app-id and the grant has no cnf binding''
                     | Some app_id \<Rightarrow>
                         if eq_ignore_ascii_case caller_app_id app_id then Inr ()
                         else Inl ''caller app-id does not match grant scope app-id''))))"

definition verify_grant ::
  "('s, 'x) vault_env \<Rightarrow> string \<Rightarrow> request_context \<Rightarrow> u64 \<Rightarrow> ('s, 'x, string + key_creation_grant) act" where
  "verify_grant E grant_jwt ctx now = do {
     cfg \<leftarrow> peek (ho_oidc_config (ve_host E));
     case cfg of
       None \<Rightarrow> State_Monad.return (Inl ''OIDC is not configured; cannot verify a key-creation grant'')
     | Some cfg \<Rightarrow> do {
         payload \<leftarrow> host (ho_verify_jwt_with_jwks (ve_host E) grant_jwt (cf_issuer cfg) (cf_jwks_uri cfg));
         State_Monad.return
           (case payload of
              Inl _ \<Rightarrow> Inl ''key-creation grant verification failed''
            | Inr bs \<Rightarrow>
                (case vl_grant_of (ve_lib E) bs of
                   None \<Rightarrow> Inl ''key-creation grant verification failed''
                 | Some grant \<Rightarrow>
                     if kg_iss grant \<noteq> cf_issuer cfg then Inl ''grant issuer mismatch''
                     else if kg_aud grant \<noteq> GRANT_AUDIENCE then Inl ''grant audience must be privasys-vault-keycreate''
                     else if kg_exp grant \<le> now then Inl ''key-creation grant has expired''
                     else case rc_peer_cert_der ctx of
                            None \<Rightarrow> Inl ''key creation requires a mutual-RA-TLS peer certificate''
                          | Some peer_der \<Rightarrow>
                              (case bind_caller (ve_lib E) grant peer_der of Inl e \<Rightarrow> Inl e | Inr _ \<Rightarrow> Inr grant)))
       }
   }"

end
