(* ===== verification/Vault_Policy.thy ===== *)
theory Vault_Policy
  imports Vault_Tokens "HOL-Library.Char_ord" "HOL-Library.List_Lexorder"
begin

text \<open>
  Policy evaluation of the vault (\<open>crates/enclave-os-vault/src/policy.rs\<close>) and the appraisal of quotes
  by attestation servers it relies on (\<open>crates/enclave-os-egress/src/attestation.rs\<close>, without the
  development features that accept mock or simulation evidence).
\<close>

section \<open>Appraisal of a quote\<close>

definition tcb_status_acceptable :: "string \<Rightarrow> string list \<Rightarrow> bool" where
  "tcb_status_acceptable status acceptable =
     (if status = [] \<or> status = ''Revoked'' then False
      else status = ''UpToDate'' \<or> status = ''SWHardeningNeeded'' \<or> list_ex (\<lambda>candidate. candidate = status) acceptable)"

fun ask_servers :: "('s, 'x) vault_env \<Rightarrow> bytes \<Rightarrow> string list \<Rightarrow> ('s, 'x, string + verify_response list) act" where
  "ask_servers E body [] = State_Monad.return (Inr [])"
| "ask_servers E body (server_url # urls) = do {
     token \<leftarrow> peek (ho_token_for (ve_host E) server_url);
     let headers = [(''Content-Type'', ''application/json'')] @
       (case token of None \<Rightarrow> [] | Some t \<Rightarrow> [(''Authorization'', ''Bearer '' @ t)]);
     resp \<leftarrow> host (ho_https_post (ve_host E) server_url headers body);
     case resp of
       Inl _ \<Rightarrow> State_Monad.return (Inl ''attestation server request failed'')
     | Inr resp_body \<Rightarrow>
         (case vl_verdict_of (ve_lib E) resp_body of
            None \<Rightarrow> State_Monad.return (Inl ''invalid JSON response from attestation server'')
          | Some result \<Rightarrow>
              if \<not> vr_success result then State_Monad.return (Inl ''attestation verification failed'')
              else do {
                rest \<leftarrow> ask_servers E body urls;
                State_Monad.return (case rest of Inl e \<Rightarrow> Inl e | Inr responses \<Rightarrow> Inr (result # responses))
              })
   }"

definition verify_quote_statuses ::
  "('s, 'x) vault_env \<Rightarrow> bytes \<Rightarrow> string list \<Rightarrow> ('s, 'x, string + verify_response list) act" where
  "verify_quote_statuses E evidence servers =
     (if servers = [] then State_Monad.return (Inr [])
      else do {
        have_roots \<leftarrow> peek (ho_root_store (ve_host E));
        if \<not> have_roots then State_Monad.return (Inl ''attestation verification requires the egress CA bundle'')
        else ask_servers E
               (str_bytes (''{'' @ quoted ''quote'' @ '':'' @ quoted (vl_b64_standard (ve_lib E) evidence) @ ''}'')) servers
      })"

definition verify_quote :: "('s, 'x) vault_env \<Rightarrow> bytes \<Rightarrow> string list \<Rightarrow> ('s, 'x, string + unit) act" where
  "verify_quote E evidence servers =
     do { r \<leftarrow> verify_quote_statuses E evidence servers; State_Monad.return (map_sum id (\<lambda>_. ()) r) }"

section \<open>Operation binding\<close>

definition VAULT_APPROVAL_DOMAIN :: string where "VAULT_APPROVAL_DOMAIN = ''privasys-vault-approval/v1''"

record op_binding =
  ob_measurement_digest_hex :: string
  ob_policy_version :: u32

definition newline :: string where "newline = [char_of (10 :: nat)]"

fun join :: "string \<Rightarrow> string list \<Rightarrow> string" where
  "join sep [] = []"
| "join sep [s] = s"
| "join sep (s # t # ss) = s @ sep @ join sep (t # ss)"

definition measurement_lines :: "vault_lib \<Rightarrow> measurement \<Rightarrow> string list" where
  "measurement_lines L m =
     (case m of
        Mrenclave v \<Rightarrow> [''mrenclave:'' @ to_lowercase L v]
      | TdxMeasurement a b c \<Rightarrow> [''mrtd:'' @ to_lowercase L a, ''rtmr1:'' @ to_lowercase L b, ''rtmr2:'' @ to_lowercase L c])"

definition profile_binding_digest :: "vault_lib \<Rightarrow> attestation_profile \<Rightarrow> string" where
  "profile_binding_digest L profile =
     (let parts = concat (map (measurement_lines L) (ap_measurements profile)) @
            map (\<lambda>r. ''oid:'' @ or_oid r @ ''='' @ to_lowercase L (or_value r)) (ap_required_oids profile);
          joined = join newline (sort parts)
      in hex_encode (sha256 (vl_crypto L) (str_bytes joined)))"

definition vault_op_binding :: "vault_lib \<Rightarrow> string \<Rightarrow> string \<Rightarrow> u32 \<Rightarrow> string \<Rightarrow> u64 \<Rightarrow> string" where
  "vault_op_binding L handle measurement_digest_hex policy_version nonce exp =
     (let input = VAULT_APPROVAL_DOMAIN @ newline @ handle @ newline @ measurement_digest_hex @ newline @
            show_word policy_version @ newline @ nonce @ newline @ show_word exp
      in vl_b64_encode L (sha256 (vl_crypto L) (str_bytes input)))"

section \<open>Who the caller is\<close>

datatype caller_role = RoleOwner | RoleManager | RoleAuditor | RoleTee

definition has_required_roles :: "oidc_claims \<Rightarrow> string list \<Rightarrow> bool" where
  "has_required_roles claims required_roles =
     (if required_roles = [] then True
      else list_all (\<lambda>r. list_ex (\<lambda>c. eq_ignore_ascii_case c r) (oc_roles claims)) required_roles)"

definition oidc_matches :: "principal \<Rightarrow> oidc_claims \<Rightarrow> bool" where
  "oidc_matches p claims =
     (case p of
        Oidc _ sub required_roles \<Rightarrow>
          if sub = [] then required_roles \<noteq> [] \<and> has_required_roles claims required_roles
          else sub = oc_sub claims \<and> has_required_roles claims required_roles
      | TeePrincipal _ \<Rightarrow> False
      | Fido2 _ _ \<Rightarrow> False)"

definition measurement_matches :: "vault_lib \<Rightarrow> quote_identity \<Rightarrow> measurement list \<Rightarrow> bool" where
  "measurement_matches L identity allowed =
     (let m = to_lowercase L (qi_measurement identity) in
      list_ex (\<lambda>am. case (am, qi_tee identity) of
          (Mrenclave s, Sgx) \<Rightarrow> to_lowercase L s = m
        | (TdxMeasurement a b c, Tdx) \<Rightarrow>
            (case qi_rtmr1 identity of
               None \<Rightarrow> False
             | Some v1 \<Rightarrow>
                 (case qi_rtmr2 identity of
                    None \<Rightarrow> False
                  | Some v2 \<Rightarrow> to_lowercase L a = m \<and> to_lowercase L b = to_lowercase L v1 \<and> to_lowercase L c = to_lowercase L v2))
        | _ \<Rightarrow> False) allowed)"

definition tee_matches ::
  "('s, 'x) vault_env \<Rightarrow> attestation_profile \<Rightarrow> bytes \<Rightarrow> peer_evidence option \<Rightarrow> ('s, 'x, bool) act" where
  "tee_matches E profile peer_der pev =
     (case pev of
        None \<Rightarrow> State_Monad.return False
      | Some pe \<Rightarrow>
          (case dissect_peer_cert (ve_lib E) peer_der (pe_quote pe) of
             Inl _ \<Rightarrow> State_Monad.return False
           | Inr evidence \<Rightarrow>
               (let urls = map as_url (ap_attestation_servers profile) in
                if urls = [] then State_Monad.return False
                else do {
                  verdicts \<leftarrow> verify_quote_statuses E (te_evidence evidence) urls;
                  State_Monad.return
                    (case verdicts of
                       Inl _ \<Rightarrow> False
                     | Inr vs \<Rightarrow>
                         list_all (\<lambda>v. tcb_status_acceptable (vr_tcb_status v) (ap_acceptable_tcb_statuses profile)) vs \<and>
                         (case parse_quote (te_evidence evidence) of
                            Inl _ \<Rightarrow> False
                          | Inr identity \<Rightarrow>
                              measurement_matches (ve_lib E) identity (ap_measurements profile) \<and>
                              list_all (\<lambda>req. list_ex (\<lambda>(oid, val). oid = or_oid req \<and> val = or_value req)
                                (te_oid_claims evidence)) (ap_required_oids profile)))
                })))"

text \<open>Positions in a list of principals, as the loops over \<open>enumerate()\<close> meet them.\<close>

fun find_index :: "('a \<Rightarrow> bool) \<Rightarrow> nat \<Rightarrow> 'a list \<Rightarrow> nat option" where
  "find_index P i [] = None"
| "find_index P i (x # xs) = (if P x then Some i else find_index P (Suc i) xs)"

definition resolve_oidc :: "key_policy \<Rightarrow> oidc_claims \<Rightarrow> (principal_ref \<times> caller_role) option" where
  "resolve_oidc policy claims =
     (let ps = kp_principals policy in
      if oidc_matches (ps_owner ps) claims then Some (RefOwner, RoleOwner)
      else case find_index (\<lambda>p. oidc_matches p claims) 0 (ps_managers ps) of
             Some i \<Rightarrow> Some (RefManager (word_of_nat i), RoleManager)
           | None \<Rightarrow>
               (case find_index (\<lambda>p. oidc_matches p claims) 0 (ps_auditors ps) of
                  Some i \<Rightarrow> Some (RefAuditor (word_of_nat i), RoleAuditor)
                | None \<Rightarrow> None))"

fun resolve_tee ::
  "('s, 'x) vault_env \<Rightarrow> bytes \<Rightarrow> peer_evidence option \<Rightarrow> nat \<Rightarrow> principal list \<Rightarrow> ('s, 'x, (principal_ref \<times> caller_role) option) act" where
  "resolve_tee E peer_der pev i [] = State_Monad.return None"
| "resolve_tee E peer_der pev i (TeePrincipal profile # ps) = do {
     ok \<leftarrow> tee_matches E profile peer_der pev;
     if ok then State_Monad.return (Some (RefTee (word_of_nat i), RoleTee)) else resolve_tee E peer_der pev (Suc i) ps
   }"
| "resolve_tee E peer_der pev i (_ # ps) = resolve_tee E peer_der pev (Suc i) ps"

definition resolve_caller ::
  "('s, 'x) vault_env \<Rightarrow> key_policy \<Rightarrow> request_context \<Rightarrow> ('s, 'x, (principal_ref \<times> caller_role) option) act" where
  "resolve_caller E policy ctx =
     (case Option.bind (rc_oidc_claims ctx) (resolve_oidc policy) of
        Some r \<Rightarrow> State_Monad.return (Some r)
      | None \<Rightarrow>
          (case rc_peer_cert_der ctx of
             None \<Rightarrow> State_Monad.return None
           | Some peer_der \<Rightarrow> resolve_tee E peer_der (rc_peer_evidence ctx) 0 (ps_tees (kp_principals policy))))"

section \<open>Conditions\<close>

text \<open>The loop over the approval tokens: the first that verifies is enough; otherwise the last error.\<close>

fun accept_token ::
  "('s, 'x) vault_env \<Rightarrow> string \<Rightarrow> operation \<Rightarrow> u32 \<Rightarrow> string option \<Rightarrow> u64 \<Rightarrow> u64 \<Rightarrow> string option \<Rightarrow> approval_token list \<Rightarrow>
    ('s, 'x, string + unit) act" where
  "accept_token E handle op mgr_idx distinct_from fresh now last_err [] =
     State_Monad.return (Inl (case last_err of
        Some _ \<Rightarrow> ''ManagerApproval: no token accepted''
      | None \<Rightarrow> ''ManagerApproval: no approval token supplied''))"
| "accept_token E handle op mgr_idx distinct_from fresh now last_err (token # approvals) = do {
     r \<leftarrow> verify_approval_token E token handle op mgr_idx distinct_from fresh now;
     case r of
       Inr _ \<Rightarrow> State_Monad.return (Inr ())
     | Inl e \<Rightarrow> accept_token E handle op mgr_idx distinct_from fresh now (Some e) approvals
   }"

definition check_step_up ::
  "vault_lib \<Rightarrow> string \<Rightarrow> oidc_claims option \<Rightarrow> op_binding option \<Rightarrow> u64 \<Rightarrow> string list \<Rightarrow> bool \<Rightarrow> u64 \<Rightarrow> string + unit" where
  "check_step_up L handle oidc binding now required_amr operation_bound fresh_for_seconds =
     (case oidc of
        None \<Rightarrow> Inl ''OidcStepUp: no OIDC bearer in request''
      | Some claims \<Rightarrow>
          if \<not> has_amr claims required_amr then Inl ''OidcStepUp: token amr does not satisfy required''
          else if 0 < fresh_for_seconds \<and> oc_iat claims = 0 then Inl ''OidcStepUp: token has no iat; cannot prove freshness''
          else if 0 < fresh_for_seconds \<and> fresh_for_seconds < saturating_sub now (oc_iat claims)
          then Inl ''OidcStepUp: token age exceeds fresh_for_seconds''
          else if \<not> operation_bound then Inr ()
          else case binding of
                 None \<Rightarrow> Inl ''OidcStepUp: operation_bound required but this operation carries no binding context''
               | Some b \<Rightarrow>
                   (case oc_vault_op claims of
                      None \<Rightarrow> Inl ''OidcStepUp: token has no vault_op binding claim''
                    | Some vault_op \<Rightarrow>
                        (case oc_nonce claims of
                           None \<Rightarrow> Inl ''OidcStepUp: token has no nonce claim''
                         | Some nonce \<Rightarrow>
                             let expected = vault_op_binding L handle (ob_measurement_digest_hex b) (ob_policy_version b) nonce (oc_exp claims)
                             in if vault_op \<noteq> expected then Inl ''OidcStepUp: vault_op does not bind this operation'' else Inr ())))"

definition check_condition ::
  "('s, 'x) vault_env \<Rightarrow> key_policy \<Rightarrow> operation \<Rightarrow> string \<Rightarrow> approval_token list \<Rightarrow> request_context \<Rightarrow> op_binding option \<Rightarrow>
    u64 \<Rightarrow> condition \<Rightarrow> ('s, 'x, string + unit) act" where
  "check_condition E policy op handle approvals ctx binding now cond =
     (case cond of
        TimeWindow not_before not_after \<Rightarrow>
          State_Monad.return
            (if not_before \<noteq> 0 \<and> now < not_before then Inl ''TimeWindow: now before not_before''
             else if not_after \<noteq> 0 \<and> not_after < now then Inl ''TimeWindow: now after not_after''
             else Inr ())
      | AttestationMatches profile \<Rightarrow>
          (case rc_peer_cert_der ctx of
             None \<Rightarrow> State_Monad.return (Inl ''AttestationMatches: no peer RA-TLS cert in request'')
           | Some peer \<Rightarrow> do {
               ok \<leftarrow> tee_matches E profile peer (rc_peer_evidence ctx);
               State_Monad.return (if ok then Inr () else Inl ''AttestationMatches: peer does not match profile'')
             })
      | ManagerApproval manager fresh_for_seconds \<Rightarrow>
          (let managers = ps_managers (kp_principals policy) in
           if \<not> unat manager < length managers then State_Monad.return (Inl ''ManagerApproval: manager index out of range'')
           else case managers ! unat manager of
                  TeePrincipal _ \<Rightarrow> State_Monad.return (Inl ''ManagerApproval: only OIDC managers can issue approval tokens'')
                | Fido2 _ _ \<Rightarrow> State_Monad.return (Inl ''ManagerApproval: only OIDC managers can issue approval tokens'')
                | Oidc _ mgr_sub _ \<Rightarrow>
                    if mgr_sub = [] then
                      (case rc_oidc_claims ctx of
                         None \<Rightarrow> State_Monad.return (Inl ''ManagerApproval: role-based co-sign requires an authenticated OIDC proposer'')
                       | Some c \<Rightarrow> accept_token E handle op manager (Some (oc_sub c)) fresh_for_seconds now None approvals)
                    else accept_token E handle op manager None fresh_for_seconds now None approvals)
      | OidcStepUp required_amr operation_bound fresh_for_seconds \<Rightarrow>
          State_Monad.return
            (check_step_up (ve_lib E) handle (rc_oidc_claims ctx) binding now required_amr operation_bound fresh_for_seconds))"

fun check_conditions ::
  "('s, 'x) vault_env \<Rightarrow> key_policy \<Rightarrow> operation \<Rightarrow> string \<Rightarrow> approval_token list \<Rightarrow> request_context \<Rightarrow> op_binding option \<Rightarrow>
    u64 \<Rightarrow> condition list \<Rightarrow> ('s, 'x, string + unit) act" where
  "check_conditions E policy op handle approvals ctx binding now [] = State_Monad.return (Inr ())"
| "check_conditions E policy op handle approvals ctx binding now (cond # conds) = do {
     r \<leftarrow> check_condition E policy op handle approvals ctx binding now cond;
     case r of
       Inl e \<Rightarrow> State_Monad.return (Inl e)
     | Inr _ \<Rightarrow> check_conditions E policy op handle approvals ctx binding now conds
   }"

definition evaluate_conditions ::
  "('s, 'x) vault_env \<Rightarrow> condition list \<Rightarrow> key_policy \<Rightarrow> operation \<Rightarrow> string \<Rightarrow> approval_token list \<Rightarrow> request_context \<Rightarrow>
    op_binding option \<Rightarrow> ('s, 'x, string + unit) act" where
  "evaluate_conditions E conds policy op handle approvals ctx binding =
     do { now \<leftarrow> now_secs E; check_conditions E policy op handle approvals ctx binding now conds }"

section \<open>Operations\<close>

definition rule_grants_to :: "operation_rule \<Rightarrow> principal_ref \<Rightarrow> bool" where
  "rule_grants_to rule caller =
     list_ex (\<lambda>p. case (p, caller) of
         (RefOwner, RefOwner) \<Rightarrow> True
       | (RefManager a, RefManager b) \<Rightarrow> a = b
       | (RefAuditor a, RefAuditor b) \<Rightarrow> a = b
       | (RefTee a, RefTee b) \<Rightarrow> a = b
       | (RefAnyTee, RefTee _) \<Rightarrow> True
       | _ \<Rightarrow> False) (ru_principals rule)"

fun try_rules ::
  "('s, 'x) vault_env \<Rightarrow> key_policy \<Rightarrow> operation \<Rightarrow> string \<Rightarrow> approval_token list \<Rightarrow> request_context \<Rightarrow> op_binding option \<Rightarrow>
    principal_ref \<Rightarrow> string option \<Rightarrow> operation_rule list \<Rightarrow> ('s, 'x, string + unit) act" where
  "try_rules E policy op handle approvals ctx binding caller last_err [] =
     State_Monad.return (Inl (case last_err of
        Some e \<Rightarrow> ''no OperationRule grants the operation to caller with all conditions met: '' @ e
      | None \<Rightarrow> ''caller is in policy.principals but no OperationRule grants the operation''))"
| "try_rules E policy op handle approvals ctx binding caller last_err (rule # rules) =
     (if op \<notin> set (ru_ops rule) \<or> \<not> rule_grants_to rule caller
      then try_rules E policy op handle approvals ctx binding caller last_err rules
      else do {
        r \<leftarrow> evaluate_conditions E (ru_requires rule) policy op handle approvals ctx binding;
        case r of
          Inr _ \<Rightarrow> State_Monad.return (Inr ())
        | Inl e \<Rightarrow> try_rules E policy op handle approvals ctx binding caller (Some e) rules
      })"

definition evaluate_op ::
  "('s, 'x) vault_env \<Rightarrow> key_policy \<Rightarrow> operation \<Rightarrow> string \<Rightarrow> approval_token list \<Rightarrow> request_context \<Rightarrow> op_binding option \<Rightarrow>
    ('s, 'x, string + unit) act" where
  "evaluate_op E policy op handle approvals ctx binding = do {
     who \<leftarrow> resolve_caller E policy ctx;
     case who of
       None \<Rightarrow> State_Monad.return (Inl ''caller is not in policy.principals (no OIDC subject or RA-TLS TEE matches the PrincipalSet of the key)'')
     | Some (caller_ref, _) \<Rightarrow> try_rules E policy op handle approvals ctx binding caller_ref None (kp_operations policy)
   }"

section \<open>Policy updates\<close>

definition key_required_oids :: "key_policy \<Rightarrow> string list" where
  "key_required_oids policy =
     (case List.map_filter (\<lambda>p. case p of TeePrincipal profile \<Rightarrow> Some (ap_required_oids profile) | _ \<Rightarrow> None)
             (ps_tees (kp_principals policy)) of
        [] \<Rightarrow> []
      | first # profiles \<Rightarrow>
          fold (\<lambda>reqs acc. filter (\<lambda>oid. list_ex (\<lambda>r. or_oid r = oid) reqs) acc) profiles (map or_oid first))"

definition diff_policy_fields :: "key_policy \<Rightarrow> key_policy \<Rightarrow> policy_field list" where
  "diff_policy_fields old new =
     (let p = kp_principals old; q = kp_principals new in
      (if ps_owner p \<noteq> ps_owner q then [FieldOwner] else []) @
      (if ps_managers p \<noteq> ps_managers q then [FieldManagers] else []) @
      (if ps_auditors p \<noteq> ps_auditors q then [FieldAuditors] else []) @
      (if ps_tees p \<noteq> ps_tees q then [FieldTees] else []) @
      (if kp_operations old \<noteq> kp_operations new then [FieldOperations] else []) @
      (if kp_lifecycle old \<noteq> kp_lifecycle new then [FieldLifecycle] else []) @
      (if kp_mutability old \<noteq> kp_mutability new then [FieldMutability] else []))"

fun check_fields :: "mutability \<Rightarrow> policy_field list \<Rightarrow> policy_field list \<Rightarrow> string + unit" where
  "check_fields m allowed [] = Inr ()"
| "check_fields m allowed (field # rest) =
     (if field \<in> set (mu_immutable m) then Inl ''policy field is immutable''
      else if field \<notin> set allowed then Inl ''caller role is not allowed to change policy field''
      else check_fields m allowed rest)"

definition evaluate_policy_update :: "key_policy \<Rightarrow> key_policy \<Rightarrow> caller_role \<Rightarrow> string + unit" where
  "evaluate_policy_update old new role =
     (let changed = diff_policy_fields old new; m = kp_mutability old in
      if changed = [] then Inr ()
      else case (case role of
                   RoleOwner \<Rightarrow> Inr (mu_owner_can m)
                 | RoleManager \<Rightarrow> Inr (mu_manager_can m)
                 | RoleAuditor \<Rightarrow> Inl ''caller role is not allowed to change any policy field''
                 | RoleTee \<Rightarrow> Inl ''caller role is not allowed to change any policy field'') of
             Inl e \<Rightarrow> Inl e
           | Inr allowed \<Rightarrow>
               (case check_fields m allowed changed of
                  Inl e \<Rightarrow> Inl e
                | Inr _ \<Rightarrow>
                    if \<not> list_all (\<lambda>oid. list_ex (\<lambda>o'. o' = oid) (key_required_oids new)) (key_required_oids old)
                    then Inl ''required OID cannot be dropped: required_oids are append/strengthen-only''
                    else if lc_auto_migrate (kp_lifecycle old) \<noteq> lc_auto_migrate (kp_lifecycle new) \<and> role \<noteq> RoleOwner
                    then Inl ''lifecycle.auto_migrate_to_next_attestation_profile may only be changed by the key owner''
                    else Inr ()))"

definition same_elements :: "'a list \<Rightarrow> 'a list \<Rightarrow> bool" where
  "same_elements a b \<longleftrightarrow> list_all (\<lambda>x. x \<in> set b) a \<and> list_all (\<lambda>x. x \<in> set a) b"

definition family :: "measurement list \<Rightarrow> bool option" where
  "family ms =
     (case map (\<lambda>m. case m of Mrenclave _ \<Rightarrow> True | _ \<Rightarrow> False) ms of
        [] \<Rightarrow> None
      | first # rest \<Rightarrow> if list_all (\<lambda>f. f = first) rest then Some first else None)"

definition runtime_only_delta :: "attestation_profile \<Rightarrow> attestation_profile \<Rightarrow> bool" where
  "runtime_only_delta staged active =
     (if \<not> same_elements (ap_required_oids staged) (ap_required_oids active) then False
      else if \<not> same_elements (ap_attestation_servers staged) (ap_attestation_servers active) then False
      else if \<not> same_elements (ap_acceptable_tcb_statuses staged) (ap_acceptable_tcb_statuses active) then False
      else case (family (ap_measurements staged), family (ap_measurements active)) of
             (Some a, Some b) \<Rightarrow> if a = b then ap_measurements staged \<noteq> ap_measurements active else False
           | _ \<Rightarrow> False)"

end
