(* ===== verification/Vault_Module.thy ===== *)
theory Vault_Module
  imports Vault_Policy
begin

text \<open>
  The vault module (\<open>crates/enclave-os-vault/src/lib.rs\<close>): where records, owner indexes and audit
  entries are stored, the normalisation of policies, one definition per request handler, and the
  dispatcher. A handler that the source lets return early is a nested case analysis here; the record a
  handler works on is passed along explicitly.
\<close>

section \<open>Layout of the store\<close>

definition record_key :: "string \<Rightarrow> bytes" where
  "record_key handle = str_bytes (''key:'' @ handle)"

definition owner_index_key :: "string \<Rightarrow> bytes" where
  "owner_index_key owner_sub = str_bytes (''index:'' @ owner_sub)"

definition add_to_owner_index :: "('s, 'x) vault_env \<Rightarrow> string \<Rightarrow> string \<Rightarrow> ('s, 'x, string + unit) act" where
  "add_to_owner_index E owner_sub handle = do {
     got \<leftarrow> kv_get E (owner_index_key owner_sub);
     let handles = (case got of
         Inr (Some b) \<Rightarrow> (case vl_index_of (ve_lib E) b of Some hs \<Rightarrow> hs | None \<Rightarrow> [])
       | _ \<Rightarrow> []);
     let handles = (if \<not> list_ex (\<lambda>h. h = handle) handles then handles @ [handle] else handles);
     case vl_index_to (ve_lib E) handles of
       None \<Rightarrow> State_Monad.return (Inl ''serialise index'')
     | Some bs \<Rightarrow> kv_put E (owner_index_key owner_sub) bs
   }"

definition remove_from_owner_index :: "('s, 'x) vault_env \<Rightarrow> string \<Rightarrow> string \<Rightarrow> ('s, 'x, string + unit) act" where
  "remove_from_owner_index E owner_sub handle = do {
     got \<leftarrow> kv_get E (owner_index_key owner_sub);
     case got of
       Inr (Some b) \<Rightarrow>
         (let handles = (case vl_index_of (ve_lib E) b of Some hs \<Rightarrow> hs | None \<Rightarrow> []);
              handles = filter (\<lambda>h. h \<noteq> handle) handles
          in case vl_index_to (ve_lib E) handles of
               None \<Rightarrow> State_Monad.return (Inl ''serialise index'')
             | Some bs \<Rightarrow> kv_put E (owner_index_key owner_sub) bs)
     | _ \<Rightarrow> State_Monad.return (Inr ())
   }"

definition load_record :: "('s, 'x) vault_env \<Rightarrow> string \<Rightarrow> ('s, 'x, string + key_record) act" where
  "load_record E handle = do {
     ready \<leftarrow> kv_ready;
     if \<not> ready then State_Monad.return (Inl ''kv store not initialised'')
     else do {
       got \<leftarrow> kv_get E (record_key handle);
       State_Monad.return
         (case got of
            Inl _ \<Rightarrow> Inl ''kv get failed''
          | Inr None \<Rightarrow> Inl ''key not found''
          | Inr (Some bs) \<Rightarrow> (case vl_record_of (ve_lib E) bs of None \<Rightarrow> Inl ''corrupt record'' | Some r \<Rightarrow> Inr r))
     }
   }"

definition audit_and_save ::
  "('s, 'x) vault_env \<Rightarrow> key_record \<Rightarrow> string \<Rightarrow> string \<Rightarrow> audit_decision \<Rightarrow> string \<Rightarrow> ('s, 'x, (string + unit) \<times> key_record) act" where
  "audit_and_save E r op caller decision reason = do {
     ready \<leftarrow> kv_ready;
     if \<not> ready then State_Monad.return (Inl ''kv store not initialised'', r)
     else do {
       appended \<leftarrow> audit_append E r op caller decision reason;
       case appended of
         (Inl _, r) \<Rightarrow> State_Monad.return (Inl ''audit append'', r)
       | (Inr _, r) \<Rightarrow>
           (case vl_record_to (ve_lib E) r of
              None \<Rightarrow> State_Monad.return (Inl ''serialise record'', r)
            | Some bs \<Rightarrow> do {
                saved \<leftarrow> kv_put E (record_key (kr_handle r)) bs;
                State_Monad.return (case saved of Inl _ \<Rightarrow> Inl ''kv put failed'' | Inr _ \<Rightarrow> Inr (), r)
              })
     }
   }"

definition caller_str :: "request_context \<Rightarrow> string" where
  "caller_str ctx =
     (case rc_oidc_claims ctx of
        Some c \<Rightarrow> ''oidc:'' @ oc_sub c
      | None \<Rightarrow> if rc_peer_cert_der ctx \<noteq> None then ''tee'' else ''anonymous'')"

section \<open>Normalisation\<close>

definition normalise_measurement :: "vault_lib \<Rightarrow> measurement \<Rightarrow> measurement" where
  "normalise_measurement L m =
     (case m of
        Mrenclave s \<Rightarrow> Mrenclave (to_lowercase L s)
      | TdxMeasurement a b c \<Rightarrow> TdxMeasurement (to_lowercase L a) (to_lowercase L b) (to_lowercase L c))"

definition normalise_profile :: "vault_lib \<Rightarrow> attestation_profile \<Rightarrow> attestation_profile" where
  "normalise_profile L p =
     p\<lparr>ap_measurements := map (normalise_measurement L) (ap_measurements p),
       ap_required_oids := map (\<lambda>r. r\<lparr>or_value := to_lowercase L (or_value r)\<rparr>) (ap_required_oids p),
       ap_attestation_servers :=
         map (\<lambda>s. s\<lparr>as_pinned_spki := map_option make_ascii_lowercase (as_pinned_spki s)\<rparr>) (ap_attestation_servers p)\<rparr>"

definition normalise_principal :: "vault_lib \<Rightarrow> principal \<Rightarrow> principal" where
  "normalise_principal L p = (case p of TeePrincipal profile \<Rightarrow> TeePrincipal (normalise_profile L profile) | _ \<Rightarrow> p)"

definition normalise_ttl :: "u64 \<Rightarrow> u64" where
  "normalise_ttl ttl =
     (let ttl = (if ttl = 0 then DEFAULT_KEY_TTL_SECONDS else ttl)
      in if MAX_KEY_TTL_SECONDS < ttl then MAX_KEY_TTL_SECONDS else ttl)"

definition normalise_policy :: "vault_lib \<Rightarrow> key_policy \<Rightarrow> key_policy" where
  "normalise_policy L policy =
     (let lc = kp_lifecycle policy; ps = kp_principals policy in
      policy\<lparr>kp_lifecycle := lc\<lparr>lc_ttl_seconds := normalise_ttl (lc_ttl_seconds lc)\<rparr>,
             kp_principals := ps\<lparr>ps_owner := normalise_principal L (ps_owner ps),
               ps_managers := map (normalise_principal L) (ps_managers ps),
               ps_auditors := map (normalise_principal L) (ps_auditors ps),
               ps_tees := map (normalise_principal L) (ps_tees ps)\<rparr>\<rparr>)"

section \<open>Helpers\<close>

definition expired :: "('s, 'x) vault_env \<Rightarrow> key_record \<Rightarrow> ('s, 'x, bool) act" where
  "expired E r = do { now \<leftarrow> now_secs E; State_Monad.return (kr_expires_at r < now) }"

definition owner_oidc_sub :: "principal \<Rightarrow> string option" where
  "owner_oidc_sub owner = (case owner of Oidc _ sub _ \<Rightarrow> Some sub | TeePrincipal _ \<Rightarrow> None | Fido2 _ _ \<Rightarrow> None)"

fun op_name :: "operation \<Rightarrow> string" where
  "op_name OpExportKey = ''ExportKey''"
| "op_name OpDeleteKey = ''DeleteKey''"
| "op_name OpUpdatePolicy = ''UpdatePolicy''"
| "op_name OpWrap = ''Wrap''"
| "op_name OpUnwrap = ''Unwrap''"
| "op_name OpSign = ''Sign''"
| "op_name OpMac = ''Mac''"
| "op_name OpPromoteProfile = ''PromoteProfile''"

definition vault_err :: "string \<Rightarrow> ('s, 'x, vault_response) act" where
  "vault_err e = State_Monad.return (VaultError e)"

text \<open>A refusal that is written to the log; the outcome of the write is ignored.\<close>

definition deny ::
  "('s, 'x) vault_env \<Rightarrow> key_record \<Rightarrow> string \<Rightarrow> string \<Rightarrow> string \<Rightarrow> ('s, 'x, vault_response) act" where
  "deny E r op caller e = do { _ \<leftarrow> audit_and_save E r op caller Denied e; vault_err e }"

section \<open>Key management\<close>

definition handle_create ::
  "('s, 'x) vault_env \<Rightarrow> string \<Rightarrow> string \<Rightarrow> string \<Rightarrow> request_context \<Rightarrow> ('s, 'x, vault_response) act" where
  "handle_create E handle material_b64 grant_jwt ctx =
     (let L = ve_lib E in
      if handle = [] then vault_err ''handle must not be empty''
      else if starts_with handle ''__'' then vault_err ''handles starting with __ are reserved for internal use''
      else do {
        now \<leftarrow> now_secs E;
        g \<leftarrow> verify_grant E grant_jwt ctx now;
        case g of Inl e \<Rightarrow> vault_err e | Inr grant \<Rightarrow>
        if handle \<noteq> kg_scope grant \<and> \<not> starts_with handle (kg_scope grant @ ''/'')
        then vault_err ''handle is outside the grant scope''
        else if owner_oidc_sub (ps_owner (kp_principals (kg_policy grant))) \<noteq> Some (kg_sub grant)
        then vault_err ''grant policy owner does not match the grant subject''
        else case vl_b64_decode L material_b64 of None \<Rightarrow> vault_err ''bad base64'' | Some material \<Rightarrow>
        if material = [] then vault_err ''material must not be empty''
        else case validate_material L (kg_key_type grant) material of Inl e \<Rightarrow> vault_err e | Inr public_key \<Rightarrow>
        let policy = normalise_policy L (kg_policy grant);
            expires_at = saturating_add now (lc_ttl_seconds (kp_lifecycle policy))
        in do {
          ready \<leftarrow> kv_ready;
          if \<not> ready then vault_err ''kv store not initialised'' else do {
          existing \<leftarrow> kv_get E (record_key handle);
          case existing of
            Inr (Some _) \<Rightarrow> vault_err ''handle already exists''
          | Inl _ \<Rightarrow> vault_err ''kv get failed''
          | Inr None \<Rightarrow>
              (let r = \<lparr>kr_handle = handle, kr_key_type = kg_key_type grant, kr_exportable = kg_exportable grant,
                        kr_material = material, kr_public_key = public_key, kr_policy = policy, kr_policy_version = 1,
                        kr_created_at = now, kr_expires_at = expires_at, kr_pending_profiles = [],
                        kr_audit_next_seq = 0, kr_next_pending_id = 0\<rparr>
               in do {
                 saved \<leftarrow> audit_and_save E r ''CreateKey'' (caller_str ctx) Allowed (''owner='' @ kg_sub grant);
                 case saved of
                   (Inl e, _) \<Rightarrow> vault_err e
                 | (Inr _, _) \<Rightarrow> do {
                     indexed \<leftarrow> add_to_owner_index E (kg_sub grant) handle;
                     case indexed of
                       Inl _ \<Rightarrow> vault_err ''kv owner index''
                     | Inr _ \<Rightarrow> State_Monad.return (KeyCreated handle expires_at)
                   }
               })
          }
        }
      })"

definition handle_export ::
  "('s, 'x) vault_env \<Rightarrow> string \<Rightarrow> approval_token list \<Rightarrow> request_context \<Rightarrow> ('s, 'x, vault_response) act" where
  "handle_export E handle approvals ctx = do {
     loaded \<leftarrow> load_record E handle;
     case loaded of Inl e \<Rightarrow> vault_err e | Inr r \<Rightarrow> do {
     old \<leftarrow> expired E r;
     if old then vault_err ''key has expired''
     else if \<not> kr_exportable r then vault_err ''key is not exportable''
     else do {
       verdict \<leftarrow> evaluate_op E (kr_policy r) OpExportKey handle approvals ctx
         (Some \<lparr>ob_measurement_digest_hex = [], ob_policy_version = kr_policy_version r\<rparr>);
       case verdict of
         Inr _ \<Rightarrow> do {
           _ \<leftarrow> audit_and_save E r ''ExportKey'' (caller_str ctx) Allowed [];
           State_Monad.return (KeyMaterial (kr_material r) (kr_expires_at r))
         }
       | Inl e \<Rightarrow> deny E r ''ExportKey'' (caller_str ctx) e
     } }
   }"

definition handle_delete ::
  "('s, 'x) vault_env \<Rightarrow> string \<Rightarrow> approval_token list \<Rightarrow> request_context \<Rightarrow> ('s, 'x, vault_response) act" where
  "handle_delete E handle approvals ctx = do {
     loaded \<leftarrow> load_record E handle;
     case loaded of Inl e \<Rightarrow> vault_err e | Inr r \<Rightarrow> do {
     verdict \<leftarrow> evaluate_op E (kr_policy r) OpDeleteKey handle approvals ctx None;
     case verdict of Inl e \<Rightarrow> deny E r ''DeleteKey'' (caller_str ctx) e | Inr _ \<Rightarrow>
     case owner_oidc_sub (ps_owner (kp_principals (kr_policy r))) of
       None \<Rightarrow> vault_err ''policy owner is not OIDC; cannot index''
     | Some owner_sub \<Rightarrow> do {
         _ \<leftarrow> audit_and_save E r ''DeleteKey'' (caller_str ctx) Allowed [];
         ready \<leftarrow> kv_ready;
         if \<not> ready then vault_err ''kv store not initialised'' else do {
         deleted \<leftarrow> kv_delete E (record_key handle);
         case deleted of
           Inl _ \<Rightarrow> vault_err ''kv delete failed''
         | Inr _ \<Rightarrow> do {
             _ \<leftarrow> remove_from_owner_index E owner_sub handle;
             State_Monad.return KeyDeleted
           }
         }
       }
     }
   }"

definition handle_update_policy ::
  "('s, 'x) vault_env \<Rightarrow> string \<Rightarrow> key_policy \<Rightarrow> approval_token list \<Rightarrow> request_context \<Rightarrow> ('s, 'x, vault_response) act" where
  "handle_update_policy E handle new_policy approvals ctx = do {
     loaded \<leftarrow> load_record E handle;
     case loaded of Inl e \<Rightarrow> vault_err e | Inr r \<Rightarrow> do {
     old \<leftarrow> expired E r;
     if old then vault_err ''key has expired'' else do {
     verdict \<leftarrow> evaluate_op E (kr_policy r) OpUpdatePolicy handle approvals ctx None;
     case verdict of Inl e \<Rightarrow> deny E r ''UpdatePolicy'' (caller_str ctx) e | Inr _ \<Rightarrow> do {
     who \<leftarrow> resolve_caller E (kr_policy r) ctx;
     case who of None \<Rightarrow> vault_err ''caller is not in policy.principals'' | Some (_, role) \<Rightarrow>
     let new_policy = normalise_policy (ve_lib E) new_policy in
     case evaluate_policy_update (kr_policy r) new_policy role of
       Inl e \<Rightarrow> deny E r ''UpdatePolicy'' (caller_str ctx) e
     | Inr _ \<Rightarrow> do {
         saved \<leftarrow> audit_and_save E
           (r\<lparr>kr_policy := new_policy, kr_policy_version := saturating_add (kr_policy_version r) 1\<rparr>)
           ''UpdatePolicy'' (caller_str ctx) Allowed [];
         case saved of
           (Inl e, _) \<Rightarrow> vault_err e
         | (Inr _, r') \<Rightarrow> State_Monad.return (PolicyUpdated (kr_policy_version r'))
       }
     } } }
   }"

text \<open>The prelude of the read-only requests: the record, if the caller is one of its principals.\<close>

definition load_for_principal ::
  "('s, 'x) vault_env \<Rightarrow> string \<Rightarrow> request_context \<Rightarrow> ('s, 'x, string + key_record) act" where
  "load_for_principal E handle ctx = do {
     loaded \<leftarrow> load_record E handle;
     case loaded of Inl e \<Rightarrow> State_Monad.return (Inl e) | Inr r \<Rightarrow> do {
       who \<leftarrow> resolve_caller E (kr_policy r) ctx;
       State_Monad.return (if who = None then Inl ''caller is not in policy.principals'' else Inr r)
     }
   }"

definition handle_get_policy :: "('s, 'x) vault_env \<Rightarrow> string \<Rightarrow> request_context \<Rightarrow> ('s, 'x, vault_response) act" where
  "handle_get_policy E handle ctx = do {
     loaded \<leftarrow> load_for_principal E handle ctx;
     State_Monad.return (case loaded of Inl e \<Rightarrow> VaultError e | Inr r \<Rightarrow> Policy (kr_policy r) (kr_policy_version r))
   }"

definition handle_get_info :: "('s, 'x) vault_env \<Rightarrow> string \<Rightarrow> request_context \<Rightarrow> ('s, 'x, vault_response) act" where
  "handle_get_info E handle ctx = do {
     loaded \<leftarrow> load_for_principal E handle ctx;
     State_Monad.return (case loaded of Inl e \<Rightarrow> VaultError e | Inr r \<Rightarrow>
       KeyInfo \<lparr>ki_handle = kr_handle r, ki_key_type = kr_key_type r, ki_exportable = kr_exportable r,
                ki_created_at = kr_created_at r, ki_expires_at = kr_expires_at r,
                ki_policy_version = kr_policy_version r, ki_public_key = kr_public_key r\<rparr>)
   }"

fun list_entries :: "('s, 'x) vault_env \<Rightarrow> string list \<Rightarrow> ('s, 'x, key_list_entry list) act" where
  "list_entries E [] = State_Monad.return []"
| "list_entries E (handle # handles) = do {
     got \<leftarrow> kv_get E (record_key handle);
     keys \<leftarrow> list_entries E handles;
     State_Monad.return
       (case got of
          Inr (Some bs) \<Rightarrow>
            (case vl_record_of (ve_lib E) bs of
               Some r \<Rightarrow> \<lparr>kl_handle = kr_handle r, kl_key_type = kr_key_type r, kl_expires_at = kr_expires_at r\<rparr> # keys
             | None \<Rightarrow> keys)
        | _ \<Rightarrow> keys)
   }"

definition handle_list :: "('s, 'x) vault_env \<Rightarrow> request_context \<Rightarrow> ('s, 'x, vault_response) act" where
  "handle_list E ctx =
     (case rc_oidc_claims ctx of
        None \<Rightarrow> vault_err ''OIDC authentication required to list keys''
      | Some claims \<Rightarrow> do {
          ready \<leftarrow> kv_ready;
          if \<not> ready then vault_err ''kv store not initialised'' else do {
          got \<leftarrow> kv_get E (owner_index_key (oc_sub claims));
          case got of Inl _ \<Rightarrow> vault_err ''kv index read'' | Inr idx \<Rightarrow> do {
            keys \<leftarrow> list_entries E
              (case idx of Some b \<Rightarrow> (case vl_index_of (ve_lib E) b of Some hs \<Rightarrow> hs | None \<Rightarrow> []) | None \<Rightarrow> []);
            State_Monad.return (KeyList keys)
          } }
        })"


section \<open>Operations with a key\<close>

definition require_op ::
  "('s, 'x) vault_env \<Rightarrow> string \<Rightarrow> operation \<Rightarrow> key_type \<Rightarrow> approval_token list \<Rightarrow> request_context \<Rightarrow> ('s, 'x, string + key_record) act" where
  "require_op E handle op expect_type approvals ctx = do {
     loaded \<leftarrow> load_record E handle;
     case loaded of Inl e \<Rightarrow> State_Monad.return (Inl e) | Inr r \<Rightarrow> do {
     old \<leftarrow> expired E r;
     if old then do {
       _ \<leftarrow> audit_and_save E r (op_name op) (caller_str ctx) Denied ''key has expired'';
       State_Monad.return (Inl ''key has expired'')
     }
     else if kr_key_type r \<noteq> expect_type then do {
       _ \<leftarrow> audit_and_save E r (op_name op) (caller_str ctx) Denied ''key has another type than the op requires'';
       State_Monad.return (Inl ''key has another type than the op requires'')
     }
     else do {
       verdict \<leftarrow> evaluate_op E (kr_policy r) op handle approvals ctx None;
       case verdict of
         Inl e \<Rightarrow> do {
           _ \<leftarrow> audit_and_save E r (op_name op) (caller_str ctx) Denied e;
           State_Monad.return (Inl e)
         }
       | Inr _ \<Rightarrow> do {
           saved \<leftarrow> audit_and_save E r (op_name op) (caller_str ctx) Allowed [];
           State_Monad.return (case saved of (Inl e, _) \<Rightarrow> Inl e | (Inr _, r') \<Rightarrow> Inr r')
         }
     } }
   }"

definition decode_opt :: "vault_lib \<Rightarrow> string option \<Rightarrow> bytes option option" where
  "decode_opt L s = (case s of None \<Rightarrow> Some None | Some t \<Rightarrow> map_option Some (vl_b64_decode L t))"

definition handle_wrap ::
  "('s, 'x) vault_env \<Rightarrow> string \<Rightarrow> string \<Rightarrow> string option \<Rightarrow> string option \<Rightarrow> approval_token list \<Rightarrow> request_context \<Rightarrow>
    ('s, 'x, vault_response) act" where
  "handle_wrap E handle plaintext_b64 aad_b64 iv_b64 approvals ctx = do {
     got \<leftarrow> require_op E handle OpWrap Aes256GcmKey approvals ctx;
     case got of Inl e \<Rightarrow> vault_err e | Inr r \<Rightarrow>
     case vl_b64_decode (ve_lib E) plaintext_b64 of None \<Rightarrow> vault_err ''plaintext base64'' | Some plaintext \<Rightarrow>
     case decode_opt (ve_lib E) aad_b64 of None \<Rightarrow> vault_err ''aad base64'' | Some aad \<Rightarrow>
     case decode_opt (ve_lib E) iv_b64 of None \<Rightarrow> vault_err ''iv base64'' | Some iv \<Rightarrow> do {
       sealed \<leftarrow> aes_gcm_seal E (kr_material r) plaintext (case aad of None \<Rightarrow> [] | Some a \<Rightarrow> a) iv;
       State_Monad.return (case sealed of Inl e \<Rightarrow> VaultError e | Inr (ciphertext, iv) \<Rightarrow> Wrapped ciphertext iv)
     }
   }"

definition handle_unwrap ::
  "('s, 'x) vault_env \<Rightarrow> string \<Rightarrow> string \<Rightarrow> string \<Rightarrow> string option \<Rightarrow> approval_token list \<Rightarrow> request_context \<Rightarrow>
    ('s, 'x, vault_response) act" where
  "handle_unwrap E handle ciphertext_b64 iv_b64 aad_b64 approvals ctx = do {
     got \<leftarrow> require_op E handle OpUnwrap Aes256GcmKey approvals ctx;
     case got of Inl e \<Rightarrow> vault_err e | Inr r \<Rightarrow>
     case vl_b64_decode (ve_lib E) ciphertext_b64 of None \<Rightarrow> vault_err ''ciphertext base64'' | Some ciphertext \<Rightarrow>
     case vl_b64_decode (ve_lib E) iv_b64 of None \<Rightarrow> vault_err ''iv base64'' | Some iv \<Rightarrow>
     case decode_opt (ve_lib E) aad_b64 of None \<Rightarrow> vault_err ''aad base64'' | Some aad \<Rightarrow>
       State_Monad.return
         (case aes_gcm_open (ve_lib E) (kr_material r) ciphertext iv (case aad of None \<Rightarrow> [] | Some a \<Rightarrow> a) of
            Inl e \<Rightarrow> VaultError e
          | Inr plaintext \<Rightarrow> Unwrapped plaintext)
   }"

definition handle_sign ::
  "('s, 'x) vault_env \<Rightarrow> string \<Rightarrow> string \<Rightarrow> bool \<Rightarrow> approval_token list \<Rightarrow> request_context \<Rightarrow> ('s, 'x, vault_response) act" where
  "handle_sign E handle message_b64 prehashed approvals ctx = do {
     got \<leftarrow> require_op E handle OpSign P256SigningKey approvals ctx;
     case got of Inl e \<Rightarrow> vault_err e | Inr r \<Rightarrow>
     case vl_b64_decode (ve_lib E) message_b64 of None \<Rightarrow> vault_err ''message base64'' | Some message \<Rightarrow> do {
       result \<leftarrow> (if prehashed then State_Monad.return (p256_sign_prehash (ve_lib E) (kr_material r) message)
                  else p256_sign E (kr_material r) message);
       State_Monad.return (case result of Inl e \<Rightarrow> VaultError e | Inr signature \<Rightarrow> Signature signature ''ES256'')
     }
   }"

definition handle_mac ::
  "('s, 'x) vault_env \<Rightarrow> string \<Rightarrow> string \<Rightarrow> approval_token list \<Rightarrow> request_context \<Rightarrow> ('s, 'x, vault_response) act" where
  "handle_mac E handle message_b64 approvals ctx = do {
     got \<leftarrow> require_op E handle OpMac HmacSha256Key approvals ctx;
     case got of Inl e \<Rightarrow> vault_err e | Inr r \<Rightarrow>
     case vl_b64_decode (ve_lib E) message_b64 of None \<Rightarrow> vault_err ''message base64'' | Some message \<Rightarrow>
       State_Monad.return (MacTag (hmac_sha256 (vl_crypto (ve_lib E)) (kr_material r) message) ''HMAC-SHA-256'')
   }"

section \<open>Approvals and the audit log\<close>

definition approval_ttl :: "u64 \<Rightarrow> u64" where
  "approval_ttl ttl_seconds =
     (if ttl_seconds = 0 then DEFAULT_APPROVAL_TOKEN_TTL_SECONDS
      else if MAX_APPROVAL_TOKEN_TTL_SECONDS < ttl_seconds then MAX_APPROVAL_TOKEN_TTL_SECONDS
      else ttl_seconds)"

definition handle_issue_approval ::
  "('s, 'x) vault_env \<Rightarrow> string \<Rightarrow> operation \<Rightarrow> u64 \<Rightarrow> request_context \<Rightarrow> ('s, 'x, vault_response) act" where
  "handle_issue_approval E handle op ttl_seconds ctx = do {
     loaded \<leftarrow> load_record E handle;
     case loaded of Inl e \<Rightarrow> vault_err e | Inr r \<Rightarrow>
     case rc_oidc_claims ctx of
       None \<Rightarrow> do {
         _ \<leftarrow> audit_and_save E r ''IssueApprovalToken'' ''anonymous'' Denied ''no OIDC claims'';
         vault_err ''OIDC authentication required to issue approval tokens''
       }
     | Some claims \<Rightarrow>
         (case find_index (\<lambda>p. oidc_matches p claims) 0 (ps_managers (kp_principals (kr_policy r))) of
            None \<Rightarrow> deny E r ''IssueApprovalToken'' (''oidc:'' @ oc_sub claims) ''caller is not an OIDC manager of this key''
          | Some i \<Rightarrow> do {
              now \<leftarrow> now_secs E;
              ready \<leftarrow> kv_ready;
              if \<not> ready then vault_err ''kv store not initialised'' else do {
              issued \<leftarrow> issue_approval_token E handle op (word_of_nat i) (oc_sub claims) now (approval_ttl ttl_seconds);
              case issued of
                Inl e \<Rightarrow> vault_err e
              | Inr token \<Rightarrow> do {
                  _ \<leftarrow> audit_and_save E r ''IssueApprovalToken'' (''oidc:'' @ oc_sub claims) Allowed
                    (''op='' @ op_name op @ '' ttl='' @ show_word (approval_ttl ttl_seconds) @ ''s'');
                  State_Monad.return (ApprovalTokenIssued token)
                }
              }
            })
   }"

definition handle_read_audit ::
  "('s, 'x) vault_env \<Rightarrow> string \<Rightarrow> u64 \<Rightarrow> u32 \<Rightarrow> request_context \<Rightarrow> ('s, 'x, vault_response) act" where
  "handle_read_audit E handle since_seq limit ctx = do {
     loaded \<leftarrow> load_for_principal E handle ctx;
     case loaded of Inl e \<Rightarrow> vault_err e | Inr r \<Rightarrow> do {
       ready \<leftarrow> kv_ready;
       if \<not> ready then vault_err ''kv store not initialised'' else do {
       log \<leftarrow> audit_read E handle (kr_audit_next_seq r) since_seq (if limit = 0 then 256 else min limit 1024);
       State_Monad.return (case log of Inl e \<Rightarrow> VaultError e | Inr (entries, next_seq) \<Rightarrow> AuditLog entries next_seq)
       }
     }
   }"

section \<open>Pending attestation profiles\<close>

definition check_pending_mutability ::
  "('s, 'x) vault_env \<Rightarrow> key_record \<Rightarrow> request_context \<Rightarrow> ('s, 'x, string + caller_role) act" where
  "check_pending_mutability E r ctx = do {
     who \<leftarrow> resolve_caller E (kr_policy r) ctx;
     State_Monad.return
       (case who of
          None \<Rightarrow> Inl ''caller is not in policy.principals''
        | Some (_, role) \<Rightarrow>
            (let m = kp_mutability (kr_policy r) in
             case (case role of
                     RoleOwner \<Rightarrow> Some (mu_owner_can m)
                   | RoleManager \<Rightarrow> Some (mu_manager_can m)
                   | RoleAuditor \<Rightarrow> None
                   | RoleTee \<Rightarrow> None) of
               None \<Rightarrow> Inl ''caller role cannot stage/revoke pending profiles''
             | Some allowed \<Rightarrow>
                 if FieldPendingProfiles \<in> set (mu_immutable m) then Inl ''PolicyField::PendingProfiles is immutable on this key''
                 else if FieldPendingProfiles \<notin> set allowed then Inl ''caller role is not allowed to change PendingProfiles''
                 else Inr role))
   }"

datatype stager_identity = StagerPrincipal | StagerPlatform

definition check_stage_authority ::
  "('s, 'x) vault_env \<Rightarrow> key_record \<Rightarrow> request_context \<Rightarrow> ('s, 'x, string + stager_identity) act" where
  "check_stage_authority E r ctx = do {
     who \<leftarrow> resolve_caller E (kr_policy r) ctx;
     if who \<noteq> None then do {
       checked \<leftarrow> check_pending_mutability E r ctx;
       State_Monad.return (map_sum id (\<lambda>_. StagerPrincipal) checked)
     }
     else State_Monad.return
       (let is_platform = (case rc_oidc_claims ctx of Some c \<Rightarrow> oc_is_manager c | None \<Rightarrow> False) in
        if \<not> is_platform then Inl ''caller is not in policy.principals''
        else if FieldPendingProfiles \<in> set (mu_immutable (kp_mutability (kr_policy r)))
        then Inl ''PolicyField::PendingProfiles is immutable on this key''
        else Inr StagerPlatform)
   }"

definition push_tee :: "attestation_profile \<Rightarrow> key_record \<Rightarrow> key_record" where
  "push_tee profile r =
     (let policy = kr_policy r; ps = kp_principals policy in
      r\<lparr>kr_policy := policy\<lparr>kp_principals := ps\<lparr>ps_tees := ps_tees ps @ [TeePrincipal profile]\<rparr>\<rparr>,
        kr_policy_version := saturating_add (kr_policy_version r) 1\<rparr>)"

text \<open>The acceptance test of the auto-migrate opt-in.\<close>

definition auto_migrates :: "key_record \<Rightarrow> attestation_profile \<Rightarrow> bool" where
  "auto_migrates r profile \<longleftrightarrow>
     lc_auto_migrate (kp_lifecycle (kr_policy r)) \<and>
     list_ex (\<lambda>p. case p of TeePrincipal t \<Rightarrow> runtime_only_delta profile t | _ \<Rightarrow> False) (ps_tees (kp_principals (kr_policy r))) \<and>
     list_all (\<lambda>oid. list_ex (\<lambda>q. or_oid q = oid) (ap_required_oids profile)) (key_required_oids (kr_policy r))"

definition handle_stage_pending ::
  "('s, 'x) vault_env \<Rightarrow> string \<Rightarrow> attestation_profile \<Rightarrow> pending_profile_source \<Rightarrow> request_context \<Rightarrow> ('s, 'x, vault_response) act" where
  "handle_stage_pending E handle profile source ctx = do {
     loaded \<leftarrow> load_record E handle;
     case loaded of Inl e \<Rightarrow> vault_err e | Inr r \<Rightarrow> do {
     authority \<leftarrow> check_stage_authority E r ctx;
     case authority of Inl e \<Rightarrow> deny E r ''StagePendingProfile'' (caller_str ctx) e | Inr stager \<Rightarrow>
     let profile = normalise_profile (ve_lib E) profile; by_platform = (stager = StagerPlatform) in
     if list_ex (\<lambda>p. p = TeePrincipal profile) (ps_tees (kp_principals (kr_policy r)))
     then State_Monad.return (PendingProfileStaged 0 True (kr_policy_version r))
     else case find (\<lambda>p. pp_profile p = profile) (kr_pending_profiles r) of
       Some existing \<Rightarrow> State_Monad.return (PendingProfileStaged (pp_id existing) False (kr_policy_version r))
     | None \<Rightarrow>
         if by_platform \<and> auto_migrates r profile then
           (let r' = push_tee profile r in do {
              saved \<leftarrow> audit_and_save E r' ''AutoMigrateProfile'' (caller_str ctx) Allowed
                (''runtime-only delta -> tees['' @ show_nat (length (ps_tees (kp_principals (kr_policy r'))) - 1) @ '']'');
              case saved of
                (Inl e, _) \<Rightarrow> vault_err e
              | (Inr _, r'') \<Rightarrow> State_Monad.return (PendingProfileStaged 0 True (kr_policy_version r''))
            })
         else if MAX_PENDING_PROFILES \<le> length (kr_pending_profiles r)
         then deny E r ''StagePendingProfile'' (caller_str ctx) ''too many pending profiles (max 16): promote or revoke some first''
         else do {
           staged_at \<leftarrow> now_secs E;
           let pending_id = kr_next_pending_id r;
           let r' = r\<lparr>kr_next_pending_id := saturating_add (kr_next_pending_id r) 1,
                      kr_pending_profiles := kr_pending_profiles r @
                        [\<lparr>pp_id = pending_id, pp_profile = profile,
                          pp_source = (if by_platform then PlatformBuild else source), pp_staged_at = staged_at,
                          pp_staged_by_sub = (case rc_oidc_claims ctx of Some c \<Rightarrow> oc_sub c | None \<Rightarrow> ''tee''),
                          pp_staged_by_platform = by_platform\<rparr>]\<rparr>;
           saved \<leftarrow> audit_and_save E r' ''StagePendingProfile'' (caller_str ctx) Allowed (''id='' @ show_word pending_id);
           case saved of
             (Inl e, _) \<Rightarrow> vault_err e
           | (Inr _, r'') \<Rightarrow> State_Monad.return (PendingProfileStaged pending_id False (kr_policy_version r''))
         }
     }
   }"

definition handle_list_pending :: "('s, 'x) vault_env \<Rightarrow> string \<Rightarrow> request_context \<Rightarrow> ('s, 'x, vault_response) act" where
  "handle_list_pending E handle ctx = do {
     loaded \<leftarrow> load_for_principal E handle ctx;
     State_Monad.return (case loaded of Inl e \<Rightarrow> VaultError e | Inr r \<Rightarrow> PendingProfileList (kr_pending_profiles r))
   }"

definition remove_at :: "nat \<Rightarrow> 'a list \<Rightarrow> 'a list" where
  "remove_at i xs = take i xs @ drop (Suc i) xs"

definition handle_promote_pending ::
  "('s, 'x) vault_env \<Rightarrow> string \<Rightarrow> u32 \<Rightarrow> approval_token list \<Rightarrow> request_context \<Rightarrow> ('s, 'x, vault_response) act" where
  "handle_promote_pending E handle pending_id approvals ctx = do {
     loaded \<leftarrow> load_record E handle;
     case loaded of Inl e \<Rightarrow> vault_err e | Inr r \<Rightarrow>
     (let pos_opt = find_index (\<lambda>p. pp_id p = pending_id) 0 (kr_pending_profiles r);
          binding = map_option (\<lambda>p. \<lparr>ob_measurement_digest_hex =
              profile_binding_digest (ve_lib E) (pp_profile (kr_pending_profiles r ! p)),
            ob_policy_version = kr_policy_version r\<rparr>) pos_opt
      in do {
        verdict \<leftarrow> evaluate_op E (kr_policy r) OpPromoteProfile handle approvals ctx binding;
        case verdict of Inl e \<Rightarrow> deny E r ''PromotePendingProfile'' (caller_str ctx) e | Inr _ \<Rightarrow>
        case pos_opt of
          None \<Rightarrow> deny E r ''PromotePendingProfile'' (caller_str ctx) ''pending profile id not found''
        | Some pos \<Rightarrow>
            (let profile = pp_profile (kr_pending_profiles r ! pos) in
             if \<not> list_all (\<lambda>oid. list_ex (\<lambda>q. or_oid q = oid) (ap_required_oids profile)) (key_required_oids (kr_policy r))
             then deny E r ''PromotePendingProfile'' (caller_str ctx)
                    ''pending profile is missing required OID: required_oids are append/strengthen-only''
             else (let r' = push_tee profile (r\<lparr>kr_pending_profiles := remove_at pos (kr_pending_profiles r)\<rparr>) in do {
               saved \<leftarrow> audit_and_save E r' ''PromotePendingProfile'' (caller_str ctx) Allowed
                 (''id='' @ show_word pending_id @ '' -> tees['' @ show_nat (length (ps_tees (kp_principals (kr_policy r'))) - 1) @ '']'');
               case saved of
                 (Inl e, _) \<Rightarrow> vault_err e
               | (Inr _, r'') \<Rightarrow> State_Monad.return (PendingProfilePromoted (kr_policy_version r''))
             }))
      })
   }"

definition handle_revoke_pending ::
  "('s, 'x) vault_env \<Rightarrow> string \<Rightarrow> u32 \<Rightarrow> request_context \<Rightarrow> ('s, 'x, vault_response) act" where
  "handle_revoke_pending E handle pending_id ctx = do {
     loaded \<leftarrow> load_record E handle;
     case loaded of Inl e \<Rightarrow> vault_err e | Inr r \<Rightarrow> do {
     allowed \<leftarrow> check_pending_mutability E r ctx;
     case allowed of Inl e \<Rightarrow> deny E r ''RevokePendingProfile'' (caller_str ctx) e | Inr _ \<Rightarrow>
     let r' = r\<lparr>kr_pending_profiles := filter (\<lambda>p. pp_id p \<noteq> pending_id) (kr_pending_profiles r)\<rparr> in
     if length (kr_pending_profiles r') = length (kr_pending_profiles r)
     then deny E r' ''RevokePendingProfile'' (caller_str ctx) ''pending profile id not found''
     else do {
       saved \<leftarrow> audit_and_save E r' ''RevokePendingProfile'' (caller_str ctx) Allowed (''id='' @ show_word pending_id);
       case saved of
         (Inl e, _) \<Rightarrow> vault_err e
       | (Inr _, _) \<Rightarrow> State_Monad.return PendingProfileRevoked
     } }
   }"

section \<open>The dispatcher\<close>

fun vault_dispatch :: "('s, 'x) vault_env \<Rightarrow> request_context \<Rightarrow> vault_request \<Rightarrow> ('s, 'x, vault_response) act" where
  "vault_dispatch E ctx (ReqCreateKey handle material_b64 grant) = handle_create E handle material_b64 grant ctx"
| "vault_dispatch E ctx (ReqExportKey handle approvals) = handle_export E handle approvals ctx"
| "vault_dispatch E ctx (ReqDeleteKey handle approvals) = handle_delete E handle approvals ctx"
| "vault_dispatch E ctx (ReqUpdatePolicy handle new_policy approvals) = handle_update_policy E handle new_policy approvals ctx"
| "vault_dispatch E ctx (ReqGetPolicy handle) = handle_get_policy E handle ctx"
| "vault_dispatch E ctx (ReqGetKeyInfo handle) = handle_get_info E handle ctx"
| "vault_dispatch E ctx ReqListKeys = handle_list E ctx"
| "vault_dispatch E ctx (ReqWrap handle plaintext_b64 aad_b64 iv_b64 approvals) = handle_wrap E handle plaintext_b64 aad_b64 iv_b64 approvals ctx"
| "vault_dispatch E ctx (ReqUnwrap handle ciphertext_b64 iv_b64 aad_b64 approvals) = handle_unwrap E handle ciphertext_b64 iv_b64 aad_b64 approvals ctx"
| "vault_dispatch E ctx (ReqSign handle message_b64 prehashed approvals) = handle_sign E handle message_b64 prehashed approvals ctx"
| "vault_dispatch E ctx (ReqMac handle message_b64 approvals) = handle_mac E handle message_b64 approvals ctx"
| "vault_dispatch E ctx (ReqIssueApprovalToken handle op ttl_seconds) = handle_issue_approval E handle op ttl_seconds ctx"
| "vault_dispatch E ctx (ReqReadAuditLog handle since_seq limit) = handle_read_audit E handle since_seq limit ctx"
| "vault_dispatch E ctx (ReqStagePendingProfile handle profile source) = handle_stage_pending E handle profile source ctx"
| "vault_dispatch E ctx (ReqListPendingProfiles handle) = handle_list_pending E handle ctx"
| "vault_dispatch E ctx (ReqPromotePendingProfile handle pending_id approvals) = handle_promote_pending E handle pending_id approvals ctx"
| "vault_dispatch E ctx (ReqRevokePendingProfile handle pending_id) = handle_revoke_pending E handle pending_id ctx"

text \<open>
  \<open>VaultModule::handle\<close> on the payload of a data request: \<open>None\<close> passes the request on to the next
  module. A response that cannot be serialised is answered by an error frame.
\<close>

datatype module_response = DataFrame bytes | ErrorFrame bytes

definition vault_handle :: "('s, 'x) vault_env \<Rightarrow> bytes \<Rightarrow> request_context \<Rightarrow> ('s, 'x, module_response option) act" where
  "vault_handle E data ctx =
     (case vl_request_of (ve_lib E) data of
        None \<Rightarrow> State_Monad.return None
      | Some req \<Rightarrow> do {
          resp \<leftarrow> vault_dispatch E ctx req;
          State_Monad.return (Some (case vl_response_to (ve_lib E) resp of
              Some b \<Rightarrow> DataFrame b
            | None \<Rightarrow> ErrorFrame (str_bytes ''vault: serialise response'')))
        })"

end
