(* ===== verification/Vault_Invariant.thy ===== *)
theory Vault_Invariant
  imports Vault_Module
begin

text \<open>
  What the store of the vault holds. \<open>records\<close> reads the key records out of it; \<open>vault_ok\<close> is the
  invariant of the records and of their logs; \<open>vault_state\<close> relates a world to the records it holds.
  The locale \<open>vault\<close> has the rules the handlers are verified with: actions that keep the records
  (\<open>quiet\<close>) and the rule for \<open>audit_and_save\<close>, the one writer of records.
\<close>

section \<open>Keys of the store\<close>

fun dec_val :: "nat \<Rightarrow> string \<Rightarrow> nat" where
  "dec_val v [] = v"
| "dec_val v (c # cs) = dec_val (v * 10 + (of_char c - 48)) cs"

lemma dec_val_append: "dec_val v (s @ t) = dec_val (dec_val v s) t"
  by (induction v s rule: dec_val.induct) simp_all

lemma dec_val_zeros: "dec_val 0 (replicate k (CHR ''0'') @ s) = dec_val 0 s"
  by (induction k) simp_all

lemma dec_val_show_nat: "dec_val 0 (show_nat n) = n"
  by (induction n rule: show_nat.induct) (subst show_nat.simps, auto simp: dec_val_append)

lemma length_show_nat: "n < 10 ^ Suc k \<Longrightarrow> length (show_nat n) \<le> Suc k"
proof (induction k arbitrary: n)
  case (Suc k)
  show ?case
  proof (cases "n < 10")
    case False
    have "length (show_nat (n div 10)) \<le> Suc k" using Suc.prems by (intro Suc.IH) simp
    then show ?thesis using False by (subst show_nat.simps) simp
  qed (subst show_nat.simps, simp)
qed (subst show_nat.simps, simp)

lemma length_pad20: "length (pad20 (show_word (s :: u64))) = 20"
proof -
  have "unat s < 2 ^ 64" using unsigned_less [of s] by simp
  then have "unat s < 10 ^ Suc 19" by simp
  from length_show_nat [OF this] show ?thesis by (simp add: pad20_def show_word_def)
qed

lemma pad20_inj: "pad20 (show_word (s :: u64)) = pad20 (show_word t) \<longleftrightarrow> s = t"
proof -
  have "dec_val 0 (pad20 (show_word s)) = unat s" for s :: u64
    by (simp add: pad20_def show_word_def dec_val_zeros dec_val_show_nat)
  then show ?thesis by (metis unsigned_word_eqI)
qed

lemma str_bytes_inj: "str_bytes s = str_bytes t \<longleftrightarrow> s = t"
  using bytes_str_bytes by metis

lemma audit_key_inj: "audit_key h s = audit_key h' s' \<longleftrightarrow> h = h' \<and> s = s'"
  using length_pad20 by (auto simp: audit_key_def str_bytes_inj pad20_inj dest!: append_eq_append_conv [THEN iffD1, rotated])

lemma record_key_inj: "record_key h = record_key h' \<longleftrightarrow> h = h'"
  by (simp add: record_key_def str_bytes_inj)

lemma store_keys_disjoint [simp]:
  "record_key h \<noteq> audit_key h' s" "audit_key h' s \<noteq> record_key h"
  "record_key h \<noteq> owner_index_key u" "owner_index_key u \<noteq> record_key h"
  "audit_key h s \<noteq> owner_index_key u" "owner_index_key u \<noteq> audit_key h s"
  "record_key h \<noteq> SIGNING_KEY_KV" "audit_key h s \<noteq> SIGNING_KEY_KV"
  "SIGNING_KEY_KV \<noteq> record_key h" "SIGNING_KEY_KV \<noteq> audit_key h s"
  by (simp_all add: record_key_def audit_key_def owner_index_key_def SIGNING_KEY_KV_def str_bytes_inj)

section \<open>Records and their invariant\<close>

definition records :: "vault_lib \<Rightarrow> (bytes \<rightharpoonup> bytes) \<Rightarrow> string \<rightharpoonup> key_record" where
  "records L V h = Option.bind (V (record_key h)) (vl_record_of L)"

definition pending_ids_ok :: "u32 \<Rightarrow> u32 list \<Rightarrow> bool" where
  "pending_ids_ok next_id ids \<longleftrightarrow> next_id = - 1 \<or> distinct ids \<and> (\<forall>i \<in> set ids. i < next_id)"

definition tee_profiles :: "principal list \<Rightarrow> attestation_profile list" where
  "tee_profiles ps = List.map_filter (\<lambda>p. case p of TeePrincipal t \<Rightarrow> Some t | _ \<Rightarrow> None) ps"

text \<open>
  A well-formed record: it carries its own handle, its material is valid for its type and its public
  key belongs to it, it lives at most the maximal time, its policy version counts from one, its pending
  profiles are at most sixteen with distinct identifiers below the next free one (until that counter
  saturates), and every attestation profile it accepts or waits for is normalised.
\<close>

definition record_ok :: "vault_lib \<Rightarrow> string \<Rightarrow> key_record \<Rightarrow> bool" where
  "record_ok L h r \<longleftrightarrow>
     kr_handle r = h \<and> kr_material r \<noteq> [] \<and>
     validate_material L (kr_key_type r) (kr_material r) = Inr (kr_public_key r) \<and>
     unat (kr_expires_at r) \<le> unat (kr_created_at r) + unat MAX_KEY_TTL_SECONDS \<and>
     0 < lc_ttl_seconds (kp_lifecycle (kr_policy r)) \<and> lc_ttl_seconds (kp_lifecycle (kr_policy r)) \<le> MAX_KEY_TTL_SECONDS \<and>
     0 < kr_policy_version r \<and>
     length (kr_pending_profiles r) \<le> MAX_PENDING_PROFILES \<and>
     pending_ids_ok (kr_next_pending_id r) (map pp_id (kr_pending_profiles r)) \<and>
     set (tee_profiles (ps_tees (kp_principals (kr_policy r)))) \<subseteq> range (normalise_profile L) \<and>
     pp_profile ` set (kr_pending_profiles r) \<subseteq> range (normalise_profile L)"

text \<open>The log of a key has an entry with the right number under every number below \<open>n\<close>.\<close>

definition log_upto :: "vault_lib \<Rightarrow> (bytes \<rightharpoonup> bytes) \<Rightarrow> string \<Rightarrow> u64 \<Rightarrow> bool" where
  "log_upto L V h n \<longleftrightarrow> (\<forall>s < n. \<exists>e. Option.bind (V (audit_key h s)) (vl_audit_of L) = Some e \<and> ae_seq e = s)"

definition vault_ok :: "vault_lib \<Rightarrow> (bytes \<rightharpoonup> bytes) \<Rightarrow> bool" where
  "vault_ok L V \<longleftrightarrow> (\<forall>h r. records L V h = Some r \<longrightarrow> record_ok L h r \<and> log_upto L V h (kr_audit_next_seq r))"

definition vault_state ::
  "vault_lib \<Rightarrow> ('s \<Rightarrow> bool) \<Rightarrow> ('s \<Rightarrow> bytes \<rightharpoonup> bytes) \<Rightarrow> (string \<rightharpoonup> key_record) \<Rightarrow> ('s, 'x) vault_world \<Rightarrow> bool" where
  "vault_state L ok view R w \<longleftrightarrow>
     vault_inv ok w \<and> vault_ok L (vault_view view w) \<and> records L (vault_view view w) = R"

text \<open>What the JSON codecs promise: what they write, they read back.\<close>

definition json_ok :: "vault_lib \<Rightarrow> bool" where
  "json_ok L \<longleftrightarrow>
     (\<forall>r b. vl_record_to L r = Some b \<longrightarrow> vl_record_of L b = Some r) \<and>
     (\<forall>e b. vl_audit_to L e = Some b \<longrightarrow> vl_audit_of L b = Some e)"

definition logged :: "key_record \<Rightarrow> key_record" where
  "logged r = r\<lparr>kr_audit_next_seq := saturating_add (kr_audit_next_seq r) 1\<rparr>"

lemma logged_sel [simp]:
  "kr_handle (logged r) = kr_handle r" "kr_key_type (logged r) = kr_key_type r"
  "kr_exportable (logged r) = kr_exportable r" "kr_material (logged r) = kr_material r"
  "kr_public_key (logged r) = kr_public_key r" "kr_policy (logged r) = kr_policy r"
  "kr_policy_version (logged r) = kr_policy_version r" "kr_created_at (logged r) = kr_created_at r"
  "kr_expires_at (logged r) = kr_expires_at r" "kr_pending_profiles (logged r) = kr_pending_profiles r"
  "kr_next_pending_id (logged r) = kr_next_pending_id r"
  by (simp_all add: logged_def)

lemma record_ok_logged [simp]: "record_ok L h (logged r) = record_ok L h r"
  by (simp add: record_ok_def)

section \<open>Writes that keep the invariant\<close>

lemma records_upd [simp]:
  "records L (V(audit_key h s \<mapsto> b)) = records L V"
  "records L (V(owner_index_key u \<mapsto> b)) = records L V"
  "records L (V(SIGNING_KEY_KV \<mapsto> b)) = records L V"
  "records L (V(record_key h := x)) = (records L V)(h := Option.bind x (vl_record_of L))"
  by (auto simp: records_def fun_eq_iff record_key_inj)

lemma log_upto_upd [simp]:
  "log_upto L (V(owner_index_key u \<mapsto> b)) h n = log_upto L V h n"
  "log_upto L (V(SIGNING_KEY_KV \<mapsto> b)) h n = log_upto L V h n"
  "log_upto L (V(record_key h' := x)) h n = log_upto L V h n"
  by (simp_all add: log_upto_def)

lemma log_upto_append:
  assumes "vl_audit_of L b = Some e" "ae_seq e = n"
  shows "log_upto L V h m \<Longrightarrow> h' = h \<longrightarrow> m \<le> n \<Longrightarrow> log_upto L (V(audit_key h' n \<mapsto> b)) h m"
    and "log_upto L V h n \<Longrightarrow> log_upto L (V(audit_key h n \<mapsto> b)) h (saturating_add n 1)"
proof -
  show "log_upto L V h m \<Longrightarrow> h' = h \<longrightarrow> m \<le> n \<Longrightarrow> log_upto L (V(audit_key h' n \<mapsto> b)) h m"
    by (auto simp: log_upto_def audit_key_inj)
  assume "log_upto L V h n"
  moreover have "s < saturating_add n 1 \<Longrightarrow> s = n \<or> s < n" for s
    using unsigned_less [of s] unsigned_less [of n]
    by (auto simp: saturating_add_def checked_add_def word_less_nat_alt word_unat_eq_iff unat_word_ariths unsigned_minus_1_eq_mask mask_eq_exp_minus_1 split: if_splits)
  ultimately show "log_upto L (V(audit_key h n \<mapsto> b)) h (saturating_add n 1)"
    using assms by (fastforce simp: log_upto_def audit_key_inj)
qed


section \<open>Actions of the vault\<close>

definition keeps_records ::
  "vault_lib \<Rightarrow> ('s \<Rightarrow> bool) \<Rightarrow> ('s \<Rightarrow> bytes \<rightharpoonup> bytes) \<Rightarrow> ('s, 'x, 'a) act \<Rightarrow> bool" where
  "keeps_records L ok view m \<longleftrightarrow> (\<forall>R w. vault_state L ok view R w \<longrightarrow> wp m (\<lambda>_. vault_state L ok view R) w)"

locale vault = vault_store E inv view
  for E :: "('s, 'x) vault_env" and inv :: "'s \<Rightarrow> bool" and view :: "'s \<Rightarrow> bytes \<rightharpoonup> bytes" +
  assumes json: "json_ok (ve_lib E)"
begin

abbreviation state_is :: "(string \<rightharpoonup> key_record) \<Rightarrow> ('s, 'x) vault_world \<Rightarrow> bool" where
  "state_is \<equiv> vault_state (ve_lib E) inv view"

abbreviation quiet :: "('s, 'x, 'a) act \<Rightarrow> bool" where
  "quiet \<equiv> keeps_records (ve_lib E) inv view"

lemma state_holds: "state_is R w \<Longrightarrow> \<exists>V. holds V w \<and> vault_ok (ve_lib E) V \<and> records (ve_lib E) V = R"
  by (simp add: vault_state_def store_holds_def)

lemma holds_state: "holds V w \<Longrightarrow> vault_ok (ve_lib E) V \<Longrightarrow> records (ve_lib E) V = R \<Longrightarrow> state_is R w"
  by (simp add: vault_state_def store_holds_def)

lemma quiet_wp:
  assumes "quiet m" "state_is R w" "\<And>r w'. state_is R w' \<Longrightarrow> answers m r \<Longrightarrow> Q r w'"
  shows "wp m Q w"
  by (rule wp_mono [OF wp_conj [OF _ wp_answers], of _ "\<lambda>_. state_is R"]) (use assms in \<open>auto simp: keeps_records_def\<close>)

lemma quiet_return: "quiet (State_Monad.return x)"
  by (simp add: keeps_records_def wp_simps)

lemma quiet_bind: "quiet m \<Longrightarrow> (\<And>x. quiet (f x)) \<Longrightarrow> quiet (State_Monad.bind m f)"
  unfolding keeps_records_def wp_simps by (blast intro: wp_mono)

lemma quiet_holds: "(\<And>V w Q. holds V w \<Longrightarrow> (\<And>r w'. holds V w' \<Longrightarrow> Q r w') \<Longrightarrow> wp m Q w) \<Longrightarrow> quiet m"
  unfolding keeps_records_def by (metis state_holds holds_state)

lemma quiet_host: "quiet (host f)"
  by (rule quiet_holds) (erule wp_host)

lemma quiet_peek: "quiet (peek f)"
  by (simp add: keeps_records_def wp_simps)

lemma quiet_kv_ready: "quiet kv_ready"
  by (simp add: keeps_records_def wp_simps)

lemma quiet_kv_get: "quiet (kv_get E k)"
  by (rule quiet_holds) (erule wp_kv_get)

lemma quiet_put_aux:
  assumes "k = SIGNING_KEY_KV \<or> k = owner_index_key u"
  shows "quiet (kv_put E k v)"
  unfolding keeps_records_def
proof (intro allI impI)
  fix R w assume "state_is R w"
  then obtain V where V: "holds V w" "vault_ok (ve_lib E) V" "records (ve_lib E) V = R" using state_holds by blast
  then show "wp (kv_put E k v) (\<lambda>_. state_is R) w"
    by (rule_tac wp_kv_put) (use assms in \<open>auto intro!: holds_state simp: vault_ok_def\<close>)
qed

lemma quiet_put_other: "quiet (kv_put E SIGNING_KEY_KV v)" "quiet (kv_put E (owner_index_key u) v)"
  by (auto intro: quiet_put_aux)

lemmas quiet_basic =
  quiet_return quiet_bind quiet_host quiet_peek quiet_kv_ready quiet_kv_get quiet_put_other

lemma quiet_cases:
  "(\<And>a. quiet (f a)) \<Longrightarrow> (\<And>b. quiet (g b)) \<Longrightarrow> quiet (case s of Inl a \<Rightarrow> f a | Inr b \<Rightarrow> g b)"
  "quiet n \<Longrightarrow> (\<And>x. quiet (h x)) \<Longrightarrow> quiet (case opt of None \<Rightarrow> n | Some x \<Rightarrow> h x)"
  "(\<And>x y. quiet (k x y)) \<Longrightarrow> quiet (case pr of (x, y) \<Rightarrow> k x y)"
  "quiet m \<Longrightarrow> quiet n \<Longrightarrow> quiet (if b then m else n)"
  "quiet (f e) \<Longrightarrow> quiet (Let e f)"
  by (auto split: sum.split option.split prod.split)

lemmas quiet_rules = quiet_basic quiet_cases

lemma quiet_now_secs: "quiet (now_secs E)"
  unfolding now_secs_def by (intro quiet_rules)

lemma quiet_load_record: "quiet (load_record E handle)"
  unfolding load_record_def by (intro quiet_rules)

lemma quiet_expired: "quiet (expired E r)"
  unfolding expired_def by (intro quiet_rules quiet_now_secs)

lemma quiet_encode_jwt: "quiet (encode_jwt E payload kp kid)"
  unfolding encode_jwt_def by (intro quiet_rules)

lemma quiet_load_or_init_keypair: "quiet (load_or_init_keypair E)"
  unfolding load_or_init_keypair_def Let_def by (intro quiet_rules)

lemma quiet_issue: "quiet (issue_approval_token E h op m sub iat ttl)"
  unfolding issue_approval_token_def Let_def by (intro quiet_rules quiet_load_or_init_keypair quiet_encode_jwt)

lemma quiet_verify_approval_token: "quiet (verify_approval_token E token h op m d f now)"
  unfolding verify_approval_token_def load_or_init_public_key_def by (intro quiet_rules quiet_load_or_init_keypair)

lemma quiet_verify_grant: "quiet (verify_grant E jwt ctx now)"
  unfolding verify_grant_def by (intro quiet_rules)

lemma quiet_add_to_owner_index: "quiet (add_to_owner_index E sub h)"
  unfolding add_to_owner_index_def Let_def by (intro quiet_rules)

lemma quiet_remove_from_owner_index: "quiet (remove_from_owner_index E sub h)"
  unfolding remove_from_owner_index_def Let_def by (intro quiet_rules)

lemma quiet_ask_servers: "quiet (ask_servers E body urls)"
  by (induction urls) (simp_all only: ask_servers.simps Let_def, (intro quiet_rules | assumption)+)

lemma quiet_tee_matches: "quiet (tee_matches E profile der pev)"
  unfolding tee_matches_def verify_quote_statuses_def Let_def by (intro quiet_rules quiet_ask_servers)

lemma quiet_resolve_tee: "quiet (resolve_tee E der pev i ps)"
proof (induction ps arbitrary: i)
  case (Cons p ps)
  then show ?case by (cases p) (simp_all, intro quiet_rules quiet_tee_matches)
qed (simp add: quiet_return)

lemma quiet_resolve_caller: "quiet (resolve_caller E policy ctx)"
  unfolding resolve_caller_def by (intro quiet_rules quiet_resolve_tee)

lemma quiet_accept_token: "quiet (accept_token E h op m d f now e tokens)"
proof (induction tokens arbitrary: e)
  case (Cons t tokens)
  then show ?case unfolding accept_token.simps by (intro quiet_rules quiet_verify_approval_token)
qed (simp add: quiet_return)

lemma quiet_check_condition: "quiet (check_condition E policy op h approvals ctx b now c)"
  unfolding check_condition_def Let_def
  by (cases c) (simp_all only: condition.case, (intro quiet_rules quiet_tee_matches quiet_accept_token | simp only: split: principal.split | intro conjI allI impI)+)

lemma quiet_check_conditions: "quiet (check_conditions E policy op h approvals ctx b now cs)"
proof (induction cs)
  case (Cons c cs)
  then show ?case unfolding check_conditions.simps by (intro quiet_rules quiet_check_condition)
qed (simp add: quiet_return)

lemma quiet_try_rules: "quiet (try_rules E policy op h approvals ctx b ref e rules)"
proof (induction rules arbitrary: e)
  case (Cons rule rules)
  then show ?case unfolding try_rules.simps evaluate_conditions_def
    by (intro quiet_rules quiet_check_conditions quiet_now_secs)
qed (simp add: quiet_return)

lemma quiet_evaluate_op: "quiet (evaluate_op E policy op h approvals ctx b)"
  unfolding evaluate_op_def by (intro quiet_rules quiet_resolve_caller quiet_try_rules)

lemma quiet_vault_err: "quiet (vault_err e)"
  unfolding vault_err_def by (rule quiet_return)

lemma wp_load_record:
  assumes "state_is R w"
    and "\<And>r w'. state_is R w' \<Longrightarrow> R handle = Some r \<Longrightarrow> Q (Inr r) w'" "\<And>e w'. state_is R w' \<Longrightarrow> Q (Inl e) w'"
  shows "wp (load_record E handle) Q w"
proof -
  obtain V where V: "holds V w" "vault_ok (ve_lib E) V" "records (ve_lib E) V = R" using assms(1) state_holds by blast
  have st: "holds V w' \<Longrightarrow> state_is R w'" for w' using holds_state V by blast
  have rec: "Option.bind (V (record_key handle)) (vl_record_of (ve_lib E)) = R handle" using V(3) by (auto simp: records_def)
  show ?thesis
  proof (cases "vw_store w \<noteq> None")
    case True
    then show ?thesis unfolding load_record_def wp_simps
      by (simp add: wp_simps) (rule wp_kv_get [OF V(1)],
        use rec assms(2,3) st in \<open>auto simp: wp_simps split: sum.split option.split bind_splits\<close>)
  qed (use assms in \<open>simp add: load_record_def wp_simps\<close>)
qed

lemma vault_ok_save:
  assumes "vault_ok (ve_lib E) V" "record_ok (ve_lib E) h r" "log_upto (ve_lib E) V h (kr_audit_next_seq r)"
    and "vl_record_of (ve_lib E) b = Some r"
  shows "vault_ok (ve_lib E) (V(record_key h \<mapsto> b))"
  using assms by (auto simp: vault_ok_def)

lemma vault_ok_append:
  assumes "vault_ok (ve_lib E) V" "vl_audit_of (ve_lib E) b = Some e" "ae_seq e = n"
    and "\<And>r. records (ve_lib E) V h = Some r \<Longrightarrow> kr_audit_next_seq r = n"
  shows "vault_ok (ve_lib E) (V(audit_key h n \<mapsto> b))"
  using assms log_upto_append(1) [OF assms(2,3)] by (auto simp: vault_ok_def)

lemma wp_audit_append:
  assumes V: "holds V w" "vault_ok (ve_lib E) V"
    and seq: "\<And>r0. records (ve_lib E) V (kr_handle r) = Some r0 \<Longrightarrow> kr_audit_next_seq r0 = kr_audit_next_seq r"
    and log: "log_upto (ve_lib E) V (kr_handle r) (kr_audit_next_seq r)"
    and fail: "\<And>e V' w'. holds V' w' \<Longrightarrow> vault_ok (ve_lib E) V' \<Longrightarrow> records (ve_lib E) V' = records (ve_lib E) V \<Longrightarrow> Q (Inl e, r) w'"
    and saved: "\<And>V' w'. holds V' w' \<Longrightarrow> vault_ok (ve_lib E) V' \<Longrightarrow> records (ve_lib E) V' = records (ve_lib E) V \<Longrightarrow>
      log_upto (ve_lib E) V' (kr_handle r) (kr_audit_next_seq (logged r)) \<Longrightarrow> Q (Inr (), logged r) w'"
  shows "wp (audit_append E r op caller d reason) Q w"
  unfolding audit_append_def Let_def wp_simps
proof (rule wp_now_secs [OF V(1)])
  fix t w1
  let ?e = "\<lparr>ae_seq = kr_audit_next_seq r, ae_ts = t, ae_op = op, ae_caller = caller, ae_decision = d, ae_reason = reason\<rparr>"
  let ?k = "audit_key (kr_handle r) (kr_audit_next_seq r)"
  assume w1: "holds V w1"
  show "wp (case vl_audit_to (ve_lib E) ?e of
         None \<Rightarrow> State_Monad.return (Inl ''audit serialise'', r)
       | Some bs \<Rightarrow> do {
           saved \<leftarrow> kv_put E ?k bs;
           State_Monad.return
             (case saved of Inl _ \<Rightarrow> (Inl ''audit put'', r)
              | Inr _ \<Rightarrow> (Inr (), r\<lparr>kr_audit_next_seq := saturating_add (kr_audit_next_seq r) 1\<rparr>))
         }) Q w1"
  proof (cases "vl_audit_to (ve_lib E) ?e")
    case (Some b)
    have b: "vl_audit_of (ve_lib E) b = Some ?e" using json Some by (simp add: json_ok_def)
    have ok: "vault_ok (ve_lib E) (V(?k \<mapsto> b))" by (rule vault_ok_append [OF V(2) b]) (use seq in auto)
    have up: "log_upto (ve_lib E) (V(?k \<mapsto> b)) (kr_handle r) (kr_audit_next_seq (logged r))"
      using log_upto_append(2) [OF b _ log] by (simp add: logged_def)
    show ?thesis
      unfolding Some option.case wp_simps
    proof (rule wp_kv_put [OF w1])
      fix res w2 assume w2: "holds (V(?k \<mapsto> b)) w2"
      then show "Q (case res of Inl _ \<Rightarrow> (Inl ''audit put'', r)
         | Inr _ \<Rightarrow> (Inr (), r\<lparr>kr_audit_next_seq := saturating_add (kr_audit_next_seq r) 1\<rparr>)) w2"
        using fail [OF w2 ok] saved [OF w2 ok _ up] by (simp add: logged_def split: sum.split)
    qed (use fail V(2) in simp)
  qed (use fail w1 V(2) in \<open>simp add: wp_simps\<close>)
qed

lemma wp_audit_and_save:
  assumes st: "state_is R w" and ok: "record_ok (ve_lib E) h r"
    and seq: "kr_audit_next_seq r = (case R h of None \<Rightarrow> 0 | Some r0 \<Rightarrow> kr_audit_next_seq r0)"
    and fail: "\<And>e r' w'. state_is R w' \<Longrightarrow> Q (Inl e, r') w'"
    and saved: "\<And>x w'. state_is (R(h \<mapsto> logged r)) w' \<Longrightarrow> Q (x, logged r) w'"
  shows "wp (audit_and_save E r op caller d reason) Q w"
proof (cases "vw_store w = None")
  case True
  then show ?thesis using st fail by (simp add: audit_and_save_def wp_simps)
next
  case False
  have h: "kr_handle r = h" using ok by (simp add: record_ok_def)
  obtain V where V: "holds V w" "vault_ok (ve_lib E) V" "records (ve_lib E) V = R" using st state_holds by blast
  have log: "log_upto (ve_lib E) V (kr_handle r) (kr_audit_next_seq r)"
    using V(2,3) seq h by (cases "R h") (auto simp: log_upto_def vault_ok_def)
  have "wp (audit_append E r op caller d reason) (\<lambda>x. wp (case x of
         (Inl _, r) \<Rightarrow> State_Monad.return (Inl ''audit append'', r)
       | (Inr _, r) \<Rightarrow>
           (case vl_record_to (ve_lib E) r of
              None \<Rightarrow> State_Monad.return (Inl ''serialise record'', r)
            | Some bs \<Rightarrow> do {
                saved \<leftarrow> kv_put E (record_key (kr_handle r)) bs;
                State_Monad.return (case saved of Inl _ \<Rightarrow> Inl ''kv put failed'' | Inr _ \<Rightarrow> Inr (), r)
              })) Q) w"
  proof (rule wp_audit_append [OF V(1,2) _ log])
    fix V1 w1 assume w1: "holds V1 w1" "vault_ok (ve_lib E) V1" "records (ve_lib E) V1 = records (ve_lib E) V"
      and up: "log_upto (ve_lib E) V1 (kr_handle r) (kr_audit_next_seq (logged r))"
    show "wp (case (Inr (), logged r) of
         (Inl (_ :: string), r) \<Rightarrow> State_Monad.return (Inl ''audit append'', r)
       | (Inr _, r) \<Rightarrow>
           (case vl_record_to (ve_lib E) r of
              None \<Rightarrow> State_Monad.return (Inl ''serialise record'', r)
            | Some bs \<Rightarrow> do {
                saved \<leftarrow> kv_put E (record_key (kr_handle r)) bs;
                State_Monad.return (case saved of Inl _ \<Rightarrow> Inl ''kv put failed'' | Inr _ \<Rightarrow> Inr (), r)
              })) Q w1"
    proof (cases "vl_record_to (ve_lib E) (logged r)")
      case (Some b)
      have b: "vl_record_of (ve_lib E) b = Some (logged r)" using json Some by (simp add: json_ok_def)
      have "vault_ok (ve_lib E) (V1(record_key h \<mapsto> b))"
        by (rule vault_ok_save [OF w1(2) _ _ b]) (use ok up h in simp_all)
      then show ?thesis using w1 b V(3)
        by (simp add: Some wp_simps h) (rule wp_kv_put [OF w1(1)], auto simp: wp_simps intro!: saved fail holds_state)
    qed (use fail w1 V(3) in \<open>simp add: wp_simps holds_state\<close>)
  qed (use seq h V(3) fail in \<open>auto simp: wp_simps holds_state\<close>)
  then show ?thesis using False by (simp add: audit_and_save_def wp_simps)
qed

lemma wp_delete_record:
  assumes "state_is R w" "\<And>x w'. state_is (R(h := None)) w' \<Longrightarrow> Q x w'" "\<And>e w'. state_is R w' \<Longrightarrow> Q (Inl e) w'"
  shows "wp (kv_delete E (record_key h)) Q w"
proof -
  obtain V where V: "holds V w" "vault_ok (ve_lib E) V" "records (ve_lib E) V = R" using assms(1) state_holds by blast
  have "vault_ok (ve_lib E) (V(record_key h := None))" using V(2) by (auto simp: vault_ok_def)
  then show ?thesis using V(2,3) by (intro wp_kv_delete [OF V(1)]) (auto intro!: assms(2,3) holds_state)
qed

lemma state_record_ok: "state_is R w \<Longrightarrow> R h = Some r \<Longrightarrow> record_ok (ve_lib E) h r"
  by (auto simp: vault_state_def vault_ok_def)

text \<open>The case of a record that is saved unchanged but for its log.\<close>

lemma wp_log:
  assumes "state_is R w" "R h = Some r"
    and "\<And>e r' w'. state_is R w' \<Longrightarrow> Q (Inl e, r') w'" "\<And>x w'. state_is (R(h \<mapsto> logged r)) w' \<Longrightarrow> Q (x, logged r) w'"
  shows "wp (audit_and_save E r op caller d reason) Q w"
  by (rule wp_audit_and_save [OF assms(1) state_record_ok [OF assms(1,2)]]) (use assms in auto)

lemma wp_deny:
  assumes "state_is R w" "R h = Some r"
    and "\<And>w'. state_is R w' \<Longrightarrow> Q (VaultError e) w'" "\<And>w'. state_is (R(h \<mapsto> logged r)) w' \<Longrightarrow> Q (VaultError e) w'"
  shows "wp (deny E r op caller e) Q w"
  unfolding deny_def vault_err_def wp_simps by (rule wp_log [OF assms(1,2)]) (use assms in auto)

end

end
