(* ===== verification/Vault_Steps.thy ===== *)
theory Vault_Steps
  imports Vault_Invariant
begin

text \<open>
  What one request may do to the keys of the vault. \<open>key_step\<close> lists the changes of a key record with
  the authority each needs; \<open>disclosed\<close> says what a response may carry and on whose authority;
  \<open>vault_step\<close> puts both together for all keys. Every handler is shown to be such a step, and to keep
  the invariant of the records.
\<close>

section \<open>The abstract step\<close>

text \<open>The policy allows the operation to the caller, and the key has not expired.\<close>

definition may ::
  "('s, 'x) vault_env \<Rightarrow> request_context \<Rightarrow> string \<Rightarrow> operation \<Rightarrow> approval_token list \<Rightarrow> op_binding option \<Rightarrow> key_record \<Rightarrow> bool" where
  "may E ctx h op approvals b r \<longleftrightarrow> answers (evaluate_op E (kr_policy r) op h approvals ctx b) (Inr ())"

definition live :: "('s, 'x) vault_env \<Rightarrow> key_record \<Rightarrow> bool" where
  "live E r \<longleftrightarrow> answers (expired E r) False"

text \<open>The record a grant creates.\<close>

definition granted_record :: "vault_lib \<Rightarrow> string \<Rightarrow> bytes \<Rightarrow> bytes option \<Rightarrow> u64 \<Rightarrow> key_creation_grant \<Rightarrow> key_record" where
  "granted_record L h material public_key now grant =
     (let policy = normalise_policy L (kg_policy grant) in
      \<lparr>kr_handle = h, kr_key_type = kg_key_type grant, kr_exportable = kg_exportable grant,
       kr_material = material, kr_public_key = public_key, kr_policy = policy, kr_policy_version = 1,
       kr_created_at = now, kr_expires_at = saturating_add now (lc_ttl_seconds (kp_lifecycle policy)),
       kr_pending_profiles = [], kr_audit_next_seq = 0, kr_next_pending_id = 0\<rparr>)"

definition with_policy :: "key_policy \<Rightarrow> key_record \<Rightarrow> key_record" where
  "with_policy policy r = r\<lparr>kr_policy := policy, kr_policy_version := saturating_add (kr_policy_version r) 1\<rparr>"

definition with_pending :: "pending_profile \<Rightarrow> key_record \<Rightarrow> key_record" where
  "with_pending p r = r\<lparr>kr_next_pending_id := saturating_add (kr_next_pending_id r) 1,
     kr_pending_profiles := kr_pending_profiles r @ [p]\<rparr>"

definition without_pending :: "nat \<Rightarrow> key_record \<Rightarrow> key_record" where
  "without_pending i r = r\<lparr>kr_pending_profiles := remove_at i (kr_pending_profiles r)\<rparr>"

definition revoke_id :: "u32 \<Rightarrow> key_record \<Rightarrow> key_record" where
  "revoke_id i r = r\<lparr>kr_pending_profiles := filter (\<lambda>p. pp_id p \<noteq> i) (kr_pending_profiles r)\<rparr>"

definition in_scope :: "string \<Rightarrow> string \<Rightarrow> bool" where
  "in_scope h scope \<longleftrightarrow> h = scope \<or> starts_with h (scope @ ''/'')"

definition covers_oids :: "key_policy \<Rightarrow> attestation_profile \<Rightarrow> bool" where
  "covers_oids policy profile \<longleftrightarrow> set (key_required_oids policy) \<subseteq> or_oid ` set (ap_required_oids profile)"

inductive key_step :: "('s, 'x) vault_env \<Rightarrow> request_context \<Rightarrow> vault_request \<Rightarrow> key_record option \<Rightarrow> key_record option \<Rightarrow> bool"
  for E :: "('s, 'x) vault_env" and ctx :: request_context where
  step_same: "key_step E ctx req k k"
| step_logged: "key_step E ctx req (Some r) (Some (logged r))"
| step_created:
    "answers (verify_grant E jwt ctx now) (Inr grant) \<Longrightarrow> in_scope h (kg_scope grant) \<Longrightarrow>
     owner_oidc_sub (ps_owner (kp_principals (kg_policy grant))) = Some (kg_sub grant) \<Longrightarrow>
     vl_b64_decode (ve_lib E) m = Some material \<Longrightarrow> material \<noteq> [] \<Longrightarrow>
     validate_material (ve_lib E) (kg_key_type grant) material = Inr pk \<Longrightarrow>
     key_step E ctx (ReqCreateKey h m jwt) None (Some (logged (granted_record (ve_lib E) h material pk now grant)))"
| step_deleted: "may E ctx h OpDeleteKey approvals None r \<Longrightarrow> key_step E ctx (ReqDeleteKey h approvals) (Some r) None"
| step_updated:
    "live E r \<Longrightarrow> may E ctx h OpUpdatePolicy approvals None r \<Longrightarrow>
     answers (resolve_caller E (kr_policy r) ctx) (Some (ref, role)) \<Longrightarrow>
     evaluate_policy_update (kr_policy r) (normalise_policy (ve_lib E) new_policy) role = Inr () \<Longrightarrow>
     key_step E ctx (ReqUpdatePolicy h new_policy approvals) (Some r)
       (Some (logged (with_policy (normalise_policy (ve_lib E) new_policy) r)))"
| step_staged:
    "answers (check_stage_authority E r ctx) (Inr stager) \<Longrightarrow> length (kr_pending_profiles r) < MAX_PENDING_PROFILES \<Longrightarrow>
     pp_id p = kr_next_pending_id r \<Longrightarrow> pp_profile p = normalise_profile (ve_lib E) profile \<Longrightarrow>
     pp_staged_by_platform p = (stager = StagerPlatform) \<Longrightarrow>
     key_step E ctx (ReqStagePendingProfile h profile source) (Some r) (Some (logged (with_pending p r)))"
| step_migrated:
    "answers (check_stage_authority E r ctx) (Inr StagerPlatform) \<Longrightarrow> auto_migrates r (normalise_profile (ve_lib E) profile) \<Longrightarrow>
     key_step E ctx (ReqStagePendingProfile h profile source) (Some r)
       (Some (logged (push_tee (normalise_profile (ve_lib E) profile) r)))"
| step_promoted:
    "i < length (kr_pending_profiles r) \<Longrightarrow> p = kr_pending_profiles r ! i \<Longrightarrow> pp_id p = pending_id \<Longrightarrow>
     may E ctx h OpPromoteProfile approvals
       (Some \<lparr>ob_measurement_digest_hex = profile_binding_digest (ve_lib E) (pp_profile p), ob_policy_version = kr_policy_version r\<rparr>) r \<Longrightarrow>
     covers_oids (kr_policy r) (pp_profile p) \<Longrightarrow>
     key_step E ctx (ReqPromotePendingProfile h pending_id approvals) (Some r)
       (Some (logged (push_tee (pp_profile p) (without_pending i r))))"
| step_revoked:
    "answers (check_pending_mutability E r ctx) (Inr role) \<Longrightarrow>
     key_step E ctx (ReqRevokePendingProfile h pending_id) (Some r) (Some (logged (revoke_id pending_id r)))"

text \<open>What a response carries, and why it may.\<close>

definition is_principal :: "('s, 'x) vault_env \<Rightarrow> request_context \<Rightarrow> key_record \<Rightarrow> bool" where
  "is_principal E ctx r \<longleftrightarrow> (\<exists>who. answers (resolve_caller E (kr_policy r) ctx) (Some who))"

definition used_key ::
  "('s, 'x) vault_env \<Rightarrow> request_context \<Rightarrow> string \<Rightarrow> operation \<Rightarrow> key_type \<Rightarrow> approval_token list \<Rightarrow> key_record option \<Rightarrow> bytes \<Rightarrow> bool" where
  "used_key E ctx h op kt approvals k material \<longleftrightarrow>
     (\<exists>r. k = Some r \<and> kr_key_type r = kt \<and> kr_material r = material \<and> live E r \<and> may E ctx h op approvals None r)"

definition optional :: "bytes option \<Rightarrow> bytes" where
  "optional a = (case a of None \<Rightarrow> [] | Some b \<Rightarrow> b)"

definition disclosed ::
  "('s, 'x) vault_env \<Rightarrow> request_context \<Rightarrow> vault_request \<Rightarrow> key_record option \<Rightarrow> vault_response \<Rightarrow> bool" where
  "disclosed E ctx req k resp =
     (case resp of
        KeyMaterial m t \<Rightarrow>
          (case req of
             ReqExportKey h approvals \<Rightarrow>
               (\<exists>r. k = Some r \<and> kr_exportable r \<and> m = kr_material r \<and> t = kr_expires_at r \<and> live E r \<and>
                  may E ctx h OpExportKey approvals (Some \<lparr>ob_measurement_digest_hex = [], ob_policy_version = kr_policy_version r\<rparr>) r)
           | _ \<Rightarrow> False)
      | Wrapped c n \<Rightarrow>
          (case req of
             ReqWrap h p aad iv approvals \<Rightarrow>
               (\<exists>key pt ad nonce. used_key E ctx h OpWrap Aes256GcmKey approvals k key \<and> vl_b64_decode (ve_lib E) p = Some pt \<and>
                  decode_opt (ve_lib E) aad = Some ad \<and> decode_opt (ve_lib E) iv = Some nonce \<and>
                  (nonce = None \<or> nonce = Some n) \<and> seal_with_nonce (ve_lib E) key pt (optional ad) n = Inr (c, n))
           | _ \<Rightarrow> False)
      | Unwrapped pt \<Rightarrow>
          (case req of
             ReqUnwrap h c n aad approvals \<Rightarrow>
               (\<exists>key ct iv ad. used_key E ctx h OpUnwrap Aes256GcmKey approvals k key \<and> vl_b64_decode (ve_lib E) c = Some ct \<and>
                  vl_b64_decode (ve_lib E) n = Some iv \<and> decode_opt (ve_lib E) aad = Some ad \<and>
                  aes_gcm_open (ve_lib E) key ct iv (optional ad) = Inr pt)
           | _ \<Rightarrow> False)
      | Signature s alg \<Rightarrow>
          (case req of
             ReqSign h m prehashed approvals \<Rightarrow>
               (\<exists>key msg. used_key E ctx h OpSign P256SigningKey approvals k key \<and> vl_b64_decode (ve_lib E) m = Some msg \<and>
                  (if prehashed then p256_sign_prehash (ve_lib E) key msg = Inr s else answers (p256_sign E key msg) (Inr s)))
           | _ \<Rightarrow> False)
      | MacTag t alg \<Rightarrow>
          (case req of
             ReqMac h m approvals \<Rightarrow>
               (\<exists>key msg. used_key E ctx h OpMac HmacSha256Key approvals k key \<and> vl_b64_decode (ve_lib E) m = Some msg \<and>
                  t = hmac_sha256 (vl_crypto (ve_lib E)) key msg)
           | _ \<Rightarrow> False)
      | Policy p v \<Rightarrow> (\<exists>r. k = Some r \<and> p = kr_policy r \<and> v = kr_policy_version r \<and> is_principal E ctx r)
      | KeyInfo i \<Rightarrow> (\<exists>r. k = Some r \<and> ki_handle i = kr_handle r \<and> is_principal E ctx r)
      | PendingProfileList ps \<Rightarrow> (\<exists>r. k = Some r \<and> ps = kr_pending_profiles r \<and> is_principal E ctx r)
      | AuditLog es n \<Rightarrow> (\<exists>r. k = Some r \<and> is_principal E ctx r)
      | _ \<Rightarrow> True)"

definition vault_step ::
  "('s, 'x) vault_env \<Rightarrow> request_context \<Rightarrow> vault_request \<Rightarrow> (string \<rightharpoonup> key_record) \<Rightarrow> vault_response \<Rightarrow> (string \<rightharpoonup> key_record) \<Rightarrow> bool" where
  "vault_step E ctx req R resp R' \<longleftrightarrow>
     (\<forall>h. req_handle req \<noteq> Some h \<longrightarrow> R' h = R h) \<and>
     (\<forall>h. req_handle req = Some h \<longrightarrow> key_step E ctx req (R h) (R' h) \<and> disclosed E ctx req (R h) resp)"

text \<open>The outcome of a handler: a step, in a state that satisfies the invariant.\<close>

definition outcome ::
  "('s \<Rightarrow> bool) \<Rightarrow> ('s \<Rightarrow> bytes \<rightharpoonup> bytes) \<Rightarrow> ('s, 'x) vault_env \<Rightarrow> request_context \<Rightarrow> vault_request \<Rightarrow> (string \<rightharpoonup> key_record) \<Rightarrow>
    vault_response \<Rightarrow> ('s, 'x) vault_world \<Rightarrow> bool" where
  "outcome ok view E ctx req R resp w' \<longleftrightarrow> (\<exists>R'. vault_state (ve_lib E) ok view R' w' \<and> vault_step E ctx req R resp R')"

section \<open>Records stay well formed\<close>

lemma normalise_ttl_bounds: "0 < normalise_ttl t" "normalise_ttl t \<le> MAX_KEY_TTL_SECONDS"
  by (auto simp: normalise_ttl_def vault_limits Let_def word_gt_0 not_less)

lemma saturating_add_bound: "unat (saturating_add a b) \<le> unat a + unat b"
  by (auto simp: saturating_add_def checked_add_def unat_word_ariths unsigned_minus_1_eq_mask mask_eq_exp_minus_1 split: option.splits if_splits)

lemma saturating_Suc_pos: "0 < saturating_add a (1 :: 'a::len word)"
proof (cases "a = - 1")
  case True
  then show ?thesis
    by (simp add: saturating_add_def checked_add_def unsigned_minus_1_eq_mask mask_eq_exp_minus_1 word_gt_0)
next
  case False
  then have "a + 1 \<noteq> 0" by (metis add.commute add_eq_0_iff minus_minus)
  then show ?thesis by (auto simp: saturating_add_def checked_add_def word_gt_0 split: option.splits)
qed

lemma tee_profiles_normalised: "set (tee_profiles (map (normalise_principal L) ps)) \<subseteq> range (normalise_profile L)"
  by (induction ps) (auto simp: tee_profiles_def normalise_principal_def List.map_filter_def split: principal.splits)

lemma tee_profiles_append [simp]:
  "tee_profiles (ps @ qs) = tee_profiles ps @ tee_profiles qs" "tee_profiles [TeePrincipal p] = [p]"
  by (simp_all add: tee_profiles_def List.map_filter_def)

lemma normalise_policy_sel [simp]:
  "lc_ttl_seconds (kp_lifecycle (normalise_policy L p)) = normalise_ttl (lc_ttl_seconds (kp_lifecycle p))"
  "ps_tees (kp_principals (normalise_policy L p)) = map (normalise_principal L) (ps_tees (kp_principals p))"
  by (simp_all add: normalise_policy_def Let_def)

lemma record_ok_granted:
  "material \<noteq> [] \<Longrightarrow> validate_material L (kg_key_type grant) material = Inr pk \<Longrightarrow>
   record_ok L h (granted_record L h material pk now grant)"
  using saturating_add_bound [of now "normalise_ttl (lc_ttl_seconds (kp_lifecycle (kg_policy grant)))"]
    normalise_ttl_bounds [of "lc_ttl_seconds (kp_lifecycle (kg_policy grant))"]
  by (auto simp: record_ok_def granted_record_def Let_def pending_ids_ok_def tee_profiles_normalised word_le_nat_alt
      dest: subsetD [OF tee_profiles_normalised])

lemma record_ok_with_policy: "record_ok L h r \<Longrightarrow> record_ok L h (with_policy (normalise_policy L p) r)"
  using tee_profiles_normalised by (auto simp: record_ok_def with_policy_def saturating_Suc_pos normalise_ttl_bounds)

lemma record_ok_push_tee: "record_ok L h r \<Longrightarrow> p \<in> range (normalise_profile L) \<Longrightarrow> record_ok L h (push_tee p r)"
  by (auto simp: record_ok_def push_tee_def Let_def saturating_Suc_pos)

lemma pending_ids_ok_sub:
  "pending_ids_ok n ids \<Longrightarrow> distinct ids \<longrightarrow> distinct ids' \<Longrightarrow> set ids' \<subseteq> set ids \<Longrightarrow> pending_ids_ok n ids'"
  by (auto simp: pending_ids_ok_def)

lemma pending_ids_ok_snoc: "pending_ids_ok n ids \<Longrightarrow> pending_ids_ok (saturating_add n 1) (ids @ [n])"
proof (cases "n = - 1")
  case True
  then show ?thesis
    by (simp add: pending_ids_ok_def saturating_add_def checked_add_def unsigned_minus_1_eq_mask mask_eq_exp_minus_1)
next
  case False
  assume "pending_ids_ok n ids"
  then have ids: "distinct ids" "\<forall>i \<in> set ids. i < n" using False by (simp_all add: pending_ids_ok_def)
  have "unat n \<noteq> unat (- 1 :: u32)" using False by (simp add: word_unat_eq_iff)
  then have "unat n + 1 < 2 ^ 32" using unsigned_less [of n, where ?'a = nat] by (simp add: unsigned_minus_1_eq_mask mask_eq_exp_minus_1)
  then have "saturating_add n 1 = n + 1" "n < n + 1"
    by (simp_all add: saturating_add_def checked_add_def word_less_nat_alt unat_word_ariths)
  then show ?thesis using ids by (auto simp: pending_ids_ok_def)
qed

lemma record_ok_with_pending:
  "record_ok L h r \<Longrightarrow> length (kr_pending_profiles r) < MAX_PENDING_PROFILES \<Longrightarrow> pp_id p = kr_next_pending_id r \<Longrightarrow>
   pp_profile p \<in> range (normalise_profile L) \<Longrightarrow> record_ok L h (with_pending p r)"
  using pending_ids_ok_snoc [of "kr_next_pending_id r" "map pp_id (kr_pending_profiles r)"]
  by (auto simp: record_ok_def with_pending_def)

lemma remove_at_props:
  "set (remove_at i xs) \<subseteq> set xs" "length (remove_at i xs) \<le> length xs" "distinct xs \<longrightarrow> distinct (remove_at i xs)"
  "map f (remove_at i xs) = remove_at i (map f xs)"
proof -
  show "distinct xs \<longrightarrow> distinct (remove_at i xs)"
    using set_take_disj_set_drop_if_distinct [of xs i "Suc i"] by (auto simp: remove_at_def)
qed (auto simp: remove_at_def take_map drop_map dest: in_set_takeD in_set_dropD)

lemma record_ok_without_pending:
  assumes "record_ok L h r"
  shows "record_ok L h (without_pending i r)"
proof -
  have "pending_ids_ok (kr_next_pending_id r) (remove_at i (map pp_id (kr_pending_profiles r)))"
    by (rule pending_ids_ok_sub [OF _ remove_at_props(3,1)]) (use assms in \<open>simp add: record_ok_def\<close>)
  moreover have "length (remove_at i (kr_pending_profiles r)) \<le> MAX_PENDING_PROFILES"
    by (rule le_trans [OF remove_at_props(2)]) (use assms in \<open>simp add: record_ok_def\<close>)
  moreover have "pp_profile ` set (remove_at i (kr_pending_profiles r)) \<subseteq> range (normalise_profile L)"
    by (rule subset_trans [OF image_mono [OF remove_at_props(1)]]) (use assms in \<open>simp add: record_ok_def\<close>)
  ultimately show ?thesis using assms by (simp add: record_ok_def without_pending_def remove_at_props(4))
qed

lemma record_ok_revoke: "record_ok L h r \<Longrightarrow> record_ok L h (revoke_id i r)"
  by (auto simp: record_ok_def revoke_id_def distinct_map_filter elim!: pending_ids_ok_sub intro: le_trans [OF length_filter_le])


lemma with_policy_seq [simp]:
  "kr_audit_next_seq (with_policy p r) = kr_audit_next_seq r" "kr_audit_next_seq (push_tee q r) = kr_audit_next_seq r"
  "kr_audit_next_seq (with_pending pp r) = kr_audit_next_seq r" "kr_audit_next_seq (without_pending i r) = kr_audit_next_seq r"
  "kr_audit_next_seq (revoke_id j r) = kr_audit_next_seq r"
  by (simp_all add: with_policy_def push_tee_def with_pending_def without_pending_def revoke_id_def Let_def)

lemma covers_oids_iff:
  "list_all (\<lambda>oid. list_ex (\<lambda>q. or_oid q = oid) (ap_required_oids profile)) (key_required_oids policy) = covers_oids policy profile"
  by (auto simp: covers_oids_def list_all_iff list_ex_iff)

lemma find_index_Some: "find_index P i xs = Some j \<Longrightarrow> i \<le> j \<and> j - i < length xs \<and> P (xs ! (j - i))"
proof (induction P i xs rule: find_index.induct)
  case (2 P i x xs)
  then show ?case by (cases "P x") (auto simp: nth_Cons' not_less dest: le_antisym split: if_splits)
qed simp

section \<open>Every handler is a step\<close>

text \<open>The records are \<open>R\<close>, but for the key \<open>h\<close>, which is in one of the states \<open>K\<close>.\<close>

definition near ::
  "vault_lib \<Rightarrow> ('s \<Rightarrow> bool) \<Rightarrow> ('s \<Rightarrow> bytes \<rightharpoonup> bytes) \<Rightarrow> (string \<rightharpoonup> key_record) \<Rightarrow> string \<Rightarrow> key_record option list \<Rightarrow>
    ('s, 'x) vault_world \<Rightarrow> bool" where
  "near L ok view R h K w \<longleftrightarrow> (\<exists>k \<in> set K. vault_state L ok view (R(h := k)) w)"

declare step_same [simp] step_logged [simp]

context vault
begin

abbreviation post :: "request_context \<Rightarrow> vault_request \<Rightarrow> (string \<rightharpoonup> key_record) \<Rightarrow> vault_response \<Rightarrow> ('s, 'x) vault_world \<Rightarrow> bool" where
  "post ctx \<equiv> outcome inv view E ctx"

abbreviation at_key :: "(string \<rightharpoonup> key_record) \<Rightarrow> string \<Rightarrow> key_record option list \<Rightarrow> ('s, 'x) vault_world \<Rightarrow> bool" where
  "at_key \<equiv> near (ve_lib E) inv view"

lemma near_state: "state_is R w \<Longrightarrow> at_key R h [R h] w"
  by (simp add: near_def)

lemma wp_near:
  assumes "quiet m" "at_key R h K w" "\<And>r w'. at_key R h K w' \<Longrightarrow> answers m r \<Longrightarrow> Q r w'"
  shows "wp m Q w"
proof -
  obtain k where "k \<in> set K" "state_is (R(h := k)) w" using assms(2) by (auto simp: near_def)
  then show ?thesis by (intro quiet_wp [OF assms(1)]) (auto simp: near_def intro!: assms(3))
qed

lemma wp_save:
  assumes "state_is R w" "R h = Some r0" "record_ok (ve_lib E) h r" "kr_audit_next_seq r = kr_audit_next_seq r0"
    and "\<And>x w'. at_key R h [Some r0, Some (logged r)] w' \<Longrightarrow> Q (x, logged r) w'"
    and "\<And>e r' w'. at_key R h [Some r0] w' \<Longrightarrow> Q (Inl e, r') w'"
  shows "wp (audit_and_save E r op caller d reason) Q w"
proof (rule wp_audit_and_save [OF assms(1,3)])
  show "kr_audit_next_seq r = (case R h of None \<Rightarrow> 0 | Some r0 \<Rightarrow> kr_audit_next_seq r0)" by (simp add: assms(2,4))
  show "Q (Inl e, r') w'" if "state_is R w'" for e r' w'
    using assms(6) near_state [OF that, of h] assms(2) by simp
  show "Q (x, logged r) w'" if "state_is (R(h \<mapsto> logged r)) w'" for x w'
    using assms(5) that by (simp add: near_def)
qed

lemma wp_touch:
  assumes "state_is R w" "R h = Some r"
    and "\<And>x r' w'. at_key R h [Some r, Some (logged r)] w' \<Longrightarrow> x = Inr () \<longrightarrow> r' = logged r \<Longrightarrow> Q (x, r') w'"
  shows "wp (audit_and_save E r op caller d reason) Q w"
  by (rule wp_save [OF assms(1,2) state_record_ok [OF assms(1,2)]]) (use assms(3) in \<open>auto simp: near_def\<close>)

lemma wp_drop:
  assumes "at_key R h K w" "\<And>x w'. at_key R h (None # K) w' \<Longrightarrow> Q x w'"
  shows "wp (kv_delete E (record_key h)) Q w"
proof -
  obtain k where "k \<in> set K" "state_is (R(h := k)) w" using assms(1) by (auto simp: near_def)
  then show ?thesis by (intro wp_delete_record) (auto simp: near_def intro!: assms(2))
qed

lemma post_near:
  assumes "at_key R h K w'" "req_handle req = Some h" "list_all (key_step E ctx req (R h)) K" "disclosed E ctx req (R h) resp"
  shows "post ctx req R resp w'"
proof -
  obtain k where "k \<in> set K" "state_is (R(h := k)) w'" using assms(1) by (auto simp: near_def)
  then show ?thesis unfolding outcome_def vault_step_def
    by (intro exI [of _ "R(h := k)"]) (use assms(2-4) in \<open>auto simp: list_all_iff\<close>)
qed

lemma post_same: "state_is R w' \<Longrightarrow> (\<And>h. req_handle req = Some h \<Longrightarrow> disclosed E ctx req (R h) resp) \<Longrightarrow> post ctx req R resp w'"
  by (auto simp: outcome_def vault_step_def intro: step_same)

lemma disclosed_error [simp]:
  "disclosed E ctx req k (VaultError e)" "disclosed E ctx req k KeyDeleted" "disclosed E ctx req k (PolicyUpdated v)"
  "disclosed E ctx req k (KeyCreated h t)" "disclosed E ctx req k (KeyList l)" "disclosed E ctx req k (ApprovalTokenIssued tok)"
  "disclosed E ctx req k (PendingProfileStaged i b v)" "disclosed E ctx req k (PendingProfilePromoted v)"
  "disclosed E ctx req k PendingProfileRevoked"
  by (simp_all add: disclosed_def)

lemma post_error: "state_is R w' \<Longrightarrow> wp (vault_err e) (post ctx req R) w'"
  by (simp add: vault_err_def wp_simps post_same)

lemma post_error_near:
  "at_key R h K w' \<Longrightarrow> req_handle req = Some h \<Longrightarrow> list_all (key_step E ctx req (R h)) K \<Longrightarrow> wp (vault_err e) (post ctx req R) w'"
  by (simp add: vault_err_def wp_simps post_near)

lemma post_denied: "R h = Some r \<Longrightarrow> state_is R w \<Longrightarrow> req_handle req = Some h \<Longrightarrow> wp (deny E r op c e) (post ctx req R) w"
  unfolding deny_def vault_err_def wp_simps
  by (erule (1) wp_touch) (rule post_near [where h = h], auto)

lemma export_step: "state_is R w \<Longrightarrow> wp (handle_export E h approvals ctx) (post ctx (ReqExportKey h approvals) R) w"
  unfolding handle_export_def wp_simps
  apply (erule wp_load_record; simp only: sum.case wp_simps post_error)
  subgoal premises p for r w1
    by (rule quiet_wp [OF quiet_expired p(1)])
      (auto simp: wp_simps post_error p(2) disclosed_def live_def may_def split: sum.split
        intro!: quiet_wp [OF quiet_evaluate_op, where R = R] post_denied [of R h, OF p(2)] wp_touch [where R = R and h = h, OF _ p(2)]
        elim!: post_near [where h = h])
  done

lemma delete_step: "state_is R w \<Longrightarrow> wp (handle_delete E h approvals ctx) (post ctx (ReqDeleteKey h approvals) R) w"
  unfolding handle_delete_def wp_simps
  apply (erule wp_load_record; simp only: sum.case wp_simps post_error)
  subgoal premises p for r w1
    by (rule quiet_wp [OF quiet_evaluate_op p(1)])
      (auto simp: wp_simps post_error p(2) may_def step_deleted split: sum.split option.split
        intro!: post_denied [of R h, OF p(2)] wp_touch [where R = R and h = h, OF _ p(2)] 
        elim!: wp_drop wp_near [OF quiet_remove_from_owner_index] post_near [where h = h] post_error_near [where h = h])
  done

lemma update_step:
  "state_is R w \<Longrightarrow> wp (handle_update_policy E h new_policy approvals ctx) (post ctx (ReqUpdatePolicy h new_policy approvals) R) w"
  unfolding handle_update_policy_def wp_simps
  apply (erule wp_load_record; simp only: sum.case wp_simps post_error)
  subgoal premises p for r w1
    by (rule quiet_wp [OF quiet_expired p(1)])
      (auto simp: wp_simps post_error p(2) live_def may_def Let_def with_policy_def [symmetric]
          record_ok_with_policy [OF state_record_ok [OF p(1), of h, OF p(2)]] with_policy_seq
        split: sum.split option.split prod.split
        intro!: quiet_wp [OF quiet_evaluate_op, where R = R] quiet_wp [OF quiet_resolve_caller, where R = R] post_denied [of R h, OF p(2)]
          wp_save [where R = R and h = h, OF _ p(2)] step_updated
        elim!: post_near [where h = h] post_error_near [where h = h])
  done

lemma load_for_principal_wp:
  assumes "state_is R w" "\<And>e w'. state_is R w' \<Longrightarrow> Q (Inl e) w'"
    "\<And>r w'. state_is R w' \<Longrightarrow> R h = Some r \<Longrightarrow> is_principal E ctx r \<Longrightarrow> Q (Inr r) w'"
  shows "wp (load_for_principal E h ctx) Q w"
  unfolding load_for_principal_def wp_simps
  by (rule wp_load_record [OF assms(1)])
    (fastforce simp: wp_simps is_principal_def intro!: quiet_wp [OF quiet_resolve_caller, where R = R] assms(2,3))+

lemma read_steps:
  assumes "state_is R w"
  shows "wp (handle_get_policy E h ctx) (post ctx (ReqGetPolicy h) R) w"
    and "wp (handle_get_info E h ctx) (post ctx (ReqGetKeyInfo h) R) w"
    and "wp (handle_list_pending E h ctx) (post ctx (ReqListPendingProfiles h) R) w"
  unfolding handle_get_policy_def handle_get_info_def handle_list_pending_def wp_simps
  by (rule load_for_principal_wp [OF assms, where h = h and ctx = ctx]; auto simp: disclosed_def intro!: post_same)+

lemma quiet_list_entries: "quiet (list_entries E hs)"
proof (induction hs)
  case (Cons h hs)
  then show ?case unfolding list_entries.simps by (intro quiet_rules)
qed (simp add: quiet_return)

lemma list_step: "state_is R w \<Longrightarrow> wp (handle_list E ctx) (post ctx ReqListKeys R) w"
proof -
  have "quiet (handle_list E ctx)"
    unfolding handle_list_def by (intro quiet_rules quiet_vault_err quiet_list_entries)
  then show "state_is R w \<Longrightarrow> ?thesis" by (rule quiet_wp) (auto intro: post_same)
qed

lemma require_op_wp:
  assumes "state_is R w"
    and "\<And>e w'. state_is R w' \<Longrightarrow> Q (Inl e) w'"
    and "\<And>e r w'. R h = Some r \<Longrightarrow> at_key R h [Some r, Some (logged r)] w' \<Longrightarrow> Q (Inl e) w'"
    and "\<And>r w'. R h = Some r \<Longrightarrow> at_key R h [Some r, Some (logged r)] w' \<Longrightarrow> used_key E ctx h op kt approvals (R h) (kr_material r) \<Longrightarrow>
      Q (Inr (logged r)) w'"
  shows "wp (require_op E h op kt approvals ctx) Q w"
  unfolding require_op_def wp_simps
  apply (rule wp_load_record [OF assms(1)]; simp only: sum.case wp_simps assms(2))
  subgoal premises p for r w1
    by (rule quiet_wp [OF quiet_expired p(1)])
      (auto simp: wp_simps p(2) used_key_def live_def may_def assms(2) split: sum.split
        intro!: quiet_wp [OF quiet_evaluate_op, where R = R] wp_touch [where R = R and h = h, OF _ p(2)]
          assms(3) [OF p(2)] assms(4) [OF p(2)])
  done

lemma wrap_step:
  "state_is R w \<Longrightarrow> wp (handle_wrap E h p aad iv approvals ctx) (post ctx (ReqWrap h p aad iv approvals) R) w"
  unfolding handle_wrap_def wp_simps
  apply (erule require_op_wp; simp only: sum.case post_error)
  subgoal for e r w' by (auto elim!: post_error_near)
  subgoal premises p for r w1
  proof -
    have key: "used_key E ctx h OpWrap Aes256GcmKey approvals (Some r) (kr_material r)" using p by simp
    have q: "quiet (aes_gcm_seal E k t a i)" for k t a i
      unfolding aes_gcm_seal_def by (intro quiet_rules)
    have ans: "seal_with_nonce (ve_lib E) k t a n = Inr (c, n) \<and> (i = None \<or> i = Some n)"
      if "answers (aes_gcm_seal E k t a i) (Inr (c, n))" for k t a i c n
      using that by (auto simp: aes_gcm_seal_def seal_with_nonce_def split: option.splits if_splits dest!: answers_bind)
    show ?thesis
      using p(1,2) by (auto simp: wp_simps disclosed_def split: option.split sum.split
        elim!: post_error_near wp_near [OF q] post_near intro!: exI [of _ "kr_material r"] key dest!: ans simp: optional_def)
  qed
  done

lemma unwrap_step:
  "state_is R w \<Longrightarrow> wp (handle_unwrap E h c n aad approvals ctx) (post ctx (ReqUnwrap h c n aad approvals) R) w"
  unfolding handle_unwrap_def wp_simps
  apply (erule require_op_wp; simp only: sum.case post_error)
  subgoal for e r w' by (auto elim!: post_error_near)
  subgoal premises p for r w1
    using p by (auto simp: wp_simps disclosed_def optional_def split: option.split sum.split elim!: post_error_near post_near)
  done

lemma sign_step:
  "state_is R w \<Longrightarrow> wp (handle_sign E h m pre approvals ctx) (post ctx (ReqSign h m pre approvals) R) w"
  unfolding handle_sign_def wp_simps
  apply (erule require_op_wp; simp only: sum.case post_error)
  subgoal for e r w' by (auto elim!: post_error_near)
  subgoal premises p for r w1
  proof -
    have key: "used_key E ctx h OpSign P256SigningKey approvals (Some r) (kr_material r)" using p by simp
    have q: "quiet (p256_sign E k msg)" for k msg
      unfolding p256_sign_def by (intro quiet_rules)
    show ?thesis
      using p(1,2) key by (auto simp: wp_simps disclosed_def split: option.split sum.split elim!: post_error_near wp_near [OF q] post_near
        intro!: exI [of _ "kr_material r"])
  qed
  done

lemma mac_step:
  "state_is R w \<Longrightarrow> wp (handle_mac E h m approvals ctx) (post ctx (ReqMac h m approvals) R) w"
  unfolding handle_mac_def wp_simps
  apply (erule require_op_wp; simp only: sum.case post_error)
  subgoal for e r w' by (auto elim!: post_error_near)
  subgoal premises p for r w1
    using p by (auto simp: wp_simps disclosed_def split: option.split elim!: post_error_near post_near)
  done

lemma issue_step:
  "state_is R w \<Longrightarrow> wp (handle_issue_approval E h op ttl ctx) (post ctx (ReqIssueApprovalToken h op ttl) R) w"
  unfolding handle_issue_approval_def wp_simps
  apply (erule wp_load_record; simp only: sum.case post_error)
  subgoal premises p for r w1
    using p(1) by (auto simp: wp_simps p(2) post_error split: option.split sum.split
      intro!: post_denied [of R h, OF p(2)] wp_touch [where R = R and h = h, OF _ p(2)]
        quiet_wp [OF quiet_now_secs, where R = R] quiet_wp [OF quiet_issue, where R = R]
      elim!: post_error_near [where h = h] post_near [where h = h])
  done

lemma quiet_audit_walk: "quiet (audit_walk n E h next limit out seq)"
proof (induction n arbitrary: out seq)
  case (Suc n)
  then show ?case unfolding audit_walk.simps by (intro quiet_rules)
qed (simp add: quiet_return)

lemma read_audit_step:
  "state_is R w \<Longrightarrow> wp (handle_read_audit E h since limit ctx) (post ctx (ReqReadAuditLog h since limit) R) w"
  unfolding handle_read_audit_def wp_simps
  apply (erule load_for_principal_wp; simp only: sum.case post_error)
  subgoal premises p for r w1
  proof -
    have q: "quiet (audit_read E h n s l)" for n s l
      unfolding audit_read_def by (rule quiet_audit_walk)
    show ?thesis using p
      by (auto simp: wp_simps disclosed_def split: sum.split intro!: post_error quiet_wp [OF q, where R = R] post_same)
  qed
  done

lemma quiet_check_pending_mutability: "quiet (check_pending_mutability E r ctx)"
  unfolding check_pending_mutability_def by (intro quiet_rules quiet_resolve_caller)

lemma quiet_check_stage_authority: "quiet (check_stage_authority E r ctx)"
  unfolding check_stage_authority_def by (intro quiet_rules quiet_resolve_caller quiet_check_pending_mutability)

lemma revoke_step:
  "state_is R w \<Longrightarrow> wp (handle_revoke_pending E h i ctx) (post ctx (ReqRevokePendingProfile h i) R) w"
  unfolding handle_revoke_pending_def wp_simps revoke_id_def [symmetric] Let_def
  apply (erule wp_load_record; simp only: sum.case wp_simps post_error)
  subgoal premises p for r w1
  proof -
    have same: "revoke_id i r = r" if "length (kr_pending_profiles (revoke_id i r)) = length (kr_pending_profiles r)"
    proof -
      have "length (filter (\<lambda>p. pp_id p \<noteq> i) (kr_pending_profiles r)) = length (kr_pending_profiles r)"
        using that by (simp add: revoke_id_def)
      then have "filter (\<lambda>p. pp_id p \<noteq> i) (kr_pending_profiles r) = kr_pending_profiles r"
        by (metis filter_id_conv filter_True length_filter_less less_irrefl)
      then show ?thesis by (simp add: revoke_id_def)
    qed
    show ?thesis
      by (rule quiet_wp [OF quiet_check_pending_mutability p(1)])
        (auto simp: wp_simps p(2) post_error same step_revoked split: sum.split
          intro!: post_denied [of R h, OF p(2)] wp_save [where R = R and h = h, OF _ p(2) record_ok_revoke [OF state_record_ok [OF p(1), of h, OF p(2)]]]
          elim!: post_error_near [where h = h] post_near [where h = h])
  qed
  done

lemma promote_step:
  "state_is R w \<Longrightarrow> wp (handle_promote_pending E h i approvals ctx) (post ctx (ReqPromotePendingProfile h i approvals) R) w"
  unfolding handle_promote_pending_def wp_simps without_pending_def [symmetric] Let_def covers_oids_iff
  apply (erule wp_load_record; simp only: sum.case wp_simps post_error)
  subgoal premises p for r w1
  proof -
    have pos: "j < length (kr_pending_profiles r) \<and> pp_id (kr_pending_profiles r ! j) = i"
      if "find_index (\<lambda>p. pp_id p = i) 0 (kr_pending_profiles r) = Some j" for j
      using find_index_Some [OF that] by simp
    have ok: "record_ok (ve_lib E) h (push_tee (pp_profile (kr_pending_profiles r ! j)) (without_pending j r))"
      if "j < length (kr_pending_profiles r)" for j
    proof (intro record_ok_push_tee record_ok_without_pending)
      show rok: "record_ok (ve_lib E) h r" by (rule state_record_ok [OF p])
      show "pp_profile (kr_pending_profiles r ! j) \<in> range (normalise_profile (ve_lib E))"
        using rok that by (auto simp: record_ok_def)
    qed
    show ?thesis
    proof (cases "find_index (\<lambda>p. pp_id p = i) 0 (kr_pending_profiles r)")
      case None
      then show ?thesis
        by (intro quiet_wp [OF quiet_evaluate_op p(1)])
          (auto simp: wp_simps p(2) split: sum.split intro!: post_denied [of R h, OF p(2)])
    next
      case (Some j)
      with pos have j: "j < length (kr_pending_profiles r)" "pp_id (kr_pending_profiles r ! j) = i" by auto
      show ?thesis
        by (rule quiet_wp [OF quiet_evaluate_op p(1)])
          (auto simp: wp_simps p(2) may_def Some split: sum.split
            intro!: post_denied [of R h, OF p(2)] wp_save [where R = R and h = h, OF _ p(2) ok [OF j(1)]] step_promoted [OF j(1) refl j(2)]
            elim!: post_error_near [where h = h] post_near [where h = h])
    qed
  qed
  done

lemma post_staged: "state_is R w' \<Longrightarrow> post ctx req R (PendingProfileStaged i b v) w'"
  by (simp add: post_same)

lemma stage_step:
  "state_is R w \<Longrightarrow> wp (handle_stage_pending E h profile source ctx) (post ctx (ReqStagePendingProfile h profile source) R) w"
  unfolding handle_stage_pending_def wp_simps with_pending_def [symmetric] Let_def
  apply (erule wp_load_record; simp only: sum.case wp_simps post_error)
  subgoal premises p for r w1
  proof -
    have rok: "record_ok (ve_lib E) h r" by (rule state_record_ok [OF p])
    show ?thesis
      apply (rule quiet_wp [OF quiet_check_stage_authority p(1)])
      subgoal premises q for v w2
      proof (cases v)
        case (Inl e)
        then show ?thesis using q(1) by (simp add: post_denied [of R h, OF p(2)])
      next
        case (Inr stager)
        note staged = step_staged [OF q(2) [unfolded Inr]]
        show ?thesis using q
          by (auto simp: wp_simps p(2) Inr post_error post_staged not_le split: option.split sum.split
            intro!: post_denied [of R h, OF p(2)] step_migrated staged quiet_wp [OF quiet_now_secs, where R = R]
              wp_save [where R = R and h = h, OF _ p(2) record_ok_push_tee [OF rok]]
              wp_save [where R = R and h = h, OF _ p(2) record_ok_with_pending [OF rok]]
            elim!: post_error_near [where h = h] post_near [where h = h])
      qed
      done
  qed
  done

lemma wp_free_handle:
  assumes "state_is R w" "\<And>x w'. state_is R w' \<Longrightarrow> x = Inr None \<longrightarrow> R h = None \<Longrightarrow> Q x w'"
  shows "wp (kv_get E (record_key h)) Q w"
proof -
  obtain V where V: "holds V w" "vault_ok (ve_lib E) V" "records (ve_lib E) V = R" using assms(1) state_holds by blast
  show ?thesis
    by (rule wp_kv_get [OF V(1)], rule assms(2)) (use V in \<open>auto simp: records_def intro: holds_state\<close>)
qed

lemma wp_create:
  assumes "state_is R w" "R h = None" "record_ok (ve_lib E) h r" "kr_audit_next_seq r = 0"
    and "\<And>x w'. at_key R h [None, Some (logged r)] w' \<Longrightarrow> Q x w'"
  shows "wp (audit_and_save E r op caller d reason) Q w"
proof (rule wp_audit_and_save [OF assms(1,3)])
  show "Q (Inl e, r') w'" if "state_is R w'" for e r' w'
    using assms(5) near_state [OF that, of h] assms(2) by (auto simp: near_def)
  show "Q (x, logged r) w'" if "state_is (R(h \<mapsto> logged r)) w'" for x w'
    using assms(5) that by (simp add: near_def)
qed (simp add: assms(2,4))

lemma create_step:
  "state_is R w \<Longrightarrow> wp (handle_create E h m jwt ctx) (post ctx (ReqCreateKey h m jwt) R) w"
proof -
  assume w: "state_is R w"
  have save: "wp (audit_and_save E (granted_record (ve_lib E) h material pk now grant) ''CreateKey'' (caller_str ctx) Allowed reason)
      (\<lambda>x. wp (case x of (Inl e, _) \<Rightarrow> vault_err e
        | (Inr _, _) \<Rightarrow> do {
            indexed \<leftarrow> add_to_owner_index E (kg_sub grant) h;
            case indexed of Inl _ \<Rightarrow> vault_err ''kv owner index'' | Inr _ \<Rightarrow> State_Monad.return (KeyCreated h t)
          }) (post ctx (ReqCreateKey h m jwt) R)) w'"
    if "state_is R w'" "R h = None" "answers (verify_grant E jwt ctx now) (Inr grant)" "in_scope h (kg_scope grant)"
      "owner_oidc_sub (ps_owner (kp_principals (kg_policy grant))) = Some (kg_sub grant)"
      "vl_b64_decode (ve_lib E) m = Some material" "material \<noteq> []"
      "validate_material (ve_lib E) (kg_key_type grant) material = Inr pk" for w' material pk now grant reason t
    by (rule wp_create [OF that(1,2) record_ok_granted [OF that(7,8)]])
      (auto simp: granted_record_def [of _ _ _ _ _ grant, THEN arg_cong [where f = kr_audit_next_seq]] Let_def that(2) wp_simps
        step_created [OF that(3-8)] split: sum.split prod.split
        elim!: post_error_near [where h = h] post_near [where h = h] wp_near [OF quiet_add_to_owner_index])
  show ?thesis
    unfolding handle_create_def Let_def wp_simps
    using w
    by (auto simp: wp_simps post_error Let_def in_scope_def [symmetric] split: sum.split option.split
      intro!: quiet_wp [OF quiet_now_secs, where R = R] quiet_wp [OF quiet_verify_grant, where R = R]
        wp_free_handle [where R = R] save [unfolded granted_record_def Let_def normalise_policy_sel])
qed

theorem dispatch_step: "state_is R w \<Longrightarrow> wp (vault_dispatch E ctx req) (post ctx req R) w"
  by (cases req)
    (simp_all add: create_step export_step delete_step update_step read_steps list_step wrap_step unwrap_step sign_step mac_step
      issue_step read_audit_step stage_step promote_step revoke_step)

end

end
