(* ===== verification/Vault_Authority.thy ===== *)
theory Vault_Authority
  imports Vault_Steps
begin

text \<open>
  What it means that a policy allows an operation, without the order in which the code looks: the
  caller is one of the principals, a rule names the operation and the caller, and all its conditions
  hold at one reading of the clock. \<open>evaluate_op\<close> accepts nothing else, and it always accepts a caller
  whom a rule without conditions names.
\<close>

section \<open>Attested peers\<close>

definition appraisal_body :: "vault_lib \<Rightarrow> bytes \<Rightarrow> bytes" where
  "appraisal_body L evidence = str_bytes (''{'' @ quoted ''quote'' @ '':'' @ quoted (vl_b64_standard L evidence) @ ''}'')"

text \<open>The server answered the quote with this verdict.\<close>

definition appraised :: "('s, 'x) vault_env \<Rightarrow> bytes \<Rightarrow> string \<Rightarrow> verify_response \<Rightarrow> bool" where
  "appraised E evidence url v \<longleftrightarrow>
     (\<exists>headers x reply x'. ho_https_post (ve_host E) url headers (appraisal_body (ve_lib E) evidence) x = (Inr reply, x') \<and>
        vl_verdict_of (ve_lib E) reply = Some v)"

definition attested :: "('s, 'x) vault_env \<Rightarrow> attestation_profile \<Rightarrow> bytes \<Rightarrow> peer_evidence option \<Rightarrow> bool" where
  "attested E profile der pev \<longleftrightarrow>
     (\<exists>pe ev identity. pev = Some pe \<and> dissect_peer_cert (ve_lib E) der (pe_quote pe) = Inr ev \<and>
        ap_attestation_servers profile \<noteq> [] \<and>
        (\<forall>s \<in> set (ap_attestation_servers profile). \<exists>v. appraised E (pe_quote pe) (as_url s) v \<and> vr_success v \<and>
           tcb_status_acceptable (vr_tcb_status v) (ap_acceptable_tcb_statuses profile)) \<and>
        parse_quote (pe_quote pe) = Inr identity \<and> measurement_matches (ve_lib E) identity (ap_measurements profile) \<and>
        (\<forall>q \<in> set (ap_required_oids profile). (or_oid q, or_value q) \<in> set (te_oid_claims ev)))"

section \<open>Callers\<close>

definition caller_is :: "('s, 'x) vault_env \<Rightarrow> request_context \<Rightarrow> key_policy \<Rightarrow> principal_ref \<Rightarrow> bool" where
  "caller_is E ctx policy ref =
     (let ps = kp_principals policy;
          named = (\<lambda>i people. \<exists>c j. rc_oidc_claims ctx = Some c \<and> j < length people \<and> i = word_of_nat j \<and> oidc_matches (people ! j) c)
      in case ref of
           RefOwner \<Rightarrow> (\<exists>c. rc_oidc_claims ctx = Some c \<and> oidc_matches (ps_owner ps) c)
         | RefManager i \<Rightarrow> named i (ps_managers ps)
         | RefAuditor i \<Rightarrow> named i (ps_auditors ps)
         | RefTee i \<Rightarrow>
             (\<exists>der j profile. rc_peer_cert_der ctx = Some der \<and> j < length (ps_tees ps) \<and> i = word_of_nat j \<and>
                ps_tees ps ! j = TeePrincipal profile \<and> attested E profile der (rc_peer_evidence ctx))
         | RefAnyTee \<Rightarrow> False)"

definition rule_names :: "operation_rule \<Rightarrow> principal_ref \<Rightarrow> bool" where
  "rule_names rule ref \<longleftrightarrow> ref \<in> set (ru_principals rule) \<or> RefAnyTee \<in> set (ru_principals rule) \<and> (\<exists>i. ref = RefTee i)"

section \<open>Conditions\<close>

text \<open>The token is signed with the vault's key and carries these claims.\<close>

definition token_claims :: "('s, 'x) vault_env \<Rightarrow> approval_token \<Rightarrow> approval_claims \<Rightarrow> bool" where
  "token_claims E token claims \<longleftrightarrow>
     (\<exists>pk v. answers (load_or_init_public_key E) (Inr pk) \<and> from_public_key_bytes pk = Inr v \<and>
        verify_and_decode (ve_lib E) (vl_claims_of (ve_lib E)) v (str_bytes (at_jwt token)) = Inr claims)"

definition approves ::
  "approval_claims \<Rightarrow> string \<Rightarrow> operation \<Rightarrow> u32 \<Rightarrow> u64 \<Rightarrow> u64 \<Rightarrow> bool" where
  "approves claims handle op manager fresh now \<longleftrightarrow>
     ac_iss claims = ISSUER \<and> ac_handle claims = handle \<and> ac_op claims = op \<and> ac_manager claims = manager \<and>
     now \<le> ac_exp claims \<and> (fresh = 0 \<or> saturating_sub now (ac_iat claims) \<le> fresh)"

definition stepped_up ::
  "vault_lib \<Rightarrow> string \<Rightarrow> op_binding option \<Rightarrow> u64 \<Rightarrow> string list \<Rightarrow> bool \<Rightarrow> u64 \<Rightarrow> oidc_claims \<Rightarrow> bool" where
  "stepped_up L handle binding now amr bound fresh c \<longleftrightarrow>
     has_amr c amr \<and> (fresh = 0 \<or> oc_iat c \<noteq> 0 \<and> saturating_sub now (oc_iat c) \<le> fresh) \<and>
     (bound \<longrightarrow> (\<exists>b nonce. binding = Some b \<and> oc_nonce c = Some nonce \<and>
        oc_vault_op c = Some (vault_op_binding L handle (ob_measurement_digest_hex b) (ob_policy_version b) nonce (oc_exp c))))"

definition condition_met ::
  "('s, 'x) vault_env \<Rightarrow> key_policy \<Rightarrow> operation \<Rightarrow> string \<Rightarrow> approval_token list \<Rightarrow> request_context \<Rightarrow> op_binding option \<Rightarrow>
    u64 \<Rightarrow> condition \<Rightarrow> bool" where
  "condition_met E policy op handle approvals ctx binding now cond =
     (case cond of
        TimeWindow not_before not_after \<Rightarrow> (not_before = 0 \<or> not_before \<le> now) \<and> (not_after = 0 \<or> now \<le> not_after)
      | AttestationMatches profile \<Rightarrow> (\<exists>der. rc_peer_cert_der ctx = Some der \<and> attested E profile der (rc_peer_evidence ctx))
      | ManagerApproval manager fresh \<Rightarrow>
          (\<exists>token claims issuer sub roles. token \<in> set approvals \<and> token_claims E token claims \<and>
             approves claims handle op manager fresh now \<and>
             unat manager < length (ps_managers (kp_principals policy)) \<and>
             ps_managers (kp_principals policy) ! unat manager = Oidc issuer sub roles \<and>
             (sub = [] \<longrightarrow> (\<exists>c. rc_oidc_claims ctx = Some c \<and> ac_approver_sub claims \<noteq> [] \<and> ac_approver_sub claims \<noteq> oc_sub c)))
      | OidcStepUp amr bound fresh \<Rightarrow>
          (\<exists>c. rc_oidc_claims ctx = Some c \<and> stepped_up (ve_lib E) handle binding now amr bound fresh c))"

definition authorised ::
  "('s, 'x) vault_env \<Rightarrow> request_context \<Rightarrow> key_policy \<Rightarrow> operation \<Rightarrow> string \<Rightarrow> approval_token list \<Rightarrow> op_binding option \<Rightarrow> bool" where
  "authorised E ctx policy op handle approvals binding \<longleftrightarrow>
     (\<exists>ref rule now. caller_is E ctx policy ref \<and> rule \<in> set (kp_operations policy) \<and> op \<in> set (ru_ops rule) \<and> rule_names rule ref \<and>
        answers (now_secs E) now \<and>
        (\<forall>c \<in> set (ru_requires rule). condition_met E policy op handle approvals ctx binding now c))"

section \<open>Soundness\<close>

lemma answers_case:
  "answers (case s of Inl a \<Rightarrow> f a | Inr b \<Rightarrow> g b) x \<longleftrightarrow> (case s of Inl a \<Rightarrow> answers (f a) x | Inr b \<Rightarrow> answers (g b) x)"
  "answers (case z of None \<Rightarrow> n | Some y \<Rightarrow> h y) x \<longleftrightarrow> (case z of None \<Rightarrow> answers n x | Some y \<Rightarrow> answers (h y) x)"
  "answers (if b then m else m') x \<longleftrightarrow> (if b then answers m x else answers m' x)"
  by (auto split: sum.split option.split)

lemma answers_host: "answers (host f) r \<Longrightarrow> \<exists>x x'. f x = (r, x')"
  by (auto simp: answers_def host_def split: prod.splits) (metis surj_pair)

lemma ask_servers_sound:
  "answers (ask_servers E body urls) (Inr vs) \<Longrightarrow>
   list_all2 (\<lambda>url v. vr_success v \<and> (\<exists>headers x reply x'. ho_https_post (ve_host E) url headers body x = (Inr reply, x') \<and>
     vl_verdict_of (ve_lib E) reply = Some v)) urls vs"
proof (induction urls arbitrary: vs)
  case (Cons url urls)
  then show ?case
    by (auto simp: Let_def answers_case split: sum.splits option.splits if_splits dest!: answers_bind answers_host) blast+
qed simp

lemma tee_matches_sound: "answers (tee_matches E profile der pev) True \<Longrightarrow> attested E profile der pev"
proof -
  assume t: "answers (tee_matches E profile der pev) True"
  obtain pe ev where pe: "pev = Some pe" "dissect_peer_cert (ve_lib E) der (pe_quote pe) = Inr ev"
    and servers: "ap_attestation_servers profile \<noteq> []"
    using t by (auto simp: tee_matches_def answers_case Let_def split: option.splits sum.splits if_splits)
  have ev: "te_evidence ev = pe_quote pe"
    using pe(2) by (auto simp: dissect_peer_cert_def split: option.splits sum.splits if_splits)
  from t pe servers obtain vs identity where
    vs: "answers (verify_quote_statuses E (pe_quote pe) (map as_url (ap_attestation_servers profile))) (Inr vs)"
    and rest: "list_all (\<lambda>v. tcb_status_acceptable (vr_tcb_status v) (ap_acceptable_tcb_statuses profile)) vs"
      "parse_quote (pe_quote pe) = Inr identity" "measurement_matches (ve_lib E) identity (ap_measurements profile)"
      "list_all (\<lambda>req. list_ex (\<lambda>(oid, val). oid = or_oid req \<and> val = or_value req) (te_oid_claims ev)) (ap_required_oids profile)"
    by (auto simp: tee_matches_def answers_case Let_def ev dest!: answers_bind split: sum.splits)
  have "answers (ask_servers E (appraisal_body (ve_lib E) (pe_quote pe)) (map as_url (ap_attestation_servers profile))) (Inr vs)"
    using vs servers by (auto simp: verify_quote_statuses_def answers_case appraisal_body_def dest!: answers_bind split: if_splits)
  from ask_servers_sound [OF this]
  have "\<exists>v \<in> set vs. appraised E (pe_quote pe) (as_url s) v \<and> vr_success v" if "s \<in> set (ap_attestation_servers profile)" for s
    using that by (fastforce simp: appraised_def list_all2_conv_all_nth in_set_conv_nth)
  then show ?thesis using pe servers rest by (fastforce simp: attested_def list_all_iff list_ex_iff)
qed

lemma resolve_tee_sound:
  "answers (resolve_tee E der pev i ps) (Some (ref, role)) \<Longrightarrow>
   \<exists>j profile. j < length ps \<and> ref = RefTee (word_of_nat (i + j)) \<and> ps ! j = TeePrincipal profile \<and> attested E profile der pev"
proof (induction ps arbitrary: i)
  case (Cons p ps)
  have later: ?case if "answers (resolve_tee E der pev (Suc i) ps) (Some (ref, role))"
    using Cons.IH [OF that] by (metis Suc_less_eq add_Suc_shift length_Cons nth_Cons_Suc)
  show ?case
  proof (cases p)
    case (TeePrincipal profile)
    from Cons.prems obtain ok where ok: "answers (tee_matches E profile der pev) ok"
      "answers (if ok then State_Monad.return (Some (RefTee (word_of_nat i), RoleTee)) else resolve_tee E der pev (Suc i) ps) (Some (ref, role))"
      by (auto simp: TeePrincipal dest!: answers_bind)
    show ?thesis
    proof (cases ok)
      case True
      then show ?thesis using ok tee_matches_sound [of E profile der pev] TeePrincipal by (intro exI [of _ 0]) simp
    qed (use ok later in simp)
  qed (use Cons.prems later in simp_all)
qed simp

lemma resolve_caller_sound: "answers (resolve_caller E policy ctx) (Some (ref, role)) \<Longrightarrow> caller_is E ctx policy ref"
proof -
  assume a: "answers (resolve_caller E policy ctx) (Some (ref, role))"
  show ?thesis
  proof (cases "Option.bind (rc_oidc_claims ctx) (resolve_oidc policy)")
    case None
    then obtain der where "rc_peer_cert_der ctx = Some der"
      "answers (resolve_tee E der (rc_peer_evidence ctx) 0 (ps_tees (kp_principals policy))) (Some (ref, role))"
      using a by (auto simp: resolve_caller_def answers_case split: option.splits)
    then show ?thesis using resolve_tee_sound by (fastforce simp: caller_is_def Let_def)
  next
    case (Some r)
    then have "r = (ref, role)" using a by (simp add: resolve_caller_def)
    then obtain c where c: "rc_oidc_claims ctx = Some c" "resolve_oidc policy c = Some (ref, role)"
      using Some by (auto simp: Option.bind_eq_Some_conv)
    then show ?thesis
      by (auto simp: resolve_oidc_def caller_is_def Let_def split: if_splits option.splits dest!: find_index_Some)
  qed
qed

lemma rule_names_iff: "rule_grants_to rule ref \<Longrightarrow> rule_names rule ref"
proof -
  assume "rule_grants_to rule ref"
  then obtain p where p: "p \<in> set (ru_principals rule)"
    "case (p, ref) of (RefOwner, RefOwner) \<Rightarrow> True | (RefManager a, RefManager b) \<Rightarrow> a = b | (RefAuditor a, RefAuditor b) \<Rightarrow> a = b
       | (RefTee a, RefTee b) \<Rightarrow> a = b | (RefAnyTee, RefTee _) \<Rightarrow> True | _ \<Rightarrow> False"
    by (auto simp: rule_grants_to_def list_ex_iff)
  show ?thesis by (cases p; cases ref) (use p in \<open>auto simp: rule_names_def\<close>)
qed

lemma check_approval_claims_sound:
  "check_approval_claims claims h op m d fresh now = Inr u \<Longrightarrow>
   approves claims h op m fresh now \<and> (d \<noteq> None \<longrightarrow> ac_approver_sub claims \<noteq> [] \<and> d \<noteq> Some (ac_approver_sub claims))"
  by (auto simp: check_approval_claims_def approves_def not_less word_neq_0_conv split: if_splits)

lemma accept_token_sound:
  "answers (accept_token E h op m d fresh now e tokens) (Inr u) \<Longrightarrow>
   \<exists>token claims. token \<in> set tokens \<and> token_claims E token claims \<and> approves claims h op m fresh now \<and>
     (d \<noteq> None \<longrightarrow> ac_approver_sub claims \<noteq> [] \<and> d \<noteq> Some (ac_approver_sub claims))"
proof (induction tokens arbitrary: e)
  case (Cons t tokens)
  then obtain v where v: "answers (verify_approval_token E t h op m d fresh now) v"
    "answers (case v of Inr _ \<Rightarrow> State_Monad.return (Inr ()) | Inl e \<Rightarrow> accept_token E h op m d fresh now (Some e) tokens) (Inr u)"
    by (auto dest!: answers_bind)
  show ?case
  proof (cases v)
    case (Inl e)
    then show ?thesis using v Cons.IH by fastforce
  next
    case (Inr x)
    then obtain claims where "token_claims E t claims" "check_approval_claims claims h op m d fresh now = Inr x"
      using v(1) unfolding token_claims_def
      by (auto simp: verify_approval_token_def answers_case dest!: answers_bind split: if_splits sum.splits) metis
    then show ?thesis using check_approval_claims_sound by fastforce
  qed
qed simp

lemma check_step_up_sound:
  "check_step_up L h oidc b now amr bound fresh = Inr u \<Longrightarrow> \<exists>c. oidc = Some c \<and> stepped_up L h b now amr bound fresh c"
  by (auto simp: check_step_up_def stepped_up_def Let_def not_less word_neq_0_conv split: option.splits if_splits)

lemma check_condition_sound:
  "answers (check_condition E policy op h approvals ctx b now c) (Inr u) \<Longrightarrow> condition_met E policy op h approvals ctx b now c"
proof (cases c)
  case (AttestationMatches profile)
  assume "answers (check_condition E policy op h approvals ctx b now c) (Inr u)"
  then show ?thesis
    using tee_matches_sound [of E profile]
    by (auto simp: AttestationMatches check_condition_def condition_met_def answers_case split: option.splits if_splits dest!: answers_bind)
next
  case (ManagerApproval m fresh)
  assume "answers (check_condition E policy op h approvals ctx b now c) (Inr u)"
  then show ?thesis
    by (auto simp: ManagerApproval check_condition_def condition_met_def answers_case Let_def split: principal.splits option.splits if_splits
      dest!: accept_token_sound) metis
next
  case (OidcStepUp amr bound fresh)
  assume "answers (check_condition E policy op h approvals ctx b now c) (Inr u)"
  then show ?thesis
    using check_step_up_sound by (fastforce simp: OidcStepUp check_condition_def condition_met_def)
qed (auto simp: check_condition_def condition_met_def not_less split: if_splits)

lemma check_conditions_sound:
  "answers (check_conditions E policy op h approvals ctx b now cs) (Inr u) \<Longrightarrow>
   \<forall>c \<in> set cs. condition_met E policy op h approvals ctx b now c"
proof (induction cs)
  case (Cons c cs)
  then show ?case
    by (auto simp: answers_case split: sum.splits dest!: answers_bind dest: check_condition_sound)
qed simp

lemma try_rules_sound:
  "answers (try_rules E policy op h approvals ctx b ref e rules) (Inr u) \<Longrightarrow>
   \<exists>rule now. rule \<in> set rules \<and> op \<in> set (ru_ops rule) \<and> rule_names rule ref \<and> answers (now_secs E) now \<and>
     (\<forall>c \<in> set (ru_requires rule). condition_met E policy op h approvals ctx b now c)"
proof (induction rules arbitrary: e)
  case (Cons rule rules)
  show ?case
  proof (cases "op \<notin> set (ru_ops rule) \<or> \<not> rule_grants_to rule ref")
    case True
    then have "answers (try_rules E policy op h approvals ctx b ref e rules) (Inr u)" using Cons.prems by simp
    from Cons.IH [OF this] show ?thesis by auto
  next
    case False
    with Cons.prems obtain v where v: "answers (evaluate_conditions E (ru_requires rule) policy op h approvals ctx b) v"
      "answers (case v of Inr _ \<Rightarrow> State_Monad.return (Inr ()) | Inl e \<Rightarrow> try_rules E policy op h approvals ctx b ref (Some e) rules) (Inr u)"
      by (auto dest!: answers_bind)
    show ?thesis
    proof (cases v)
      case (Inl e)
      then show ?thesis using v Cons.IH by fastforce
    next
      case (Inr x)
      then obtain now where "answers (now_secs E) now" "\<forall>c \<in> set (ru_requires rule). condition_met E policy op h approvals ctx b now c"
        using v(1) by (auto simp: evaluate_conditions_def dest!: answers_bind dest: check_conditions_sound)
      then show ?thesis using False rule_names_iff by auto
    qed
  qed
qed simp

lemma evaluate_op_authorised:
  "answers (evaluate_op E policy op h approvals ctx b) (Inr u) \<Longrightarrow> authorised E ctx policy op h approvals b"
  unfolding evaluate_op_def authorised_def
  by (auto simp: answers_case split: option.splits dest!: answers_bind try_rules_sound) (metis resolve_caller_sound)

lemma may_authorised: "may E ctx h op approvals b r \<Longrightarrow> authorised E ctx (kr_policy r) op h approvals b"
  unfolding may_def by (rule evaluate_op_authorised)

end
