(* ===== verification/Vault_Roundtrip.thy ===== *)
theory Vault_Roundtrip
  imports Vault_Authority
begin

text \<open>
  What the vault hands out comes back: approval tokens it issues verify, data it wraps unwraps to the
  plaintext, and the audit log is read back in order and without gaps.
\<close>

section \<open>Promises of the libraries\<close>

text \<open>Base64url without padding decodes what it encodes, and uses ASCII characters other than the dot.\<close>

definition b64_ok :: "vault_lib \<Rightarrow> bool" where
  "b64_ok L \<longleftrightarrow> (\<forall>b. vl_b64_decode L (vl_b64_encode L b) = Some b \<and> CHR ''.'' \<notin> set (vl_b64_encode L b) \<and> is_ascii (vl_b64_encode L b))"

text \<open>
  A P-256 public key is an uncompressed point; a signature made with a key verifies under its public
  key; the JSON codecs read back claims and the algorithm of the header.
\<close>

definition signing_ok :: "('s, 'x) vault_env \<Rightarrow> bool" where
  "signing_ok E \<longleftrightarrow>
     (\<forall>k pk. vl_ec_public (ve_lib E) k = Some pk \<longrightarrow> length pk = 65 \<and> pk ! 0 = 4) \<and>
     (\<forall>k pk m sig x x'. vl_ec_public (ve_lib E) k = Some pk \<longrightarrow> ho_ec_sign (ve_host E) k m x = (Some sig, x') \<longrightarrow>
        vl_ec_verify (ve_lib E) pk m sig) \<and>
     (\<forall>c b. vl_claims_to (ve_lib E) c = Some b \<longrightarrow> vl_claims_of (ve_lib E) b = Some c) \<and>
     vl_header_alg (ve_lib E) (str_bytes (jwt_header None)) = Some ALG_ES256"

section \<open>Tokens\<close>

lemma utf8_ascii: "is_ascii s \<Longrightarrow> utf8_valid (str_bytes s)"
proof (induction s)
  case (Cons c s)
  have "unat (of_char c :: byte) < 128" using Cons.prems by (simp add: unat_of_char is_ascii_def)
  then have "(of_char c :: byte) < 0x80" by (simp add: word_less_nat_alt)
  then show ?case using Cons by (simp add: str_bytes_def is_ascii_def)
qed (simp add: str_bytes_def)

lemma is_ascii_append [simp]: "is_ascii (s @ t) = (is_ascii s \<and> is_ascii t)"
  by (simp add: is_ascii_def)

lemma split_once_dot: "c \<notin> set s \<Longrightarrow> split_once c (s @ c # t) = (s, Some t)"
  by (simp add: split_once_def takeWhile_append dropWhile_append)

lemma jwt_verify_own:
  assumes "b64_ok L" "vl_header_alg L (str_bytes header) = Some ALG_ES256"
    and "vl_ec_verify L pk (str_bytes (vl_b64_encode L (str_bytes header) @ ''.'' @ vl_b64_encode L payload)) sig"
  shows "jwt_verify L (Es256 pk)
      (str_bytes (vl_b64_encode L (str_bytes header) @ ''.'' @ vl_b64_encode L payload @ ''.'' @ vl_b64_encode L sig)) =
    Inr (payload, str_bytes header)"
proof -
  let ?h = "vl_b64_encode L (str_bytes header)" and ?p = "vl_b64_encode L payload" and ?s = "vl_b64_encode L sig"
  have b: "vl_b64_decode L (vl_b64_encode L x) = Some x" "CHR ''.'' \<notin> set (vl_b64_encode L x)" "is_ascii (vl_b64_encode L x)" for x
    using assms(1) by (simp_all add: b64_ok_def)
  have "utf8_valid (str_bytes (?h @ ''.'' @ ?p @ ''.'' @ ?s))" using b(3) by (intro utf8_ascii) (simp add: is_ascii_def)
  moreover have "split_once (CHR ''.'') (?h @ ''.'' @ ?p @ ''.'' @ ?s) = (?h, Some (?p @ ''.'' @ ?s))"
    "split_once (CHR ''.'') (?p @ ''.'' @ ?s) = (?p, Some ?s)"
    using split_once_dot b(2) by simp_all
  ultimately show ?thesis using assms(2,3) by (simp add: jwt_verify_def b(1) Let_def signature_valid_def)
qed

text \<open>The claims of a token the vault issues.\<close>

definition issued_claims :: "string \<Rightarrow> operation \<Rightarrow> u32 \<Rightarrow> string \<Rightarrow> u64 \<Rightarrow> u64 \<Rightarrow> approval_claims" where
  "issued_claims h op m sub iat ttl =
     \<lparr>ac_iss = ISSUER, ac_handle = h, ac_op = op, ac_manager = m, ac_approver_sub = sub, ac_iat = iat, ac_exp = saturating_add iat ttl\<rparr>"

text \<open>A token carries these claims, under the public key of the key the vault stores.\<close>

definition carries_claims :: "vault_lib \<Rightarrow> approval_token \<Rightarrow> approval_claims \<Rightarrow> (bytes \<rightharpoonup> bytes) \<Rightarrow> bool" where
  "carries_claims L token claims V \<longleftrightarrow> (\<exists>k pk. V SIGNING_KEY_KV = Some k \<and> vl_ec_public L k = Some pk \<and>
     verify_and_decode L (vl_claims_of L) (Es256 pk) (str_bytes (at_jwt token)) = Inr claims)"

text \<open>The entry stored under a sequence number.\<close>

definition log_entry :: "vault_lib \<Rightarrow> (bytes \<rightharpoonup> bytes) \<Rightarrow> string \<Rightarrow> u64 \<Rightarrow> audit_entry option" where
  "log_entry L V h s = Option.bind (V (audit_key h s)) (vl_audit_of L)"

fun log_slice :: "vault_lib \<Rightarrow> (bytes \<rightharpoonup> bytes) \<Rightarrow> string \<Rightarrow> u64 \<Rightarrow> audit_entry list \<Rightarrow> bool" where
  "log_slice L V h s [] \<longleftrightarrow> True"
| "log_slice L V h s (e # es) \<longleftrightarrow> ae_seq e = s \<and> log_entry L V h s = Some e \<and> log_slice L V h (s + 1) es"

lemma log_slice_nth:
  "log_slice L V h s es \<Longrightarrow> i < length es \<Longrightarrow> ae_seq (es ! i) = s + word_of_nat i \<and> log_entry L V h (s + word_of_nat i) = Some (es ! i)"
proof (induction es arbitrary: s i)
  case (Cons e es)
  then show ?case using Cons.IH [of "s + 1" "i - 1"] by (cases i) (simp_all add: add.assoc)
qed simp

text \<open>A page of at most \<open>cap\<close> entries from \<open>s\<close> on, of a log that holds the entries below \<open>n\<close>; \<open>t\<close> is where the next page starts.\<close>

definition log_page :: "vault_lib \<Rightarrow> (bytes \<rightharpoonup> bytes) \<Rightarrow> string \<Rightarrow> u64 \<Rightarrow> nat \<Rightarrow> u64 \<Rightarrow> audit_entry list \<Rightarrow> u64 \<Rightarrow> bool" where
  "log_page L V h n cap s es t \<longleftrightarrow>
     length es = min (unat n - unat s) cap \<and> t = s + word_of_nat (length es) \<and> log_slice L V h s es"

lemma word_succ_below:
  fixes s :: u64
  assumes "s < n"
  shows "unat (s + 1) = Suc (unat s)"
  using assms unsigned_less [of n, where ?'a = nat] by (simp add: word_less_nat_alt unat_add_small)

lemma log_page_Cons:
  assumes "log_page L V h n (cap - 1) (s + 1) es t" "s < n" "0 < cap" "log_entry L V h s = Some e" "ae_seq e = s"
  shows "log_page L V h n cap s (e # es) t"
  using assms word_succ_below [OF assms(2)] by (auto simp: log_page_def word_less_nat_alt add.assoc)

lemma log_page_Nil: "unat n - unat s = 0 \<or> cap = 0 \<Longrightarrow> log_page L V h n cap s [] s"
  by (auto simp: log_page_def)

context vault
begin

lemma wp_keypair:
  assumes "holds V w" and stop: "\<And>V' w' e. holds V' w' \<Longrightarrow> Q (Inl e) w'"
    and ready: "\<And>V' w' k pk. holds V' w' \<Longrightarrow> V' SIGNING_KEY_KV = Some k \<Longrightarrow> vl_ec_public (ve_lib E) k = Some pk \<Longrightarrow> Q (Inr (k, pk)) w'"
  shows "wp (load_or_init_keypair E) Q w"
proof -
  have parse: "Q (case vl_ec_public (ve_lib E) k of None \<Rightarrow> Inl e | Some pk \<Rightarrow> Inr (k, pk)) w'"
    if "holds V' w'" "V' SIGNING_KEY_KV = Some k" for V' w' k e
    using that stop ready by (auto split: option.split)
  have fresh: "wp (kv_put E SIGNING_KEY_KV k) (\<lambda>saved. wp (case saved of
        Inl _ \<Rightarrow> State_Monad.return (Inl ''kv put signing key'')
      | Inr _ \<Rightarrow> State_Monad.return (case vl_ec_public (ve_lib E) k of
          None \<Rightarrow> Inl ''parse vault signing key failed'' | Some pk \<Rightarrow> Inr (k, pk))) Q) w'"
    if "holds V w'" for w' k
    by (rule wp_kv_put [OF that])
      (auto simp: wp_simps intro: stop parse [of "V(SIGNING_KEY_KV \<mapsto> k)"] split: sum.split)
  show ?thesis
    unfolding load_or_init_keypair_def Let_def wp_simps
  proof (rule wp_kv_get [OF assms(1)], goal_cases)
    case (1 r w')
    note start = 1(1)
    consider e where "r = Inl e" | k where "r = Inr (Some k)" | "r = Inr None" by (metis option.exhaust sum.exhaust)
    then show ?case
    proof cases
      case 3
      show ?thesis unfolding 3 sum.case option.case wp_simps
      proof (rule wp_host [OF 1(1)], goal_cases)
        case (1 doc w1)
        then show ?case by (cases doc) (simp_all only: option.case wp_simps fresh stop [OF 1(1)])
      qed
    next
      case 2
      show ?thesis unfolding 2 sum.case option.case wp_simps by (rule parse [of V]) (use 1 2 in auto)
    next
      case 1
      show ?thesis unfolding 1 sum.case wp_simps by (rule stop [OF start])
    qed
  qed
qed

lemma keypair_found:
  assumes "holds V w" "V SIGNING_KEY_KV = Some k" "vl_ec_public (ve_lib E) k = Some pk"
    and "\<not> isl (fst (run_state (kv_get E SIGNING_KEY_KV) w))"
  shows "wp (load_or_init_keypair E) (\<lambda>r w'. r = Inr (k, pk)) w"
proof -
  have "wp (kv_get E SIGNING_KEY_KV) (\<lambda>r w'. isl r \<or> r = Inr (Some k)) w"
  proof (rule wp_kv_get [OF assms(1)], goal_cases)
    case (1 r w')
    then show ?case using assms(2) by (cases r) simp_all
  qed
  then have "wp (kv_get E SIGNING_KEY_KV) (\<lambda>r w'. r = Inr (Some k)) w"
    using assms(4) by (auto simp: wp_def split: prod.splits)
  then show ?thesis unfolding load_or_init_keypair_def Let_def wp_simps
    by (rule wp_mono) (simp add: wp_simps assms(3))
qed

lemma wp_encode_own:
  assumes "holds V w" "b64_ok (ve_lib E)" "signing_ok E" "vl_ec_public (ve_lib E) k = Some pk"
    and fail: "\<And>e w'. holds V w' \<Longrightarrow> Q (Inl e) w'"
    and ok: "\<And>s w'. holds V w' \<Longrightarrow> is_ascii s \<Longrightarrow>
      verify_and_decode (ve_lib E) (vl_claims_of (ve_lib E)) (Es256 pk) (str_bytes s) = Inr claims \<Longrightarrow> Q (Inr (str_bytes s)) w'"
  shows "wp (encode_jwt E (vl_claims_to (ve_lib E) claims) k None) Q w"
proof (cases "vl_claims_to (ve_lib E) claims")
  case (Some payload)
  let ?e = "vl_b64_encode (ve_lib E)"
  let ?m = "?e (str_bytes (jwt_header None)) @ ''.'' @ ?e payload"
  have own: "verify_and_decode (ve_lib E) (vl_claims_of (ve_lib E)) (Es256 pk) (str_bytes (?m @ ''.'' @ ?e sig)) = Inr claims"
    if sig: "answers (host (ho_ec_sign (ve_host E) k (str_bytes ?m))) (Some sig)" for sig
  proof -
    obtain x x' where "ho_ec_sign (ve_host E) k (str_bytes ?m) x = (Some sig, x')"
      using answers_host [OF sig] by blast
    then have "vl_ec_verify (ve_lib E) pk (str_bytes ?m) sig" using assms(3,4) unfolding signing_ok_def by blast
    then have "jwt_verify (ve_lib E) (Es256 pk) (str_bytes (?m @ ''.'' @ ?e sig)) = Inr (payload, str_bytes (jwt_header None))"
      using jwt_verify_own [OF assms(2), of "jwt_header None" pk payload sig] assms(3) by (simp add: signing_ok_def)
    moreover have "vl_claims_of (ve_lib E) payload = Some claims" using assms(3) Some unfolding signing_ok_def by blast
    ultimately show ?thesis by (simp add: verify_and_decode_def)
  qed
  have ascii: "is_ascii (?m @ ''.'' @ ?e sig)" for sig using assms(2) by (simp add: b64_ok_def is_ascii_def)
  show ?thesis unfolding encode_jwt_def Let_def Some option.case wp_simps
  proof (rule wp_host [OF assms(1)], goal_cases)
    case (1 r w')
    then show ?case
      using ok [OF 1(1) ascii own] fail by (cases r) (simp_all only: option.case wp_simps append_assoc [symmetric])
  qed
qed (simp add: encode_jwt_def wp_simps fail assms(1))

lemma wp_issue:
  assumes "holds V w" "b64_ok (ve_lib E)" "signing_ok E"
  shows "wp (issue_approval_token E h op m sub iat ttl)
    (\<lambda>r w'. \<forall>token. r = Inr token \<longrightarrow> (\<exists>V'. holds V' w' \<and> carries_claims (ve_lib E) token (issued_claims h op m sub iat ttl) V')) w"
  unfolding issue_approval_token_def Let_def wp_simps
proof (rule wp_keypair [OF assms(1)], goal_cases)
  case (2 V' w' k pk)
  have ascii: "utf8_valid (str_bytes s)" "bytes_str (str_bytes s) = s" if "is_ascii s" for s
    using that utf8_ascii by simp_all
  show ?case unfolding sum.case prod.case wp_simps issued_claims_def [symmetric]
    by (rule wp_encode_own [OF 2(1) assms(2,3) 2(3)]) (use 2 in \<open>auto simp: ascii carries_claims_def\<close>)
qed (simp add: wp_simps)

lemma wp_verify_own:
  assumes "holds V w" "carries_claims (ve_lib E) token claims V" "signing_ok E"
    and "\<not> isl (fst (run_state (kv_get E SIGNING_KEY_KV) w))"
  shows "wp (verify_approval_token E token h op m d f now) (\<lambda>r w'. r = check_approval_claims claims h op m d f now) w"
proof -
  obtain k pk where k: "V SIGNING_KEY_KV = Some k" "vl_ec_public (ve_lib E) k = Some pk"
    "verify_and_decode (ve_lib E) (vl_claims_of (ve_lib E)) (Es256 pk) (str_bytes (at_jwt token)) = Inr claims"
    using assms(2) unfolding carries_claims_def by blast
  have "from_public_key_bytes pk = Inr (Es256 pk)"
    using assms(3) k(2) unfolding signing_ok_def from_public_key_bytes_def by auto
  moreover have "vw_store w \<noteq> None" using assms(4) by (cases "vw_store w") (simp_all add: kv_get_def on_store_def)
  ultimately show ?thesis unfolding verify_approval_token_def load_or_init_public_key_def wp_simps
    using keypair_found [OF assms(1) k(1,2) assms(4)] k(3) by (auto simp: wp_simps elim!: wp_mono)
qed

text \<open>What the vault has wrapped under a key, it unwraps under the same key.\<close>

lemma wrapped_nonce:
  assumes "\<And>n x b x'. ho_random (ve_host E) n x = (Some b, x') \<Longrightarrow> length b = n"
    and "answers (handle_wrap E h p aad iv approvals ctx) (Wrapped c n)"
  shows "length n = NONCE_LEN"
proof -
  have "length n = NONCE_LEN" if "answers (aes_gcm_seal E k t a i) (Inr (c, n))" for k t a i
    using that assms(1) by (auto simp: aes_gcm_seal_def seal_with_nonce_def split: option.splits if_splits dest!: answers_bind answers_host)
  then show ?thesis using assms(2)
    by (auto simp: handle_wrap_def vault_err_def split: sum.splits option.splits dest!: answers_bind)
qed

lemma wrapped_record:
  assumes "state_is R w" "run_state (handle_wrap E h p aad iv approvals ctx) w = (Wrapped c n, w1)"
  shows "\<exists>R' r pt ad. state_is R' w1 \<and> R' h = Some r \<and> vl_b64_decode (ve_lib E) p = Some pt \<and> decode_opt (ve_lib E) aad = Some ad \<and>
    seal_with_nonce (ve_lib E) (kr_material r) pt (optional ad) n = Inr (c, n)"
proof -
  obtain R' where R': "state_is R' w1" "vault_step E ctx (ReqWrap h p aad iv approvals) R (Wrapped c n) R'"
    using wp_run [OF assms(2) wrap_step [OF assms(1)]] by (auto simp: outcome_def)
  then have "key_step E ctx (ReqWrap h p aad iv approvals) (R h) (R' h)"
    and d: "disclosed E ctx (ReqWrap h p aad iv approvals) (R h) (Wrapped c n)" by (simp_all add: vault_step_def)
  then have "R' h = R h \<or> (\<exists>r. R h = Some r \<and> R' h = Some (logged r))" by (auto elim: key_step.cases)
  then show ?thesis using R'(1) d by (fastforce simp: disclosed_def used_key_def)
qed

lemma wp_require_op_material:
  assumes "state_is R w" "R h = Some r"
  shows "wp (require_op E h op kt approvals ctx) (\<lambda>x w'. \<forall>r'. x = Inr r' \<longrightarrow> kr_material r' = kr_material r) w"
  by (rule require_op_wp [OF assms(1)]) (use assms(2) in auto)

text \<open>One answer of the log is the entries from the requested one on, up to the limit.\<close>

lemma wp_audit_walk:
  assumes "holds V w" "log_upto (ve_lib E) V h n" "unat n - unat s \<le> fuel" "length out \<le> unat limit"
  shows "wp (audit_walk fuel E h n limit out s) (\<lambda>r w'. holds V w' \<and> (\<forall>es t. r = Inr (es, t) \<longrightarrow>
    (\<exists>new. es = out @ new \<and> log_page (ve_lib E) V h n (unat limit - length out) s new t))) w"
  using assms
proof (induction fuel arbitrary: w out s)
  case 0
  then show ?case by (simp add: wp_simps log_page_Nil)
next
  case (Suc fuel)
  let ?Q = "\<lambda>out s r w'. holds V w' \<and> (\<forall>es t. r = Inr (es, t) \<longrightarrow>
    (\<exists>new. es = out @ new \<and> log_page (ve_lib E) V h n (unat limit - length out) s new t))"
  have "unat (word_of_nat (length out) :: u64) = length out"
    using Suc.prems(4) unsigned_less [of limit, where ?'a = nat] by (simp add: unat_of_nat)
  then have len: "((word_of_nat (length out) :: u64) < limit) = (length out < unat limit)" by (simp add: word_less_nat_alt)
  show ?case
  proof (cases "s < n \<and> length out < unat limit")
    case True
    then obtain e where e: "log_entry (ve_lib E) V h s = Some e" "ae_seq e = s"
      using Suc.prems(2) unfolding log_upto_def log_entry_def by blast
    then obtain bs where bs: "V (audit_key h s) = Some bs" "vl_audit_of (ve_lib E) bs = Some e"
      by (auto simp: log_entry_def bind_eq_Some_conv)
    have more: "?Q out s r w'" if "?Q (out @ [e]) (s + 1) r w'" for r w'
      using that True e by (auto intro!: log_page_Cons)
    have rest: "wp (audit_walk fuel E h n limit (out @ [e]) (s + 1)) (?Q out s) w'" if "holds V w'" for w'
      by (rule wp_mono [OF Suc.IH [OF that Suc.prems(2), of "s + 1" "out @ [e]"] more])
        (use Suc.prems True word_succ_below [of s n] in auto)
    have "wp (kv_get E (audit_key h s)) (\<lambda>got. wp (case got of Inl _ \<Rightarrow> State_Monad.return (Inl ''audit get'')
        | Inr None \<Rightarrow> audit_walk fuel E h n limit out (s + 1)
        | Inr (Some bs) \<Rightarrow> (case vl_audit_of (ve_lib E) bs of None \<Rightarrow> audit_walk fuel E h n limit out (s + 1)
           | Some entry \<Rightarrow> audit_walk fuel E h n limit (out @ [entry]) (s + 1))) (?Q out s)) w"
    proof (rule wp_kv_get [OF Suc.prems(1)], goal_cases)
      case (1 r w')
      then show ?case using rest bs by (cases r) (simp_all add: wp_simps)
    qed
    then show ?thesis using True len by (simp add: wp_simps)
  next
    case False
    then show ?thesis using len Suc.prems(1) by (auto simp: wp_simps word_less_nat_alt not_less intro!: log_page_Nil)
  qed
qed

lemma unat_widen: "unat (ucast (n :: u32) :: u64) = unat n"
  using unsigned_less [of n, where ?'a = nat] by (simp add: unsigned_ucast_eq take_bit_nat_eq_self)

lemma wp_read_audit:
  assumes "state_is R w"
  shows "wp (handle_read_audit E h since limit ctx) (\<lambda>resp w'. \<forall>es t. resp = AuditLog es t \<longrightarrow>
    (\<exists>r. R h = Some r \<and> log_page (ve_lib E) (vault_view view w') h (kr_audit_next_seq r)
      (unat (if limit = 0 then 256 else min limit 1024)) since es t)) w"
  unfolding handle_read_audit_def wp_simps
proof (rule load_for_principal_wp [OF assms], goal_cases)
  case (2 r w1)
  obtain V where V: "holds V w1" "log_upto (ve_lib E) V h (kr_audit_next_seq r)"
    using state_holds [OF 2(1)] 2(2) unfolding vault_ok_def by blast
  have "wp (audit_read E h (kr_audit_next_seq r) since (if limit = 0 then 256 else min limit 1024)) (\<lambda>log w'.
      \<forall>es t. log = Inr (es, t) \<longrightarrow> log_page (ve_lib E) (vault_view view w') h (kr_audit_next_seq r)
        (unat (if limit = 0 then 256 else min limit 1024)) since es t) w1"
    unfolding audit_read_def
    by (rule wp_mono [OF wp_audit_walk [OF V order.refl]]) (auto simp: store_holds_def unat_widen)
  then show ?case using 2(2) by (auto simp: wp_simps vault_err_def split: sum.split elim!: wp_mono)
qed (simp add: vault_err_def wp_simps)

lemma unwrap_wrapped:
  assumes "state_is R w" "b64_ok (ve_lib E)" "crypto_ok (vl_crypto (ve_lib E))"
    and "\<And>n x b x'. ho_random (ve_host E) n x = (Some b, x') \<Longrightarrow> length b = n"
    and wrap: "run_state (handle_wrap E h (vl_b64_encode (ve_lib E) p) aad iv approvals ctx) w = (Wrapped c n, w1)"
    and unwrap: "run_state (handle_unwrap E h (vl_b64_encode (ve_lib E) c) (vl_b64_encode (ve_lib E) n) aad approvals' ctx') w1 = (resp, w2)"
  shows "resp = Unwrapped p \<or>
    (\<exists>e. fst (run_state (require_op E h OpUnwrap Aes256GcmKey approvals' ctx') w1) = Inl e \<and> resp = VaultError e)"
proof -
  obtain R' r ad where r: "state_is R' w1" "R' h = Some r" "decode_opt (ve_lib E) aad = Some ad"
    "seal_with_nonce (ve_lib E) (kr_material r) p (optional ad) n = Inr (c, n)"
    using wrapped_record [OF assms(1) wrap] assms(2) by (auto simp: b64_ok_def)
  have "length n = NONCE_LEN" by (rule wrapped_nonce [OF assms(4)]) (use wrap in \<open>auto simp: answers_def\<close>)
  then have opened: "aes_gcm_open (ve_lib E) (kr_material r) c n (optional ad) = Inr p"
    using r(4) assms(3) by (auto simp: seal_with_nonce_def aes_gcm_open_def crypto_ok_def split: if_splits option.splits)
  obtain x w' where x: "run_state (require_op E h OpUnwrap Aes256GcmKey approvals' ctx') w1 = (x, w')" by fastforce
  have "kr_material r' = kr_material r" if "x = Inr r'" for r'
    using wp_run [OF x wp_require_op_material [OF r(1,2)]] that by blast
  then show ?thesis
    using unwrap x r(3) opened assms(2)
    by (cases x) (auto simp: handle_unwrap_def vault_err_def b64_ok_def optional_def State_Monad.bind_def State_Monad.return_def)
qed

end

end
