(* ===== verification/Vault_Demo.thy ===== *)
theory Vault_Demo
  imports Vault_Roundtrip
begin

text \<open>
  Concrete vaults: the vault over the sealed store on the in-memory backend, and a vault over a plain
  map with one key, its owner \<open>alice\<close> and libraries that know the values of the examples, on which
  requests are evaluated.
\<close>

section \<open>The sealed store as the store of the vault\<close>

text \<open>
  The sealed store as the store of a vault. With an HMAC that never collides it is a map on all keys;
  the vault above is verified for such a store.
\<close>

definition sealed_ops :: "crypto \<Rightarrow> 'h host_kv \<Rightarrow> 'h sealed_kv store_ops" where
  "sealed_ops cr hk = \<lparr>st_get = sealed_get cr hk, st_put = sealed_put cr hk, st_delete = sealed_delete cr hk\<rparr>"

definition ideal_crypto :: crypto where
  "ideal_crypto = toy_crypto\<lparr>hmac_sha256 := (\<lambda>k x. x)\<rparr>"

lemma ideal_aead:
  "aead_encrypt ideal_crypto k v a d = aead_encrypt toy_crypto k v a d"
  "aead_decrypt ideal_crypto k ct a = aead_decrypt toy_crypto k ct a"
  by (simp_all add: ideal_crypto_def toy_crypto_def aead_encrypt_def aead_decrypt_def)

text \<open>A store that is a map, for the examples.\<close>

definition map_ops :: "(bytes \<rightharpoonup> bytes) store_ops" where
  "map_ops = \<lparr>st_get = (\<lambda>k m. (Inr (m k), m)), st_put = (\<lambda>k v m. (Inr (), m(k \<mapsto> v))),
     st_delete = (\<lambda>k m. (Inr (m k \<noteq> None), m(k := None)))\<rparr>"

definition demo_policy :: key_policy where
  "demo_policy =
     \<lparr>kp_version = 1,
      kp_principals = \<lparr>ps_owner = Oidc ''idp'' ''alice'' [], ps_managers = [Oidc ''idp'' ''bob'' []], ps_auditors = [], ps_tees = []\<rparr>,
      kp_operations = [\<lparr>ru_ops = [OpExportKey, OpWrap, OpUnwrap, OpUpdatePolicy], ru_principals = [RefOwner], ru_requires = []\<rparr>],
      kp_mutability = mutability_default, kp_lifecycle = lifecycle_default\<rparr>"

definition demo_record :: key_record where
  "demo_record =
     \<lparr>kr_handle = ''k'', kr_key_type = Aes256GcmKey, kr_exportable = True, kr_material = replicate 32 5, kr_public_key = None,
      kr_policy = demo_policy, kr_policy_version = 1, kr_created_at = 0, kr_expires_at = DEFAULT_KEY_TTL_SECONDS,
      kr_pending_profiles = [], kr_audit_next_seq = 0, kr_next_pending_id = 0\<rparr>"

definition demo_policy2 :: key_policy where
  "demo_policy2 = demo_policy\<lparr>kp_principals := (kp_principals demo_policy)\<lparr>ps_auditors := [Oidc ''idp'' ''carol'' []]\<rparr>\<rparr>"

definition demo_records :: "key_record list" where
  "demo_records = [demo_record, logged demo_record, logged (logged demo_record), logged (with_policy demo_policy2 demo_record)]"

definition demo_entry :: "u64 \<Rightarrow> string \<Rightarrow> audit_entry" where
  "demo_entry seq op = \<lparr>ae_seq = seq, ae_ts = 7, ae_op = op, ae_caller = ''oidc:alice'', ae_decision = Allowed, ae_reason = []\<rparr>"

definition demo_entries :: "audit_entry list" where
  "demo_entries = [demo_entry 0 ''ExportKey'', demo_entry 0 ''Wrap'', demo_entry 1 ''Unwrap'', demo_entry 0 ''UpdatePolicy'']"

definition demo_claims :: approval_claims where
  "demo_claims = \<lparr>ac_iss = ISSUER, ac_handle = ''k'', ac_op = OpExportKey, ac_manager = 0, ac_approver_sub = ''bob'', ac_iat = 7, ac_exp = 307\<rparr>"

text \<open>Codecs that know the values of the examples only, each by its position.\<close>

definition table_to :: "'a list \<Rightarrow> 'a \<Rightarrow> bytes option" where
  "table_to xs x = map_option (\<lambda>i. [word_of_nat i]) (find_index (\<lambda>y. y = x) 0 xs)"

definition table_of :: "'a list \<Rightarrow> bytes \<Rightarrow> 'a option" where
  "table_of xs bs = (case bs of [b] \<Rightarrow> if unat b < length xs then Some (xs ! unat b) else None | _ \<Rightarrow> None)"

lemma table_roundtrip: "length xs < 256 \<Longrightarrow> table_to xs x = Some b \<Longrightarrow> table_of xs b = Some x"
  by (auto simp: table_to_def table_of_def unat_of_nat dest!: find_index_Some)

definition demo_lib :: vault_lib where
  "demo_lib =
     \<lparr>vl_crypto = toy_crypto, vl_b64_encode = hex_encode, vl_b64_decode = hex_decode, vl_b64_standard = hex_encode,
      vl_x509 = (\<lambda>_. None), vl_ec_public = (\<lambda>_. Some (4 # replicate 64 0)), vl_ec_verify = (\<lambda>_ m s. s = m),
      vl_rsa_verify = (\<lambda>_ _ _. False), vl_p256_parse = (\<lambda>_. True), vl_p256_prehash = (\<lambda>_ d. Some d), vl_unicode_lower = (\<lambda>s. s),
      vl_request_of = (\<lambda>_. None), vl_response_to = (\<lambda>_. None),
      vl_record_to = table_to demo_records, vl_record_of = table_of demo_records,
      vl_index_to = (\<lambda>_. None), vl_index_of = (\<lambda>_. None),
      vl_audit_to = table_to demo_entries, vl_audit_of = table_of demo_entries,
      vl_claims_to = table_to [demo_claims], vl_claims_of = table_of [demo_claims],
      vl_grant_of = (\<lambda>_. None), vl_header_alg = (\<lambda>_. Some ''ES256''), vl_verdict_of = (\<lambda>_. None)\<rparr>"

text \<open>The clock stands at seven; the rest of the world counts the random numbers drawn.\<close>

definition demo_host :: "nat host_ops" where
  "demo_host =
     \<lparr>ho_time = (\<lambda>x. (Some 7, x)), ho_random = (\<lambda>n x. (Some (replicate n (word_of_nat x)), Suc x)),
      ho_generate_pkcs8 = (\<lambda>x. (Some [1], x)), ho_ec_sign = (\<lambda>_ m x. (Some m, x)),
      ho_https_post = (\<lambda>_ _ _ x. (Inl ''unreachable'', x)), ho_verify_jwt_with_jwks = (\<lambda>_ _ _ x. (Inl ''no keys'', x)),
      ho_root_store = (\<lambda>_. True), ho_token_for = (\<lambda>_ _. None), ho_oidc_config = (\<lambda>_. None)\<rparr>"

definition demo_env :: "'s store_ops \<Rightarrow> ('s, nat) vault_env" where
  "demo_env S = \<lparr>ve_store = S, ve_host = demo_host, ve_lib = demo_lib\<rparr>"

lemma demo_env_sel [simp]: "ve_store (demo_env S) = S" "ve_host (demo_env S) = demo_host" "ve_lib (demo_env S) = demo_lib"
  by (simp_all add: demo_env_def)

lemma demo_json: "json_ok demo_lib"
  unfolding json_ok_def demo_lib_def
  by (auto intro!: table_roundtrip simp: demo_records_def demo_entries_def)

interpretation sealed_vault: vault "demo_env (sealed_ops ideal_crypto mem_host)"
  "sealed_inv mem_inv (replicate 32 7)" "sealed_view ideal_crypto (\<lambda>b t. mem_abs b)"
proof -
  have "sealed_host mem_host mem_inv (\<lambda>b t. mem_abs b) ideal_crypto (replicate 32 7) UNIV"
  proof (intro sealed_host.intro sealed_host_axioms.intro mem_kv.host_map_axioms)
    fix v d ct d'
    assume "aead_encrypt ideal_crypto (replicate 32 7) v AAD_VALUE d = (Inr ct, d')"
    then show "aead_decrypt ideal_crypto (replicate 32 7) ct AAD_VALUE = Inr v"
      using aead_decrypt_encrypt [OF toy_crypto_ok, of "replicate 32 7" v AAD_VALUE d ct d']
      by (simp add: ideal_aead)
  qed (simp add: ideal_crypto_def inj_on_def)
  from sealed_host.is_kv_map [OF this]
  show "vault (demo_env (sealed_ops ideal_crypto mem_host)) (sealed_inv mem_inv (replicate 32 7)) (sealed_view ideal_crypto (\<lambda>b t. mem_abs b))"
    by (simp add: vault_def vault_store_def vault_axioms_def sealed_ops_def demo_json)
qed

interpretation map_vault: vault "demo_env map_ops" "\<lambda>_. True" "\<lambda>m. m"
proof
  show "json_ok (ve_lib (demo_env map_ops))" by (simp add: demo_json)
qed (auto simp: map_ops_def)

text \<open>The owner of the key, and a vault that holds it.\<close>

definition alice :: request_context where
  "alice = \<lparr>rc_oidc_claims = Some \<lparr>oc_sub = ''alice'', oc_roles = [], oc_is_manager = False, oc_is_monitoring = False, oc_amr = [],
       oc_acr = None, oc_iat = 0, oc_exp = 0, oc_vault_op = None, oc_nonce = None\<rparr>,
     rc_peer_cert_der = None, rc_peer_evidence = None\<rparr>"

definition demo_world :: "(bytes \<rightharpoonup> bytes, nat) vault_world" where
  "demo_world = \<lparr>vw_store = Some [record_key ''k'' \<mapsto> [0]], vw_ext = 0\<rparr>"

abbreviation demo_vault :: "(bytes \<rightharpoonup> bytes, nat) vault_env" where
  "demo_vault \<equiv> demo_env map_ops"

lemma demo_vault_ok: "vault demo_vault (\<lambda>_. True) (\<lambda>m. m)"
  by (rule map_vault.vault_axioms)

lemma demo_record_ok: "record_ok demo_lib ''k'' demo_record"
  by (simp add: record_ok_def demo_record_def demo_policy_def lifecycle_default_def vault_limits validate_material_def
      pending_ids_ok_def tee_profiles_def)

lemma demo_record_seq: "kr_audit_next_seq demo_record = 0"
  by (simp add: demo_record_def)

lemma demo_state: "vault_state demo_lib (\<lambda>_. True) (\<lambda>m. m) [''k'' \<mapsto> demo_record] demo_world"
proof -
  have "records demo_lib [record_key ''k'' \<mapsto> [0]] = [''k'' \<mapsto> demo_record]"
    by (auto simp: records_def fun_eq_iff record_key_inj demo_lib_def table_of_def demo_records_def)
  then show ?thesis
    using demo_record_ok demo_record_seq
    by (auto simp: vault_state_def vault_inv_def vault_view_def demo_world_def vault_ok_def log_upto_def split: if_splits)
qed

lemma demo_vault_state: "vault_state (ve_lib demo_vault) (\<lambda>_. True) (\<lambda>m. m) [''k'' \<mapsto> demo_record] demo_world"
  using demo_state by simp

section \<open>Evaluation\<close>

text \<open>How the parts of a request run in the demo vault, whatever its store holds.\<close>

lemma map_ops_sel: "st_get map_ops k m = (Inr (m k), m)" "st_put map_ops k v m = (Inr (), m(k \<mapsto> v))"
  by (simp_all add: map_ops_def)

lemmas run_simps =
  State_Monad.bind_def State_Monad.return_def kv_ready_def kv_get_def kv_put_def on_store_def host_def map_ops_sel

lemma demo_clock: "run_state (now_secs demo_vault) w = (7, w)"
  by (simp add: now_secs_def run_simps demo_host_def)

lemma demo_expired: "run_state (expired demo_vault r) w = (kr_expires_at r < 7, w)"
  by (simp add: expired_def run_simps demo_clock)

lemma demo_caller: "run_state (resolve_caller demo_vault demo_policy alice) w = (Some (RefOwner, RoleOwner), w)"
  by (simp add: resolve_caller_def resolve_oidc_def run_simps alice_def demo_policy_def oidc_matches_def has_required_roles_def Let_def)

lemma demo_evaluate:
  "op \<in> {OpExportKey, OpWrap, OpUnwrap, OpUpdatePolicy} \<Longrightarrow>
   run_state (evaluate_op demo_vault demo_policy op h approvals alice b) w = (Inr (), w)"
  by (auto simp: evaluate_op_def demo_caller run_simps demo_clock evaluate_conditions_def demo_policy_def [THEN arg_cong [where f = kp_operations]] rule_grants_to_def)

lemma demo_load:
  "vw_store w = Some m \<Longrightarrow> m (record_key h) = Some [i] \<Longrightarrow> unat i < length demo_records \<Longrightarrow>
   run_state (load_record demo_vault h) w = (Inr (demo_records ! unat i), w)"
  by (simp add: load_record_def run_simps demo_lib_def table_of_def)

lemma demo_save:
  assumes "vw_store w = Some m" "table_to demo_entries \<lparr>ae_seq = kr_audit_next_seq r, ae_ts = 7, ae_op = op, ae_caller = caller, ae_decision = d, ae_reason = reason\<rparr> = Some e"
    and "table_to demo_records (logged r) = Some b"
  shows "run_state (audit_and_save demo_vault r op caller d reason) w =
    ((Inr (), logged r), w\<lparr>vw_store := Some (m(audit_key (kr_handle r) (kr_audit_next_seq r) \<mapsto> e, record_key (kr_handle r) \<mapsto> b))\<rparr>)"
  using assms by (simp add: audit_and_save_def audit_append_def run_simps demo_clock demo_lib_def logged_def Let_def)

lemma demo_record_sel [simp]:
  "kr_handle demo_record = ''k''" "kr_policy demo_record = demo_policy" "kr_audit_next_seq demo_record = 0"
  "kr_policy_version demo_record = 1" "kr_expires_at demo_record = DEFAULT_KEY_TTL_SECONDS" "kr_exportable demo_record"
  "kr_material demo_record = replicate 32 5" "kr_key_type demo_record = Aes256GcmKey"
  by (simp_all add: demo_record_def)

lemma logged_seq: "kr_audit_next_seq (logged r) = saturating_add (kr_audit_next_seq r) 1"
  by (simp add: logged_def)

lemma demo_sums: "saturating_add 0 1 = (1 :: u64)" "saturating_add 1 1 = (2 :: u64)" "saturating_add 1 1 = (2 :: u32)"
  by (simp_all add: saturating_add_def checked_add_def)

lemma demo_differ:
  "demo_record \<noteq> logged demo_record" "demo_record \<noteq> logged (logged demo_record)" "logged demo_record \<noteq> logged (logged demo_record)"
  by (auto dest!: arg_cong [where f = kr_audit_next_seq] simp: logged_seq demo_sums)

lemma demo_updated_differs: "r \<in> {demo_record, logged demo_record, logged (logged demo_record)} \<Longrightarrow> r \<noteq> logged (with_policy demo_policy2 demo_record)"
  by (auto dest!: arg_cong [where f = kr_policy_version] simp: with_policy_def demo_sums)

lemma demo_tables:
  "table_to demo_records (logged demo_record) = Some [1]"
  "table_to demo_records (logged (logged demo_record)) = Some [2]"
  "table_to demo_records (logged (with_policy demo_policy2 demo_record)) = Some [3]"
  "table_to demo_entries \<lparr>ae_seq = 0, ae_ts = 7, ae_op = ''ExportKey'', ae_caller = ''oidc:alice'', ae_decision = Allowed, ae_reason = []\<rparr> = Some [0]"
  "table_to demo_entries \<lparr>ae_seq = 0, ae_ts = 7, ae_op = ''Wrap'', ae_caller = ''oidc:alice'', ae_decision = Allowed, ae_reason = []\<rparr> = Some [1]"
  "table_to demo_entries \<lparr>ae_seq = 1, ae_ts = 7, ae_op = ''Unwrap'', ae_caller = ''oidc:alice'', ae_decision = Allowed, ae_reason = []\<rparr> = Some [2]"
  "table_to demo_entries \<lparr>ae_seq = 0, ae_ts = 7, ae_op = ''UpdatePolicy'', ae_caller = ''oidc:alice'', ae_decision = Allowed, ae_reason = []\<rparr> = Some [3]"
  by (simp_all add: table_to_def demo_records_def demo_entries_def demo_entry_def demo_differ demo_updated_differs)

lemma demo_start: "run_state (load_record demo_vault ''k'') demo_world = (Inr demo_record, demo_world)"
  using demo_load [of demo_world "[record_key ''k'' \<mapsto> [0]]" "''k''" 0] by (simp add: demo_world_def demo_records_def)

lemma demo_caller_str: "caller_str alice = ''oidc:alice''"
  by (simp add: caller_str_def alice_def)

lemma demo_not_expired: "\<not> DEFAULT_KEY_TTL_SECONDS < 7"
  by (simp add: vault_limits)

lemmas request_simps = run_simps demo_expired demo_evaluate demo_caller demo_start demo_caller_str demo_not_expired demo_tables

definition demo_after :: "byte \<Rightarrow> byte \<Rightarrow> (bytes \<rightharpoonup> bytes, nat) vault_world" where
  "demo_after r e = demo_world\<lparr>vw_store := Some [record_key ''k'' \<mapsto> [r], audit_key ''k'' 0 \<mapsto> [e]]\<rparr>"

lemma demo_after_sel:
  "vw_ext (demo_after r e) = 0" "vw_store (demo_after r e) = Some [record_key ''k'' \<mapsto> [r], audit_key ''k'' 0 \<mapsto> [e]]"
  by (simp_all add: demo_after_def demo_world_def)

lemma demo_store: "vw_store demo_world = Some [record_key ''k'' \<mapsto> [0]]"
  by (simp add: demo_world_def)

lemma demo_save_first:
  assumes "kr_handle r = ''k''" "kr_audit_next_seq r = 0"
    and "table_to demo_entries \<lparr>ae_seq = 0, ae_ts = 7, ae_op = op, ae_caller = caller, ae_decision = d, ae_reason = reason\<rparr> = Some [e]"
    and "table_to demo_records (logged r) = Some [b]"
  shows "run_state (audit_and_save demo_vault r op caller d reason) demo_world = ((Inr (), logged r), demo_after b e)"
  using demo_save [OF demo_store, of r op caller d reason "[e]" "[b]"] assms
  by (simp add: demo_after_def fun_upd_twist [of "record_key ''k''"])

lemma demo_export:
  "run_state (vault_dispatch demo_vault alice (ReqExportKey ''k'' [])) demo_world =
   (KeyMaterial (replicate 32 5) DEFAULT_KEY_TTL_SECONDS, demo_after 1 0)"
  by (simp add: handle_export_def request_simps demo_save_first)

lemma demo_update_allowed: "evaluate_policy_update demo_policy demo_policy2 RoleOwner = Inr ()"
  by (simp add: evaluate_policy_update_def diff_policy_fields_def demo_policy2_def demo_policy_def mutability_default_def key_required_oids_def)

lemma demo_normalised: "normalise_policy demo_lib demo_policy2 = demo_policy2"
  by (simp add: normalise_policy_def demo_policy2_def demo_policy_def lifecycle_default_def normalise_principal_def normalise_ttl_def vault_limits)

lemma demo_update:
  "run_state (vault_dispatch demo_vault alice (ReqUpdatePolicy ''k'' demo_policy2 [])) demo_world = (PolicyUpdated 2, demo_after 3 3)"
proof -
  let ?r = "demo_record\<lparr>kr_policy := demo_policy2, kr_policy_version := 2\<rparr>"
  have r: "with_policy demo_policy2 demo_record = ?r" by (simp add: with_policy_def demo_sums)
  have "run_state (audit_and_save demo_vault ?r ''UpdatePolicy'' ''oidc:alice'' Allowed []) demo_world = ((Inr (), logged ?r), demo_after 3 3)"
    by (rule demo_save_first) (use demo_tables(3,7) in \<open>simp_all add: r\<close>)
  then show ?thesis
    by (simp add: handle_update_policy_def request_simps demo_normalised demo_update_allowed demo_sums)
qed

lemma demo_b64: "vl_b64_encode demo_lib = hex_encode" "vl_b64_decode demo_lib (hex_encode b) = Some b"
  by (simp_all add: demo_lib_def hex_decode_encode)

lemma demo_seal: "seal_with_nonce demo_lib (replicate 32 5) p a n = Inr (p @ replicate 16 0, n)"
  by (simp add: seal_with_nonce_def demo_lib_def toy_crypto_def)

lemma demo_random: "ho_random demo_host n x = (Some (replicate n (word_of_nat x)), Suc x)"
  by (simp add: demo_host_def)

lemma demo_wrap:
  "run_state (handle_wrap demo_vault ''k'' (hex_encode [1, 2]) None None [] alice) demo_world =
   (Wrapped ([1, 2] @ replicate 16 0) (replicate 12 0), (demo_after 1 1)\<lparr>vw_ext := Suc 0\<rparr>)"
  by (simp add: handle_wrap_def require_op_def request_simps demo_save_first demo_b64 decode_opt_def aes_gcm_seal_def
      demo_seal demo_random NONCE_LEN_def demo_after_sel)

lemma demo_sign: "ho_ec_sign demo_host k m x = (Some m, x)"
  by (simp add: demo_host_def)

lemma demo_crypto_ok: "crypto_ok (vl_crypto demo_lib)"
  using toy_crypto_ok by (simp add: demo_lib_def)

lemma hex_char:
  assumes "c \<in> set (hex_encode bs)"
  shows "\<exists>n < 16. c = hex_digit n"
proof -
  obtain b :: byte where "c = HEX ! (unat (drop_bit 4 b)) \<or> c = HEX ! (unat (b AND 0x0f))" using assms by (auto simp: hex_encode_def)
  moreover have "unat b div 16 < 16" using unsigned_less [of b, where ?'a = nat] by simp
  moreover have "unat b mod 16 < 16" by simp
  ultimately show ?thesis using hex_table by (auto simp only: high_nibble low_nibble)
qed

lemma hex_digit_plain:
  assumes "n < 16"
  shows "hex_digit n \<noteq> CHR ''.'' \<and> is_ascii [hex_digit n]"
proof -
  have code: "(of_char (hex_digit n) :: nat) = (if n < 10 then 48 + n else 87 + n)" using assms by (simp add: hex_digit_def)
  then have "(of_char (hex_digit n) :: nat) \<noteq> of_char (CHR ''.'')" by simp
  then show ?thesis using code assms by (auto simp: is_ascii_def)
qed

lemma demo_b64_ok: "b64_ok demo_lib"
proof -
  have "c \<noteq> CHR ''.'' \<and> is_ascii [c]" if "c \<in> set (hex_encode bs)" for c bs using hex_char [OF that] hex_digit_plain by auto
  then show ?thesis by (auto simp: b64_ok_def demo_b64 is_ascii_def list_all_iff)
qed

lemma demo_signing_ok: "signing_ok demo_vault"
  by (auto simp: signing_ok_def demo_lib_def demo_host_def ALG_ES256_def intro: table_roundtrip)

lemma demo_key:
  "run_state (load_or_init_keypair demo_vault) demo_world =
   (Inr ([1], 4 # replicate 64 0), demo_world\<lparr>vw_store := Some [record_key ''k'' \<mapsto> [0], SIGNING_KEY_KV \<mapsto> [1]]\<rparr>)"
  by (simp add: load_or_init_keypair_def run_simps demo_store demo_host_def demo_lib_def)

lemma demo_token:
  "\<exists>token. run_state (issue_approval_token demo_vault ''k'' OpExportKey 0 ''bob'' 7 300) demo_world =
    (Inr token, demo_world\<lparr>vw_store := Some [record_key ''k'' \<mapsto> [0], SIGNING_KEY_KV \<mapsto> [1]]\<rparr>)"
proof -
  have sum: "saturating_add 7 300 = (307 :: u64)" by (simp add: saturating_add_def checked_add_def)
  have claims: "vl_claims_to demo_lib demo_claims = Some [0]" by (simp add: demo_lib_def table_to_def)
  have "utf8_valid (str_bytes (hex_encode a @ ''.'' @ hex_encode b @ ''.'' @ hex_encode c))" for a b c
    using demo_b64_ok by (intro utf8_ascii) (simp add: b64_ok_def demo_b64 is_ascii_def)
  then show ?thesis
    by (simp add: issue_approval_token_def encode_jwt_def run_simps demo_key sum demo_claims_def [symmetric] claims demo_b64 Let_def demo_sign)
qed

lemma demo_read:
  "run_state (handle_read_audit demo_vault ''k'' 0 0 alice) (demo_after 1 0) = (AuditLog [demo_entry 0 ''ExportKey''] 1, demo_after 1 0)"
proof -
  have "run_state (load_record demo_vault ''k'') (demo_after 1 0) = (Inr (logged demo_record), demo_after 1 0)"
    using demo_load [OF demo_after_sel(2) [of 1 0], of "''k''" 1] by (simp add: demo_records_def)
  moreover have "vl_audit_of demo_lib [0] = Some (demo_entry 0 ''ExportKey'')"
    by (simp add: demo_lib_def table_of_def demo_entries_def)
  ultimately show ?thesis
    by (simp add: handle_read_audit_def load_for_principal_def run_simps demo_caller audit_read_def logged_seq demo_sums demo_after_sel)
qed

lemma demo_after_record:
  "records demo_lib (vault_view (\<lambda>m. m) (demo_after 1 e)) ''k'' = Some (logged demo_record)"
  "records demo_lib (vault_view (\<lambda>m. m) (demo_after 3 e)) ''k'' = Some (logged (with_policy demo_policy2 demo_record))"
  by (simp_all add: records_def vault_view_def demo_after_sel demo_lib_def table_of_def demo_records_def)

lemma demo_unwrap_allowed:
  "\<not> isl (fst (run_state (require_op demo_vault ''k'' OpUnwrap Aes256GcmKey [] alice) ((demo_after 1 1)\<lparr>vw_ext := Suc 0\<rparr>)))"
proof -
  let ?w = "(demo_after 1 1)\<lparr>vw_ext := Suc 0\<rparr>"
  have store: "vw_store ?w = Some [record_key ''k'' \<mapsto> [1], audit_key ''k'' 0 \<mapsto> [1]]" by (simp add: demo_after_sel)
  have "run_state (load_record demo_vault ''k'') ?w = (Inr (logged demo_record), ?w)"
    using demo_load [OF store, of "''k''" 1] by (simp add: demo_records_def)
  moreover have "table_to demo_entries \<lparr>ae_seq = kr_audit_next_seq (logged demo_record), ae_ts = 7, ae_op = ''Unwrap'',
      ae_caller = ''oidc:alice'', ae_decision = Allowed, ae_reason = []\<rparr> = Some [2]"
    by (simp add: logged_seq demo_sums demo_tables)
  moreover note demo_save [OF store this demo_tables(2)]
  ultimately show ?thesis
    by (simp add: require_op_def run_simps demo_expired demo_not_expired demo_evaluate demo_caller_str)
qed

end
