(* ===== verification/Vault_Spec.thy ===== *)
theory Vault_Spec
  imports Vault_Demo
begin

text \<open>
  The properties of the vault: every request is a step of the abstract key store, records stay well
  formed, policies change only on authority and never lose a required certificate extension, an
  accepted operation is authorised, approval tokens and wrapped data come back, and the audit log is
  read without gaps. Witnesses are evaluated on the vault of \<open>Vault_Demo\<close>.
\<close>

section \<open>Sequences of requests\<close>

fun vault_run :: "('s, 'x) vault_env \<Rightarrow> (request_context \<times> vault_request) list \<Rightarrow> ('s, 'x, vault_response list) act" where
  "vault_run E [] = State_Monad.return []"
| "vault_run E ((ctx, req) # rest) = do {
     resp \<leftarrow> vault_dispatch E ctx req;
     resps \<leftarrow> vault_run E rest;
     State_Monad.return (resp # resps)
   }"

lemma step_run:
  assumes "vault E ok view" "vault_state (ve_lib E) ok view R w" "run_state (vault_dispatch E ctx req) w = (resp, w')"
  shows "\<exists>R'. vault_state (ve_lib E) ok view R' w' \<and> vault_step E ctx req R resp R'"
  using wp_run [OF assms(3) vault.dispatch_step [OF assms(1,2)]] by (simp add: outcome_def)

lemma run_state_kept:
  "vault E ok view \<Longrightarrow> vault_state (ve_lib E) ok view R w \<Longrightarrow>
   wp (vault_run E reqs) (\<lambda>_ w'. \<exists>R'. vault_state (ve_lib E) ok view R' w') w"
proof (induction E reqs arbitrary: R w rule: vault_run.induct)
  case (2 E ctx req rest)
  show ?case unfolding vault_run.simps wp_simps
    by (rule wp_mono [OF vault.dispatch_step [OF "2.prems"]]) (use 2 in \<open>auto simp: outcome_def\<close>)
qed (auto simp: wp_simps)

lemma vault_step_at:
  "vault_step E ctx req R resp R' \<Longrightarrow> R h = Some r \<Longrightarrow> R' h = Some r' \<Longrightarrow>
   r' = r \<or> req_handle req = Some h \<and> key_step E ctx req (Some r) (Some r')"
  unfolding vault_step_def by (metis option.inject)

lemma vault_state_records: "vault_state L ok view R w \<Longrightarrow> records L (vault_view view w) = R"
  by (simp add: vault_state_def)

section \<open>Policies\<close>

definition allowed_fields :: "mutability \<Rightarrow> caller_role \<Rightarrow> policy_field list" where
  "allowed_fields m role = (case role of RoleOwner \<Rightarrow> mu_owner_can m | RoleManager \<Rightarrow> mu_manager_can m | _ \<Rightarrow> [])"

fun ref_role :: "principal_ref \<Rightarrow> caller_role" where
  "ref_role RefOwner = RoleOwner"
| "ref_role (RefManager _) = RoleManager"
| "ref_role (RefAuditor _) = RoleAuditor"
| "ref_role (RefTee _) = RoleTee"
| "ref_role RefAnyTee = RoleTee"

definition add_tee :: "attestation_profile \<Rightarrow> key_policy \<Rightarrow> key_policy" where
  "add_tee profile policy =
     policy\<lparr>kp_principals := (kp_principals policy)\<lparr>ps_tees := ps_tees (kp_principals policy) @ [TeePrincipal profile]\<rparr>\<rparr>"

lemma resolve_role: "answers (resolve_caller E policy ctx) (Some (ref, role)) \<Longrightarrow> role = ref_role ref"
proof -
  have tee: "answers (resolve_tee E der pev i ps) (Some (ref, role)) \<Longrightarrow> role = ref_role ref" for der pev i ps
  proof (induction ps arbitrary: i)
    case (Cons p ps)
    then show ?case by (cases p) (auto simp: answers_case split: if_splits dest!: answers_bind)
  qed simp
  assume "answers (resolve_caller E policy ctx) (Some (ref, role))"
  then show ?thesis
    by (auto simp: resolve_caller_def answers_case resolve_oidc_def Let_def Option.bind_eq_Some_conv
      split: option.splits if_splits bind_splits dest!: tee)
qed

lemma check_fields_iff:
  "check_fields m allowed fs = Inr () \<longleftrightarrow> (\<forall>f \<in> set fs. f \<notin> set (mu_immutable m) \<and> f \<in> set allowed)"
  by (induction fs) auto

lemma policy_update_fields:
  "evaluate_policy_update old new role = Inr () \<Longrightarrow>
   \<forall>f \<in> set (diff_policy_fields old new). f \<notin> set (mu_immutable (kp_mutability old)) \<and> f \<in> set (allowed_fields (kp_mutability old) role)"
  by (cases role) (auto simp: evaluate_policy_update_def Let_def allowed_fields_def check_fields_iff split: if_splits sum.splits)

lemma key_required_oids_iff:
  "x \<in> set (key_required_oids policy) \<longleftrightarrow>
   tee_profiles (ps_tees (kp_principals policy)) \<noteq> [] \<and>
   (\<forall>p \<in> set (tee_profiles (ps_tees (kp_principals policy))). x \<in> or_oid ` set (ap_required_oids p))"
proof -
  have oids: "List.map_filter (\<lambda>p. case p of TeePrincipal profile \<Rightarrow> Some (ap_required_oids profile) | _ \<Rightarrow> None) ps =
      map ap_required_oids (tee_profiles ps)" for ps
    by (induction ps) (auto simp: tee_profiles_def List.map_filter_def split: principal.splits)
  have keep: "x \<in> set (fold (\<lambda>reqs acc. filter (\<lambda>oid. list_ex (\<lambda>r. or_oid r = oid) reqs) acc) qs acc) \<longleftrightarrow>
      x \<in> set acc \<and> (\<forall>q \<in> set qs. x \<in> or_oid ` set q)" for qs acc
    by (induction qs arbitrary: acc) (auto simp: list_ex_iff)
  show ?thesis unfolding key_required_oids_def oids
    by (cases "tee_profiles (ps_tees (kp_principals policy))") (auto simp: keep)
qed

lemma add_tee_oids: "covers_oids policy profile \<Longrightarrow> set (key_required_oids policy) \<subseteq> set (key_required_oids (add_tee profile policy))"
  by (auto simp: covers_oids_def key_required_oids_iff add_tee_def subset_iff)

lemma policy_update_oids:
  "evaluate_policy_update old new role = Inr () \<Longrightarrow> set (key_required_oids old) \<subseteq> set (key_required_oids new)"
proof (cases "diff_policy_fields old new = []")
  case True
  then have "ps_tees (kp_principals old) = ps_tees (kp_principals new)" by (auto simp: diff_policy_fields_def Let_def split: if_splits)
  then show ?thesis by (auto simp: key_required_oids_iff)
next
  case False
  assume "evaluate_policy_update old new role = Inr ()"
  with False show ?thesis
    by (auto simp: evaluate_policy_update_def Let_def list_all_iff list_ex_iff split: sum.splits caller_role.splits if_splits)
qed

lemma push_tee_policy [simp]: "kr_policy (push_tee p r) = add_tee p (kr_policy r)"
  by (simp add: push_tee_def add_tee_def Let_def)

lemma pending_policy [simp]:
  "kr_policy (with_pending p r) = kr_policy r" "kr_policy (without_pending i r) = kr_policy r" "kr_policy (revoke_id j r) = kr_policy r"
  "kr_policy (with_policy q r) = q"
  by (simp_all add: with_pending_def without_pending_def revoke_id_def with_policy_def)

text \<open>How a key's policy can have changed.\<close>

definition policy_change :: "('s, 'x) vault_env \<Rightarrow> request_context \<Rightarrow> vault_request \<Rightarrow> string \<Rightarrow> key_record \<Rightarrow> key_policy \<Rightarrow> bool" where
  "policy_change E ctx req h r new \<longleftrightarrow>
     (\<exists>proposed approvals ref. req = ReqUpdatePolicy h proposed approvals \<and> new = normalise_policy (ve_lib E) proposed \<and>
        authorised E ctx (kr_policy r) OpUpdatePolicy h approvals None \<and> caller_is E ctx (kr_policy r) ref \<and>
        (\<forall>f \<in> set (diff_policy_fields (kr_policy r) new).
           f \<notin> set (mu_immutable (kp_mutability (kr_policy r))) \<and> f \<in> set (allowed_fields (kp_mutability (kr_policy r)) (ref_role ref)))) \<or>
     (\<exists>p approvals. req = ReqPromotePendingProfile h (pp_id p) approvals \<and> p \<in> set (kr_pending_profiles r) \<and>
        new = add_tee (pp_profile p) (kr_policy r) \<and>
        authorised E ctx (kr_policy r) OpPromoteProfile h approvals
          (Some \<lparr>ob_measurement_digest_hex = profile_binding_digest (ve_lib E) (pp_profile p), ob_policy_version = kr_policy_version r\<rparr>)) \<or>
     (\<exists>staged source. req = ReqStagePendingProfile h staged source \<and> new = add_tee (normalise_profile (ve_lib E) staged) (kr_policy r) \<and>
        lc_auto_migrate (kp_lifecycle (kr_policy r)) \<and> (\<exists>c. rc_oidc_claims ctx = Some c \<and> oc_is_manager c) \<and>
        FieldPendingProfiles \<notin> set (mu_immutable (kp_mutability (kr_policy r))) \<and>
        (\<exists>t. TeePrincipal t \<in> set (ps_tees (kp_principals (kr_policy r))) \<and>
           runtime_only_delta (normalise_profile (ve_lib E) staged) t))"

lemma platform_authority:
  "answers (check_stage_authority E r ctx) (Inr StagerPlatform) \<Longrightarrow>
   (\<exists>c. rc_oidc_claims ctx = Some c \<and> oc_is_manager c) \<and> FieldPendingProfiles \<notin> set (mu_immutable (kp_mutability (kr_policy r)))"
  by (auto simp: check_stage_authority_def answers_case Let_def split: if_splits option.splits dest!: answers_bind)
    (auto simp: map_sum_def split: sum.splits)

lemma key_step_policy:
  assumes "key_step E ctx req (Some r) (Some r')" "req_handle req = Some h" "kr_policy r' \<noteq> kr_policy r"
  shows "policy_change E ctx req h r (kr_policy r')"
  using assms(1)
proof cases
  case (step_updated h' approvals ref role new_policy)
  then show ?thesis
    using assms(2) may_authorised [OF step_updated(4)] resolve_caller_sound [OF step_updated(5)] resolve_role [OF step_updated(5)]
      policy_update_fields [OF step_updated(6)]
    unfolding policy_change_def by (intro disjI1) auto
next
  case (step_migrated profile h' source)
  then show ?thesis
    using assms(2) platform_authority [OF step_migrated(3)]
    unfolding policy_change_def auto_migrates_def list_ex_iff
    by (intro disjI2) (auto split: principal.splits, metis principal.exhaust)
next
  case (step_promoted i p pending_id h' approvals)
  then show ?thesis
    using assms(2) may_authorised [OF step_promoted(6)]
    unfolding policy_change_def by (intro disjI2 disjI1) auto
qed (use assms(3) in auto)

lemma key_step_oids:
  assumes "key_step E ctx req (Some r) (Some r')"
  shows "set (key_required_oids (kr_policy r)) \<subseteq> set (key_required_oids (kr_policy r'))"
  using assms
proof cases
  case (step_updated h' approvals ref role new_policy)
  then show ?thesis using policy_update_oids by simp
next
  case (step_migrated profile h' source)
  then have "covers_oids (kr_policy r) (normalise_profile (ve_lib E) profile)"
    by (auto simp: auto_migrates_def covers_oids_iff)
  then show ?thesis using step_migrated add_tee_oids by simp
next
  case (step_promoted i p pending_id h' approvals)
  then show ?thesis using add_tee_oids by simp
qed auto


section \<open>Tokens the vault issued\<close>

lemma check_issued:
  "check_approval_claims (issued_claims h op m sub iat ttl) h' op' m' d fresh now = Inr () \<longleftrightarrow>
    h' = h \<and> op' = op \<and> m' = m \<and> (d = None \<or> sub \<noteq> [] \<and> d \<noteq> Some sub) \<and>
    now \<le> saturating_add iat ttl \<and> (fresh = 0 \<or> saturating_sub now iat \<le> fresh)"
  by (auto simp: check_approval_claims_def issued_claims_def not_less word_neq_0_conv)

lemma issued_token_verdict:
  assumes "vault E ok view" "vault_state (ve_lib E) ok view R w" "b64_ok (ve_lib E)" "signing_ok E"
    and "run_state (issue_approval_token E h op m sub iat ttl) w = (Inr token, w1)"
    and "\<not> isl (fst (run_state (kv_get E SIGNING_KEY_KV) w1))"
  shows "fst (run_state (verify_approval_token E token h' op' m' d fresh now) w1) =
    check_approval_claims (issued_claims h op m sub iat ttl) h' op' m' d fresh now"
proof -
  obtain V where V: "store_holds ok view V w" using vault.state_holds [OF assms(1,2)] by blast
  obtain V' where V': "store_holds ok view V' w1" "carries_claims (ve_lib E) token (issued_claims h op m sub iat ttl) V'"
    using wp_run [OF assms(5) vault.wp_issue [OF assms(1) V assms(3,4)]] by blast
  show ?thesis using vault.wp_verify_own [OF assms(1) V' assms(4,6), of h' op' m' d fresh now] by (auto simp: wp_def split: prod.splits)
qed

section \<open>Properties\<close>



text \<open>
  C9 (records are well formed): after any sequence of requests, every stored record carries its own
  handle, material valid for its type, a lifetime within the maximum, at most sixteen pending profiles
  with distinct numbers and normalised measurements, and a log entry under every number it has used.
\<close>

theorem vault_records_well_formed:
  assumes "vault E ok view" "vault_state (ve_lib E) ok view R w" "run_state (vault_run E reqs) w = (resps, w')"
    and "records (ve_lib E) (vault_view view w') h = Some r"
  shows "record_ok (ve_lib E) h r \<and> log_upto (ve_lib E) (vault_view view w') h (kr_audit_next_seq r)"
  using wp_run [OF assms(3) run_state_kept [OF assms(1,2)]] assms(4) by (auto simp: vault_state_def vault_ok_def)

theorem vault_records_well_formed_witness:
  "record_ok demo_lib ''k'' (logged demo_record) \<and> log_upto demo_lib (vault_view (\<lambda>m. m) (demo_after 1 0)) ''k'' 1"
proof -
  have "run_state (vault_run demo_vault [(alice, ReqExportKey ''k'' [])]) demo_world =
      ([KeyMaterial (replicate 32 5) DEFAULT_KEY_TTL_SECONDS], demo_after 1 0)"
    by (simp only: vault_run.simps run_simps) (simp add: demo_export del: vault_dispatch.simps)
  from vault_records_well_formed [OF demo_vault_ok _ this, of _ "''k''" "logged demo_record"]
  show ?thesis using demo_state demo_after_record(1) by (simp add: logged_seq demo_sums)
qed

text \<open>
  C8 (policies change only on authority): if a request changes the policy of a key, it is an update by
  a caller whom the policy allows to update, in fields that are mutable for the caller's role; or the
  promotion of a profile that was pending, which the policy allows; or a platform bearer staged a
  profile that differs from an accepted one in the runtime measurement only, on a key that opted in.
\<close>

theorem policy_changes_authorised:
  assumes "vault E ok view" "vault_state (ve_lib E) ok view R w" "run_state (vault_dispatch E ctx req) w = (resp, w')"
    and "R h = Some r" "records (ve_lib E) (vault_view view w') h = Some r'" "kr_policy r' \<noteq> kr_policy r"
  shows "policy_change E ctx req h r (kr_policy r')"
proof -
  obtain R' where R': "vault_state (ve_lib E) ok view R' w'" "vault_step E ctx req R resp R'" using step_run [OF assms(1-3)] by blast
  have "R' h = Some r'" using vault_state_records [OF R'(1)] assms(5) by simp
  with vault_step_at [OF R'(2) assms(4)] assms(6) show ?thesis using key_step_policy by blast
qed

theorem policy_changes_authorised_witness:
  "policy_change demo_vault alice (ReqUpdatePolicy ''k'' demo_policy2 []) ''k'' demo_record demo_policy2"
proof -
  have "demo_policy2 \<noteq> demo_policy" by (simp add: demo_policy2_def demo_policy_def)
  then show ?thesis
    using policy_changes_authorised [OF demo_vault_ok _ demo_update, of _ "''k''" demo_record "logged (with_policy demo_policy2 demo_record)"]
      demo_state demo_after_record(2) by (simp add: with_policy_def)
qed

text \<open>
  C10 (required extensions only grow): whatever a request does to a key, a certificate extension that
  every accepted profile of the key required before is required by every accepted profile after.
\<close>

theorem required_oids_kept:
  assumes "vault E ok view" "vault_state (ve_lib E) ok view R w" "run_state (vault_dispatch E ctx req) w = (resp, w')"
    and "R h = Some r" "records (ve_lib E) (vault_view view w') h = Some r'"
  shows "set (key_required_oids (kr_policy r)) \<subseteq> set (key_required_oids (kr_policy r'))"
proof -
  obtain R' where R': "vault_state (ve_lib E) ok view R' w'" "vault_step E ctx req R resp R'" using step_run [OF assms(1-3)] by blast
  have "R' h = Some r'" using vault_state_records [OF R'(1)] assms(5) by simp
  with vault_step_at [OF R'(2) assms(4)] show ?thesis using key_step_oids by blast
qed

theorem required_oids_kept_witness:
  "set (key_required_oids demo_policy) \<subseteq> set (key_required_oids demo_policy2)"
  using required_oids_kept [OF demo_vault_ok _ demo_update, of _ "''k''" demo_record "logged (with_policy demo_policy2 demo_record)"]
    demo_state demo_after_record(2) by (simp add: with_policy_def)

text \<open>
  C7 (an accepted operation is authorised): when the evaluation of a policy accepts an operation, the
  caller is one of the policy's principals, some rule names both the operation and this principal, and
  all conditions of that rule hold at one reading of the clock.
\<close>

theorem accepted_operation_authorised:
  assumes "run_state (evaluate_op E policy op handle approvals ctx binding) w = (Inr (), w')"
  shows "authorised E ctx policy op handle approvals binding"
  by (rule evaluate_op_authorised [of _ _ _ _ _ _ _ "()"]) (use assms in \<open>auto simp: answers_def\<close>)

theorem accepted_operation_authorised_witness: "authorised demo_vault alice demo_policy OpExportKey ''k'' [] None"
  by (rule accepted_operation_authorised [of _ _ _ _ _ _ _ demo_world demo_world]) (simp add: demo_evaluate)

lemma wp_any: "(\<And>r w'. Q r w') \<Longrightarrow> wp m Q w"
  by (auto simp: wp_def)

lemma try_rules_accepts:
  "rule \<in> set rules \<Longrightarrow> op \<in> set (ru_ops rule) \<Longrightarrow> rule_grants_to rule ref \<Longrightarrow> ru_requires rule = [] \<Longrightarrow>
   wp (try_rules E policy op h approvals ctx b ref e rules) (\<lambda>r _. r = Inr ()) w"
proof (induction rules arbitrary: e w)
  case (Cons rule' rules)
  show ?case
  proof (cases "op \<notin> set (ru_ops rule') \<or> \<not> rule_grants_to rule' ref")
    case True
    then have "rule \<in> set rules" using Cons.prems by auto
    then show ?thesis using True Cons.IH Cons.prems by simp
  next
    case False
    show ?thesis
    proof (cases "rule' = rule")
      case True
      then show ?thesis using False Cons.prems(4)
        by (simp add: evaluate_conditions_def wp_simps) (rule wp_any, simp add: wp_simps)
    next
      case other: False
      then have "rule \<in> set rules" using Cons.prems(1) by simp
      then show ?thesis using False Cons.IH [OF _ Cons.prems(2-4)]
        by (simp add: wp_simps) (rule wp_any, simp add: wp_simps split: sum.split)
    qed
  qed
qed simp



lemma list_no_material: "run_state (handle_list E ctx) w \<noteq> (KeyMaterial m t, w')"
proof -
  have keys: "wp (do { keys \<leftarrow> list_entries E hs; State_Monad.return (KeyList keys) }) (\<lambda>r _. r \<noteq> KeyMaterial m t) w" for hs w
    unfolding wp_simps by (rule wp_any) simp
  have "wp (handle_list E ctx) (\<lambda>r _. r \<noteq> KeyMaterial m t) w"
  proof (cases "rc_oidc_claims ctx")
    case (Some claims)
    have "wp (kv_get E k) (\<lambda>got. wp (case got of Inl _ \<Rightarrow> vault_err ''kv index read'' | Inr idx \<Rightarrow> do {
            keys \<leftarrow> list_entries E (f idx);
            State_Monad.return (KeyList keys)
          }) (\<lambda>r _. r \<noteq> KeyMaterial m t)) w" for k f
      by (rule wp_any) (auto simp: vault_err_def wp_return keys split: sum.split)
    then show ?thesis unfolding handle_list_def Some option.case vault_err_def by (simp add: wp_simps)
  qed (simp add: handle_list_def vault_err_def wp_simps)
  then show ?thesis by (auto simp: wp_def)
qed

text \<open>
  C6 (material leaves the vault on authority only): a response that carries key material answers an
  export request, the key is exportable and has not expired, and its policy authorises the caller.
\<close>

theorem exported_material_authorised:
  assumes "vault E ok view" "vault_state (ve_lib E) ok view R w" "run_state (vault_dispatch E ctx req) w = (KeyMaterial m t, w')"
  shows "\<exists>h approvals r. req = ReqExportKey h approvals \<and> R h = Some r \<and> kr_exportable r \<and> m = kr_material r \<and> live E r \<and>
    authorised E ctx (kr_policy r) OpExportKey h approvals
      (Some \<lparr>ob_measurement_digest_hex = [], ob_policy_version = kr_policy_version r\<rparr>)"
proof -
  obtain R' where R': "vault_state (ve_lib E) ok view R' w'" "vault_step E ctx req R (KeyMaterial m t) R'"
    using step_run [OF assms] by blast
  show ?thesis
  proof (cases "req_handle req")
    case None
    then have "req = ReqListKeys" by (cases req) auto
    then show ?thesis using list_no_material [of E ctx w m t w'] assms(3) by simp
  next
    case (Some h)
    then have "disclosed E ctx req (R h) (KeyMaterial m t)" using R'(2) by (simp add: vault_step_def)
    then show ?thesis using Some may_authorised by (cases req) (auto simp: disclosed_def)
  qed
qed

theorem exported_material_authorised_witness:
  "kr_exportable demo_record \<and> live demo_vault demo_record \<and>
   authorised demo_vault alice demo_policy OpExportKey ''k'' [] (Some \<lparr>ob_measurement_digest_hex = [], ob_policy_version = 1\<rparr>)"
  using exported_material_authorised [OF demo_vault_ok demo_vault_state demo_export] by auto

text \<open>
  C18 (approval tokens verify): a token that the vault issued is accepted, with the vault's key still
  readable, exactly for the handle, operation and manager it was issued for, until it expires and while
  it is fresh; where a second approver is required, exactly if its approver is named and differs.
\<close>

theorem approval_token_accepted:
  assumes "vault E ok view" "vault_state (ve_lib E) ok view R w" "b64_ok (ve_lib E)" "signing_ok E"
    and "run_state (issue_approval_token E h op m sub iat ttl) w = (Inr token, w1)"
    and "\<not> isl (fst (run_state (kv_get E SIGNING_KEY_KV) w1))"
  shows "fst (run_state (verify_approval_token E token h' op' m' distinct_from fresh now) w1) = Inr () \<longleftrightarrow>
    h' = h \<and> op' = op \<and> m' = m \<and> (distinct_from = None \<or> sub \<noteq> [] \<and> distinct_from \<noteq> Some sub) \<and>
    now \<le> saturating_add iat ttl \<and> (fresh = 0 \<or> saturating_sub now iat \<le> fresh)"
  using issued_token_verdict [OF assms(1-6)] by (auto simp: check_issued)

theorem approval_token_accepted_witness:
  "\<exists>token w1. run_state (issue_approval_token demo_vault ''k'' OpExportKey 0 ''bob'' 7 300) demo_world = (Inr token, w1) \<and>
    fst (run_state (verify_approval_token demo_vault token ''k'' OpExportKey 0 (Some ''alice'') 60 9) w1) = Inr ()"
proof -
  obtain token where t: "run_state (issue_approval_token demo_vault ''k'' OpExportKey 0 ''bob'' 7 300) demo_world =
    (Inr token, demo_world\<lparr>vw_store := Some [record_key ''k'' \<mapsto> [0], SIGNING_KEY_KV \<mapsto> [1]]\<rparr>)" using demo_token by blast
  show ?thesis
    using t approval_token_accepted [OF demo_vault_ok _ _ demo_signing_ok t, of _ "''k''" OpExportKey 0 "Some ''alice''" 60 9]
      demo_state demo_b64_ok by (simp add: run_simps saturating_add_def checked_add_def saturating_sub_def)
qed

text \<open>
  C39 (an approval outlives its manager): the token pins the position of the manager, not the person. If
  the manager at that position is replaced by someone else, a token issued to the former one still
  satisfies the approval condition of the new policy until it expires.
\<close>

theorem approval_outlives_manager:
  assumes "vault E ok view" "vault_state (ve_lib E) ok view R w" "b64_ok (ve_lib E)" "signing_ok E"
    and "run_state (issue_approval_token E h op m sub iat ttl) w = (Inr token, w1)"
    and "\<not> isl (fst (run_state (kv_get E SIGNING_KEY_KV) w1))"
    and "unat m < length (ps_managers (kp_principals policy))"
    and "ps_managers (kp_principals policy) ! unat m = Oidc issuer successor roles" "successor \<noteq> []" "successor \<noteq> sub"
    and "now \<le> saturating_add iat ttl" "fresh = 0 \<or> saturating_sub now iat \<le> fresh"
  shows "fst (run_state (check_condition E policy op h [token] ctx b now (ManagerApproval m fresh)) w1) = Inr ()"
proof -
  obtain r w2 where r: "run_state (verify_approval_token E token h op m None fresh now) w1 = (r, w2)" by fastforce
  then have "r = Inr ()" using issued_token_verdict [OF assms(1-6), of h op m None fresh now] assms(11,12) by (auto simp: check_issued)
  then show ?thesis using r assms(7-9) by (simp add: check_condition_def run_simps)
qed

theorem approval_outlives_manager_witness:
  "\<exists>token w1. run_state (issue_approval_token demo_vault ''k'' OpExportKey 0 ''bob'' 7 300) demo_world = (Inr token, w1) \<and>
    fst (run_state (check_condition demo_vault
      (demo_policy\<lparr>kp_principals := (kp_principals demo_policy)\<lparr>ps_managers := [Oidc ''idp'' ''carol'' []]\<rparr>\<rparr>)
      OpExportKey ''k'' [token] alice None 9 (ManagerApproval 0 60)) w1) = Inr ()"
proof -
  let ?p = "demo_policy\<lparr>kp_principals := (kp_principals demo_policy)\<lparr>ps_managers := [Oidc ''idp'' ''carol'' []]\<rparr>\<rparr>"
  obtain token where t: "run_state (issue_approval_token demo_vault ''k'' OpExportKey 0 ''bob'' 7 300) demo_world =
    (Inr token, demo_world\<lparr>vw_store := Some [record_key ''k'' \<mapsto> [0], SIGNING_KEY_KV \<mapsto> [1]]\<rparr>)" using demo_token by blast
  show ?thesis
    using t approval_outlives_manager [OF demo_vault_ok _ _ demo_signing_ok t, of _ ?p "''idp''" "''carol''" "[]" 9 60 alice None]
      demo_state demo_b64_ok by (simp add: run_simps saturating_add_def checked_add_def saturating_sub_def)
qed

text \<open>
  C19 (unwrap inverts wrap): what the vault wraps under a key, it unwraps under that key to the plaintext,
  with the ciphertext and nonce it answered and the same associated data. Only the policy, the key's
  lifetime or the store can refuse, and then the answer is that refusal.
\<close>

theorem unwrap_inverts_wrap:
  assumes "vault E ok view" "vault_state (ve_lib E) ok view R w" "b64_ok (ve_lib E)" "crypto_ok (vl_crypto (ve_lib E))"
    and "\<And>n x b x'. ho_random (ve_host E) n x = (Some b, x') \<Longrightarrow> length b = n"
    and "run_state (handle_wrap E h (vl_b64_encode (ve_lib E) p) aad iv approvals ctx) w = (Wrapped c n, w1)"
    and "run_state (handle_unwrap E h (vl_b64_encode (ve_lib E) c) (vl_b64_encode (ve_lib E) n) aad approvals' ctx') w1 = (resp, w2)"
  shows "resp = Unwrapped p \<or>
    (\<exists>e. fst (run_state (require_op E h OpUnwrap Aes256GcmKey approvals' ctx') w1) = Inl e \<and> resp = VaultError e)"
  by (rule vault.unwrap_wrapped [OF assms(1-4) _ assms(6,7)]) (rule assms(5))

theorem unwrap_inverts_wrap_witness:
  "\<exists>c n w1 w2. run_state (handle_wrap demo_vault ''k'' (hex_encode [1, 2]) None None [] alice) demo_world = (Wrapped c n, w1) \<and>
    run_state (handle_unwrap demo_vault ''k'' (hex_encode c) (hex_encode n) None [] alice) w1 = (Unwrapped [1, 2], w2)"
proof -
  let ?c = "[1, 2] @ replicate 16 0" and ?n = "replicate 12 0" and ?w = "(demo_after 1 1)\<lparr>vw_ext := Suc 0\<rparr>"
  obtain resp w2 where u: "run_state (handle_unwrap demo_vault ''k'' (hex_encode ?c) (hex_encode ?n) None [] alice) ?w = (resp, w2)"
    by fastforce
  have "resp = Unwrapped [1, 2] \<or> (\<exists>e. fst (run_state (require_op demo_vault ''k'' OpUnwrap Aes256GcmKey [] alice) ?w) = Inl e \<and> resp = VaultError e)"
    by (rule unwrap_inverts_wrap [OF demo_vault_ok, of _ demo_world "''k''" "[1, 2]" None None "[]" alice ?c ?n ?w "[]" alice resp w2])
      (use demo_state demo_b64_ok demo_crypto_ok demo_wrap u in \<open>auto simp: demo_b64 demo_random\<close>)
  then show ?thesis using demo_wrap u demo_unwrap_allowed by auto
qed



end
