(* ===== verification/Spec2Isabelle.thy ===== *)
theory Spec2Isabelle
  imports Spsc_Interleaving Data_Channel Rpc_Honest Merkle_Spec Vault_Spec
begin

text \<open>
  A verification development for the enclave operating system under \<open>src/\<close>: the shared-memory
  transport between enclave and host, the wire formats on it, the AEAD records, the sealed
  key-value store, the authenticated, versioned Merkle store and the key vault with its policy
  engine. The stores reach the host through the transport; the vault keeps its records, audit log and
  signing key in the sealed store.

  \<^bold>\<open>Parts and theories.\<close>

  \<^item> \<open>Enclave_Prelude\<close>: machine words, byte order, UTF-8, generic lemmas; the locale
    \<open>strict_codec\<close> for formats with exactly one encoding.
  \<^item> \<open>Spsc_Queue\<close>: the ring of \<open>common/src/queue.rs\<close>. The shared memory is one record, the
    endpoints' trusted capacity is an argument. The locale \<open>bounded_fifo\<close> is the contract, the ring
    is its interpretation.
  \<^item> \<open>Spsc_Interleaving\<close>: the same operations cut at every access to shared memory, as a step
    relation, with the invariant that makes concurrent use safe.
  \<^item> \<open>Data_Channel\<close>: \<open>common/src/channel.rs\<close>, its codecs and the TCP write window.
  \<^item> \<open>Wire_Parser\<close>, \<open>Rpc_Codec\<close>, \<open>Rpc_Honest\<close>: \<open>common/src/rpc.rs\<close> and the bounded profiles
    under \<open>common/src/rpc/\<close>. A decoder's bound checks are reads of a cursor parser; the locale
    \<open>wire_format\<close> is the contract of a parsed element and is closed under repetition.
  \<^item> \<open>Aead_Cipher\<close>: \<open>common/src/aead.rs\<close> over the primitives of the \<open>ring\<close> crate.
  \<^item> \<open>Ordered_Map\<close>: \<open>BTreeMap\<close> as the ascending list of its entries, with the locale
    \<open>ordered_map\<close>.
  \<^item> \<open>Merkle_Node\<close>, \<open>Merkle_Proof\<close>, \<open>Merkle_Cache\<close>, \<open>Kv_Backend\<close>: \<open>hash.rs\<close>, \<open>node.rs\<close>,
    \<open>proof.rs\<close>, \<open>cache.rs\<close> and \<open>backend.rs\<close> of \<open>crates/enclave-os-merkle/src\<close>.
  \<^item> \<open>Merkle_Store\<close>, \<open>Merkle_Batch\<close>: \<open>tree.rs\<close>, \<open>fork.rs\<close> and \<open>snapshot.rs\<close>.
  \<^item> \<open>Merkle_Tree\<close>, \<open>Merkle_Read\<close>, \<open>Merkle_Write\<close>, \<open>Merkle_Apply\<close>, \<open>Merkle_Commit\<close>,
    \<open>Merkle_Versions\<close>, \<open>Merkle_Refinement\<close>: the proof that the store is a versioned map. A version
    is a ghost tree whose nodes and values are records of the backend; reads follow it, a batch
    rebuilds it, and a commit stores the new one without disturbing the old ones.
  \<^item> \<open>Merkle_Lifecycle\<close>, \<open>Merkle_Prune\<close>, \<open>Merkle_Snapshot\<close>, \<open>Merkle_Answers\<close>: creation, reopening and
    previews; the deletion loops; the paged export and the stamped restore; what reads, proofs and
    forks answer. \<open>Merkle_Answers\<close> also shows what a node hash leaves open to a host that lies.
  \<^item> \<open>Merkle_Spec\<close>: the store's promises to its clients, over every backend that meets the locale
    \<open>kv_contract\<close>, with witnesses on the in-memory backend.

  \<^item> \<open>Hex_Quote\<close>: \<open>common/src/hex.rs\<close> and the quote parser of \<open>common/src/quote.rs\<close>.
  \<^item> \<open>Sealed_Kv\<close>: \<open>crates/enclave-os-kvstore/src/sealed.rs\<close>. The locale \<open>kv_map\<close> is what a client of
    the store relies on; over a host table that works (\<open>host_map\<close>) the sealed store meets it on every
    set of keys whose HMACs do not collide.
  \<^item> \<open>Vault_Types\<close>, \<open>Vault_Env\<close>, \<open>Vault_Tokens\<close>, \<open>Vault_Policy\<close>, \<open>Vault_Module\<close>: the vault under
    \<open>crates/enclave-os-vault/src\<close> with the parts of \<open>common/src/jwt.rs\<close>, \<open>common/src/oidc.rs\<close> and
    \<open>crates/enclave-os-egress/src/attestation.rs\<close> it calls. A handler is a state transformer in
    do-notation over the store and the outside world; each of its early returns is a branch.
  \<^item> \<open>Vault_Invariant\<close>, \<open>Vault_Steps\<close>, \<open>Vault_Authority\<close>, \<open>Vault_Roundtrip\<close>: the invariant of the records
    and of the log; the abstract store of key records (\<open>key_step\<close>) and one lemma per handler that it
    makes such a step; what it means that a policy authorises an operation (\<open>authorised\<close>), and that
    the evaluation accepts nothing else; tokens, wrapped data and log pages come back. These are proved
    in the locale \<open>vault\<close>, over any store that is a map and codecs that read what they write.
  \<^item> \<open>Vault_Demo\<close>, \<open>Vault_Spec\<close>: the locale holds for the vault over the sealed store on the in-memory
    backend; the promises of the vault, with witnesses evaluated on a small vault.

  \<^bold>\<open>Parameters.\<close> SHA-256, HMAC, AES-GCM and the random generator are the fields of a \<open>crypto\<close>
  record; the host's answers are the methods of a backend record. No theorem assumes the hash
  injective: collision freedom is assumed on the finite set of inputs that occur. The exception is the
  vault, whose store is taken to be a map on all keys, which a sealed store is only as far as the HMACs
  of its keys do not collide. Base64, JSON, X.509, ECDSA and RSA are the fields of \<open>vault_lib\<close>; the
  clock, the HTTPS client, the random generator and the signer are the fields of \<open>host_ops\<close> and may
  answer differently at every call. Where a theorem about the vault speaks of what the clock or an
  attestation server answered, it says that this environment can give that answer.

  \<^bold>\<open>Bounds and fuel.\<close> Loops that wait for the other side (\<open>send_bounded\<close>, \<open>recv\<close>) and the two
  pruning loops carry fuel; the theorems give fuel that is enough. Descents in the Merkle tree are
  bounded by the 64 nibbles of a path, where the code panics beyond. The loop over the audit log runs
  at most as often as there are numbers between the requested and the next free one, which is the
  number of its rounds in the code. Formatted values inside error messages are left out.

  \<^bold>\<open>Not modelled.\<close> The RA-TLS server and sessions, the HTTPS client and the WASM runtime drive
  external state machines (rustls, wasmtime) whose steps are not in the tree. Allocation pools, raw
  pointers, foreign calls, sealing instructions and start-up are effects below the level of the model;
  the host process, its sockets and its database are outside the trust boundary. JSON front ends and
  derived message types are library code. Lock poisoning, mock quotes and simulation builds are left
  out of the vault.
\<close>

end
